(* ===== verification/Prelude.thy ===== *)
theory Prelude
  imports Main "HOL-Library.Word"
begin

text \<open>
  Shared vocabulary of the Lithium kernel model.

  \<^item> The C integer types of \<open>include/kernel/types.h\<close> as words of their width. A C \<open>int\<close>
    whose overflow is undefined in C is a HOL \<open>int\<close>; the conversions between \<open>int\<close> and
    the 64-bit registers are the functions \<open>int_of_u64\<close> and \<open>u64_of_int\<close>.
  \<^item> The result of a kernel call: \<open>Ret\<close> with a value and the new state, or \<open>Stop\<close> with
    the reason why the call does not come back to its caller and the state it leaves.
  \<^item> Generic lemmas on lists, maps and words that several components use, and the named
    collections the component proofs hand to the simplifier.
\<close>

unbundle bit_operations_syntax

named_theorems op_defs \<open>unfolding rules of the modelled operations\<close>
named_theorems frame \<open>what an operation leaves unchanged\<close>

subsection \<open>Machine integers\<close>

type_synonym u8 = "8 word"
type_synonym u16 = "16 word"
type_synonym u32 = "32 word"
type_synonym u64 = "64 word"

text \<open>The cast \<open>(int)x\<close> of a 64-bit value: its low 32 bits read as two's complement.\<close>

definition int_of_u64 :: "u64 \<Rightarrow> int" where
  "int_of_u64 x = sint (ucast x :: u32)"

text \<open>The cast \<open>(uint64)n\<close> of an \<open>int\<close>: sign extension.\<close>

definition u64_of_int :: "int \<Rightarrow> u64" where
  "u64_of_int n = word_of_int n"

text \<open>The cast \<open>(int)x\<close> of a \<open>uint32\<close>.\<close>

definition int_of_u32 :: "u32 \<Rightarrow> int" where
  "int_of_u32 x = sint x"

abbreviation int_min :: int where "int_min \<equiv> - 2147483648"
abbreviation int_max :: int where "int_max \<equiv> 2147483647"

definition is_int :: "int \<Rightarrow> bool" where
  "is_int n \<longleftrightarrow> int_min \<le> n \<and> n \<le> int_max"

text \<open>Division and remainder of C on \<open>int\<close> truncate towards zero.\<close>

definition c_div :: "int \<Rightarrow> int \<Rightarrow> int" where
  "c_div a b = sgn a * sgn b * (\<bar>a\<bar> div \<bar>b\<bar>)"

definition c_mod :: "int \<Rightarrow> int \<Rightarrow> int" where
  "c_mod a b = a - b * c_div a b"

lemma c_div_nonneg [simp]: "0 \<le> a \<Longrightarrow> 0 < b \<Longrightarrow> c_div a b = a div b"
  by (cases "a = 0") (simp_all add: c_div_def)

lemma c_mod_nonneg [simp]: "0 \<le> a \<Longrightarrow> 0 < b \<Longrightarrow> c_mod a b = a mod b"
  by (simp add: c_mod_def minus_mult_div_eq_mod)

lemma int_of_u64_of_int [simp]:
  assumes "is_int n"
  shows "int_of_u64 (u64_of_int n) = n"
proof -
  have "ucast (u64_of_int n) = (word_of_int n :: u32)"
    by (simp add: u64_of_int_def unsigned_of_int word_of_int_eq_iff)
  then show ?thesis
    using assms by (simp add: int_of_u64_def is_int_def signed_of_int
        signed_take_bit_int_eq_self)
qed

lemma is_int_int_of_u64 [simp]: "is_int (int_of_u64 x)"
proof -
  have "- (2 ^ 31) \<le> sint (ucast x :: u32)" "sint (ucast x :: u32) < 2 ^ 31"
    using sint_range_size [of "ucast x :: u32"] by (simp_all add: word_size)
  then show ?thesis by (simp add: int_of_u64_def is_int_def)
qed

subsection \<open>Results of kernel calls\<close>

text \<open>
  Why a call does not return to its caller: the lock is already held
  (\<open>spinlock_acquire\<close> then loops for ever), the lock is not held (\<open>spinlock_release\<close>
  loops), a loop that nothing can end, the call entered \<open>scheduler\<close>, which never returns, the
  process halted (\<open>exit\<close>, \<open>panic\<close>, \<open>while (1)\<close>), or the code reads or writes outside
  an object, which C leaves undefined.
\<close>

datatype stop =
    DoubleAcquire
  | NotHeld
  | SpinsForever
  | Rescheduled
  | Halted
  | OutOfBounds
  | NullDeref

datatype ('a, 's) outcome = Ret 'a 's | Stop stop 's

fun bind_out :: "('a, 's) outcome \<Rightarrow> ('a \<Rightarrow> 's \<Rightarrow> ('b, 's) outcome) \<Rightarrow> ('b, 's) outcome" where
  "bind_out (Ret a s) f = f a s"
| "bind_out (Stop r s) f = Stop r s"

fun out_state :: "('a, 's) outcome \<Rightarrow> 's" where
  "out_state (Ret a s) = s"
| "out_state (Stop r s) = s"

fun returns :: "('a, 's) outcome \<Rightarrow> bool" where
  "returns (Ret a s) = True"
| "returns (Stop r s) = False"

lemma bind_out_Ret_iff:
  "bind_out m f = Ret b t \<longleftrightarrow> (\<exists>a s. m = Ret a s \<and> f a s = Ret b t)"
  by (cases m) auto

lemma bind_out_assoc:
  "bind_out (bind_out m f) g = bind_out m (\<lambda>a s. bind_out (f a s) g)"
  by (cases m) auto

lemma bind_out_cong [fundef_cong]:
  "m = m' \<Longrightarrow> (\<And>a s. m' = Ret a s \<Longrightarrow> f a s = f' a s) \<Longrightarrow> bind_out m f = bind_out m' f'"
  by (cases m') auto

subsection \<open>Searching an array from the front\<close>

text \<open>
  \<open>for (i = 0; i < n; i++) if (p(i)) return i;\<close> as the least index below a bound.
\<close>

fun scan_from :: "(nat \<Rightarrow> bool) \<Rightarrow> nat \<Rightarrow> nat \<Rightarrow> nat option" where
  "scan_from p i 0 = None"
| "scan_from p i (Suc k) = (if p i then Some i else scan_from p (Suc i) k)"

lemma scan_from_SomeD:
  "scan_from p i k = Some j \<Longrightarrow> i \<le> j \<and> j < i + k \<and> p j \<and> (\<forall>m. i \<le> m \<and> m < j \<longrightarrow> \<not> p m)"
proof (induction p i k rule: scan_from.induct)
  case (1 p i)
  then show ?case by simp
next
  case (2 p i k)
  show ?case
  proof (cases "p i")
    case True
    with "2.prems" show ?thesis by auto
  next
    case False
    with "2.prems" have "scan_from p (Suc i) k = Some j" by simp
    with "2.IH" False have *: "Suc i \<le> j" "j < Suc i + k" "p j"
      "\<forall>m. Suc i \<le> m \<and> m < j \<longrightarrow> \<not> p m" by auto
    then have "\<not> p m" if "i \<le> m" "m < j" for m
      using that False by (cases "m = i") auto
    with * show ?thesis by auto
  qed
qed

lemma scan_from_None_iff: "scan_from p i k = None \<longleftrightarrow> (\<forall>j. i \<le> j \<and> j < i + k \<longrightarrow> \<not> p j)"
proof (induction k arbitrary: i)
  case 0
  then show ?case by auto
next
  case (Suc k)
  have "i \<le> j \<and> j < i + Suc k \<longleftrightarrow> j = i \<or> Suc i \<le> j \<and> j < Suc i + k" for j
    by arith
  then have "(\<forall>j. i \<le> j \<and> j < i + Suc k \<longrightarrow> \<not> p j) \<longleftrightarrow>
      \<not> p i \<and> (\<forall>j. Suc i \<le> j \<and> j < Suc i + k \<longrightarrow> \<not> p j)"
    by auto
  then show ?case by (simp add: Suc.IH)
qed

lemma scan_from_Some_iff:
  "scan_from p i k = Some j \<longleftrightarrow> i \<le> j \<and> j < i + k \<and> p j \<and> (\<forall>m. i \<le> m \<and> m < j \<longrightarrow> \<not> p m)"
proof
  assume r: "i \<le> j \<and> j < i + k \<and> p j \<and> (\<forall>m. i \<le> m \<and> m < j \<longrightarrow> \<not> p m)"
  then have "scan_from p i k \<noteq> None" by (auto simp: scan_from_None_iff)
  then obtain j' where j': "scan_from p i k = Some j'" by blast
  with scan_from_SomeD [OF this] r have "j' = j"
    by (metis linorder_neqE_nat)
  with j' show "scan_from p i k = Some j" by simp
qed (rule scan_from_SomeD)

lemma scan_from_cong:
  "(\<And>m. i \<le> m \<Longrightarrow> m < i + k \<Longrightarrow> p m = q m) \<Longrightarrow> scan_from p i k = scan_from q i k"
  by (induction k arbitrary: i) auto

subsection \<open>Arithmetic\<close>

lemma digits_unique:
  fixes k :: nat
  assumes "k * q + r = k * q' + r'" "r < k" "r' < k"
  shows "q = q' \<and> r = r'"
proof -
  have "(k * q + r) div k = q" "(k * q + r) mod k = r" "(k * q' + r') div k = q'"
    "(k * q' + r') mod k = r'"
    using assms(2,3) by auto
  then show ?thesis using assms(1) by metis
qed

end
