(* ===== verification/Page_Allocator.thy ===== *)
theory Page_Allocator
  imports Prelude
begin

text \<open>
  The interface of a physical page allocator, as the rest of the kernel uses it:
  \<open>alloc\<close> returns the address of a page or 0, \<open>free\<close> gives a page back, \<open>avail\<close> is the
  set of page addresses that are free and \<open>pages\<close> all addresses the allocator manages.
  The laws are discharged for \<open>kernel/mem/physmem.c\<close> in theory \<open>Physmem\<close>; the facts
  proved here hold for every client that takes pages and gives back only pages it holds.
\<close>

text \<open>
  A client of the allocator: it asks for a page, or gives back the \<open>k\<close>-th page of those
  it holds. The second component of the state is the list of pages it holds.
\<close>

datatype page_op = AskPage | GivePage nat

fun client_step ::
  "('s \<Rightarrow> u64 \<times> 's) \<Rightarrow> (u64 \<Rightarrow> 's \<Rightarrow> 's) \<Rightarrow> page_op \<Rightarrow> 's \<times> u64 list \<Rightarrow> 's \<times> u64 list" where
  "client_step alloc free AskPage (s, held) =
     (case alloc s of (p, t) \<Rightarrow> (t, if p = 0 then held else p # held))"
| "client_step alloc free (GivePage k) (s, held) =
     (if k < length held then (free (held ! k) s, take k held @ drop (Suc k) held)
      else (s, held))"

definition client_run ::
  "('s \<Rightarrow> u64 \<times> 's) \<Rightarrow> (u64 \<Rightarrow> 's \<Rightarrow> 's) \<Rightarrow> page_op list \<Rightarrow> 's \<times> u64 list \<Rightarrow> 's \<times> u64 list"
  where "client_run alloc free ops sh = fold (client_step alloc free) ops sh"

locale page_allocator =
  fixes alloc :: "'s \<Rightarrow> u64 \<times> 's"
    and free :: "u64 \<Rightarrow> 's \<Rightarrow> 's"
    and avail :: "'s \<Rightarrow> u64 set"
    and pages :: "u64 set"
    and invar :: "'s \<Rightarrow> bool"
  assumes avail_pages: "invar s \<Longrightarrow> avail s \<subseteq> pages"
    and finite_pages: "finite pages"
    and zero_not_page: "0 \<notin> pages"
    and alloc_none: "invar s \<Longrightarrow> avail s = {} \<Longrightarrow> alloc s = (0, s)"
    and alloc_some: "invar s \<Longrightarrow> avail s \<noteq> {} \<Longrightarrow> alloc s = (p, t) \<Longrightarrow>
      p \<in> avail s \<and> avail t = avail s - {p} \<and> invar t"
    and free_avail: "invar s \<Longrightarrow> p \<in> pages \<Longrightarrow>
      avail (free p s) = insert p (avail s) \<and> invar (free p s)"
begin

lemma alloc_invar: "invar s \<Longrightarrow> alloc s = (p, t) \<Longrightarrow> invar t"
  using alloc_none [of s] alloc_some [of s p t] by (cases "avail s = {}") auto

lemma alloc_zero_iff: "invar s \<Longrightarrow> alloc s = (p, t) \<Longrightarrow> p = 0 \<longleftrightarrow> avail s = {}"
  using alloc_none [of s] alloc_some [of s p t] avail_pages [of s] zero_not_page
  by (cases "avail s = {}") auto

lemma alloc_nonzeroD:
  "invar s \<Longrightarrow> alloc s = (p, t) \<Longrightarrow> p \<noteq> 0 \<Longrightarrow>
    p \<in> avail s \<and> p \<in> pages \<and> avail t = avail s - {p} \<and> invar t"
  using alloc_some [of s p t] alloc_zero_iff [of s p t] avail_pages [of s] by auto

lemma alloc_zeroD: "invar s \<Longrightarrow> alloc s = (0, t) \<Longrightarrow> t = s \<and> avail s = {}"
  using alloc_zero_iff [of s 0 t] alloc_none [of s] by auto

lemma alloc_then_free:
  assumes "invar s" "alloc s = (p, t)" "p \<noteq> 0"
  shows "avail (free p t) = avail s \<and> invar (free p t)"
  using alloc_nonzeroD [OF assms] free_avail [of t p] by auto

text \<open>What is true of a client at any time: it holds distinct pages, none of them free.\<close>

definition client_ok :: "u64 set \<Rightarrow> 's \<times> u64 list \<Rightarrow> bool" where
  "client_ok P sh \<longleftrightarrow> invar (fst sh) \<and> distinct (snd sh) \<and> set (snd sh) \<subseteq> pages \<and>
     avail (fst sh) \<inter> set (snd sh) = {} \<and> avail (fst sh) \<union> set (snd sh) = P"

lemma client_step_ok:
  assumes "client_ok P sh"
  shows "client_ok P (client_step alloc free oper sh)"
proof -
  obtain s held where sh: "sh = (s, held)" by (cases sh)
  have inv: "invar s" and d: "distinct held" and sub: "set held \<subseteq> pages"
    and disj: "avail s \<inter> set held = {}" and un: "avail s \<union> set held = P"
    using assms by (auto simp: client_ok_def sh)
  show ?thesis
  proof (cases oper)
    case AskPage
    obtain p t where pt: "alloc s = (p, t)" by (cases "alloc s")
    show ?thesis
    proof (cases "p = 0")
      case True
      then show ?thesis using alloc_zeroD [OF inv] pt assms AskPage
        by (auto simp: sh client_ok_def)
    next
      case False
      then show ?thesis using alloc_nonzeroD [OF inv pt] d sub disj un pt AskPage
        by (auto simp: sh client_ok_def)
    qed
  next
    case (GivePage k)
    show ?thesis
    proof (cases "k < length held")
      case True
      have split: "set held = insert (held ! k) (set (take k held @ drop (Suc k) held))"
        by (subst id_take_nth_drop [OF True]) auto
      have new: "distinct (take k held @ drop (Suc k) held)"
        "held ! k \<notin> set (take k held @ drop (Suc k) held)"
        using d by (subst (asm) id_take_nth_drop [OF True]; auto)+
      have "held ! k \<in> pages" using True sub by auto
      from free_avail [OF inv this] new split sub disj un show ?thesis
        using True GivePage by (auto simp: sh client_ok_def)
    next
      case False
      then show ?thesis using assms GivePage by (simp add: sh)
    qed
  qed
qed

lemma client_run_ok: "client_ok P sh \<Longrightarrow> client_ok P (client_run alloc free ops sh)"
  unfolding client_run_def
  by (rule fold_invariant [where Q = "\<lambda>_. True"]) (simp_all add: client_step_ok)

lemma client_run_start:
  assumes "invar s" and "client_run alloc free ops (s, []) = (t, held)"
  shows "distinct held \<and> avail t \<inter> set held = {} \<and> avail t \<union> set held = avail s"
  using client_run_ok [of "avail s" "(s, [])" ops] assms by (simp add: client_ok_def)

end

end
