(* ===== verification/Physmem.thy ===== *)
theory Physmem
  imports Page_Allocator
begin

text \<open>
  \<open>kernel/mem/physmem.c\<close> and the constants of \<open>include/kernel/mem/layout.h\<close>: the bitmap
  allocator of 4 KB pages. The state is the bitmap (one bit per page, 1 = free) and the
  counter of free pages. The abstraction is the set of free page indices; the allocator
  interface of \<open>Page_Allocator\<close> is interpreted on these definitions at the end.
  The messages printed on the console are not part of the state.
\<close>

unbundle bit_operations_syntax

subsection \<open>Constants of layout.h\<close>

definition KERNEL_BASE_ADDR :: u64 where "KERNEL_BASE_ADDR = 0x80000000"
definition PHYS_MEM_SIZE :: u64 where "PHYS_MEM_SIZE = 128 * 1024 * 1024"
definition PAGE_SIZE :: u64 where "PAGE_SIZE = 4096"
definition NUM_PAGES :: nat where "NUM_PAGES = 32768"
definition KERNEL_VIRT_BASE :: u64 where "KERNEL_VIRT_BASE = 0xC0000000"
definition PHYS_TO_VIRT_OFFSET :: u64 where
  "PHYS_TO_VIRT_OFFSET = KERNEL_VIRT_BASE - KERNEL_BASE_ADDR"

definition phys_to_virt :: "u64 \<Rightarrow> u64" where
  "phys_to_virt phys = phys + PHYS_TO_VIRT_OFFSET"

definition virt_to_phys :: "u64 \<Rightarrow> u64" where
  "virt_to_phys virt = virt - PHYS_TO_VIRT_OFFSET"

lemmas layout_defs = KERNEL_BASE_ADDR_def PHYS_MEM_SIZE_def PAGE_SIZE_def NUM_PAGES_def
  KERNEL_VIRT_BASE_def PHYS_TO_VIRT_OFFSET_def

lemma virt_to_phys_to_virt [simp]: "virt_to_phys (phys_to_virt p) = p"
  by (simp add: virt_to_phys_def phys_to_virt_def)

lemma phys_to_virt_to_phys [simp]: "phys_to_virt (virt_to_phys v) = v"
  by (simp add: virt_to_phys_def phys_to_virt_def)

subsection \<open>The bitmap\<close>

record physmem =
  phys_bitmap :: "u8 list"
  free_pages_count :: u64

definition is_page_free :: "'a physmem_scheme \<Rightarrow> nat \<Rightarrow> bool" where
  "is_page_free s page_index =
     (let byte_index = page_index div 8; bit_index = page_index mod 8
      in (drop_bit bit_index (phys_bitmap s ! byte_index)) AND 1 \<noteq> 0)"

definition mark_page_free :: "nat \<Rightarrow> 'a physmem_scheme \<Rightarrow> 'a physmem_scheme" where
  "mark_page_free page_index s =
     (let byte_index = page_index div 8; bit_index = page_index mod 8
      in s\<lparr>phys_bitmap := (phys_bitmap s)
             [byte_index := phys_bitmap s ! byte_index OR push_bit bit_index 1],
           free_pages_count := free_pages_count s + 1\<rparr>)"

definition mark_page_allocated :: "nat \<Rightarrow> 'a physmem_scheme \<Rightarrow> 'a physmem_scheme" where
  "mark_page_allocated page_index s =
     (let byte_index = page_index div 8; bit_index = page_index mod 8
      in s\<lparr>phys_bitmap := (phys_bitmap s)
             [byte_index := phys_bitmap s ! byte_index AND NOT (push_bit bit_index 1)],
           free_pages_count := free_pages_count s - 1\<rparr>)"

text \<open>
  \<open>physmem_init\<close>: \<open>kernel_end\<close> is the address of the linker symbol \<open>_end\<close>. All pages are
  marked free, then those of the kernel image allocated.
\<close>

definition first_free_page :: "u64 \<Rightarrow> nat" where
  "first_free_page kernel_end =
     (let kernel_size = kernel_end - KERNEL_BASE_ADDR;
          first = unat ((kernel_size + PAGE_SIZE - 1) div PAGE_SIZE)
      in if first > NUM_PAGES then NUM_PAGES else first)"

definition mark_kernel_pages :: "nat \<Rightarrow> 'a physmem_scheme \<Rightarrow> 'a physmem_scheme" where
  "mark_kernel_pages n s =
     fold (\<lambda>i s. if is_page_free s i then mark_page_allocated i s else s) [0..<n] s"

definition physmem_init :: "u64 \<Rightarrow> 'a physmem_scheme \<Rightarrow> 'a physmem_scheme" where
  "physmem_init kernel_end s =
     mark_kernel_pages (min (first_free_page kernel_end) NUM_PAGES)
       (s\<lparr>phys_bitmap := replicate (NUM_PAGES div 8) 0xFF,
          free_pages_count := of_nat NUM_PAGES\<rparr>)"

definition page_addr :: "nat \<Rightarrow> u64" where
  "page_addr i = KERNEL_BASE_ADDR + of_nat i * PAGE_SIZE"

definition physmem_alloc_page :: "'a physmem_scheme \<Rightarrow> u64 \<times> 'a physmem_scheme" where
  "physmem_alloc_page s =
     (case scan_from (is_page_free s) 0 NUM_PAGES of
        Some i \<Rightarrow> (KERNEL_BASE_ADDR + of_nat i * PAGE_SIZE, mark_page_allocated i s)
      | None \<Rightarrow> (0, s))"

definition free_physical_page :: "u64 \<Rightarrow> 'a physmem_scheme \<Rightarrow> 'a physmem_scheme" where
  "free_physical_page phys_addr s =
     (if phys_addr < KERNEL_BASE_ADDR \<or> phys_addr \<ge> KERNEL_BASE_ADDR + PHYS_MEM_SIZE then s
      else
        let page_index = unat ((phys_addr - KERNEL_BASE_ADDR) div PAGE_SIZE)
        in if page_index \<ge> NUM_PAGES then s
           else if \<not> is_page_free s page_index then mark_page_free page_index s
           else s)"

definition get_free_pages_count :: "'a physmem_scheme \<Rightarrow> u64" where
  "get_free_pages_count s = free_pages_count s"

subsection \<open>The set of free pages and the allocator's invariant\<close>

definition free_set :: "'a physmem_scheme \<Rightarrow> nat set" where
  "free_set s = {i. i < NUM_PAGES \<and> is_page_free s i}"

definition physmem_inv :: "'a physmem_scheme \<Rightarrow> bool" where
  "physmem_inv s \<longleftrightarrow> length (phys_bitmap s) = NUM_PAGES div 8 \<and>
     free_pages_count s = of_nat (card (free_set s))"

lemma is_page_free_bit: "is_page_free s i \<longleftrightarrow> bit (phys_bitmap s ! (i div 8)) (i mod 8)"
  by (simp add: is_page_free_def Let_def bit_iff_odd_drop_bit and_one_eq odd_iff_mod_2_eq_one)

lemma finite_free_set [simp]: "finite (free_set s)"
  by (simp add: free_set_def)

lemma card_free_set_le: "card (free_set s) \<le> NUM_PAGES"
  using card_mono [of "{..<NUM_PAGES}" "free_set s"] by (auto simp: free_set_def)

lemma bitmap_index: "i < NUM_PAGES \<Longrightarrow> i div 8 < NUM_PAGES div 8"
  by (simp add: NUM_PAGES_def)

lemma index_split: "(i::nat) div 8 = j div 8 \<Longrightarrow> i mod 8 = j mod 8 \<Longrightarrow> i = j"
  by (metis div_mult_mod_eq)

lemma bit_byte_mask: "bit (2 ^ m :: u8) n \<longleftrightarrow> m = n \<and> n < 8"
  by (auto simp: bit_exp_iff)

lemma is_page_free_mark_free:
  assumes "length (phys_bitmap s) = NUM_PAGES div 8" "i < NUM_PAGES" "j < NUM_PAGES"
  shows "is_page_free (mark_page_free i s) j \<longleftrightarrow> j = i \<or> is_page_free s j"
  using assms bitmap_index [of i] index_split [of i j]
  by (auto simp: is_page_free_bit mark_page_free_def Let_def nth_list_update bit_or_iff
      bit_byte_mask)

lemma is_page_free_mark_allocated:
  assumes "length (phys_bitmap s) = NUM_PAGES div 8" "i < NUM_PAGES" "j < NUM_PAGES"
  shows "is_page_free (mark_page_allocated i s) j \<longleftrightarrow> j \<noteq> i \<and> is_page_free s j"
  using assms bitmap_index [of i] index_split [of i j]
  by (auto simp: is_page_free_bit mark_page_allocated_def Let_def nth_list_update bit_and_iff
      bit_not_iff bit_byte_mask)

lemma free_set_mark_free:
  "length (phys_bitmap s) = NUM_PAGES div 8 \<Longrightarrow> i < NUM_PAGES \<Longrightarrow>
    free_set (mark_page_free i s) = insert i (free_set s)"
  by (auto simp: free_set_def is_page_free_mark_free)

lemma free_set_mark_allocated:
  "length (phys_bitmap s) = NUM_PAGES div 8 \<Longrightarrow> i < NUM_PAGES \<Longrightarrow>
    free_set (mark_page_allocated i s) = free_set s - {i}"
  by (auto simp: free_set_def is_page_free_mark_allocated)

lemma physmem_inv_mark_free:
  assumes "physmem_inv s" "i < NUM_PAGES" "\<not> is_page_free s i"
  shows "physmem_inv (mark_page_free i s)"
proof -
  have "i \<notin> free_set s" using assms(3) by (simp add: free_set_def)
  then show ?thesis
    using assms by (simp add: physmem_inv_def free_set_mark_free)
      (simp add: mark_page_free_def Let_def)
qed

lemma physmem_inv_mark_allocated:
  assumes "physmem_inv s" "i < NUM_PAGES" "is_page_free s i"
  shows "physmem_inv (mark_page_allocated i s)"
proof -
  have i: "i \<in> free_set s" using assms by (simp add: free_set_def)
  then have c: "card (free_set s) = Suc (card (free_set s - {i}))"
    by (simp only: card.remove finite_free_set)
  have "free_pages_count (mark_page_allocated i s) = free_pages_count s - 1"
    by (simp add: mark_page_allocated_def Let_def)
  also have "\<dots> = of_nat (card (free_set s - {i}))"
    using assms(1) by (simp only: physmem_inv_def c of_nat_Suc add_diff_cancel_left')
  finally show ?thesis
    using assms by (simp add: physmem_inv_def free_set_mark_allocated)
      (simp add: mark_page_allocated_def Let_def)
qed

subsection \<open>Page addresses\<close>

definition ram_pages :: "u64 set" where
  "ram_pages = page_addr ` {..<NUM_PAGES}"

definition avail_pages :: "'a physmem_scheme \<Rightarrow> u64 set" where
  "avail_pages s = page_addr ` free_set s"

definition page_index :: "u64 \<Rightarrow> nat" where
  "page_index phys_addr = unat ((phys_addr - KERNEL_BASE_ADDR) div PAGE_SIZE)"

lemma unat_page_addr: "i < NUM_PAGES \<Longrightarrow> unat (page_addr i) = 0x80000000 + i * 4096"
  by (simp add: page_addr_def layout_defs unat_word_ariths unat_of_nat take_bit_eq_mod)

lemma page_index_page_addr [simp]:
  assumes "i < NUM_PAGES"
  shows "page_index (page_addr i) = i"
proof -
  have "unat (page_addr i - KERNEL_BASE_ADDR) = i * 4096"
    using assms unat_page_addr [OF assms]
    by (simp add: page_addr_def layout_defs unat_word_ariths unat_of_nat take_bit_eq_mod)
  then show ?thesis by (simp add: page_index_def unat_div PAGE_SIZE_def)
qed

lemma page_addr_inj: "inj_on page_addr {..<NUM_PAGES}"
  by (rule inj_on_inverseI [where g = page_index]) simp

lemma page_addr_eq_iff:
  "i < NUM_PAGES \<Longrightarrow> j < NUM_PAGES \<Longrightarrow> page_addr i = page_addr j \<longleftrightarrow> i = j"
  using page_addr_inj by (auto simp: inj_on_def)

lemma page_addr_range:
  "i < NUM_PAGES \<Longrightarrow>
    KERNEL_BASE_ADDR \<le> page_addr i \<and> page_addr i < KERNEL_BASE_ADDR + PHYS_MEM_SIZE"
  using unat_page_addr [of i]
  by (simp add: word_le_nat_alt word_less_nat_alt layout_defs)

lemma page_addr_nonzero: "i < NUM_PAGES \<Longrightarrow> page_addr i \<noteq> 0"
  using unat_page_addr [of i] by auto

lemma ram_pages_facts:
  "finite ram_pages" "0 \<notin> ram_pages" "avail_pages s \<subseteq> ram_pages"
  using page_addr_nonzero by (auto simp: ram_pages_def avail_pages_def free_set_def)

lemma avail_page_iff: "i < NUM_PAGES \<Longrightarrow> page_addr i \<in> avail_pages s \<longleftrightarrow> i \<in> free_set s"
  by (auto simp: avail_pages_def page_addr_eq_iff free_set_def)

lemma card_avail_pages: "card (avail_pages s) = card (free_set s)"
  unfolding avail_pages_def
  by (rule card_image) (auto intro: inj_on_subset [OF page_addr_inj] simp: free_set_def)

subsection \<open>Allocation and release over the set of free pages\<close>

lemma physmem_alloc_None:
  "physmem_alloc_page s = (0, t) \<longleftrightarrow> free_set s = {} \<and> t = s"
  using page_addr_nonzero
  by (auto simp: physmem_alloc_page_def free_set_def scan_from_None_iff scan_from_Some_iff
      page_addr_def [symmetric] split: option.splits)

lemma physmem_alloc_Some:
  assumes "physmem_alloc_page s = (p, t)" "p \<noteq> 0"
  obtains i where "i < NUM_PAGES" "is_page_free s i" "\<And>j. j < i \<Longrightarrow> \<not> is_page_free s j"
    "p = page_addr i" "t = mark_page_allocated i s"
  using assms
  by (auto simp: physmem_alloc_page_def scan_from_Some_iff page_addr_def
      split: option.splits)

lemma physmem_alloc_least:
  assumes "i < NUM_PAGES" "is_page_free s i" "\<And>j. j < i \<Longrightarrow> \<not> is_page_free s j"
  shows "physmem_alloc_page s = (page_addr i, mark_page_allocated i s)"
proof -
  have "scan_from (is_page_free s) 0 NUM_PAGES = Some i"
    using assms by (auto simp: scan_from_Some_iff)
  then show ?thesis by (simp add: physmem_alloc_page_def page_addr_def)
qed

lemma free_physical_page_index:
  assumes "KERNEL_BASE_ADDR \<le> p" "p < KERNEL_BASE_ADDR + PHYS_MEM_SIZE"
  shows "page_index p < NUM_PAGES"
proof -
  have "unat (p - KERNEL_BASE_ADDR) = unat p - unat KERNEL_BASE_ADDR"
    using assms by (simp add: unat_sub word_le_nat_alt)
  moreover have "unat p < 0x80000000 + 32768 * 4096"
    using assms(2) by (simp add: word_less_nat_alt layout_defs)
  moreover have "0x80000000 \<le> unat p"
    using assms(1) by (simp add: word_le_nat_alt layout_defs)
  ultimately show ?thesis
    by (simp add: page_index_def unat_div layout_defs div_less_iff_less_mult)
qed

lemma free_physical_page_eq:
  "free_physical_page p s =
     (if KERNEL_BASE_ADDR \<le> p \<and> p < KERNEL_BASE_ADDR + PHYS_MEM_SIZE \<and>
         \<not> is_page_free s (page_index p)
      then mark_page_free (page_index p) s else s)"
  using free_physical_page_index [of p]
  by (auto simp: free_physical_page_def page_index_def Let_def not_le not_less)

lemma physmem_inv_free: "physmem_inv s \<Longrightarrow> physmem_inv (free_physical_page p s)"
  using free_physical_page_index [of p]
  by (auto simp: free_physical_page_eq intro: physmem_inv_mark_free)

lemma free_set_free:
  assumes "physmem_inv s"
  shows "free_set (free_physical_page p s) =
    (if KERNEL_BASE_ADDR \<le> p \<and> p < KERNEL_BASE_ADDR + PHYS_MEM_SIZE
     then insert (page_index p) (free_set s) else free_set s)"
  using assms free_physical_page_index [of p]
  by (auto simp: free_physical_page_eq physmem_inv_def free_set_mark_free)
    (auto simp: free_set_def)

interpretation pm: page_allocator
  physmem_alloc_page free_physical_page avail_pages ram_pages physmem_inv
proof (unfold_locales, goal_cases)
  case (4 s)
  then show ?case by (simp add: physmem_alloc_None avail_pages_def)
next
  case (5 s p t)
  from 5(2) have "p \<noteq> 0" using 5(3) by (auto simp: physmem_alloc_None avail_pages_def)
  with 5(3) obtain i where i: "i < NUM_PAGES" "is_page_free s i" "p = page_addr i"
    "t = mark_page_allocated i s"
    by (rule physmem_alloc_Some)
  have "avail_pages t = page_addr ` (free_set s - {i})"
    using 5(1) i by (simp add: avail_pages_def physmem_inv_def free_set_mark_allocated)
  also have "\<dots> = avail_pages s - {p}"
    using i by (auto simp: avail_pages_def free_set_def page_addr_eq_iff)
  finally show ?case
    using i 5(1) physmem_inv_mark_allocated [of s i] by (auto simp: avail_page_iff free_set_def)
next
  case (6 s p)
  then obtain i where i: "i < NUM_PAGES" "p = page_addr i" by (auto simp: ram_pages_def)
  then show ?case
    using 6(1) page_addr_range [OF i(1)] free_set_free [of s p]
    by (simp add: physmem_inv_free avail_pages_def)
qed (use ram_pages_facts in auto)

subsection \<open>Initialisation\<close>

lemma bit_FF: "k < 8 \<Longrightarrow> bit (0xFF :: u8) k"
proof -
  have "(0xFF :: u8) = - 1" by simp
  then show "k < 8 \<Longrightarrow> bit (0xFF :: u8) k" by (simp only: bit_minus_1_iff) simp
qed

lemma all_pages_free:
  fixes s :: "'a physmem_scheme"
  assumes "t = s\<lparr>phys_bitmap := replicate (NUM_PAGES div 8) 0xFF,
                 free_pages_count := of_nat NUM_PAGES\<rparr>"
  shows "physmem_inv t \<and> free_set t = {..<NUM_PAGES}"
proof -
  have "is_page_free t i" if "i < NUM_PAGES" for i
    using bitmap_index [OF that] bit_FF [of "i mod 8"] by (simp add: is_page_free_bit assms)
  then have "free_set t = {..<NUM_PAGES}" by (auto simp: free_set_def)
  then show ?thesis by (simp add: physmem_inv_def assms)
qed

lemma mark_kernel_pages_Suc:
  "mark_kernel_pages (Suc n) s =
     (let t = mark_kernel_pages n s in if is_page_free t n then mark_page_allocated n t else t)"
  by (simp add: mark_kernel_pages_def)

lemma mark_kernel_pages_spec:
  assumes "physmem_inv s" "n \<le> NUM_PAGES"
  shows "physmem_inv (mark_kernel_pages n s) \<and>
    free_set (mark_kernel_pages n s) = free_set s - {..<n}"
  using assms(2)
proof (induction n)
  case 0
  then show ?case using assms(1) by (simp add: mark_kernel_pages_def)
next
  case (Suc n)
  let ?t = "mark_kernel_pages n s"
  have t: "physmem_inv ?t" "free_set ?t = free_set s - {..<n}" and n: "n < NUM_PAGES"
    using Suc by auto
  show ?case
  proof (cases "is_page_free ?t n")
    case True
    then have step: "mark_kernel_pages (Suc n) s = mark_page_allocated n ?t"
      by (simp add: mark_kernel_pages_Suc Let_def)
    have len: "length (phys_bitmap ?t) = NUM_PAGES div 8"
      using t(1) by (simp add: physmem_inv_def)
    have "free_set (mark_page_allocated n ?t) = free_set s - {..<Suc n}"
      by (auto simp: free_set_mark_allocated [OF len n] t(2))
    then show ?thesis
      unfolding step using physmem_inv_mark_allocated [OF t(1) n True] by blast
  next
    case False
    then have "n \<notin> free_set ?t" by (simp add: free_set_def)
    then have "free_set s - {..<Suc n} = free_set ?t"
      by (auto simp: t(2) less_Suc_eq)
    then show ?thesis using t(1) False by (simp add: mark_kernel_pages_Suc Let_def)
  qed
qed

lemma physmem_init_spec:
  "physmem_inv (physmem_init kernel_end s) \<and>
   free_set (physmem_init kernel_end s) = {first_free_page kernel_end..<NUM_PAGES}"
proof -
  let ?s = "s\<lparr>phys_bitmap := replicate (NUM_PAGES div 8) 0xFF,
              free_pages_count := of_nat NUM_PAGES\<rparr>"
  have s: "physmem_inv ?s" "free_set ?s = {..<NUM_PAGES}"
    using all_pages_free [of ?s s] by auto
  have le: "first_free_page kernel_end \<le> NUM_PAGES"
    by (simp add: first_free_page_def Let_def)
  then have "min (first_free_page kernel_end) NUM_PAGES = first_free_page kernel_end" by simp
  with mark_kernel_pages_spec [OF s(1) le] s(2) show ?thesis
    by (auto simp: physmem_init_def)
qed

lemma kernel_pages_rounded:
  assumes "KERNEL_BASE_ADDR \<le> kernel_end" "kernel_end \<le> KERNEL_BASE_ADDR + PHYS_MEM_SIZE"
  shows "unat (kernel_end - KERNEL_BASE_ADDR + PAGE_SIZE - 1) =
    unat kernel_end - 0x80000000 + 4095"
proof -
  have "unat kernel_end \<le> 0x80000000 + 0x8000000"
    using assms(2) by (simp add: word_le_nat_alt layout_defs)
  moreover have ks: "unat (kernel_end - KERNEL_BASE_ADDR) = unat kernel_end - 0x80000000"
    using assms(1) by (simp add: unat_sub word_le_nat_alt layout_defs)
  ultimately have "unat (kernel_end - KERNEL_BASE_ADDR + 4095) =
      unat (kernel_end - KERNEL_BASE_ADDR) + 4095"
    by (subst unat_add_lem [THEN iffD1]) simp_all
  moreover have "kernel_end - KERNEL_BASE_ADDR + PAGE_SIZE - 1 =
      kernel_end - KERNEL_BASE_ADDR + 4095"
    by (simp add: PAGE_SIZE_def)
  ultimately show ?thesis using ks by (simp only:)
qed

lemma first_free_page_le_iff:
  assumes "KERNEL_BASE_ADDR \<le> kernel_end" "kernel_end \<le> KERNEL_BASE_ADDR + PHYS_MEM_SIZE"
    and "i < NUM_PAGES"
  shows "first_free_page kernel_end \<le> i \<longleftrightarrow> kernel_end \<le> page_addr i"
proof -
  have *: "(y - 0x80000000 + 4095) div 4096 \<le> i \<longleftrightarrow> y \<le> 0x80000000 + i * 4096"
    if "0x80000000 \<le> y" for y :: nat
  proof -
    have "(y - 0x80000000 + 4095) div 4096 \<le> i \<longleftrightarrow> y - 0x80000000 + 4095 < Suc i * 4096"
      by (simp only: div_less_iff_less_mult less_Suc_eq_le [symmetric])
    then show ?thesis using that by auto
  qed
  have "0x80000000 \<le> unat kernel_end"
    using assms(1) by (simp add: word_le_nat_alt layout_defs)
  from * [OF this] show ?thesis
    using assms(3) kernel_pages_rounded [OF assms(1,2)] unat_page_addr [OF assms(3)]
    by (auto simp: first_free_page_def Let_def unat_div PAGE_SIZE_def word_le_nat_alt)
qed

lemma mark_free_mark_allocated:
  assumes "length (phys_bitmap s) = NUM_PAGES div 8" "i < NUM_PAGES" "is_page_free s i"
  shows "mark_page_free i (mark_page_allocated i s) = s"
proof -
  have "(b AND NOT (push_bit k 1)) OR push_bit k 1 = b" if "bit b k" for b :: u8 and k
    using that
    by (intro bit_eqI) (auto simp: bit_or_iff bit_and_iff bit_not_iff bit_byte_mask)
  then show ?thesis
    using assms bitmap_index [of i]
    by (simp add: is_page_free_bit mark_page_free_def mark_page_allocated_def Let_def)
qed

subsection \<open>Properties\<close>

text \<open>C3: \<open>physmem_init\<close> leaves a consistent allocator in which a page of RAM is free
  exactly when it starts at or after the end of the kernel image, and the counter that
  \<open>get_free_pages_count\<close> reports is the number of free pages.\<close>

theorem physmem_init_correct:
  assumes "KERNEL_BASE_ADDR \<le> kernel_end" "kernel_end \<le> KERNEL_BASE_ADDR + PHYS_MEM_SIZE"
  shows "physmem_inv (physmem_init kernel_end s) \<and>
    (\<forall>i < NUM_PAGES. is_page_free (physmem_init kernel_end s) i \<longleftrightarrow> kernel_end \<le> page_addr i) \<and>
    unat (get_free_pages_count (physmem_init kernel_end s)) =
      card {i. i < NUM_PAGES \<and> kernel_end \<le> page_addr i}"
proof -
  let ?t = "physmem_init kernel_end s"
  have inv: "physmem_inv ?t" and fs: "free_set ?t = {first_free_page kernel_end..<NUM_PAGES}"
    using physmem_init_spec by auto
  have iff: "is_page_free ?t i \<longleftrightarrow> kernel_end \<le> page_addr i" if i: "i < NUM_PAGES" for i
  proof -
    have "is_page_free ?t i \<longleftrightarrow> first_free_page kernel_end \<le> i"
      using fs i by (auto simp: free_set_def set_eq_iff)
    then show ?thesis using first_free_page_le_iff [OF assms i] by simp
  qed
  have "free_set ?t = {i. i < NUM_PAGES \<and> kernel_end \<le> page_addr i}"
    using iff by (auto simp: free_set_def)
  moreover have "unat (free_pages_count ?t) = card (free_set ?t)"
    using inv card_free_set_le [of ?t]
    by (simp add: physmem_inv_def unat_of_nat take_bit_eq_mod NUM_PAGES_def)
  ultimately show ?thesis using inv iff by (simp add: get_free_pages_count_def)
qed

theorem physmem_init_correct_witness:
  "physmem_inv (physmem_init 0x80010000 \<lparr>phys_bitmap = [], free_pages_count = 0\<rparr>)"
  using physmem_init_correct [of "0x80010000" "\<lparr>phys_bitmap = [], free_pages_count = 0\<rparr>"]
  by (simp add: layout_defs)

text \<open>C2: \<open>physmem_alloc_page\<close> on a consistent allocator: with no free page it returns 0
  and changes nothing; otherwise it returns the address of the lowest free page, marks
  exactly that page allocated, decrements the counter and keeps the allocator
  consistent.\<close>

theorem physmem_alloc_page_correct:
  assumes "physmem_inv s" "physmem_alloc_page s = (p, t)"
  shows "if free_set s = {} then p = 0 \<and> t = s
    else p = page_addr (Min (free_set s)) \<and> free_set t = free_set s - {Min (free_set s)} \<and>
      free_pages_count t = free_pages_count s - 1 \<and> physmem_inv t"
proof (cases "free_set s = {}")
  case True
  then show ?thesis using assms(2) physmem_alloc_None [of s s] by simp
next
  case False
  let ?i = "Min (free_set s)"
  have i: "?i \<in> free_set s" using False by (simp add: Min_in)
  have least: "\<not> is_page_free s j" if "j < ?i" for j
  proof
    assume "is_page_free s j"
    then have "j \<in> free_set s" using that i by (simp add: free_set_def)
    then have "Min (free_set s) \<le> j" by (rule Min_le [OF finite_free_set])
    with that show False by (metis not_le)
  qed
  from i have "?i < NUM_PAGES" "is_page_free s ?i" by (auto simp: free_set_def)
  with physmem_alloc_least [OF this least] assms(2)
  have pt: "p = page_addr ?i" "t = mark_page_allocated ?i s" by auto
  then show ?thesis
    using False assms(1) \<open>?i < NUM_PAGES\<close> \<open>is_page_free s ?i\<close>
      physmem_inv_mark_allocated [of s ?i]
    by (simp add: free_set_mark_allocated physmem_inv_def)
      (simp add: mark_page_allocated_def Let_def)
qed

theorem physmem_alloc_page_correct_witness:
  "snd (physmem_alloc_page (physmem_init 0x80010000 \<lparr>phys_bitmap = [], free_pages_count = 0\<rparr>))
     \<noteq> physmem_init 0x80010000 \<lparr>phys_bitmap = [], free_pages_count = 0\<rparr>"
proof -
  let ?s = "physmem_init 0x80010000 \<lparr>phys_bitmap = [], free_pages_count = 0\<rparr>"
  have s: "physmem_inv ?s" "free_set ?s \<noteq> {}"
    using physmem_init_spec [of "0x80010000" "\<lparr>phys_bitmap = [], free_pages_count = 0\<rparr>"]
    by (auto simp: first_free_page_def Let_def layout_defs)
  obtain p t where pt: "physmem_alloc_page ?s = (p, t)" by (cases "physmem_alloc_page ?s")
  from physmem_alloc_page_correct [OF s(1) pt] s(2)
  have "free_set t = free_set ?s - {Min (free_set ?s)}" by simp
  moreover have "Min (free_set ?s) \<in> free_set ?s" using s(2) by (simp add: Min_in)
  ultimately show ?thesis using pt by auto
qed

text \<open>Giving back the page just allocated restores the allocator exactly, bitmap and
  counter; freeing a page that is already free, or an address outside RAM, changes
  nothing.\<close>

theorem physmem_free_alloc_roundtrip:
  assumes "physmem_inv s"
  shows "(\<forall>p t. physmem_alloc_page s = (p, t) \<and> p \<noteq> 0 \<longrightarrow> free_physical_page p t = s) \<and>
    free_physical_page a (free_physical_page a s) = free_physical_page a s \<and>
    (a < KERNEL_BASE_ADDR \<or> KERNEL_BASE_ADDR + PHYS_MEM_SIZE \<le> a \<longrightarrow>
       free_physical_page a s = s)"
proof (intro conjI allI impI)
  fix p t assume a: "physmem_alloc_page s = (p, t) \<and> p \<noteq> 0"
  then obtain i where i: "i < NUM_PAGES" "is_page_free s i" "p = page_addr i"
    "t = mark_page_allocated i s"
    by (metis physmem_alloc_Some)
  have len: "length (phys_bitmap s) = NUM_PAGES div 8" using assms by (simp add: physmem_inv_def)
  then have "\<not> is_page_free t i" using i by (simp add: is_page_free_mark_allocated)
  then show "free_physical_page p t = s"
    using i page_addr_range [OF i(1)] mark_free_mark_allocated [OF len i(1,2)]
    by (simp add: free_physical_page_eq)
next
  show "free_physical_page a (free_physical_page a s) = free_physical_page a s"
    using assms free_physical_page_index [of a]
    by (auto simp: free_physical_page_eq physmem_inv_def is_page_free_mark_free)
qed (auto simp: free_physical_page_def)

theorem physmem_free_alloc_roundtrip_witness:
  "free_physical_page 0 (physmem_init 0x80010000 \<lparr>phys_bitmap = [], free_pages_count = 0\<rparr>) =
    physmem_init 0x80010000 \<lparr>phys_bitmap = [], free_pages_count = 0\<rparr>"
  using physmem_free_alloc_roundtrip
    [of "physmem_init 0x80010000 \<lparr>phys_bitmap = [], free_pages_count = 0\<rparr>" 0]
    physmem_init_spec [of "0x80010000" "\<lparr>phys_bitmap = [], free_pages_count = 0\<rparr>"]
  by (simp add: layout_defs)

text \<open>C1: no page is ever handed out twice. Whatever sequence of requests and releases a
  client makes of the allocator, starting from a consistent one, the pages it holds are
  pairwise distinct, none of them is free, and free and held pages together are always
  the pages that were free at the start: nothing is lost.\<close>

theorem physmem_no_double_allocation:
  assumes "physmem_inv s"
    and "client_run physmem_alloc_page free_physical_page ops (s, []) = (t, held)"
  shows "distinct held \<and> avail_pages t \<inter> set held = {} \<and>
    avail_pages t \<union> set held = avail_pages s"
  using assms by (rule pm.client_run_start)

theorem physmem_no_double_allocation_witness:
  "distinct (snd (client_run physmem_alloc_page free_physical_page
     [AskPage, AskPage, GivePage 0, AskPage]
     (physmem_init 0x80010000 \<lparr>phys_bitmap = [], free_pages_count = 0\<rparr>, [])))"
  using physmem_no_double_allocation
    [of "physmem_init 0x80010000 \<lparr>phys_bitmap = [], free_pages_count = 0\<rparr>"
      "[AskPage, AskPage, GivePage 0, AskPage]", OF _ surjective_pairing]
    physmem_init_spec [of "0x80010000" "\<lparr>phys_bitmap = [], free_pages_count = 0\<rparr>"]
  by blast

end
