(* ===== verification/Paging.thy ===== *)
theory Paging
  imports Physmem
begin

text \<open>
  \<open>kernel/mem/paging.c\<close> and \<open>include/kernel/mem/virtual_memory.h\<close>: the three-level page
  tables. A page table is a page of 512 entries; \<open>tables\<close> gives the entries of the page at
  a physical address. A C pointer to a table is turned into that physical address by
  \<open>virt_to_phys_helper\<close>, which depends on \<open>paging_active\<close> as in the code; a pointer to
  an entry is the pair of its table's pointer and its index.
\<close>

unbundle bit_operations_syntax

subsection \<open>Page table entries\<close>

definition PTE_V :: u64 where "PTE_V = push_bit 0 1"
definition PTE_R :: u64 where "PTE_R = push_bit 1 1"
definition PTE_W :: u64 where "PTE_W = push_bit 2 1"
definition PTE_X :: u64 where "PTE_X = push_bit 3 1"
definition PTE_U :: u64 where "PTE_U = push_bit 4 1"
definition PTE_ADDR_MASK :: u64 where "PTE_ADDR_MASK = 0x3FFFFFFFFC00"

definition PTE_ADDR :: "u64 \<Rightarrow> u64" where "PTE_ADDR pte = pte AND PTE_ADDR_MASK"

definition MAKE_PTE :: "u64 \<Rightarrow> u64 \<Rightarrow> u64" where
  "MAKE_PTE phys_addr flags = (phys_addr AND PTE_ADDR_MASK) OR flags"

definition VPN2 :: "u64 \<Rightarrow> nat" where "VPN2 va = unat (drop_bit 30 va AND 0x1FF)"
definition VPN1 :: "u64 \<Rightarrow> nat" where "VPN1 va = unat (drop_bit 21 va AND 0x1FF)"
definition VPN0 :: "u64 \<Rightarrow> nat" where "VPN0 va = unat (drop_bit 12 va AND 0x1FF)"

definition pte_valid :: "u64 \<Rightarrow> bool" where "pte_valid pte \<longleftrightarrow> pte AND PTE_V \<noteq> 0"

subsection \<open>State\<close>

record vm = physmem +
  tables :: "u64 \<Rightarrow> nat \<Rightarrow> u64"
  kernel_pagetable :: u64
  paging_active :: bool
  satp :: u64

type_synonym pte_ptr = "u64 \<times> nat"

definition phys_to_virt_helper :: "'a vm_scheme \<Rightarrow> u64 \<Rightarrow> u64" where
  "phys_to_virt_helper s phys = (if \<not> paging_active s then phys else phys_to_virt phys)"

definition virt_to_phys_helper :: "'a vm_scheme \<Rightarrow> u64 \<Rightarrow> u64" where
  "virt_to_phys_helper s virt = (if \<not> paging_active s then virt else virt_to_phys virt)"

definition read_pte :: "'a vm_scheme \<Rightarrow> pte_ptr \<Rightarrow> u64" where
  "read_pte s pte = tables s (virt_to_phys_helper s (fst pte)) (snd pte)"

definition write_pte :: "pte_ptr \<Rightarrow> u64 \<Rightarrow> 'a vm_scheme \<Rightarrow> 'a vm_scheme" where
  "write_pte pte v s =
     (let t = virt_to_phys_helper s (fst pte)
      in s\<lparr>tables := (tables s)(t := (tables s t)(snd pte := v))\<rparr>)"

text \<open>\<open>for (int i = 0; i < 512; i++) table[i] = 0;\<close>\<close>

definition clear_table :: "u64 \<Rightarrow> 'a vm_scheme \<Rightarrow> 'a vm_scheme" where
  "clear_table table s =
     s\<lparr>tables := (tables s)(virt_to_phys_helper s table := (\<lambda>_. 0))\<rparr>"

subsection \<open>Operations\<close>

definition create_page_table :: "'a vm_scheme \<Rightarrow> u64 \<times> 'a vm_scheme" where
  "create_page_table s =
     (case physmem_alloc_page s of (phys, s1) \<Rightarrow>
        if phys = 0 then (0, s1)
        else let table = phys_to_virt_helper s1 phys
             in (table, clear_table table s1))"

definition free_page_table :: "u64 \<Rightarrow> 'a vm_scheme \<Rightarrow> 'a vm_scheme" where
  "free_page_table pagetable s =
     (if pagetable \<noteq> 0 then free_physical_page (virt_to_phys_helper s pagetable) s else s)"

text \<open>
  One level of \<open>walk\<close>: from the entry \<open>pte\<close> to the table it points at, allocating and
  clearing that table when the entry is not valid and \<open>alloc\<close> is set. The code has this
  text twice, for level 2 and for level 1.
\<close>

definition next_table :: "pte_ptr \<Rightarrow> bool \<Rightarrow> 'a vm_scheme \<Rightarrow> u64 option \<times> 'a vm_scheme" where
  "next_table pte alloc s =
     (if \<not> pte_valid (read_pte s pte) then
        if \<not> alloc then (None, s)
        else case physmem_alloc_page s of (phys, s1) \<Rightarrow>
          if phys = 0 then (None, s1)
          else let s2 = write_pte pte (MAKE_PTE phys PTE_V) s1;
                   s3 = clear_table (phys_to_virt_helper s2 phys) s2
               in (Some (phys_to_virt_helper s3 (PTE_ADDR (read_pte s3 pte))), s3)
      else (Some (phys_to_virt_helper s (PTE_ADDR (read_pte s pte))), s))"

definition walk :: "u64 \<Rightarrow> u64 \<Rightarrow> bool \<Rightarrow> 'a vm_scheme \<Rightarrow> pte_ptr option \<times> 'a vm_scheme" where
  "walk pagetable virt_addr alloc s =
     (case next_table (pagetable, VPN2 virt_addr) alloc s of
        (None, s1) \<Rightarrow> (None, s1)
      | (Some level1, s1) \<Rightarrow>
          (case next_table (level1, VPN1 virt_addr) alloc s1 of
             (None, s2) \<Rightarrow> (None, s2)
           | (Some level0, s2) \<Rightarrow> (Some (level0, VPN0 virt_addr), s2)))"

definition map_page :: "u64 \<Rightarrow> u64 \<Rightarrow> u64 \<Rightarrow> u64 \<Rightarrow> 'a vm_scheme \<Rightarrow> int \<times> 'a vm_scheme" where
  "map_page pagetable virt_addr phys_addr flags s =
     (case walk pagetable virt_addr True s of
        (None, s1) \<Rightarrow> (- 1, s1)
      | (Some pte, s1) \<Rightarrow>
          if pte_valid (read_pte s1 pte) then (- 1, s1)
          else (0, write_pte pte (MAKE_PTE phys_addr (flags OR PTE_V)) s1))"

definition unmap_page :: "u64 \<Rightarrow> u64 \<Rightarrow> 'a vm_scheme \<Rightarrow> 'a vm_scheme" where
  "unmap_page pagetable virt_addr s =
     (case walk pagetable virt_addr False s of
        (None, s1) \<Rightarrow> s1
      | (Some pte, s1) \<Rightarrow> if pte_valid (read_pte s1 pte) then write_pte pte 0 s1 else s1)"

definition walk_page_table :: "u64 \<Rightarrow> u64 \<Rightarrow> 'a vm_scheme \<Rightarrow> u64" where
  "walk_page_table pagetable virt_addr s =
     (case walk pagetable virt_addr False s of
        (None, s1) \<Rightarrow> 0
      | (Some pte, s1) \<Rightarrow>
          if pte_valid (read_pte s1 pte)
          then PTE_ADDR (read_pte s1 pte) + (virt_addr AND (PAGE_SIZE - 1)) else 0)"

definition switch_page_table :: "u64 \<Rightarrow> 'a vm_scheme \<Rightarrow> 'a vm_scheme" where
  "switch_page_table pagetable s =
     (let phys = virt_to_phys_helper s pagetable;
          satp' = push_bit 60 8 OR (drop_bit 12 phys AND 0x0FFFFFFFFFFFFF)
      in s\<lparr>satp := satp', paging_active := True\<rparr>)"

definition get_current_page_table :: "'a vm_scheme \<Rightarrow> u64" where
  "get_current_page_table s = kernel_pagetable s"

text \<open>
  The loop of \<open>paging_init\<close> over the page numbers still to map; the boolean tells whether
  it ran to its end or returned at a page that could not be mapped.
\<close>

fun paging_init_loop :: "u64 \<Rightarrow> nat list \<Rightarrow> 'a vm_scheme \<Rightarrow> bool \<times> 'a vm_scheme" where
  "paging_init_loop kernel_size [] s = (True, s)"
| "paging_init_loop kernel_size (k # ks) s =
     (let i = of_nat k * PAGE_SIZE;
          virt = i + PHYS_TO_VIRT_OFFSET;
          flags = PTE_R OR PTE_W OR PTE_X
      in case map_page (kernel_pagetable s) virt i flags s of (r, s1) \<Rightarrow>
           if r \<noteq> 0 then (False, s1)
           else if i < kernel_size then
             (case map_page (kernel_pagetable s1) i i flags s1 of (r', s2) \<Rightarrow>
                if r' \<noteq> 0 then (False, s2) else paging_init_loop kernel_size ks s2)
           else paging_init_loop kernel_size ks s1)"

definition paging_init :: "u64 \<Rightarrow> 'a vm_scheme \<Rightarrow> 'a vm_scheme" where
  "paging_init kernel_end s =
     (let kernel_size = kernel_end - KERNEL_BASE_ADDR
      in case create_page_table s of (table, s1) \<Rightarrow>
           let s2 = s1\<lparr>kernel_pagetable := table\<rparr>
           in if table = 0 then s2
              else case paging_init_loop kernel_size [0..<NUM_PAGES] s2 of (ok, s3) \<Rightarrow>
                if \<not> ok then s3 else switch_page_table (kernel_pagetable s3) s3)"

subsection \<open>Bits of entries and indices\<close>

lemma bit_PTE_ADDR_MASK: "bit PTE_ADDR_MASK n \<longleftrightarrow> 10 \<le> n \<and> n < 46"
proof -
  have eq: "PTE_ADDR_MASK = push_bit 10 (mask 36)"
    by (simp add: PTE_ADDR_MASK_def mask_eq_exp_minus_1)
  show ?thesis unfolding eq by (auto simp: bit_push_bit_iff bit_mask_iff)
qed

lemma VPN_bounds [simp]: "VPN2 va < 512" "VPN1 va < 512" "VPN0 va < 512"
proof -
  have "unat (x AND 0x1FF) < 512" for x :: u64
  proof -
    have "x AND 0x1FF = take_bit 9 x"
      by (simp add: take_bit_eq_mask mask_eq_exp_minus_1)
    then show ?thesis using take_bit_nat_less_exp [of 9 "unat x"]
      by (simp add: unsigned_take_bit_eq)
  qed
  then show "VPN2 va < 512" "VPN1 va < 512" "VPN0 va < 512"
    by (simp_all add: VPN2_def VPN1_def VPN0_def)
qed

text \<open>Addresses that survive \<open>MAKE_PTE\<close>, and flags that do not touch the address.\<close>

definition pte_addr_ok :: "u64 \<Rightarrow> bool" where
  "pte_addr_ok p \<longleftrightarrow> p AND PTE_ADDR_MASK = p"

definition pte_flags_ok :: "u64 \<Rightarrow> bool" where
  "pte_flags_ok f \<longleftrightarrow> f AND PTE_ADDR_MASK = 0"

lemma PTE_ADDR_MAKE_PTE:
  "pte_addr_ok p \<Longrightarrow> pte_flags_ok f \<Longrightarrow> PTE_ADDR (MAKE_PTE p f) = p"
  by (simp add: PTE_ADDR_def MAKE_PTE_def pte_addr_ok_def pte_flags_ok_def
      bit.conj_disj_distrib2)

lemma pte_valid_iff: "pte_valid x \<longleftrightarrow> bit x 0"
  by (simp add: pte_valid_def PTE_V_def and_one_eq bit_0 odd_iff_mod_2_eq_one)

lemma pte_valid_MAKE [simp]: "pte_valid (MAKE_PTE p (f OR PTE_V))" "pte_valid (MAKE_PTE p PTE_V)"
  by (simp_all add: pte_valid_iff MAKE_PTE_def PTE_V_def bit_or_iff bit_and_iff)

lemma pte_flags_ok_V [simp]: "pte_flags_ok PTE_V"
  by (simp add: pte_flags_ok_def PTE_V_def PTE_ADDR_MASK_def)

lemma pte_flags_ok_or [simp]: "pte_flags_ok f \<Longrightarrow> pte_flags_ok g \<Longrightarrow> pte_flags_ok (f OR g)"
  by (simp add: pte_flags_ok_def bit.conj_disj_distrib2)

lemma pte_valid_0 [simp]: "\<not> pte_valid 0"
  by (simp add: pte_valid_def)

lemma pte_addr_ok_ram:
  assumes "p \<in> ram_pages"
  shows "pte_addr_ok p"
proof -
  obtain i where i: "i < NUM_PAGES" "p = page_addr i" using assms by (auto simp: ram_pages_def)
  have u: "unat p = (0x80000 + i) * 2 ^ 12" using unat_page_addr [OF i(1)] i(2) by simp
  have "bit p n \<Longrightarrow> 10 \<le> n \<and> n < 46" for n
  proof -
    assume b: "bit p n"
    have "odd (unat p div 2 ^ n)" using b by (simp add: bit_iff_odd_drop_bit [symmetric]
          bit_unsigned_iff flip: drop_bit_eq_div bit_iff_odd)
    moreover have "unat p < 2 ^ 46" using u i(1) by (simp add: NUM_PAGES_def)
    ultimately show ?thesis
    proof (intro conjI)
      show "10 \<le> n"
      proof (rule ccontr)
        assume "\<not> 10 \<le> n"
        then have "unat p = ((0x80000 + i) * 2 ^ (12 - n)) * 2 ^ n"
          by (simp add: u mult.assoc flip: power_add)
        then have "unat p div 2 ^ n = (0x80000 + i) * 2 ^ (12 - n)" by simp
        with \<open>odd (unat p div 2 ^ n)\<close> \<open>\<not> 10 \<le> n\<close> show False by simp
      qed
      show "n < 46"
      proof (rule ccontr)
        assume "\<not> n < 46"
        then have "(2::nat) ^ 46 \<le> 2 ^ n" by (intro power_increasing) simp_all
        with \<open>unat p < 2 ^ 46\<close> have "unat p div 2 ^ n = 0" by simp
        with \<open>odd (unat p div 2 ^ n)\<close> show False by simp
      qed
    qed
  qed
  then show ?thesis
    by (auto simp: pte_addr_ok_def bit_eq_iff bit_and_iff bit_PTE_ADDR_MASK)
qed

end
