(* ===== verification/Page_Trees.thy ===== *)
theory Page_Trees
  imports Paging
begin

text \<open>
  Correctness of the page-table walk of \<open>kernel/mem/paging.c\<close>. A page table is seen as a
  tree: \<open>table_at T r p\<close> is the table reached from the root \<open>r\<close> along the indices \<open>p\<close>, and
  \<open>leaf T r i j k\<close> the entry a walk ends at. The invariant \<open>page_tree\<close> says that every
  table of the tree is an allocated page of RAM reached along one path only. \<open>grows\<close> is
  what an allocating walk may do to a state: add empty tables, and nothing a translation
  could notice. The properties of \<open>map_page\<close>, \<open>unmap_page\<close> and \<open>walk_page_table\<close> follow.
\<close>

unbundle bit_operations_syntax

type_synonym entries = "u64 \<Rightarrow> nat \<Rightarrow> u64"

fun table_at :: "entries \<Rightarrow> u64 \<Rightarrow> nat list \<Rightarrow> u64 option" where
  "table_at T r [] = Some r"
| "table_at T r (i # p) =
     (if pte_valid (T r i) then table_at T (PTE_ADDR (T r i)) p else None)"

definition path :: "nat list \<Rightarrow> bool" where
  "path p \<longleftrightarrow> length p \<le> 2 \<and> (\<forall>i \<in> set p. i < 512)"

definition leaf :: "entries \<Rightarrow> u64 \<Rightarrow> nat \<Rightarrow> nat \<Rightarrow> nat \<Rightarrow> u64" where
  "leaf T r i j k = (case table_at T r [i, j] of None \<Rightarrow> 0 | Some b \<Rightarrow> T b k)"

definition page_tree :: "'a vm_scheme \<Rightarrow> u64 \<Rightarrow> bool" where
  "page_tree s r \<longleftrightarrow> (\<forall>p a. path p \<and> table_at (tables s) r p = Some a \<longrightarrow>
     a \<in> ram_pages \<and> a \<notin> avail_pages s \<and>
     (\<forall>q. path q \<and> table_at (tables s) r q = Some a \<longrightarrow> q = p))"

definition in_tree :: "'a vm_scheme \<Rightarrow> u64 \<Rightarrow> u64 \<Rightarrow> bool" where
  "in_tree s r x \<longleftrightarrow> (\<exists>p. path p \<and> table_at (tables s) r p = Some x)"

lemma table_at_snoc:
  "table_at T r (p @ [k]) =
     (case table_at T r p of None \<Rightarrow> None
      | Some b \<Rightarrow> if pte_valid (T b k) then Some (PTE_ADDR (T b k)) else None)"
  by (induction p arbitrary: r) auto

lemma path_snocD: "path (p @ [k]) \<Longrightarrow> path p \<and> length p \<le> 1 \<and> k < 512"
  by (auto simp: path_def)

lemma path_snocI: "path p \<Longrightarrow> length p \<le> 1 \<Longrightarrow> k < 512 \<Longrightarrow> path (p @ [k])"
  by (auto simp: path_def)

lemma page_treeD:
  assumes "page_tree s r" "path p" "table_at (tables s) r p = Some a"
  shows "a \<in> ram_pages" "a \<notin> avail_pages s"
    and "path q \<Longrightarrow> table_at (tables s) r q = Some a \<Longrightarrow> q = p"
  using assms unfolding page_tree_def by blast+

subsection \<open>Adding an empty table\<close>

lemma table_at_insert:
  assumes tree: "page_tree s r" and p: "path p" "length p \<le> 1" and i: "i < 512"
    and a: "table_at (tables s) r p = Some a" and inv: "\<not> pte_valid (tables s a i)"
    and new: "new \<in> avail_pages s"
    and e: "pte_valid e" "PTE_ADDR e = new"
    and T': "T' = (tables s)(a := (tables s a)(i := e), new := (\<lambda>_. 0))"
    and q: "path q"
  shows "table_at T' r q = (if q = p @ [i] then Some new else table_at (tables s) r q)"
  using q
proof (induction q rule: rev_induct)
  case Nil
  then show ?case by simp
next
  case (snoc k q)
  let ?T = "tables s"
  have an: "a \<noteq> new" using page_treeD(2) [OF tree p(1) a] new by auto
  have T_new: "T' new k = 0" for k by (simp add: T')
  have T_a: "T' a k = (if k = i then e else ?T a k)" for k using an by (simp add: T')
  have T_other: "b \<noteq> new \<Longrightarrow> b \<noteq> a \<Longrightarrow> T' b k = ?T b k" for b k by (simp add: T')
  have q: "path q" using path_snocD [OF snoc.prems] by simp
  have IH: "table_at T' r q = (if q = p @ [i] then Some new else table_at ?T r q)"
    using snoc.IH q by simp
  have none: "table_at ?T r (p @ [i]) = None" by (simp add: table_at_snoc a inv)
  show ?case
  proof (cases "q = p @ [i]")
    case True
    have ne: "q @ [k] \<noteq> p @ [i]" using True by auto
    have "table_at T' r q = Some new" "table_at ?T r q = None"
      using IH True none by simp_all
    with ne show ?thesis by (simp only: table_at_snoc [of _ _ q k] option.case T_new if_False) simp
  next
    case False
    with IH have IH: "table_at T' r q = table_at ?T r q" by simp
    show ?thesis
    proof (cases "table_at ?T r q")
      case None
      then have "q \<noteq> p" using a by auto
      then show ?thesis using None by (simp add: table_at_snoc IH)
    next
      case (Some b)
      then have bnew: "b \<noteq> new" using page_treeD(2) [OF tree q] new by auto
      show ?thesis
      proof (cases "b = a")
        case True
        then have "q = p" using page_treeD(3) [OF tree p(1) a q] Some by simp
        moreover from this have "table_at T' r p = Some a" using IH a by simp
        ultimately show ?thesis using a inv e by (simp add: table_at_snoc T_a)
      next
        case ba: False
        then have "q \<noteq> p" using Some a by auto
        then show ?thesis using Some by (simp add: table_at_snoc IH T_other [OF bnew ba])
      qed
    qed
  qed
qed

text \<open>Changing an entry of a last-level table leaves the tree as it is.\<close>

lemma table_at_leaf_update:
  assumes tree: "page_tree s r" and p: "path p" "length p = 2"
    and a: "table_at (tables s) r p = Some a" and q: "path q"
  shows "table_at ((tables s)(a := (tables s a)(k := e))) r q = table_at (tables s) r q"
  using q
proof (induction q rule: rev_induct)
  case Nil
  then show ?case by simp
next
  case (snoc i q)
  have q: "path q" "length q \<le> 1" using path_snocD [OF snoc.prems] by auto
  show ?case
  proof (cases "table_at (tables s) r q")
    case None
    then show ?thesis using snoc.IH q by (simp add: table_at_snoc)
  next
    case (Some b)
    then have "b \<noteq> a" using page_treeD(3) [OF tree p(1) a q(1)] p(2) q(2) by auto
    then show ?thesis using Some snoc.IH q by (simp add: table_at_snoc)
  qed
qed

subsection \<open>What an allocating walk may change\<close>

definition tree_pages :: "'a vm_scheme \<Rightarrow> u64 \<Rightarrow> u64 set" where
  "tree_pages s r = {x. in_tree s r x}"

lemma tree_pagesI: "path p \<Longrightarrow> table_at (tables s) r p = Some x \<Longrightarrow> x \<in> tree_pages s r"
  by (auto simp: tree_pages_def in_tree_def)

text \<open>
  The paths in \<open>P\<close> are those where new tables may appear. Free pages and pages of the tree
  together stay the same set: a page that leaves the allocator is in the tree.
\<close>

definition grows :: "u64 \<Rightarrow> nat list set \<Rightarrow> 'a vm_scheme \<Rightarrow> 'a vm_scheme \<Rightarrow> bool" where
  "grows r P s t \<longleftrightarrow> physmem_inv t \<and> page_tree t r \<and> avail_pages t \<subseteq> avail_pages s \<and>
     paging_active t = paging_active s \<and> kernel_pagetable t = kernel_pagetable s \<and>
     satp t = satp s \<and>
     (\<forall>i < 512. \<forall>j < 512. \<forall>k. leaf (tables t) r i j k = leaf (tables s) r i j k) \<and>
     (\<forall>q a. path q \<and> table_at (tables s) r q = Some a \<longrightarrow> table_at (tables t) r q = Some a) \<and>
     (\<forall>q. path q \<and> table_at (tables s) r q = None \<and> table_at (tables t) r q \<noteq> None \<longrightarrow>
        q \<in> P) \<and>
     avail_pages t \<union> tree_pages t r = avail_pages s \<union> tree_pages s r \<and>
     (\<forall>x. \<not> in_tree s r x \<and> x \<notin> avail_pages s \<longrightarrow> tables t x = tables s x)"

lemma grows_refl: "physmem_inv s \<Longrightarrow> page_tree s r \<Longrightarrow> grows r P s s"
  by (auto simp: grows_def)

lemma grows_trans: "grows r P s t \<Longrightarrow> grows r P t u \<Longrightarrow> grows r P s u"
proof -
  assume st: "grows r P s t" and tu: "grows r P t u"
  have "tables u x = tables s x" if "\<not> in_tree s r x" "x \<notin> avail_pages s" for x
  proof -
    have "x \<notin> avail_pages t \<union> tree_pages t r"
      using st that by (simp add: grows_def tree_pages_def)
    then show ?thesis using st tu that by (simp add: grows_def tree_pages_def)
  qed
  moreover have "q \<in> P" if "path q" "table_at (tables s) r q = None"
    "table_at (tables u) r q \<noteq> None" for q
    using st tu that by (cases "table_at (tables t) r q = None") (auto simp: grows_def)
  ultimately show ?thesis using st tu unfolding grows_def by auto
qed

lemma grows_leaf:
  "grows r P s t \<Longrightarrow> i < 512 \<Longrightarrow> j < 512 \<Longrightarrow> leaf (tables t) r i j k = leaf (tables s) r i j k"
  by (simp add: grows_def)

lemma virt_phys_helper [simp]: "virt_to_phys_helper s (phys_to_virt_helper s p) = p"
  by (simp add: virt_to_phys_helper_def phys_to_virt_helper_def)

lemma helper_cong:
  "paging_active t = paging_active s \<Longrightarrow> virt_to_phys_helper t v = virt_to_phys_helper s v"
  "paging_active t = paging_active s \<Longrightarrow> phys_to_virt_helper t p = phys_to_virt_helper s p"
  by (simp_all add: virt_to_phys_helper_def phys_to_virt_helper_def)

lemma physmem_alloc_frame:
  assumes "physmem_alloc_page s = (p, t)"
  shows "tables t = tables s" "paging_active t = paging_active s"
    "kernel_pagetable t = kernel_pagetable s" "satp t = satp s"
  using assms
  by (auto simp: physmem_alloc_page_def mark_page_allocated_def Let_def split: option.splits)

lemma avail_pages_tables [simp]:
  "avail_pages (s\<lparr>tables := T\<rparr>) = avail_pages s" "physmem_inv (s\<lparr>tables := T\<rparr>) = physmem_inv s"
  by (simp_all add: avail_pages_def free_set_def is_page_free_def physmem_inv_def)

lemma paging_active_tables [simp]:
  "virt_to_phys_helper (s\<lparr>tables := T\<rparr>) v = virt_to_phys_helper s v"
  "phys_to_virt_helper (s\<lparr>tables := T\<rparr>) v = phys_to_virt_helper s v"
  by (simp_all add: virt_to_phys_helper_def phys_to_virt_helper_def)

lemma leaf_insert:
  assumes "page_tree s r" "path p" "length p \<le> 1" "i < 512"
    "table_at (tables s) r p = Some a" "\<not> pte_valid (tables s a i)" "new \<in> avail_pages s"
    "pte_valid e" "PTE_ADDR e = new"
    "T' = (tables s)(a := (tables s a)(i := e), new := (\<lambda>_. 0))"
    and ij: "i' < 512" "j' < 512"
  shows "leaf T' r i' j' k = leaf (tables s) r i' j' k"
proof -
  have q: "path [i', j']" using ij by (simp add: path_def)
  note ins = table_at_insert [OF assms(1-10) q]
  have T_other: "b \<noteq> new \<Longrightarrow> b \<noteq> a \<Longrightarrow> T' b k = tables s b k" for b by (simp add: assms(10))
  have none: "table_at (tables s) r (p @ [i]) = None"
    using assms(5,6) by (simp add: table_at_snoc)
  show ?thesis
  proof (cases "[i', j'] = p @ [i]")
    case True
    have "table_at T' r [i', j'] = Some new"
      using ins by (simp only: True if_True simp_thms)
    moreover have "table_at (tables s) r [i', j'] = None" by (simp only: True none)
    moreover have "T' new k = 0" by (simp add: assms(10))
    ultimately show ?thesis by (simp only: leaf_def option.case)
  next
    case False
    then have eq: "table_at T' r [i', j'] = table_at (tables s) r [i', j']"
      using ins by (simp only: if_False)
    show ?thesis
    proof (cases "table_at (tables s) r [i', j']")
      case None
      then show ?thesis by (simp only: leaf_def eq option.case)
    next
      case (Some b)
      have "b \<noteq> new" using page_treeD(2) [OF assms(1) q Some] assms(7) by auto
      moreover have "b \<noteq> a"
        using page_treeD(3) [OF assms(1) q Some assms(2)] assms(3,5) by fastforce
      ultimately have "T' b k = tables s b k" by (rule T_other)
      then show ?thesis by (simp only: leaf_def eq Some option.case)
    qed
  qed
qed

lemma grows_insert:
  assumes inv: "physmem_inv s" and tree: "page_tree s r" and p: "path p" "length p \<le> 1"
    and i: "i < 512" and a: "table_at (tables s) r p = Some a"
    and nv: "\<not> pte_valid (tables s a i)"
    and alloc: "physmem_alloc_page s = (new, s1)" "new \<noteq> 0"
    and e: "pte_valid e" "PTE_ADDR e = new"
    and T': "T' = (tables s)(a := (tables s a)(i := e), new := (\<lambda>_. 0))"
    and P: "p @ [i] \<in> P"
  shows "grows r P s (s1\<lparr>tables := T'\<rparr>) \<and> table_at T' r (p @ [i]) = Some new"
proof -
  have new: "new \<in> avail_pages s" "new \<in> ram_pages" "avail_pages s1 = avail_pages s - {new}"
    "physmem_inv s1"
    using pm.alloc_nonzeroD [OF inv alloc] by auto
  note ins = table_at_insert [OF tree p i a nv new(1) e T']
  have here: "table_at T' r (p @ [i]) = Some new"
    using ins [OF path_snocI [OF p i]] by simp
  have tree': "page_tree (s1\<lparr>tables := T'\<rparr>) r"
    unfolding page_tree_def
  proof (intro allI impI)
    fix q x assume "path q \<and> table_at (tables (s1\<lparr>tables := T'\<rparr>)) r q = Some x"
    then have q: "path q" and x: "table_at T' r q = Some x" by auto
    have old: "x \<in> ram_pages \<and> x \<notin> avail_pages s \<and> x \<noteq> new"
      if "q \<noteq> p @ [i]"
      using that ins [OF q] x page_treeD [OF tree q] new(1) by auto
    have uniq: "q' = q" if q': "path q'" "table_at T' r q' = Some x" for q'
    proof (cases "q = p @ [i]")
      case True
      then have "x = new" using x here by simp
      then have "q' = p @ [i]"
        using ins [OF q'(1)] q' page_treeD(2) [OF tree q'(1)] new(1) by (auto split: if_splits)
      then show ?thesis using True by simp
    next
      case False
      then have sx: "table_at (tables s) r q = Some x" using ins [OF q] x by simp
      have "q' \<noteq> p @ [i]" using here q'(2) old [OF False] by auto
      then have "table_at (tables s) r q' = Some x" using ins [OF q'(1)] q'(2) by simp
      then show ?thesis by (rule page_treeD(3) [OF tree q sx q'(1)])
    qed
    show "x \<in> ram_pages \<and> x \<notin> avail_pages (s1\<lparr>tables := T'\<rparr>) \<and>
      (\<forall>q'. path q' \<and> table_at (tables (s1\<lparr>tables := T'\<rparr>)) r q' = Some x \<longrightarrow> q' = q)"
    proof (cases "q = p @ [i]")
      case True
      then have "x = new" using x here by simp
      then show ?thesis using new uniq by auto
    next
      case False
      then show ?thesis using old new uniq by auto
    qed
  qed
  have "\<And>q b. path q \<Longrightarrow> table_at (tables s) r q = Some b \<Longrightarrow> table_at T' r q = Some b"
    using ins a nv by (auto simp: table_at_snoc)
  moreover have "\<And>q. path q \<Longrightarrow> table_at (tables s) r q = None \<Longrightarrow> table_at T' r q \<noteq> None \<Longrightarrow>
      q \<in> P"
    using ins P by (auto split: if_splits)
  moreover have "tree_pages (s1\<lparr>tables := T'\<rparr>) r = insert new (tree_pages s r)"
  proof -
    have none: "table_at (tables s) r (p @ [i]) = None" by (simp add: table_at_snoc a nv)
    show ?thesis
    proof (intro set_eqI iffI)
      fix x assume "x \<in> tree_pages (s1\<lparr>tables := T'\<rparr>) r"
      then obtain q where "path q" "table_at T' r q = Some x"
        by (auto simp: tree_pages_def in_tree_def)
      then show "x \<in> insert new (tree_pages s r)"
        using ins [of q] by (auto split: if_splits intro: tree_pagesI)
    next
      fix x assume "x \<in> insert new (tree_pages s r)"
      then consider "x = new" | q where "path q" "table_at (tables s) r q = Some x"
        by (auto simp: tree_pages_def in_tree_def)
      then show "x \<in> tree_pages (s1\<lparr>tables := T'\<rparr>) r"
      proof cases
        case 1
        then show ?thesis using here path_snocI [OF p i] by (auto intro: tree_pagesI)
      next
        case 2
        then have "table_at T' r q = Some x" using ins [of q] none by auto
        then show ?thesis using 2(1) by (auto intro: tree_pagesI)
      qed
    qed
  qed
  then have "avail_pages s1 \<union> tree_pages (s1\<lparr>tables := T'\<rparr>) r = avail_pages s \<union> tree_pages s r"
    using new by auto
  moreover have "\<And>x. \<not> in_tree s r x \<Longrightarrow> x \<notin> avail_pages s \<Longrightarrow> T' x = tables s x"
    using new(1) a p by (auto simp: T' in_tree_def)
  moreover have "\<And>i' j' k. i' < 512 \<Longrightarrow> j' < 512 \<Longrightarrow> leaf T' r i' j' k = leaf (tables s) r i' j' k"
    using leaf_insert [OF tree p i a nv new(1) e T'] by blast
  ultimately show ?thesis
    using here tree' new physmem_alloc_frame [OF alloc(1)] by (simp add: grows_def)
qed

subsection \<open>One level of the walk, and the whole walk\<close>

lemma next_table_spec:
  assumes inv: "physmem_inv s" and tree: "page_tree s r" and p: "path p" "length p \<le> 1"
    and i: "i < 512" and v: "table_at (tables s) r p = Some (virt_to_phys_helper s v)"
    and nt: "next_table (v, i) alloc s = (res, t)"
    and P: "p @ [i] \<in> P"
  shows "grows r P s t" and "\<not> alloc \<Longrightarrow> t = s"
    and "res = Some v' \<Longrightarrow> table_at (tables t) r (p @ [i]) = Some (virt_to_phys_helper t v')"
    and "res = None \<Longrightarrow> t = s \<and> table_at (tables s) r (p @ [i]) = None \<and>
      (alloc \<longrightarrow> avail_pages s = {})"
proof -
  define a where "a = virt_to_phys_helper s v"
  have rd: "read_pte s (v, i) = tables s a i" by (simp add: read_pte_def a_def)
  have va: "table_at (tables s) r p = Some a" using v by (simp add: a_def)
  have "grows r P s t \<and> (\<not> alloc \<longrightarrow> t = s) \<and>
    (\<forall>v'. res = Some v' \<longrightarrow> table_at (tables t) r (p @ [i]) = Some (virt_to_phys_helper t v')) \<and>
    (res = None \<longrightarrow> t = s \<and> table_at (tables s) r (p @ [i]) = None \<and>
      (alloc \<longrightarrow> avail_pages s = {}))"
  proof (cases "pte_valid (tables s a i)")
    case True
    then show ?thesis using nt grows_refl [OF inv tree] va
      by (auto simp: next_table_def rd table_at_snoc)
  next
    case nv: False
    then have none: "table_at (tables s) r (p @ [i]) = None" by (simp add: table_at_snoc va)
    show ?thesis
    proof (cases alloc)
      case False
      then show ?thesis using nt nv none grows_refl [OF inv tree]
        by (auto simp: next_table_def rd)
    next
      case True
      obtain new s1 where al: "physmem_alloc_page s = (new, s1)" by (cases "physmem_alloc_page s")
      show ?thesis
      proof (cases "new = 0")
        case z: True
        then have "s1 = s \<and> avail_pages s = {}" using pm.alloc_zeroD [OF inv] al by simp
        then show ?thesis using nt nv True z al none grows_refl [OF inv tree]
          by (auto simp: next_table_def rd)
      next
        case nz: False
        let ?e = "MAKE_PTE new PTE_V"
        let ?T = "(tables s)(a := (tables s a)(i := ?e), new := (\<lambda>_. 0))"
        have new: "new \<in> avail_pages s" "new \<in> ram_pages"
          using pm.alloc_nonzeroD [OF inv al nz] by auto
        have e: "pte_valid ?e" "PTE_ADDR ?e = new"
          using pte_addr_ok_ram [OF new(2)] by (simp_all add: PTE_ADDR_MAKE_PTE)
        note ins = grows_insert [OF inv tree p i va nv al nz e refl P]
        have "a \<noteq> new" using page_treeD(2) [OF tree p(1) va] new(1) by auto
        moreover have "virt_to_phys_helper s1 v = a"
          using physmem_alloc_frame(2) [OF al] by (simp add: a_def virt_to_phys_helper_def)
        ultimately have "next_table (v, i) alloc s =
            (Some (phys_to_virt_helper s1 new), s1\<lparr>tables := ?T\<rparr>)"
          using True nv nz al e physmem_alloc_frame [OF al]
          by (simp add: next_table_def write_pte_def clear_table_def Let_def read_pte_def
              a_def [symmetric])
        then show ?thesis using nt ins True by auto
      qed
    qed
  qed
  then show "grows r P s t" "\<not> alloc \<Longrightarrow> t = s"
    "res = Some v' \<Longrightarrow> table_at (tables t) r (p @ [i]) = Some (virt_to_phys_helper t v')"
    "res = None \<Longrightarrow> t = s \<and> table_at (tables s) r (p @ [i]) = None \<and>
      (alloc \<longrightarrow> avail_pages s = {})"
    by blast+
qed

abbreviation root_of :: "'a vm_scheme \<Rightarrow> u64 \<Rightarrow> u64" where
  "root_of s pagetable \<equiv> virt_to_phys_helper s pagetable"

text \<open>The translation a page table gives for a virtual page, as an entry.\<close>

definition entry :: "'a vm_scheme \<Rightarrow> u64 \<Rightarrow> u64 \<Rightarrow> u64" where
  "entry s pagetable va =
     leaf (tables s) (root_of s pagetable) (VPN2 va) (VPN1 va) (VPN0 va)"

definition walk_paths :: "u64 \<Rightarrow> nat list set" where
  "walk_paths va = {[VPN2 va], [VPN2 va, VPN1 va]}"

lemma walk_spec:
  assumes inv: "physmem_inv s" and tree: "page_tree s (root_of s pt)"
    and w: "walk pt va alloc s = (res, t)"
  shows "grows (root_of s pt) (walk_paths va) s t" and "\<not> alloc \<Longrightarrow> t = s"
    and "res = Some q \<Longrightarrow>
      table_at (tables t) (root_of s pt) [VPN2 va, VPN1 va] = Some (virt_to_phys_helper t (fst q))
      \<and> snd q = VPN0 va"
    and "res = None \<Longrightarrow> entry s pt va = 0 \<and> (alloc \<longrightarrow> avail_pages t = {})"
proof -
  let ?r = "root_of s pt"
  let ?P = "walk_paths va"
  have P: "[] @ [VPN2 va] \<in> ?P" "[VPN2 va] @ [VPN1 va] \<in> ?P"
    by (simp_all add: walk_paths_def)
  obtain r1 s1 where n1: "next_table (pt, VPN2 va) alloc s = (r1, s1)"
    by (cases "next_table (pt, VPN2 va) alloc s")
  have p0: "path []" "path [VPN2 va]" by (simp_all add: path_def)
  have g1: "grows ?r ?P s s1" and na1: "\<not> alloc \<Longrightarrow> s1 = s"
    using next_table_spec(1,2) [OF inv tree p0(1) _ _ _ n1 P(1)] by auto
  have inv1: "physmem_inv s1" "page_tree s1 ?r" "paging_active s1 = paging_active s"
    using g1 by (auto simp: grows_def)
  have "grows ?r ?P s t \<and> (\<not> alloc \<longrightarrow> t = s) \<and>
    (\<forall>q. res = Some q \<longrightarrow> table_at (tables t) ?r [VPN2 va, VPN1 va] =
       Some (virt_to_phys_helper t (fst q)) \<and> snd q = VPN0 va) \<and>
    (res = None \<longrightarrow> entry s pt va = 0 \<and> (alloc \<longrightarrow> avail_pages t = {}))"
  proof (cases r1)
    case None
    then have "s1 = s \<and> table_at (tables s) ?r [VPN2 va] = None \<and> (alloc \<longrightarrow> avail_pages s = {})"
      using next_table_spec(4) [OF inv tree p0(1) _ _ _ n1 P(1)] by simp
    moreover have "res = None" "t = s1" using w n1 None by (auto simp: walk_def)
    ultimately show ?thesis
      using g1 by (simp add: entry_def leaf_def split: if_splits)
  next
    case (Some v1)
    have v1: "table_at (tables s1) ?r [VPN2 va] = Some (virt_to_phys_helper s1 v1)"
      using next_table_spec(3) [OF inv tree p0(1) _ _ _ n1 P(1) Some] by simp
    obtain r2 s2 where n2: "next_table (v1, VPN1 va) alloc s1 = (r2, s2)"
      by (cases "next_table (v1, VPN1 va) alloc s1")
    note spec2 = next_table_spec [OF inv1(1,2) p0(2) _ _ v1 n2 P(2)]
    have g2: "grows ?r ?P s1 s2" and na2: "\<not> alloc \<Longrightarrow> s2 = s1" using spec2(1,2) by auto
    have t: "t = s2" using w n1 n2 Some by (auto simp: walk_def split: option.splits)
    have g: "grows ?r ?P s t" using grows_trans [OF g1 g2] t by simp
    show ?thesis
    proof (cases r2)
      case None
      then have "table_at (tables s1) ?r ([VPN2 va] @ [VPN1 va]) = None"
        "s2 = s1 \<and> (alloc \<longrightarrow> avail_pages s1 = {})"
        using spec2(4) by auto
      then have "leaf (tables s1) ?r (VPN2 va) (VPN1 va) (VPN0 va) = 0"
        by (simp add: leaf_def del: table_at.simps)
      then have "entry s pt va = 0" using grows_leaf [OF g1] by (simp add: entry_def)
      moreover have "res = None" using w n1 n2 Some None by (simp add: walk_def)
      ultimately show ?thesis using g t na1 na2 \<open>s2 = s1 \<and> _\<close> by auto
    next
      case r2: (Some v2)
      then have "res = Some (v2, VPN0 va)" using w n1 n2 Some by (simp add: walk_def)
      moreover have "table_at (tables s2) ?r [VPN2 va, VPN1 va] = Some (virt_to_phys_helper s2 v2)"
        using spec2(3) [OF _ _ r2] by simp
      ultimately show ?thesis using g t na1 na2 by auto
    qed
  qed
  then show "grows ?r ?P s t" "\<not> alloc \<Longrightarrow> t = s"
    "res = Some q \<Longrightarrow> table_at (tables t) ?r [VPN2 va, VPN1 va] =
       Some (virt_to_phys_helper t (fst q)) \<and> snd q = VPN0 va"
    "res = None \<Longrightarrow> entry s pt va = 0 \<and> (alloc \<longrightarrow> avail_pages t = {})"
    by blast+
qed

subsection \<open>Virtual pages\<close>

text \<open>The number of the virtual page of an address, as SV39 counts it (27 bits).\<close>

definition vpage :: "u64 \<Rightarrow> nat" where
  "vpage va = (unat va div 4096) mod 2 ^ 27"

lemma VPN_eqs:
  "VPN0 va = (unat va div 4096) mod 512"
  "VPN1 va = (unat va div 4096) div 512 mod 512"
  "VPN2 va = (unat va div 4096) div (512 * 512) mod 512"
proof -
  have m: "unat (x AND 0x1FF) = unat x mod 512" for x :: u64
  proof -
    have "x AND 0x1FF = take_bit 9 x"
      by (simp add: take_bit_eq_mask mask_eq_exp_minus_1)
    then have "unat (x AND 0x1FF) = take_bit 9 (unat x)"
      by (simp only: unsigned_take_bit_eq)
    then show ?thesis by (simp add: take_bit_eq_mod)
  qed
  show "VPN0 va = (unat va div 4096) mod 512"
    "VPN1 va = (unat va div 4096) div 512 mod 512"
    "VPN2 va = (unat va div 4096) div (512 * 512) mod 512"
    by (simp_all add: VPN0_def VPN1_def VPN2_def m unat_drop_bit_eq drop_bit_eq_div unat_div
        div_mult2_eq [symmetric])
qed

lemma same_vpns_iff:
  "VPN2 a = VPN2 b \<and> VPN1 a = VPN1 b \<and> VPN0 a = VPN0 b \<longleftrightarrow> vpage a = vpage b"
proof -
  have n: "n mod 2 ^ 27 = 512 * (512 * (n div (512 * 512) mod 512) + n div 512 mod 512) + n mod 512"
    for n :: nat
  proof -
    have "n mod (512 * (512 * 512)) = 512 * (n div 512 mod (512 * 512)) + n mod 512"
      by (rule mod_mult2_eq)
    also have "n div 512 mod (512 * 512) = 512 * (n div 512 div 512 mod 512) + n div 512 mod 512"
      by (rule mod_mult2_eq)
    finally show ?thesis by (simp add: div_mult2_eq [symmetric])
  qed
  have eqs: "vpage a = 512 * (512 * VPN2 a + VPN1 a) + VPN0 a"
    "vpage b = 512 * (512 * VPN2 b + VPN1 b) + VPN0 b"
    unfolding vpage_def VPN_eqs by (rule n)+
  have uniq: "512 * q + r = 512 * q' + r' \<Longrightarrow> r < 512 \<Longrightarrow> r' < 512 \<Longrightarrow> q = q' \<and> r = r'"
    for q q' r r' :: nat
    using digits_unique [of 512 q r q' r'] by simp
  show ?thesis
  proof
    assume "vpage a = vpage b"
    then have "512 * (512 * VPN2 a + VPN1 a) + VPN0 a = 512 * (512 * VPN2 b + VPN1 b) + VPN0 b"
      by (simp only: eqs)
    from uniq [OF this VPN_bounds(3) VPN_bounds(3)]
    have *: "512 * VPN2 a + VPN1 a = 512 * VPN2 b + VPN1 b" "VPN0 a = VPN0 b" by blast+
    from uniq [OF *(1) VPN_bounds(2) VPN_bounds(2)] *(2)
    show "VPN2 a = VPN2 b \<and> VPN1 a = VPN1 b \<and> VPN0 a = VPN0 b" by blast
  qed (simp add: eqs)
qed

lemma vpage_small: "unat va < 2 ^ 39 \<Longrightarrow> vpage va = unat va div 4096"
  by (simp add: vpage_def less_mult_imp_div_less)

subsection \<open>Effect of the operations on translations\<close>

lemma walk_page_table_entry:
  assumes "physmem_inv s" "page_tree s (root_of s pt)"
  shows "walk_page_table pt va s =
    (if pte_valid (entry s pt va) then PTE_ADDR (entry s pt va) + (va AND 0xFFF) else 0)"
proof -
  obtain res t where w: "walk pt va False s = (res, t)" by (cases "walk pt va False s")
  note ws = walk_spec [OF assms w]
  have t: "t = s" using ws(2) by simp
  show ?thesis
  proof (cases res)
    case None
    then show ?thesis using ws(4) w by (simp add: walk_page_table_def)
  next
    case (Some q)
    have "read_pte s q = entry s pt va"
      using ws(3) [OF Some] t
      by (simp add: read_pte_def entry_def leaf_def del: table_at.simps)
    then show ?thesis using w Some t by (simp add: walk_page_table_def PAGE_SIZE_def)
  qed
qed

text \<open>Writing the entry a walk returned: only the translation of that page changes.\<close>

lemma write_leaf:
  assumes tree: "page_tree t r" and inv: "physmem_inv t"
    and q: "table_at (tables t) r [VPN2 va, VPN1 va] = Some (virt_to_phys_helper t (fst q))"
      "snd q = VPN0 va"
  shows "page_tree (write_pte q e t) r" "physmem_inv (write_pte q e t)"
    and "leaf (tables (write_pte q e t)) r (VPN2 va') (VPN1 va') (VPN0 va') =
      (if vpage va' = vpage va then e else leaf (tables t) r (VPN2 va') (VPN1 va') (VPN0 va'))"
    and "path q' \<Longrightarrow> table_at (tables (write_pte q e t)) r q' = table_at (tables t) r q'"
    and "tree_pages (write_pte q e t) r = tree_pages t r"
    and "\<not> in_tree t r x \<Longrightarrow> tables (write_pte q e t) x = tables t x"
proof -
  define a where "a = virt_to_phys_helper t (fst q)"
  have p: "path [VPN2 va, VPN1 va]" by (simp add: path_def)
  have a: "table_at (tables t) r [VPN2 va, VPN1 va] = Some a" using q by (simp add: a_def)
  have wr: "write_pte q e t = t\<lparr>tables := (tables t)(a := (tables t a)(VPN0 va := e))\<rparr>"
    by (simp add: write_pte_def Let_def a_def q(2))
  have same: "table_at (tables (write_pte q e t)) r p' = table_at (tables t) r p'" if "path p'" for p'
    using table_at_leaf_update [OF tree p _ a that] by (simp add: wr)
  show "physmem_inv (write_pte q e t)" using inv by (simp add: wr)
  have "path p' \<and> table_at (tables (write_pte q e t)) r p' = Some x \<longleftrightarrow>
      path p' \<and> table_at (tables t) r p' = Some x" for p' x
    using same [of p'] by auto
  moreover have "avail_pages (write_pte q e t) = avail_pages t" by (simp add: wr)
  ultimately show "page_tree (write_pte q e t) r"
    using tree unfolding page_tree_def by (simp only:)
  show "path q' \<Longrightarrow> table_at (tables (write_pte q e t)) r q' = table_at (tables t) r q'"
    by (rule same)
  show "tree_pages (write_pte q e t) r = tree_pages t r"
    using same by (auto simp: tree_pages_def in_tree_def)
  show "\<not> in_tree t r x \<Longrightarrow> tables (write_pte q e t) x = tables t x"
    using a p by (auto simp: wr in_tree_def)
  show "leaf (tables (write_pte q e t)) r (VPN2 va') (VPN1 va') (VPN0 va') =
      (if vpage va' = vpage va then e else leaf (tables t) r (VPN2 va') (VPN1 va') (VPN0 va'))"
  proof (cases "vpage va' = vpage va")
    case True
    then have "VPN2 va' = VPN2 va" "VPN1 va' = VPN1 va" "VPN0 va' = VPN0 va"
      using same_vpns_iff by blast+
    then show ?thesis using True same [OF p] a
      by (simp add: leaf_def wr del: table_at.simps)
  next
    case False
    have p': "path [VPN2 va', VPN1 va']" by (simp add: path_def)
    show ?thesis
    proof (cases "table_at (tables t) r [VPN2 va', VPN1 va']")
      case None
      then show ?thesis using same [OF p'] False by (simp add: leaf_def del: table_at.simps)
    next
      case (Some b)
      have "\<not> (b = a \<and> VPN0 va' = VPN0 va)"
        using page_treeD(3) [OF tree p a p'] Some False same_vpns_iff [of va' va] by auto
      then show ?thesis using same [OF p'] Some False
        by (auto simp: leaf_def wr simp del: table_at.simps)
    qed
  qed
qed

lemma root_of_write [simp]: "root_of (write_pte q e t) v = root_of t v"
  by (simp add: write_pte_def Let_def)

lemma map_page_spec:
  assumes inv: "physmem_inv s" and tree: "page_tree s (root_of s pt)"
    and m: "map_page pt va pa f s = (res, t)"
  shows "physmem_inv t \<and> page_tree t (root_of t pt) \<and> root_of t pt = root_of s pt"
    and "res = 0 \<or> res = - 1"
    and "res = 0 \<Longrightarrow> \<not> pte_valid (entry s pt va) \<and>
      entry t pt va' = (if vpage va' = vpage va then MAKE_PTE pa (f OR PTE_V) else entry s pt va')"
    and "res = - 1 \<Longrightarrow> entry t pt va' = entry s pt va' \<and>
      (pte_valid (entry s pt va) \<or> avail_pages t = {})"
    and "paging_active t = paging_active s \<and> kernel_pagetable t = kernel_pagetable s \<and>
      avail_pages t \<subseteq> avail_pages s"
    and "\<not> in_tree s (root_of s pt) x \<Longrightarrow> x \<notin> avail_pages s \<Longrightarrow> tables t x = tables s x"
    and "avail_pages t \<union> tree_pages t (root_of s pt) = avail_pages s \<union> tree_pages s (root_of s pt)"
    and "path p \<Longrightarrow> table_at (tables s) (root_of s pt) p = None \<Longrightarrow>
      table_at (tables t) (root_of s pt) p \<noteq> None \<Longrightarrow> p \<in> walk_paths va"
    and "path p \<Longrightarrow> table_at (tables s) (root_of s pt) p = Some x \<Longrightarrow>
      table_at (tables t) (root_of s pt) p = Some x"
proof -
  let ?r = "root_of s pt"
  obtain w s1 where w: "walk pt va True s = (w, s1)" by (cases "walk pt va True s")
  note ws = walk_spec [OF inv tree w]
  have g: "grows ?r (walk_paths va) s s1" by (rule ws(1))
  then have s1: "physmem_inv s1" "page_tree s1 ?r" "paging_active s1 = paging_active s"
    "kernel_pagetable s1 = kernel_pagetable s" "avail_pages s1 \<subseteq> avail_pages s"
    by (auto simp: grows_def)
  have r1: "root_of s1 pt = ?r" using s1(3) by (simp add: virt_to_phys_helper_def)
  have e1: "entry s1 pt va' = entry s pt va'" for va'
    using grows_leaf [OF g] by (simp add: entry_def r1)
  have frame1: "\<not> in_tree s ?r x \<Longrightarrow> x \<notin> avail_pages s \<Longrightarrow> tables s1 x = tables s x"
    for x
    using g by (auto simp: grows_def)
  have cons1: "avail_pages s1 \<union> tree_pages s1 ?r = avail_pages s \<union> tree_pages s ?r"
    "path p \<Longrightarrow> table_at (tables s) ?r p = None \<Longrightarrow> table_at (tables s1) ?r p \<noteq> None \<Longrightarrow>
      p \<in> walk_paths va"
    "path p \<Longrightarrow> table_at (tables s) ?r p = Some x \<Longrightarrow> table_at (tables s1) ?r p = Some x"
    using g by (auto simp: grows_def)
  have "(physmem_inv t \<and> page_tree t (root_of t pt) \<and> root_of t pt = root_of s pt) \<and>
    (res = 0 \<or> res = - 1) \<and>
    (res = 0 \<longrightarrow> \<not> pte_valid (entry s pt va) \<and>
      entry t pt va' = (if vpage va' = vpage va then MAKE_PTE pa (f OR PTE_V) else entry s pt va')) \<and>
    (res = - 1 \<longrightarrow> entry t pt va' = entry s pt va' \<and>
      (pte_valid (entry s pt va) \<or> avail_pages t = {})) \<and>
    (paging_active t = paging_active s \<and> kernel_pagetable t = kernel_pagetable s \<and>
      avail_pages t \<subseteq> avail_pages s) \<and>
    (\<not> in_tree s ?r x \<longrightarrow> x \<notin> avail_pages s \<longrightarrow> tables t x = tables s x) \<and>
    avail_pages t \<union> tree_pages t ?r = avail_pages s \<union> tree_pages s ?r \<and>
    (path p \<longrightarrow> table_at (tables s) ?r p = None \<longrightarrow> table_at (tables t) ?r p \<noteq> None \<longrightarrow>
      p \<in> walk_paths va) \<and>
    (path p \<longrightarrow> table_at (tables s) ?r p = Some x \<longrightarrow> table_at (tables t) ?r p = Some x)"
  proof (cases w)
    case None
    then have "t = s1" "res = - 1" using m w by (simp_all add: map_page_def)
    then show ?thesis using s1 r1 e1 frame1 cons1 ws(4) None by simp
  next
    case (Some q)
    note q = ws(3) [OF Some]
    have rd: "read_pte s1 q = entry s pt va"
      using q r1 e1 [of va] by (simp add: read_pte_def entry_def leaf_def del: table_at.simps)
    show ?thesis
    proof (cases "pte_valid (entry s pt va)")
      case True
      then have "t = s1" "res = - 1" using m w Some rd by (simp_all add: map_page_def)
      then show ?thesis using s1 r1 e1 frame1 cons1 True by simp
    next
      case False
      let ?e = "MAKE_PTE pa (f OR PTE_V)"
      have t: "t = write_pte q ?e s1" and res: "res = 0"
        using m w Some rd False by (simp_all add: map_page_def)
      note wl = write_leaf [OF s1(2,1), where va = va and q = q and e = ?e]
      have "entry t pt va' = (if vpage va' = vpage va then ?e else entry s pt va')"
        using wl(3) [OF _ _] q r1 e1 [of va'] by (simp add: t entry_def)
      moreover have "paging_active t = paging_active s1" "kernel_pagetable t = kernel_pagetable s1"
        "avail_pages t = avail_pages s1"
        by (simp_all add: t write_pte_def Let_def)
      moreover have "\<not> in_tree s ?r x \<Longrightarrow> x \<notin> avail_pages s \<Longrightarrow> tables t x = tables s x"
      proof -
        assume x: "\<not> in_tree s ?r x" "x \<notin> avail_pages s"
        then have "x \<notin> avail_pages s1 \<union> tree_pages s1 ?r"
          unfolding cons1(1) by (simp add: tree_pages_def)
        then show ?thesis using wl(6) [of x] q frame1 [OF x] by (simp add: t tree_pages_def)
      qed
      moreover have "tree_pages t ?r = tree_pages s1 ?r"
        using wl(5) q by (simp add: t)
      moreover have "path p \<Longrightarrow> table_at (tables t) ?r p = table_at (tables s1) ?r p"
        using wl(4) q by (simp add: t)
      ultimately show ?thesis using s1 r1 cons1 wl(1,2) q False res by (simp add: t)
    qed
  qed
  then show "physmem_inv t \<and> page_tree t (root_of t pt) \<and> root_of t pt = root_of s pt"
    "res = 0 \<or> res = - 1"
    "res = 0 \<Longrightarrow> \<not> pte_valid (entry s pt va) \<and>
      entry t pt va' = (if vpage va' = vpage va then MAKE_PTE pa (f OR PTE_V) else entry s pt va')"
    "res = - 1 \<Longrightarrow> entry t pt va' = entry s pt va' \<and>
      (pte_valid (entry s pt va) \<or> avail_pages t = {})"
    "paging_active t = paging_active s \<and> kernel_pagetable t = kernel_pagetable s \<and>
      avail_pages t \<subseteq> avail_pages s"
    "\<not> in_tree s ?r x \<Longrightarrow> x \<notin> avail_pages s \<Longrightarrow> tables t x = tables s x"
    "avail_pages t \<union> tree_pages t ?r = avail_pages s \<union> tree_pages s ?r"
    "path p \<Longrightarrow> table_at (tables s) ?r p = None \<Longrightarrow> table_at (tables t) ?r p \<noteq> None \<Longrightarrow>
      p \<in> walk_paths va"
    "path p \<Longrightarrow> table_at (tables s) ?r p = Some x \<Longrightarrow> table_at (tables t) ?r p = Some x"
    by blast+
qed

end
