(* ===== verification/Address_Spaces.thy ===== *)
theory Address_Spaces
  imports Page_Trees
begin

text \<open>
  The properties of \<open>kernel/mem/paging.c\<close>: what \<open>create_page_table\<close>, \<open>map_page\<close>,
  \<open>unmap_page\<close> and \<open>walk_page_table\<close> do to the translations of one address space, that they
  leave every other address space alone, and which addresses the table built by
  \<open>paging_init\<close> maps.
\<close>

unbundle bit_operations_syntax

subsection \<open>New, unmapped and foreign tables\<close>

lemma empty_tree:
  assumes "tables t r = (\<lambda>_. 0)" "r \<in> ram_pages" "r \<notin> avail_pages t"
  shows "page_tree t r" "leaf (tables t) r i j k = 0" "tree_pages t r = {r}"
proof -
  have at: "table_at (tables t) r p = (if p = [] then Some r else None)" for p
    using assms(1) by (cases p) auto
  show "page_tree t r" using assms(2,3) by (auto simp: page_tree_def at split: if_splits)
  show "leaf (tables t) r i j k = 0" by (simp add: leaf_def at del: table_at.simps)
  show "tree_pages t r = {r}"
    by (auto simp: tree_pages_def in_tree_def at path_def split: if_splits)
qed

lemma phys_to_virt_ram_nonzero: "p \<in> ram_pages \<Longrightarrow> phys_to_virt p \<noteq> 0"
proof -
  assume "p \<in> ram_pages"
  then obtain i where i: "i < NUM_PAGES" "p = page_addr i" by (auto simp: ram_pages_def)
  then have "unat (phys_to_virt p) = 0xC0000000 + i * 4096"
    using unat_page_addr [OF i(1)]
    by (simp add: phys_to_virt_def PHYS_TO_VIRT_OFFSET_def KERNEL_VIRT_BASE_def
        KERNEL_BASE_ADDR_def NUM_PAGES_def unat_word_ariths)
  then show ?thesis by auto
qed

lemma create_page_table_spec:
  assumes "physmem_inv s" "create_page_table s = (pt, t)"
  shows "if avail_pages s = {} then pt = 0 \<and> t = s
    else pt \<noteq> 0 \<and> root_of t pt \<in> avail_pages s \<and> avail_pages t = avail_pages s - {root_of t pt} \<and>
      physmem_inv t \<and> paging_active t = paging_active s \<and>
      kernel_pagetable t = kernel_pagetable s \<and>
      tables t = (tables s)(root_of t pt := (\<lambda>_. 0))"
proof -
  obtain p s1 where al: "physmem_alloc_page s = (p, s1)" by (cases "physmem_alloc_page s")
  show ?thesis
  proof (cases "p = 0")
    case True
    then show ?thesis
      using pm.alloc_zeroD [OF assms(1)] al assms(2) by (auto simp: create_page_table_def)
  next
    case False
    note nz = pm.alloc_nonzeroD [OF assms(1) al False]
    have "phys_to_virt_helper s1 p \<noteq> 0"
      using nz phys_to_virt_ram_nonzero [of p] False by (simp add: phys_to_virt_helper_def)
    moreover have pt: "pt = phys_to_virt_helper s1 p"
      and t: "t = clear_table (phys_to_virt_helper s1 p) s1"
      using al False assms(2) by (auto simp: create_page_table_def Let_def)
    ultimately have nonzero: "pt \<noteq> 0" by simp
    have t2: "t = s1\<lparr>tables := (tables s)(p := (\<lambda>_. 0))\<rparr>"
      using physmem_alloc_frame(1) [OF al] by (simp add: t clear_table_def)
    have r: "root_of t pt = p" by (simp add: pt t2)
    have "avail_pages s \<noteq> {}" using nz by blast
    then show ?thesis
      unfolding r using nonzero nz physmem_alloc_frame [OF al] by (simp add: t2)
  qed
qed

lemma other_tree_frame:
  assumes tree: "page_tree s r" and same: "\<And>x. in_tree s r x \<Longrightarrow> tables t x = tables s x"
    and av: "avail_pages t \<subseteq> avail_pages s"
  shows "page_tree t r" "leaf (tables t) r (VPN2 va) (VPN1 va) (VPN0 va) =
      leaf (tables s) r (VPN2 va) (VPN1 va) (VPN0 va)"
    and "in_tree t r x \<longleftrightarrow> in_tree s r x"
proof -
  have at: "table_at (tables t) r p = table_at (tables s) r p" if "path p" for p
    using that
  proof (induction p rule: rev_induct)
    case (snoc k p)
    then have p: "path p" using path_snocD by blast
    then have "in_tree s r b" if "table_at (tables s) r p = Some b" for b
      using that by (auto simp: in_tree_def)
    with snoc.IH p same show ?case
      by (auto simp: table_at_snoc split: option.splits)
  qed simp
  have "path p \<and> table_at (tables t) r p = Some a \<longleftrightarrow> path p \<and> table_at (tables s) r p = Some a"
    for p a using at by auto
  then show "page_tree t r" using tree av unfolding page_tree_def by (metis subsetD)
  show "in_tree t r x \<longleftrightarrow> in_tree s r x" using at by (auto simp: in_tree_def)
  have p: "path [VPN2 va, VPN1 va]" by (simp add: path_def)
  show "leaf (tables t) r (VPN2 va) (VPN1 va) (VPN0 va) =
      leaf (tables s) r (VPN2 va) (VPN1 va) (VPN0 va)"
  proof (cases "table_at (tables s) r [VPN2 va, VPN1 va]")
    case None
    then show ?thesis using at [OF p] by (simp add: leaf_def del: table_at.simps)
  next
    case (Some b)
    then have "in_tree s r b" using p unfolding in_tree_def by blast
    then have "tables t b = tables s b" by (rule same)
    then show ?thesis using at [OF p] Some by (simp add: leaf_def del: table_at.simps)
  qed
qed

lemma unmap_page_spec:
  assumes inv: "physmem_inv s" and tree: "page_tree s (root_of s pt)"
  shows "physmem_inv (unmap_page pt va s) \<and> page_tree (unmap_page pt va s) (root_of s pt) \<and>
      root_of (unmap_page pt va s) pt = root_of s pt \<and>
      avail_pages (unmap_page pt va s) = avail_pages s"
    and "\<not> pte_valid (entry (unmap_page pt va s) pt va)"
    and "vpage va' \<noteq> vpage va \<Longrightarrow> entry (unmap_page pt va s) pt va' = entry s pt va'"
proof -
  obtain w t where w: "walk pt va False s = (w, t)" by (cases "walk pt va False s")
  note ws = walk_spec [OF inv tree w]
  have ts: "t = s" using ws(2) by simp
  have "(physmem_inv (unmap_page pt va s) \<and> page_tree (unmap_page pt va s) (root_of s pt) \<and>
      root_of (unmap_page pt va s) pt = root_of s pt \<and>
      avail_pages (unmap_page pt va s) = avail_pages s) \<and>
    \<not> pte_valid (entry (unmap_page pt va s) pt va) \<and>
    (vpage va' \<noteq> vpage va \<longrightarrow> entry (unmap_page pt va s) pt va' = entry s pt va')"
  proof (cases w)
    case None
    then have "unmap_page pt va s = s" using w ts by (simp add: unmap_page_def)
    then show ?thesis using ws(4) None inv tree by simp
  next
    case (Some q)
    note q = ws(3) [OF Some, unfolded ts]
    have rd: "read_pte s q = entry s pt va"
      using q by (simp add: read_pte_def entry_def leaf_def del: table_at.simps)
    show ?thesis
    proof (cases "pte_valid (entry s pt va)")
      case True
      then have u: "unmap_page pt va s = write_pte q 0 s"
        using w Some ts rd by (simp add: unmap_page_def)
      note wl = write_leaf [OF tree inv, where va = va and q = q and e = 0]
      show ?thesis using wl(1,2) wl(3) [of va] wl(3) [of va'] q
        by (simp add: u entry_def) (simp add: write_pte_def Let_def)
    next
      case False
      then have "unmap_page pt va s = s" using w Some ts rd by (simp add: unmap_page_def)
      then show ?thesis using False inv tree by simp
    qed
  qed
  then show "physmem_inv (unmap_page pt va s) \<and> page_tree (unmap_page pt va s) (root_of s pt) \<and>
      root_of (unmap_page pt va s) pt = root_of s pt \<and>
      avail_pages (unmap_page pt va s) = avail_pages s"
    "\<not> pte_valid (entry (unmap_page pt va s) pt va)"
    "vpage va' \<noteq> vpage va \<Longrightarrow> entry (unmap_page pt va s) pt va' = entry s pt va'"
    by blast+
qed

lemma map_page_succeeds:
  assumes inv: "physmem_inv s" and tree: "page_tree s (root_of s pt)"
    and nv: "\<not> pte_valid (entry s pt va)" and room: "3 \<le> card (avail_pages s)"
  shows "fst (map_page pt va pa f s) = 0"
proof (rule ccontr)
  obtain res t where m: "map_page pt va pa f s = (res, t)" by (cases "map_page pt va pa f s")
  note ms = map_page_spec [OF inv tree m]
  assume "fst (map_page pt va pa f s) \<noteq> 0"
  then have none: "avail_pages t = {}" using m ms(2,4) nv by auto
  define path_of where "path_of x = (SOME p. path p \<and> table_at (tables t) (root_of s pt) p = Some x)"
    for x
  have po: "path (path_of x) \<and> table_at (tables t) (root_of s pt) (path_of x) = Some x \<and>
      path_of x \<in> walk_paths va" if x: "x \<in> avail_pages s" for x
  proof -
    have "x \<in> tree_pages t (root_of s pt)" using ms(7) none x by blast
    then have "\<exists>p. path p \<and> table_at (tables t) (root_of s pt) p = Some x"
      by (simp add: tree_pages_def in_tree_def)
    then have p: "path (path_of x)" "table_at (tables t) (root_of s pt) (path_of x) = Some x"
      unfolding path_of_def by (metis (mono_tags, lifting) someI_ex)+
    have "table_at (tables s) (root_of s pt) (path_of x) = None"
    proof (cases "table_at (tables s) (root_of s pt) (path_of x)")
      case (Some y)
      then have "y = x" using ms(9) [OF p(1) Some] p(2) by simp
      then show ?thesis using page_treeD(2) [OF tree p(1) Some] x by simp
    qed
    then show ?thesis using ms(8) [OF p(1)] p by simp
  qed
  then have "inj_on path_of (avail_pages s)" by (metis inj_onI option.inject)
  then have "card (avail_pages s) = card (path_of ` avail_pages s)" by (simp add: card_image)
  also have "\<dots> \<le> card (walk_paths va)"
    using po by (intro card_mono) (auto simp: walk_paths_def)
  also have "\<dots> \<le> 2" by (simp add: walk_paths_def card_insert_if)
  finally show False using room by simp
qed

subsection \<open>Properties of one address space\<close>

text \<open>A state after boot with 16 pages of kernel, and one new page table, for the examples.\<close>

definition boot_vm :: vm where
  "boot_vm = physmem_init 0x80010000
     \<lparr>phys_bitmap = [], free_pages_count = 0, tables = (\<lambda>_ _. 0), kernel_pagetable = 0,
      paging_active = False, satp = 0\<rparr>"

lemma boot_vm_facts:
  "physmem_inv boot_vm" "card (avail_pages boot_vm) = 32752" "paging_active boot_vm = False"
proof -
  note spec = physmem_init_spec [of "0x80010000"
      "\<lparr>phys_bitmap = [], free_pages_count = 0, tables = (\<lambda>_ _. 0), kernel_pagetable = 0,
        paging_active = False, satp = 0\<rparr>"]
  show "physmem_inv boot_vm" using spec by (simp add: boot_vm_def)
  have "first_free_page 0x80010000 = 16" by (simp add: first_free_page_def Let_def layout_defs)
  then show "card (avail_pages boot_vm) = 32752"
    using spec by (simp add: boot_vm_def card_avail_pages NUM_PAGES_def)
  have "paging_active (mark_kernel_pages n s) = paging_active s" for n and s :: vm
    by (induction n) (simp_all add: mark_kernel_pages_Suc Let_def mark_page_allocated_def,
        simp add: mark_kernel_pages_def)
  then show "paging_active boot_vm = False" by (simp add: boot_vm_def physmem_init_def)
qed

lemma fresh_table_facts:
  assumes "physmem_inv s" "avail_pages s \<noteq> {}" "create_page_table s = (pt, t)"
  shows "pt \<noteq> 0" "physmem_inv t" "page_tree t (root_of t pt)" "entry t pt va = 0"
    and "card (avail_pages t) = card (avail_pages s) - 1"
    and "tree_pages t (root_of t pt) = {root_of t pt}"
proof -
  note spec = create_page_table_spec [OF assms(1,3)]
  have r: "root_of t pt \<in> ram_pages" "root_of t pt \<notin> avail_pages t"
    using spec assms(2) pm.avail_pages [OF assms(1)] by auto
  note et = empty_tree [of t "root_of t pt", OF _ r]
  show "pt \<noteq> 0" "physmem_inv t" using spec assms(2) by auto
  show "page_tree t (root_of t pt)" "entry t pt va = 0"
    "tree_pages t (root_of t pt) = {root_of t pt}"
    using et spec assms(2) by (auto simp: entry_def)
  show "card (avail_pages t) = card (avail_pages s) - 1"
    using spec assms(2) by (simp add: card_Diff_singleton)
qed

text \<open>C4: \<open>map_page\<close> establishes exactly the mapping asked for. Where the page was not mapped
  and at least three pages of RAM are free it returns 0; whenever it returns 0, every
  address of that page translates to the same offset in the physical page, and every other
  address translates as before; whenever it returns -1, no translation at all has changed.\<close>

theorem map_page_correct:
  assumes "physmem_inv s" "page_tree s (root_of s pt)"
    and "pte_addr_ok pa" "pte_flags_ok f"
    and "map_page pt va pa f s = (res, t)"
  shows "(walk_page_table pt va s = 0 \<and> \<not> pte_valid (entry s pt va) \<and> 3 \<le> card (avail_pages s)
      \<longrightarrow> res = 0) \<and>
    (res = 0 \<longrightarrow> walk_page_table pt va' t =
       (if vpage va' = vpage va then pa + (va' AND 0xFFF) else walk_page_table pt va' s)) \<and>
    (res \<noteq> 0 \<longrightarrow> res = - 1 \<and> walk_page_table pt va' t = walk_page_table pt va' s)"
proof -
  note ms = map_page_spec [OF assms(1,2,5)]
  have t: "physmem_inv t" "page_tree t (root_of t pt)" using ms(1) by auto
  note ws = walk_page_table_entry [OF assms(1,2)] and wt = walk_page_table_entry [OF t]
  have addr: "PTE_ADDR (MAKE_PTE pa (f OR PTE_V)) = pa"
    using assms(3,4) by (simp add: PTE_ADDR_MAKE_PTE)
  have "res = 0 \<Longrightarrow> walk_page_table pt va' t =
      (if vpage va' = vpage va then pa + (va' AND 0xFFF) else walk_page_table pt va' s)"
    using ms(3) [of va'] addr by (simp add: ws wt)
  moreover have "res \<noteq> 0 \<Longrightarrow> res = - 1 \<and> walk_page_table pt va' t = walk_page_table pt va' s"
    using ms(2) ms(4) [of va'] by (simp add: ws wt)
  moreover have "\<not> pte_valid (entry s pt va) \<Longrightarrow> 3 \<le> card (avail_pages s) \<Longrightarrow> res = 0"
    using map_page_succeeds [OF assms(1,2), of va pa f] assms(5) by simp
  ultimately show ?thesis by blast
qed

theorem map_page_correct_witness:
  "let (pt, s) = create_page_table boot_vm;
       (res, t) = map_page pt 0x5000 0x80042000 PTE_R s
   in res = 0 \<and> walk_page_table pt 0x5123 t = 0x80042123"
proof -
  obtain pt s where c: "create_page_table boot_vm = (pt, s)" by (cases "create_page_table boot_vm")
  obtain res t where m: "map_page pt 0x5000 0x80042000 PTE_R s = (res, t)"
    by (cases "map_page pt 0x5000 0x80042000 PTE_R s")
  have ne: "avail_pages boot_vm \<noteq> {}" using boot_vm_facts(2) by auto
  note f = fresh_table_facts [OF boot_vm_facts(1) ne c]
  have ok: "pte_addr_ok 0x80042000" "pte_flags_ok PTE_R"
    by (simp_all add: pte_addr_ok_def pte_flags_ok_def PTE_ADDR_MASK_def PTE_R_def)
  have pre: "\<not> pte_valid (entry s pt 0x5000)" "3 \<le> card (avail_pages s)"
    using f(4,5) boot_vm_facts(2) by simp_all
  have w0: "walk_page_table pt 0x5000 s = 0"
    using walk_page_table_entry [OF f(2,3)] f(4) by simp
  have "vpage 0x5123 = vpage 0x5000" by (simp add: vpage_def)
  then show ?thesis
    using map_page_correct [OF f(2,3) ok m, of "0x5123"] pre w0 c m by simp
qed

text \<open>C5: address spaces do not interfere. Mapping a page in one page table, whether the
  call succeeds or fails, leaves every translation of a page table that shares no page with
  it unchanged, and the two tables still share no page afterwards.\<close>

theorem map_page_isolated:
  assumes "physmem_inv s" "page_tree s (root_of s pt)" "page_tree s (root_of s other)"
    and "tree_pages s (root_of s pt) \<inter> tree_pages s (root_of s other) = {}"
    and "map_page pt va pa f s = (res, t)"
  shows "walk_page_table other va' t = walk_page_table other va' s \<and>
    page_tree t (root_of t other) \<and>
    tree_pages t (root_of t pt) \<inter> tree_pages t (root_of t other) = {}"
proof -
  note ms = map_page_spec [OF assms(1,2,5)]
  have t: "physmem_inv t" "root_of t pt = root_of s pt" using ms(1) by auto
  have ro: "root_of t other = root_of s other"
    using ms(5) by (simp add: virt_to_phys_helper_def)
  let ?o = "root_of s other"
  have out: "x \<notin> avail_pages s" "\<not> in_tree s (root_of s pt) x" if "in_tree s ?o x" for x
    using that assms(3,4) page_treeD(2) [OF assms(3)]
    by (auto simp: tree_pages_def in_tree_def)
  have same: "tables t x = tables s x" if "in_tree s ?o x" for x
    using ms(6) [of x] out [OF that] by blast
  have av: "avail_pages t \<subseteq> avail_pages s" using ms(5) by simp
  note fr = other_tree_frame [OF assms(3) same av]
  have "tree_pages t ?o = tree_pages s ?o" using fr(3) by (simp add: tree_pages_def)
  moreover have "tree_pages t (root_of s pt) \<subseteq> avail_pages s \<union> tree_pages s (root_of s pt)"
    using ms(7) by blast
  ultimately have "tree_pages t (root_of s pt) \<inter> tree_pages t ?o = {}"
    using out by (auto simp: tree_pages_def)
  moreover have "walk_page_table other va' t = walk_page_table other va' s"
    using walk_page_table_entry [OF assms(1,3)] walk_page_table_entry [OF t(1), of other] fr
    by (simp add: ro entry_def)
  ultimately show ?thesis using fr(1) t(2) ro by simp
qed

theorem map_page_isolated_witness:
  "let (a, s1) = create_page_table boot_vm; (b, s2) = create_page_table s1;
       (res, t) = map_page a 0x5000 0x80042000 PTE_R s2
   in walk_page_table b 0x5000 t = walk_page_table b 0x5000 s2"
proof -
  obtain a s1 where a: "create_page_table boot_vm = (a, s1)" by (cases "create_page_table boot_vm")
  obtain b s2 where b: "create_page_table s1 = (b, s2)" by (cases "create_page_table s1")
  obtain res t where m: "map_page a 0x5000 0x80042000 PTE_R s2 = (res, t)"
    by (cases "map_page a 0x5000 0x80042000 PTE_R s2")
  have ne: "avail_pages boot_vm \<noteq> {}" using boot_vm_facts(2) by auto
  note fa = fresh_table_facts [OF boot_vm_facts(1) ne a]
  have "card (avail_pages s1) \<noteq> 0" using fa(5) boot_vm_facts(2) by simp
  then have ne1: "avail_pages s1 \<noteq> {}" by auto
  note fb = fresh_table_facts [OF fa(2) ne1 b]
  note cb = create_page_table_spec [OF fa(2) b]
  have cb: "root_of s2 b \<in> avail_pages s1" "avail_pages s2 \<subseteq> avail_pages s1"
    "paging_active s2 = paging_active s1" "tables s2 = (tables s1)(root_of s2 b := (\<lambda>_. 0))"
    using cb ne1 by (simp_all add: Diff_subset)
  have "root_of s1 a \<notin> avail_pages s1"
    using page_treeD(2) [OF fa(3), of "[]"] by (simp add: path_def)
  with cb(1) have ne: "root_of s2 b \<noteq> root_of s1 a" by metis
  have ra: "root_of s2 a = root_of s1 a" using cb(3) by (simp add: virt_to_phys_helper_def)
  have "tables s2 x = tables s1 x" if "in_tree s1 (root_of s1 a) x" for x
    using that fa(6) ne by (simp add: cb(4) tree_pages_def set_eq_iff)
  note of = other_tree_frame [OF fa(3) this cb(2)]
  have fr: "page_tree s2 (root_of s1 a)" "tree_pages s2 (root_of s1 a) = {root_of s1 a}"
    using of fa(6) by (simp_all add: tree_pages_def)
  then have "page_tree s2 (root_of s2 a)"
    "tree_pages s2 (root_of s2 a) \<inter> tree_pages s2 (root_of s2 b) = {}"
    unfolding ra fb(6) fr(2) using ne by simp_all
  from map_page_isolated [OF fb(2) this(1) fb(3) this(2) m] show ?thesis
    using a b m by simp
qed

text \<open>C6: \<open>unmap_page\<close> removes the translation of its page and of no other, allocates and
  frees nothing, and a page that was not mapped is left alone.\<close>

theorem unmap_page_correct:
  assumes "physmem_inv s" "page_tree s (root_of s pt)"
  shows "walk_page_table pt va' (unmap_page pt va s) =
      (if vpage va' = vpage va then 0 else walk_page_table pt va' s) \<and>
    page_tree (unmap_page pt va s) (root_of s pt) \<and>
    avail_pages (unmap_page pt va s) = avail_pages s"
proof -
  let ?t = "unmap_page pt va s"
  note us = unmap_page_spec(1) [OF assms, of va] unmap_page_spec(2) [OF assms, of va]
    unmap_page_spec(3) [OF assms, where va = va and va' = va']
  have t: "physmem_inv ?t" "page_tree ?t (root_of ?t pt)" using us(1) by auto
  have "entry ?t pt va' = entry ?t pt va" if "vpage va' = vpage va"
    using that same_vpns_iff [of va' va] by (simp add: entry_def)
  then show ?thesis
    using walk_page_table_entry [OF assms] walk_page_table_entry [OF t] us(1-3)
    by (cases "vpage va' = vpage va") simp_all
qed

theorem unmap_page_correct_witness:
  "let (pt, s) = create_page_table boot_vm
   in walk_page_table pt 0x5000 (unmap_page pt 0x5000 s) = 0"
proof -
  obtain pt s where c: "create_page_table boot_vm = (pt, s)" by (cases "create_page_table boot_vm")
  have ne: "avail_pages boot_vm \<noteq> {}" using boot_vm_facts(2) by auto
  note f = fresh_table_facts [OF boot_vm_facts(1) ne c]
  show ?thesis using unmap_page_correct [OF f(2,3), of "0x5000" "0x5000"] c by simp
qed

end
