(* ===== verification/Boot_Tables.thy ===== *)
theory Boot_Tables
  imports Address_Spaces
begin

text \<open>
  The kernel page table built by \<open>paging_init\<close>: the invariant of its loop over the pages,
  why 134 free pages are enough for it, and which addresses the table maps when the MMU is
  switched on.
\<close>

unbundle bit_operations_syntax

subsection \<open>Addresses of the pages the loop maps\<close>

abbreviation kernel_flags :: u64 where "kernel_flags \<equiv> PTE_R OR PTE_W OR PTE_X"

lemma unat_page_word: "k < NUM_PAGES \<Longrightarrow> unat (of_nat k * PAGE_SIZE :: u64) = k * 4096"
  by (simp add: NUM_PAGES_def PAGE_SIZE_def unat_word_ariths unsigned_of_nat take_bit_eq_mod)

lemma vpage_boot:
  assumes "k < NUM_PAGES"
  shows "vpage (of_nat k * PAGE_SIZE) = k"
    and "vpage (of_nat k * PAGE_SIZE + PHYS_TO_VIRT_OFFSET) = 0x40000 + k"
proof -
  note u = unat_page_word [OF assms]
  show "vpage (of_nat k * PAGE_SIZE) = k"
    using assms by (simp add: vpage_def u NUM_PAGES_def)
  have "unat (of_nat k * PAGE_SIZE + PHYS_TO_VIRT_OFFSET :: u64) = k * 4096 + 0x40000000"
    using assms by (subst unat_plus_if_size)
      (simp add: u PHYS_TO_VIRT_OFFSET_def KERNEL_VIRT_BASE_def KERNEL_BASE_ADDR_def
        NUM_PAGES_def word_size)
  moreover have "(k * 4096 + 0x40000000) div 4096 = 0x40000 + k" by simp
  ultimately show "vpage (of_nat k * PAGE_SIZE + PHYS_TO_VIRT_OFFSET) = 0x40000 + k"
    using assms by (simp add: vpage_def NUM_PAGES_def)
qed

definition boot_paths :: "nat list set" where
  "boot_paths = insert [] ((\<lambda>i. [i]) ` {0, 1} \<union> (\<lambda>(i, j). [i, j]) ` ({0, 1} \<times> {..<64}))"

lemma card_boot_paths: "finite boot_paths" "card boot_paths \<le> 131"
proof -
  show "finite boot_paths" by (simp add: boot_paths_def)
  have "card (insert [] ((\<lambda>i. [i]) ` {0, 1 :: nat} \<union> (\<lambda>(i, j). [i, j]) ` ({0, 1} \<times> {..<64})))
      \<le> Suc (card ((\<lambda>i. [i]) ` {0, 1 :: nat} \<union> (\<lambda>(i, j). [i, j :: nat]) ` ({0, 1} \<times> {..<64})))"
    by (rule card_insert_le_m1) simp_all
  also have "\<dots> \<le> Suc (card ((\<lambda>i. [i]) ` {0, 1 :: nat}) +
      card ((\<lambda>(i, j). [i, j :: nat]) ` ({0, 1 :: nat} \<times> {..<64})))"
    using card_Un_le by (simp only: Suc_le_mono)
  also have "\<dots> \<le> Suc (2 + 128)"
  proof -
    have "card ((\<lambda>i. [i]) ` {0, 1 :: nat}) \<le> 2" by (rule order.trans [OF card_image_le]) auto
    moreover have "card ((\<lambda>(i, j). [i, j :: nat]) ` ({0, 1 :: nat} \<times> {..<64})) \<le> 128"
      by (rule order.trans [OF card_image_le]) auto
    ultimately show ?thesis by simp
  qed
  finally show "card boot_paths \<le> 131" by (simp add: boot_paths_def)
qed

lemma walk_paths_boot:
  assumes "vpage va < NUM_PAGES \<or> (\<exists>k < NUM_PAGES. vpage va = 0x40000 + k)"
  shows "walk_paths va \<subseteq> boot_paths"
proof -
  have v1: "VPN1 va = vpage va div 512 mod 512"
  proof -
    have "vpage va div 512 mod 512 = unat va div 4096 mod (512 * 2 ^ 18) div 512 mod 512"
      by (simp add: vpage_def)
    also have "unat va div 4096 mod (512 * 2 ^ 18) div 512 = unat va div 4096 div 512 mod 2 ^ 18"
      by (subst mod_mult2_eq) simp
    also have "\<dots> mod 512 = unat va div 4096 div 512 mod 512"
      by (rule mod_mod_cancel) simp
    finally show ?thesis by (simp add: VPN_eqs)
  qed
  have v2: "VPN2 va = vpage va div (512 * 512) mod 512"
  proof -
    have "vpage va div (512 * 512) = unat va div 4096 mod ((512 * 512) * 512) div (512 * 512)"
      by (simp add: vpage_def)
    also have "\<dots> = unat va div 4096 div (512 * 512) mod 512"
      by (subst mod_mult2_eq) simp
    finally show ?thesis by (simp add: VPN_eqs)
  qed
  have hi: "(0x40000 + k) div 512 mod 512 < 64" if "k < 32768" for k :: nat
  proof -
    have "(0x40000 + k) div 512 = 512 + k div 512" by simp
    then show ?thesis using that by simp
  qed
  have "VPN2 va \<in> {0, 1} \<and> VPN1 va < 64"
    using assms by (auto simp: v1 v2 NUM_PAGES_def hi)
  then show ?thesis by (auto simp: walk_paths_def boot_paths_def)
qed

subsection \<open>The loop\<close>

definition boot_tree :: "u64 \<Rightarrow> u64 set \<Rightarrow> 'a vm_scheme \<Rightarrow> bool" where
  "boot_tree pt A s \<longleftrightarrow> physmem_inv s \<and> page_tree s (root_of s pt) \<and>
     avail_pages s \<union> tree_pages s (root_of s pt) = A \<and>
     kernel_pagetable s = pt \<and> \<not> paging_active s \<and>
     (\<forall>q a. path q \<and> table_at (tables s) (root_of s pt) q = Some a \<longrightarrow> q \<in> boot_paths)"

lemma boot_tree_used:
  assumes "boot_tree pt A s"
  shows "card A \<le> card (avail_pages s) + 131"
proof -
  let ?r = "root_of s pt"
  have "tree_pages s ?r \<subseteq> (\<lambda>q. the (table_at (tables s) ?r q)) ` boot_paths"
    using assms(1) by (force simp: boot_tree_def tree_pages_def in_tree_def)
  then have "card (tree_pages s ?r) \<le> card boot_paths"
    by (rule surj_card_le [OF card_boot_paths(1)])
  then have "card (tree_pages s ?r) \<le> 131" using card_boot_paths(2) by simp
  moreover have "card A \<le> card (avail_pages s) + card (tree_pages s ?r)"
    using assms(1) card_Un_le [of "avail_pages s" "tree_pages s ?r"] by (simp add: boot_tree_def)
  ultimately show ?thesis by simp
qed

lemma boot_tree_room: "boot_tree pt A s \<Longrightarrow> 134 \<le> card A \<Longrightarrow> 3 \<le> card (avail_pages s)"
  using boot_tree_used [of pt A s] by simp

lemma boot_map:
  assumes bt: "boot_tree pt A s" and A: "134 \<le> card A"
    and nv: "\<not> pte_valid (entry s pt va)"
    and va: "vpage va < NUM_PAGES \<or> (\<exists>k < NUM_PAGES. vpage va = 0x40000 + k)"
  obtains t where "map_page pt va pa f s = (0, t)" "boot_tree pt A t"
    "\<And>va'. entry t pt va' = (if vpage va' = vpage va then MAKE_PTE pa (f OR PTE_V)
       else entry s pt va')"
proof -
  obtain res t where m: "map_page pt va pa f s = (res, t)" by (cases "map_page pt va pa f s")
  have inv: "physmem_inv s" "page_tree s (root_of s pt)" using bt by (auto simp: boot_tree_def)
  note ms = map_page_spec [OF inv m]
  have "res = 0"
    using map_page_succeeds [OF inv nv boot_tree_room [OF bt A]] m by (metis fst_conv)
  have "boot_tree pt A t"
    unfolding boot_tree_def
  proof (intro conjI allI impI)
    show "physmem_inv t" "page_tree t (root_of t pt)" using ms(1) by auto
    show "avail_pages t \<union> tree_pages t (root_of t pt) = A"
      using ms(1,7) bt by (simp add: boot_tree_def)
    show "kernel_pagetable t = pt" "\<not> paging_active t"
      using ms(5) bt by (simp_all add: boot_tree_def)
    fix q a assume q: "path q \<and> table_at (tables t) (root_of t pt) q = Some a"
    show "q \<in> boot_paths"
    proof (cases "table_at (tables s) (root_of s pt) q")
      case None
      then show ?thesis using ms(1) ms(8) [of q] q walk_paths_boot [OF va] by auto
    next
      case (Some a')
      then show ?thesis using bt q by (auto simp: boot_tree_def)
    qed
  qed
  then show ?thesis using that m \<open>res = 0\<close> ms(3) by simp
qed

text \<open>What the first \<open>k\<close> rounds of the loop have mapped.\<close>

definition init_entry :: "u64 \<Rightarrow> nat \<Rightarrow> u64 \<Rightarrow> u64" where
  "init_entry kernel_size k va =
     (if vpage va < k \<and> of_nat (vpage va) * PAGE_SIZE < kernel_size
      then MAKE_PTE (of_nat (vpage va) * PAGE_SIZE) (kernel_flags OR PTE_V)
      else if 0x40000 \<le> vpage va \<and> vpage va < 0x40000 + k
      then MAKE_PTE (of_nat (vpage va - 0x40000) * PAGE_SIZE) (kernel_flags OR PTE_V)
      else 0)"

lemma init_entry_Suc:
  assumes "k < NUM_PAGES"
  shows "init_entry ks (Suc k) va =
    (if vpage va = k \<and> of_nat k * PAGE_SIZE < ks
     then MAKE_PTE (of_nat k * PAGE_SIZE) (kernel_flags OR PTE_V)
     else if vpage va = 0x40000 + k
     then MAKE_PTE (of_nat k * PAGE_SIZE) (kernel_flags OR PTE_V)
     else init_entry ks k va)"
  using assms by (auto simp: init_entry_def NUM_PAGES_def less_Suc_eq)

lemma init_loop:
  assumes "boot_tree pt A s" "134 \<le> card A" "\<And>va. entry s pt va = init_entry ks k va"
    and "k \<le> NUM_PAGES"
  shows "\<exists>t. paging_init_loop ks [k..<NUM_PAGES] s = (True, t) \<and> boot_tree pt A t \<and>
    (\<forall>va. entry t pt va = init_entry ks NUM_PAGES va)"
  using assms(1,3,4)
proof (induction "NUM_PAGES - k" arbitrary: k s)
  case 0
  then have "k = NUM_PAGES" by simp
  then show ?case using 0 by simp
next
  case (Suc d)
  let ?i = "of_nat k * PAGE_SIZE :: u64"
  have k: "k < NUM_PAGES" using Suc.hyps(2) by simp
  have upt: "[k..<NUM_PAGES] = k # [Suc k..<NUM_PAGES]" using k by (rule upt_conv_Cons)
  have pt: "kernel_pagetable u = pt" if "boot_tree pt A u" for u :: "'a vm_scheme"
    using that by (simp add: boot_tree_def)
  note vp = vpage_boot [OF k]
  have "\<not> pte_valid (entry s pt (?i + PHYS_TO_VIRT_OFFSET))"
    using k by (simp add: Suc.prems(2) init_entry_def vp NUM_PAGES_def)
  then obtain s1 where s1: "map_page pt (?i + PHYS_TO_VIRT_OFFSET) ?i kernel_flags s = (0, s1)"
    "boot_tree pt A s1" and e1: "\<And>va. entry s1 pt va = (if vpage va = 0x40000 + k
      then MAKE_PTE ?i (kernel_flags OR PTE_V) else init_entry ks k va)"
    using boot_map [OF Suc.prems(1) assms(2)] vp k Suc.prems(2) by metis
  show ?case
  proof (cases "?i < ks")
    case True
    have "\<not> pte_valid (entry s1 pt ?i)"
      using k by (simp add: e1 init_entry_def vp NUM_PAGES_def)
    then obtain s2 where s2: "map_page pt ?i ?i kernel_flags s1 = (0, s2)"
      "boot_tree pt A s2" and e2: "\<And>va. entry s2 pt va = (if vpage va = k
        then MAKE_PTE ?i (kernel_flags OR PTE_V) else entry s1 pt va)"
      using boot_map [OF s1(2) assms(2)] vp k by metis
    have "entry s2 pt va = init_entry ks (Suc k) va" for va
      using True by (simp add: e1 e2 init_entry_Suc [OF k])
    with Suc.hyps(1) [of "Suc k" s2] Suc.hyps(2) s2(2) k show ?thesis
      using True by (simp add: upt s1(1) s2(1) pt [OF Suc.prems(1)] pt [OF s1(2)])
  next
    case False
    have "entry s1 pt va = init_entry ks (Suc k) va" for va
      using False by (simp add: e1 init_entry_Suc [OF k])
    with Suc.hyps(1) [of "Suc k" s1] Suc.hyps(2) s1(2) k show ?thesis
      using False by (simp add: upt s1(1) pt [OF Suc.prems(1)])
  qed
qed

subsection \<open>The map that is in force when the MMU is on\<close>

text \<open>
  \<open>kernel_pagetable\<close> still holds the physical address of the table after the switch, so its
  virtual address is \<open>phys_to_virt (kernel_pagetable t)\<close>.
\<close>

definition boot_translation :: "u64 \<Rightarrow> u64 \<Rightarrow> u64" where
  "boot_translation kernel_end va =
     (if vpage va < NUM_PAGES \<and> of_nat (vpage va) * PAGE_SIZE < kernel_end - KERNEL_BASE_ADDR
      then of_nat (vpage va) * PAGE_SIZE + (va AND 0xFFF)
      else if 0x40000 \<le> vpage va \<and> vpage va < 0x40000 + NUM_PAGES
      then of_nat (vpage va - 0x40000) * PAGE_SIZE + (va AND 0xFFF)
      else 0)"

lemma pte_addr_ok_page: "k < NUM_PAGES \<Longrightarrow> pte_addr_ok (of_nat k * PAGE_SIZE)"
proof -
  assume k: "k < NUM_PAGES"
  have "(of_nat k :: u64) * PAGE_SIZE = push_bit 12 (of_nat k)"
    by (simp add: PAGE_SIZE_def push_bit_eq_mult)
  moreover have "\<not> bit (of_nat k :: u64) n" if "15 \<le> n" for n
  proof -
    have "(of_nat k :: u64) = take_bit 15 (of_nat k)"
      using k by (simp add: NUM_PAGES_def take_bit_of_nat take_bit_nat_eq_self)
    then show ?thesis using that by (metis bit_take_bit_iff linorder_not_less)
  qed
  ultimately have "12 \<le> n \<and> \<not> 15 \<le> n - 12" if "bit ((of_nat k :: u64) * PAGE_SIZE) n" for n
    using that by (metis bit_push_bit_iff)
  then have "10 \<le> n \<and> n < 46" if "bit ((of_nat k :: u64) * PAGE_SIZE) n" for n
    using that by fastforce
  then show ?thesis
    by (auto simp: pte_addr_ok_def bit_eq_iff bit_and_iff bit_PTE_ADDR_MASK)
qed

lemma kernel_flags_ok: "pte_flags_ok (kernel_flags OR PTE_V)"
  by (simp add: pte_flags_ok_def PTE_R_def PTE_W_def PTE_X_def PTE_V_def PTE_ADDR_MASK_def)

lemma paging_init_spec:
  assumes "physmem_inv s" "134 \<le> card (avail_pages s)" "\<not> paging_active s"
  shows "let t = paging_init kernel_end s; pt = phys_to_virt (kernel_pagetable t) in
    paging_active t \<and> kernel_pagetable t \<in> avail_pages s \<and>
    satp t = push_bit 60 8 OR (drop_bit 12 (kernel_pagetable t) AND 0x0FFFFFFFFFFFFF) \<and>
    physmem_inv t \<and> page_tree t (kernel_pagetable t) \<and> root_of t pt = kernel_pagetable t \<and>
    card (avail_pages s) \<le> card (avail_pages t) + 131 \<and>
    (\<forall>va. walk_page_table pt va t = boot_translation kernel_end va)"
proof -
  obtain pt s1 where c: "create_page_table s = (pt, s1)" by (cases "create_page_table s")
  have ne: "avail_pages s \<noteq> {}" using assms(2) by auto
  note fc = fresh_table_facts [OF assms(1) ne c]
  note cs = create_page_table_spec [OF assms(1) c]
  let ?s2 = "s1\<lparr>kernel_pagetable := pt\<rparr>"
  let ?ks = "kernel_end - KERNEL_BASE_ADDR"
  have pt: "root_of s1 pt = pt" "pt \<in> avail_pages s" "\<not> paging_active s1"
    using cs ne assms(3) by (auto simp: virt_to_phys_helper_def split: if_splits)
  have fr: "physmem_inv ?s2 = physmem_inv s1" "avail_pages ?s2 = avail_pages s1"
    "root_of ?s2 v = root_of s1 v" "page_tree ?s2 r = page_tree s1 r"
    "tree_pages ?s2 r = tree_pages s1 r" for v r
    by (simp_all add: physmem_inv_def avail_pages_def free_set_def is_page_free_def
        virt_to_phys_helper_def page_tree_def tree_pages_def in_tree_def)
  have at: "q \<in> boot_paths" if "path q" "table_at (tables s1) pt q = Some a" for q a
  proof -
    have z: "tables s1 pt = (\<lambda>_. 0)" using cs ne pt(1) by simp
    have "q = []" using that(2) by (cases q) (simp_all add: z)
    then show ?thesis by (simp add: boot_paths_def)
  qed
  have "boot_tree pt (avail_pages s) ?s2"
    unfolding boot_tree_def using fc(2,3,6) cs ne pt at
    by (auto simp: fr pt(1) simp del: fun_upd_apply)
  moreover have "entry ?s2 pt va = init_entry ?ks 0 va" for va
    using fc(4) [of va] by (auto simp: entry_def init_entry_def fr(3))
  ultimately obtain t where t: "paging_init_loop ?ks [0..<NUM_PAGES] ?s2 = (True, t)"
    "boot_tree pt (avail_pages s) t" "\<And>va. entry t pt va = init_entry ?ks NUM_PAGES va"
    using init_loop [OF _ assms(2), of pt ?s2 ?ks 0] by auto
  define u where "u = switch_page_table pt t"
  have kt: "kernel_pagetable t = pt" "\<not> paging_active t" using t(2) by (auto simp: boot_tree_def)
  have pi: "paging_init kernel_end s = u"
    using fc(1) c t(1) kt by (simp add: paging_init_def u_def Let_def)
  have u: "tables u = tables t" "kernel_pagetable u = pt" "paging_active u"
    "satp u = push_bit 60 8 OR (drop_bit 12 pt AND 0x0FFFFFFFFFFFFF)"
    using kt by (simp_all add: u_def switch_page_table_def virt_to_phys_helper_def Let_def)
  have fu: "physmem_inv u = physmem_inv t" "page_tree u r = page_tree t r" "avail_pages u = avail_pages t" for r
    by (simp_all add: u_def switch_page_table_def physmem_inv_def avail_pages_def free_set_def
        is_page_free_def page_tree_def Let_def)
  have r: "root_of t pt = pt" "root_of u (phys_to_virt pt) = pt"
    using kt u(3) by (simp_all add: virt_to_phys_helper_def)
  have inv: "physmem_inv u" "page_tree u (root_of u (phys_to_virt pt))"
    using t(2) r by (simp_all add: fu boot_tree_def)
  have "entry u (phys_to_virt pt) va = init_entry ?ks NUM_PAGES va" for va
    using t(3) [of va] r by (simp add: entry_def u(1))
  then have "walk_page_table (phys_to_virt pt) va u = boot_translation kernel_end va" for va
    using walk_page_table_entry [OF inv, of va] pte_addr_ok_page [of "vpage va"]
      pte_addr_ok_page [of "vpage va - 0x40000"]
    by (auto simp: init_entry_def boot_translation_def PTE_ADDR_MAKE_PTE kernel_flags_ok)
  then show ?thesis using inv r(2) u pt(2) boot_tree_used [OF t(2)] by (simp add: pi fu Let_def)
qed

text \<open>C7: \<open>paging_init\<close> succeeds whenever 134 pages of RAM are free, whatever the size of
  the kernel, and the table it activates maps exactly this: the pages below the kernel's
  size to themselves, the 128 MB from 0x40000000 to physical addresses 0 and up, and nothing
  else.\<close>

theorem paging_init_correct:
  assumes "physmem_inv s" "134 \<le> card (avail_pages s)" "\<not> paging_active s"
  shows "let t = paging_init kernel_end s; pt = phys_to_virt (kernel_pagetable t) in
    paging_active t \<and> kernel_pagetable t \<in> avail_pages s \<and>
    satp t = push_bit 60 8 OR (drop_bit 12 (kernel_pagetable t) AND 0x0FFFFFFFFFFFFF) \<and>
    (\<forall>va. walk_page_table pt va t = boot_translation kernel_end va)"
  using paging_init_spec [OF assms, of kernel_end] by (simp add: Let_def)

theorem paging_init_correct_witness:
  "let t = paging_init 0x80010000 boot_vm; pt = phys_to_virt (kernel_pagetable t) in
    paging_active t \<and> walk_page_table pt 0x5123 t = 0x5123 \<and>
    walk_page_table pt 0x40012345 t = 0x12345 \<and> walk_page_table pt 0x10000 t = 0"
proof -
  have v: "vpage 0x5123 = 5" "vpage 0x40012345 = 0x40012" "vpage 0x10000 = 0x10"
    by (simp_all add: vpage_def)
  show ?thesis
    using paging_init_correct [of boot_vm "0x80010000"] boot_vm_facts
    by (simp add: Let_def boot_translation_def v NUM_PAGES_def PAGE_SIZE_def KERNEL_BASE_ADDR_def)
qed

text \<open>The map \<open>paging_init\<close> activates does not contain the kernel. For a kernel image
  smaller than RAM, no page of RAM, the kernel's code and data among them, is mapped at its
  own address or at \<open>phys_to_virt\<close> of it, and no virtual address at all translates into
  RAM: the loop counts from physical address 0, not from \<open>KERNEL_BASE_ADDR\<close>.\<close>

theorem paging_init_misses_ram:
  assumes "physmem_inv s" "134 \<le> card (avail_pages s)" "\<not> paging_active s"
  shows "let t = paging_init kernel_end s; pt = phys_to_virt (kernel_pagetable t) in
    unat (walk_page_table pt va t) < 0x8000000 \<and>
    walk_page_table pt va t \<notin> ram_pages"
proof -
  let ?t = "paging_init kernel_end s"
  have w: "walk_page_table (phys_to_virt (kernel_pagetable ?t)) va ?t = boot_translation kernel_end va"
    using paging_init_spec [OF assms, of kernel_end] by (simp add: Let_def)
  have off: "unat (va AND 0xFFF) < 4096"
  proof -
    have "va AND 0xFFF = take_bit 12 va" by (simp add: take_bit_eq_mask mask_eq_exp_minus_1)
    then show ?thesis using take_bit_nat_less_exp [of 12 "unat va"]
      by (simp add: unsigned_take_bit_eq)
  qed
  have "unat (of_nat k * PAGE_SIZE + (va AND 0xFFF)) < 0x8000000" if "k < NUM_PAGES" for k
    using off that by (subst unat_plus_if_size)
      (simp add: unat_page_word NUM_PAGES_def word_size)
  from this [of "vpage va"] this [of "vpage va - 0x40000"]
  have "unat (boot_translation kernel_end va) < 0x8000000"
    by (auto simp: boot_translation_def)
  moreover from this have "boot_translation kernel_end va \<notin> ram_pages"
    using unat_page_addr by (force simp: ram_pages_def)
  ultimately show ?thesis by (simp add: Let_def w)
qed

theorem paging_init_misses_ram_witness:
  "let t = paging_init 0x80010000 boot_vm; pt = phys_to_virt (kernel_pagetable t)
   in walk_page_table pt (phys_to_virt 0x80000000) t \<notin> ram_pages"
  using paging_init_misses_ram [of boot_vm "0x80010000" "phys_to_virt 0x80000000"] boot_vm_facts
  by (simp add: Let_def)

text \<open>Entries are not in the Sv39 format. For a page of RAM the page number that
  the hardware reads from bits 10 to 53 of an entry made by \<open>MAKE_PTE\<close> is four times the
  number of the page it was made for; only \<open>PTE_ADDR\<close> reads the address back.\<close>

theorem make_pte_not_sv39:
  assumes "i < NUM_PAGES" "pte_flags_ok f" "f < 1024"
  shows "PTE_ADDR (MAKE_PTE (page_addr i) f) = page_addr i \<and>
    unat (drop_bit 10 (MAKE_PTE (page_addr i) f)) = 4 * (unat (page_addr i) div 4096)"
proof -
  have r: "page_addr i \<in> ram_pages" using assms(1) by (auto simp: ram_pages_def)
  note ok = pte_addr_ok_ram [OF r]
  have "drop_bit 10 f = 0" using assms(3)
    by (simp add: drop_bit_eq_div div_word_less)
  then have "drop_bit 10 (MAKE_PTE (page_addr i) f) = drop_bit 10 (page_addr i)"
    using ok by (simp add: MAKE_PTE_def pte_addr_ok_def drop_bit_or)
  moreover have "unat (drop_bit 10 (page_addr i)) = 4 * (unat (page_addr i) div 4096)"
    using unat_page_addr [OF assms(1)] by (simp add: drop_bit_eq_div unat_div)
  ultimately show ?thesis using PTE_ADDR_MAKE_PTE [OF ok assms(2)] by simp
qed

theorem make_pte_not_sv39_witness:
  "unat (drop_bit 10 (MAKE_PTE (page_addr 3) PTE_R)) = 4 * (unat (page_addr 3) div 4096)"
  using make_pte_not_sv39 [of 3 PTE_R]
  by (simp add: NUM_PAGES_def pte_flags_ok_def PTE_R_def PTE_ADDR_MASK_def)

end
