(* ===== verification/Spinlock.thy ===== *)
theory Spinlock
  imports Paging
begin

text \<open>
  \<open>kernel/mem/spinlock.c\<close> as one hart runs it, with the interrupt enable bit of
  \<open>sstatus\<close> that the lock operations clear and set. The kernel's locks are named by
  \<open>lockid\<close>: the static ones, and those inside pipes, buffers and inodes by the object that
  contains them. What happens when several harts run these operations is in
  \<open>Spinlock_Harts\<close>.
\<close>

datatype lockid =
    LK_bcache
  | LK_log
  | LK_icache
  | LK_ftable
  | LK_disk
  | LK_pipe u64
  | LK_buf_sleep nat
  | LK_inode_sleep nat

record spinlock =
  locked :: int
  lk_name :: string

text \<open>\<open>sie\<close> is the bit \<open>SSTATUS_SIE\<close>.\<close>

record spins = vm +
  spin :: "lockid \<Rightarrow> spinlock"
  sie :: bool

definition intr_on :: "'a spins_scheme \<Rightarrow> 'a spins_scheme" where
  "intr_on s = s\<lparr>sie := True\<rparr>"

definition intr_off :: "'a spins_scheme \<Rightarrow> 'a spins_scheme" where
  "intr_off s = s\<lparr>sie := False\<rparr>"

definition intr_get :: "'a spins_scheme \<Rightarrow> int" where
  "intr_get s = (if sie s then 1 else 0)"

definition set_locked :: "lockid \<Rightarrow> int \<Rightarrow> 'a spins_scheme \<Rightarrow> 'a spins_scheme" where
  "set_locked lk v s = s\<lparr>spin := (spin s)(lk := (spin s lk)\<lparr>locked := v\<rparr>)\<rparr>"

definition spinlock_init :: "lockid \<Rightarrow> string \<Rightarrow> 'a spins_scheme \<Rightarrow> 'a spins_scheme" where
  "spinlock_init lk name s = s\<lparr>spin := (spin s)(lk := \<lparr>locked = 0, lk_name = name\<rparr>)\<rparr>"

definition spinlock_held :: "lockid \<Rightarrow> 'a spins_scheme \<Rightarrow> int" where
  "spinlock_held lk s = locked (spin s lk)"

text \<open>\<open>__sync_lock_test_and_set(&lk->locked, 1)\<close>: the old value, and the lock set.\<close>

definition test_and_set :: "lockid \<Rightarrow> 'a spins_scheme \<Rightarrow> int \<times> 'a spins_scheme" where
  "test_and_set lk s = (locked (spin s lk), set_locked lk 1 s)"

text \<open>
  The loop around \<open>test_and_set\<close>: when the old value is not 0 and no other hart runs, every
  further round finds the lock set too, so the loop does not end.
\<close>

definition spinlock_acquire :: "lockid \<Rightarrow> 'a spins_scheme \<Rightarrow> (unit, 'a spins_scheme) outcome" where
  "spinlock_acquire lk s =
     (let s1 = intr_off s
      in if spinlock_held lk s1 \<noteq> 0 then Stop DoubleAcquire s1
         else case test_and_set lk s1 of (old, s2) \<Rightarrow>
           if old \<noteq> 0 then Stop SpinsForever s2 else Ret () s2)"

definition spinlock_release :: "lockid \<Rightarrow> 'a spins_scheme \<Rightarrow> (unit, 'a spins_scheme) outcome" where
  "spinlock_release lk s =
     (if spinlock_held lk s = 0 then Stop NotHeld s
      else Ret () (intr_on (set_locked lk 0 s)))"

subsection \<open>Sequential behaviour\<close>

abbreviation is_held :: "'a spins_scheme \<Rightarrow> lockid \<Rightarrow> bool" where
  "is_held s lk \<equiv> spinlock_held lk s \<noteq> 0"

lemma held_simps [simp]:
  "spinlock_held l (intr_on s) = spinlock_held l s"
  "spinlock_held l (intr_off s) = spinlock_held l s"
  "spinlock_held l (set_locked lk v s) = (if l = lk then v else spinlock_held l s)"
  "spinlock_held l (spinlock_init lk name s) = (if l = lk then 0 else spinlock_held l s)"
  "sie (intr_on s)" "\<not> sie (intr_off s)" "sie (set_locked lk v s) = sie s"
  by (simp_all add: spinlock_held_def intr_on_def intr_off_def set_locked_def spinlock_init_def)

lemma acquire_eq:
  "spinlock_acquire lk s =
     (if is_held s lk then Stop DoubleAcquire (intr_off s)
      else Ret () (set_locked lk 1 (intr_off s)))"
  by (simp add: spinlock_acquire_def test_and_set_def Let_def spinlock_held_def intr_off_def)

lemma acquire_Ret_iff:
  "spinlock_acquire lk s = Ret u t \<longleftrightarrow> \<not> is_held s lk \<and> t = set_locked lk 1 (intr_off s)"
  by (auto simp: acquire_eq)

lemma release_Ret_iff:
  "spinlock_release lk s = Ret u t \<longleftrightarrow> is_held s lk \<and> t = intr_on (set_locked lk 0 s)"
  by (auto simp: spinlock_release_def)

lemma set_locked_intr [simp]:
  "set_locked lk v (intr_on s) = intr_on (set_locked lk v s)"
  "set_locked lk v (intr_off s) = intr_off (set_locked lk v s)"
  "intr_on (intr_off s) = intr_on s" "intr_on (intr_on s) = intr_on s"
  "set_locked lk v (set_locked lk w s) = set_locked lk v s"
  by (simp_all add: set_locked_def intr_on_def intr_off_def)

lemma set_locked_same: "spinlock_held lk s = v \<Longrightarrow> set_locked lk v s = s"
  by (simp add: set_locked_def spinlock_held_def fun_upd_idem)

lemma locks_frame [frame]:
  "phys_bitmap (set_locked lk v s) = phys_bitmap s" "phys_bitmap (intr_on s) = phys_bitmap s"
  "phys_bitmap (intr_off s) = phys_bitmap s"
  "free_pages_count (set_locked lk v s) = free_pages_count s"
  "free_pages_count (intr_on s) = free_pages_count s"
  "free_pages_count (intr_off s) = free_pages_count s"
  "tables (set_locked lk v s) = tables s" "tables (intr_on s) = tables s"
  "tables (intr_off s) = tables s"
  "paging_active (set_locked lk v s) = paging_active s"
  "paging_active (intr_on s) = paging_active s" "paging_active (intr_off s) = paging_active s"
  "spins.more (set_locked lk v s) = spins.more s" "spins.more (intr_on s) = spins.more s"
  "spins.more (intr_off s) = spins.more s"
  by (simp_all add: set_locked_def intr_on_def intr_off_def)

text \<open>A state in which every lock is free and interrupts are off, for the examples.\<close>

definition boot_spins :: spins where
  "boot_spins = \<lparr>phys_bitmap = [], free_pages_count = 0, tables = (\<lambda>_ _. 0),
     kernel_pagetable = 0, paging_active = False, satp = 0,
     spin = (\<lambda>_. \<lparr>locked = 0, lk_name = []\<rparr>), sie = False\<rparr>"

text \<open>On one hart a lock is not recursive and its operations pair up. Acquiring a held
  lock stops for ever with interrupts off and leaves every lock as it was; acquiring a
  free one returns with it held, interrupts off and the other locks unchanged; releasing
  it then gives back the first state, but always with interrupts on, also when they were
  off before; and releasing a free lock stops without any effect.\<close>

theorem spinlock_acquire_release:
  "(is_held s lk \<longrightarrow> spinlock_acquire lk s = Stop DoubleAcquire (s\<lparr>sie := False\<rparr>)) \<and>
   (\<not> is_held s lk \<longrightarrow>
     (\<exists>t. spinlock_acquire lk s = Ret () t \<and> is_held t lk \<and> \<not> sie t \<and>
       (\<forall>l. l \<noteq> lk \<longrightarrow> spinlock_held l t = spinlock_held l s) \<and>
       spinlock_release lk t = Ret () (s\<lparr>sie := True\<rparr>)) \<and>
     spinlock_release lk s = Stop NotHeld s)"
  by (auto simp: acquire_eq spinlock_release_def set_locked_same)
    (simp_all add: intr_off_def intr_on_def)

theorem spinlock_acquire_release_witness:
  "\<exists>t. spinlock_acquire LK_log boot_spins = Ret () t \<and>
     spinlock_acquire LK_log t = Stop DoubleAcquire (t\<lparr>sie := False\<rparr>)"
proof -
  have "\<not> is_held boot_spins LK_log" by (simp add: boot_spins_def spinlock_held_def)
  then obtain t where "spinlock_acquire LK_log boot_spins = Ret () t" "is_held t LK_log"
    using spinlock_acquire_release [of LK_log boot_spins] by blast
  then show ?thesis using spinlock_acquire_release [of LK_log t] by auto
qed

text \<open>Nested critical sections lose the protection against interrupts. Whenever a call
  sequence holds an outer lock and takes and releases an inner one, it is back in the
  outer critical section with the outer lock still held and interrupts on.\<close>

theorem nested_release_enables_interrupts:
  assumes "outer \<noteq> inner" "\<not> is_held s outer" "\<not> is_held s inner"
  shows "\<exists>t. bind_out (spinlock_acquire outer s) (\<lambda>_ s1.
       bind_out (spinlock_acquire inner s1) (\<lambda>_ s2. spinlock_release inner s2)) = Ret () t \<and>
     is_held t outer \<and> sie t"
  using assms by (simp add: acquire_eq spinlock_release_def)

theorem nested_release_enables_interrupts_witness:
  "\<exists>t. bind_out (spinlock_acquire LK_log boot_spins) (\<lambda>_ s1.
       bind_out (spinlock_acquire LK_bcache s1) (\<lambda>_ s2. spinlock_release LK_bcache s2)) = Ret () t
     \<and> is_held t LK_log \<and> sie t"
  using nested_release_enables_interrupts [of LK_log LK_bcache boot_spins]
  by (simp add: boot_spins_def spinlock_held_def)

end
