(* ===== verification/Spinlock_Harts.thy ===== *)
theory Spinlock_Harts
  imports Spinlock
begin

text \<open>
  \<open>kernel/mem/spinlock.c\<close> under several harts: one lock word and a program counter and
  interrupt bit per hart, with one step for every access to the lock word that
  \<open>spinlock_acquire\<close> and \<open>spinlock_release\<close> make. The harts follow the discipline of the
  kernel: a hart releases the lock only from its critical section.
\<close>

text \<open>
  Where a hart is: outside, after \<open>intr_off\<close>, in the test-and-set loop, in its critical
  section, between the check and the store of \<open>spinlock_release\<close>, and in the endless loops
  of the two error branches.
\<close>

datatype hart_pc = Outside | Entered | Testing | Critical | Releasing | HungAcquire | HungRelease

record harts =
  lockword :: int
  pc :: "nat \<Rightarrow> hart_pc"
  intr :: "nat \<Rightarrow> bool"

definition goto :: "nat \<Rightarrow> hart_pc \<Rightarrow> harts \<Rightarrow> harts" where
  "goto h l s = s\<lparr>pc := (pc s)(h := l)\<rparr>"

inductive hart_step :: "nat \<Rightarrow> harts \<Rightarrow> harts \<Rightarrow> bool" for h where
  enter: "pc s h = Outside \<Longrightarrow>
    hart_step h s (goto h Entered (s\<lparr>intr := (intr s)(h := False)\<rparr>))"
| held: "pc s h = Entered \<Longrightarrow> lockword s \<noteq> 0 \<Longrightarrow> hart_step h s (goto h HungAcquire s)"
| free: "pc s h = Entered \<Longrightarrow> lockword s = 0 \<Longrightarrow> hart_step h s (goto h Testing s)"
| lost: "pc s h = Testing \<Longrightarrow> lockword s \<noteq> 0 \<Longrightarrow> hart_step h s (s\<lparr>lockword := 1\<rparr>)"
| won: "pc s h = Testing \<Longrightarrow> lockword s = 0 \<Longrightarrow>
    hart_step h s (goto h Critical (s\<lparr>lockword := 1\<rparr>))"
| not_held: "pc s h = Critical \<Longrightarrow> lockword s = 0 \<Longrightarrow> hart_step h s (goto h HungRelease s)"
| leaving: "pc s h = Critical \<Longrightarrow> lockword s \<noteq> 0 \<Longrightarrow> hart_step h s (goto h Releasing s)"
| release: "pc s h = Releasing \<Longrightarrow>
    hart_step h s (goto h Outside (s\<lparr>lockword := 0, intr := (intr s)(h := True)\<rparr>))"

inductive_cases hart_stepE: "hart_step h s t"

definition step :: "harts \<Rightarrow> harts \<Rightarrow> bool" where
  "step s t \<longleftrightarrow> (\<exists>h. hart_step h s t)"

definition initial :: "harts \<Rightarrow> bool" where
  "initial s \<longleftrightarrow> lockword s = 0 \<and> (\<forall>h. pc s h = Outside)"

definition reachable :: "harts \<Rightarrow> bool" where
  "reachable s \<longleftrightarrow> (\<exists>s0. initial s0 \<and> step\<^sup>*\<^sup>* s0 s)"

definition in_section :: "harts \<Rightarrow> nat \<Rightarrow> bool" where
  "in_section s h \<longleftrightarrow> pc s h = Critical \<or> pc s h = Releasing"

lemma pc_goto [simp]: "pc (goto h l s) h' = (if h' = h then l else pc s h')"
  "lockword (goto h l s) = lockword s" "intr (goto h l s) = intr s"
  by (simp_all add: goto_def)

subsection \<open>The invariant\<close>

definition mutex_inv :: "harts \<Rightarrow> bool" where
  "mutex_inv s \<longleftrightarrow> (lockword s = 0 \<or> lockword s = 1) \<and>
     (lockword s = 0 \<longrightarrow> (\<forall>h. \<not> in_section s h)) \<and>
     (lockword s = 1 \<longrightarrow> (\<exists>!h. in_section s h)) \<and>
     (\<forall>h. pc s h \<noteq> HungRelease) \<and> (\<forall>h. pc s h \<noteq> Outside \<longrightarrow> \<not> intr s h)"

lemma mutex_inv_step: "mutex_inv s \<Longrightarrow> hart_step h s t \<Longrightarrow> mutex_inv t"
proof -
  assume inv: "mutex_inv s" and st: "hart_step h s t"
  have word: "lockword s = 0 \<or> lockword s = 1" using inv by (simp add: mutex_inv_def)
  have none: "\<not> in_section s h'" if "lockword s = 0" for h'
    using inv that by (simp add: mutex_inv_def)
  have one: "h1 = h2" if "in_section s h1" "in_section s h2" for h1 h2
    using inv that none word by (auto simp: mutex_inv_def)
  have ex: "\<exists>h1. in_section s h1" if "lockword s \<noteq> 0"
    using inv that word by (auto simp: mutex_inv_def)
  have ints: "pc s h' \<noteq> HungRelease" "pc s h' \<noteq> Outside \<Longrightarrow> \<not> intr s h'" for h'
    using inv by (auto simp: mutex_inv_def)
  have same: "mutex_inv t"
    if "lockword t = lockword s" "\<And>h'. in_section t h' = in_section s h'"
      "\<And>h'. pc t h' \<noteq> HungRelease" "\<And>h'. pc t h' \<noteq> Outside \<Longrightarrow> \<not> intr t h'" for t
    using inv that by (simp add: mutex_inv_def)
  from st show ?thesis
  proof cases
    case enter
    then show ?thesis by (intro same) (auto simp: in_section_def ints split: if_splits)
  next
    case held
    then show ?thesis by (intro same) (auto simp: in_section_def ints split: if_splits)
  next
    case free
    then show ?thesis by (intro same) (auto simp: in_section_def ints split: if_splits)
  next
    case lost
    then show ?thesis using word by (intro same) (auto simp: in_section_def ints split: if_splits)
  next
    case won
    then have "in_section t h' \<longleftrightarrow> h' = h" for h'
      using none by (simp add: in_section_def)
    then show ?thesis using won by (simp add: mutex_inv_def ints)
  next
    case not_held
    then show ?thesis using none [of h] by (simp add: in_section_def)
  next
    case leaving
    then show ?thesis by (intro same) (auto simp: in_section_def ints split: if_splits)
  next
    case release
    then have "\<not> in_section t h'" for h'
      using one [of h h'] by (auto simp: in_section_def)
    then show ?thesis using release by (simp add: mutex_inv_def ints)
  qed
qed

lemma mutex_inv_steps: "step\<^sup>*\<^sup>* s t \<Longrightarrow> mutex_inv s \<Longrightarrow> mutex_inv t"
  by (induction rule: rtranclp_induct) (auto simp: step_def mutex_inv_step)

lemma mutex_inv_initial: "initial s \<Longrightarrow> (\<And>h. intr s h = intr s h) \<Longrightarrow> mutex_inv s"
  by (simp add: initial_def mutex_inv_def in_section_def)

lemma reachable_inv: "reachable s \<Longrightarrow> mutex_inv s"
  using mutex_inv_steps mutex_inv_initial by (auto simp: reachable_def)

lemma reachable_steps: "reachable s \<Longrightarrow> step\<^sup>*\<^sup>* s t \<Longrightarrow> reachable t"
  unfolding reachable_def by (meson rtranclp_trans)

lemma hung_stable:
  "step\<^sup>*\<^sup>* s t \<Longrightarrow> pc s h = HungAcquire \<Longrightarrow> pc t h = HungAcquire"
  by (induction rule: rtranclp_induct) (auto simp: step_def elim!: hart_stepE split: if_splits)

text \<open>The moves of one hart on its own.\<close>

lemma own_steps:
  assumes "hart_step h s t" "step\<^sup>*\<^sup>* t u"
  shows "step\<^sup>*\<^sup>* s u"
  using assms by (metis converse_rtranclp_into_rtranclp step_def)

lemma release_run:
  assumes "in_section s h" "lockword s \<noteq> 0"
  shows "step\<^sup>*\<^sup>* s (goto h Outside (s\<lparr>lockword := 0, intr := (intr s)(h := True)\<rparr>))"
proof -
  have rel: "step u (goto h Outside (u\<lparr>lockword := 0, intr := (intr u)(h := True)\<rparr>))"
    if "pc u h = Releasing" for u
    using hart_step.release [of u h] that by (auto simp: step_def)
  show ?thesis
  proof (cases "pc s h = Releasing")
    case True
    then show ?thesis using rel [of s] by simp
  next
    case False
    then have "pc s h = Critical" using assms(1) by (simp add: in_section_def)
    then have "hart_step h s (goto h Releasing s)" using assms(2) by (rule hart_step.leaving)
    moreover have "step (goto h Releasing s)
        (goto h Outside (s\<lparr>lockword := 0, intr := (intr s)(h := True)\<rparr>))"
      using rel [of "goto h Releasing s"] by (simp add: goto_def)
    ultimately show ?thesis by (blast intro: own_steps)
  qed
qed

subsection \<open>Properties\<close>

definition two_harts :: harts where
  "two_harts = \<lparr>lockword = 0, pc = (\<lambda>_. Outside), intr = (\<lambda>_. True)\<rparr>"

definition contended :: harts where
  "contended = goto 1 Testing (goto 0 Critical
     (two_harts\<lparr>lockword := 1, intr := ((\<lambda>_. True)(0 := False))(1 := False)\<rparr>))"

lemma contended_reachable: "reachable contended"
proof -
  let ?s1 = "goto 0 Entered (two_harts\<lparr>intr := (intr two_harts)(0 := False)\<rparr>)"
  let ?s2 = "goto 0 Testing ?s1"
  let ?s3 = "goto 1 Entered (?s2\<lparr>intr := (intr ?s2)(1 := False)\<rparr>)"
  let ?s4 = "goto 1 Testing ?s3"
  let ?s5 = "goto 0 Critical (?s4\<lparr>lockword := 1\<rparr>)"
  have 1: "hart_step 0 two_harts ?s1" by (rule hart_step.enter) (simp add: two_harts_def)
  have 2: "hart_step 0 ?s1 ?s2" by (rule hart_step.free) (simp_all add: two_harts_def)
  have 3: "hart_step 1 ?s2 ?s3" by (rule hart_step.enter) (simp add: two_harts_def)
  have 4: "hart_step 1 ?s3 ?s4" by (rule hart_step.free) (simp_all add: two_harts_def)
  have 5: "hart_step 0 ?s4 ?s5" by (rule hart_step.won) (simp_all add: two_harts_def)
  note run = own_steps [OF 1 own_steps [OF 2 own_steps [OF 3 own_steps [OF 4
      own_steps [OF 5 rtranclp.rtrancl_refl]]]]]
  have "?s5 = contended"
    by (rule harts.equality) (auto simp: contended_def two_harts_def goto_def)
  with run have "step\<^sup>*\<^sup>* two_harts contended" by simp
  moreover have "initial two_harts" by (simp add: initial_def two_harts_def)
  ultimately show ?thesis unfolding reachable_def by blast
qed

text \<open>C8: mutual exclusion. In every reachable state of any number of harts at most one is
  in its critical section, the lock word is 1 exactly then and 0 otherwise, a hart in its
  section runs with its interrupts off, and \<open>spinlock_release\<close> never finds the lock free.\<close>

theorem spinlock_mutual_exclusion:
  assumes "reachable s"
  shows "(in_section s h1 \<and> in_section s h2 \<longrightarrow> h1 = h2) \<and>
    lockword s = (if \<exists>h. in_section s h then 1 else 0) \<and>
    (in_section s h1 \<longrightarrow> \<not> intr s h1) \<and> pc s h1 \<noteq> HungRelease"
proof -
  have inv: "mutex_inv s" using assms by (rule reachable_inv)
  then have "lockword s = 1 \<longrightarrow> (in_section s h1 \<and> in_section s h2 \<longrightarrow> h1 = h2)"
    unfolding mutex_inv_def by blast
  with inv show ?thesis by (auto simp: mutex_inv_def in_section_def)
qed

theorem spinlock_mutual_exclusion_witness:
  "in_section contended 0 \<and> \<not> in_section contended 1 \<and> lockword contended = 1"
  using spinlock_mutual_exclusion [OF contended_reachable, of 0 1]
  by (simp add: in_section_def contended_def)

text \<open>A hart that has passed the check of \<open>spinlock_acquire\<close> and spins can always still
  enter: from every reachable state in which it spins there is a run that takes it into
  its critical section. The lock has no state from which spinning is hopeless.\<close>

theorem spinning_hart_can_enter:
  assumes "reachable s" "pc s h = Testing"
  shows "\<exists>t. step\<^sup>*\<^sup>* s t \<and> pc t h = Critical"
proof -
  have win: "\<exists>t. step\<^sup>*\<^sup>* u t \<and> pc t h = Critical" if "pc u h = Testing" "lockword u = 0" for u
    using hart_step.won [OF that] own_steps by (metis pc_goto(1) rtranclp.rtrancl_refl)
  have inv: "mutex_inv s" using assms(1) by (rule reachable_inv)
  show ?thesis
  proof (cases "lockword s = 0")
    case True
    then show ?thesis using win assms(2) by simp
  next
    case False
    then obtain o' where o': "in_section s o'" using inv by (auto simp: mutex_inv_def)
    then have "o' \<noteq> h" using assms(2) by (auto simp: in_section_def)
    then show ?thesis
      using release_run [OF o' False] assms(2)
        win [of "goto o' Outside (s\<lparr>lockword := 0, intr := (intr s)(o' := True)\<rparr>)"]
      by (auto intro: rtranclp_trans)
  qed
qed

theorem spinning_hart_can_enter_witness: "\<exists>t. step\<^sup>*\<^sup>* contended t \<and> pc t 1 = Critical"
  by (rule spinning_hart_can_enter [OF contended_reachable]) (simp add: contended_def)

text \<open>Contention is taken for a double acquire. Whenever a hart is in its critical section,
  any hart outside can run \<open>spinlock_acquire\<close> into the endless loop of the double-acquire
  branch, though it does not hold the lock; and a hart in that loop never leaves it,
  whatever the others do.\<close>

theorem contention_hangs:
  assumes "reachable s" "in_section s h" "pc s h' = Outside"
  shows "\<exists>t. step\<^sup>*\<^sup>* s t \<and> pc t h' = HungAcquire \<and> (\<forall>u. step\<^sup>*\<^sup>* t u \<longrightarrow> pc u h' = HungAcquire)"
proof -
  have "lockword s \<noteq> 0" using reachable_inv [OF assms(1)] assms(2) by (auto simp: mutex_inv_def)
  let ?s1 = "goto h' Entered (s\<lparr>intr := (intr s)(h' := False)\<rparr>)"
  have "hart_step h' s ?s1" using assms(3) by (rule hart_step.enter)
  moreover have "hart_step h' ?s1 (goto h' HungAcquire ?s1)"
    using \<open>lockword s \<noteq> 0\<close> by (intro hart_step.held) simp_all
  ultimately have "step\<^sup>*\<^sup>* s (goto h' HungAcquire ?s1)"
    by (metis own_steps rtranclp.rtrancl_refl)
  moreover have "pc (goto h' HungAcquire ?s1) h' = HungAcquire" by simp
  ultimately show ?thesis using hung_stable by blast
qed

theorem contention_hangs_witness: "\<exists>t. step\<^sup>*\<^sup>* contended t \<and> pc t 2 = HungAcquire"
proof -
  have "in_section contended 0" "pc contended 2 = Outside"
    by (simp_all add: in_section_def contended_def two_harts_def)
  then show ?thesis using contention_hangs [OF contended_reachable] by blast
qed

text \<open>
  The sequential operations of \<open>Spinlock\<close> are runs of one hart: with the lock word of \<open>lk\<close>
  and its own interrupt bit, the hart makes the steps of the relation.
\<close>

definition hart_in :: "nat \<Rightarrow> hart_pc \<Rightarrow> lockid \<Rightarrow> 'a spins_scheme \<Rightarrow> harts \<Rightarrow> harts" where
  "hart_in h l lk s H = goto h l (H\<lparr>lockword := spinlock_held lk s, intr := (intr H)(h := sie s)\<rparr>)"

text \<open>The sequential \<open>spinlock_acquire\<close> and \<open>spinlock_release\<close> refine the step relation: a
  call that returns, or that stops, is a run of its hart to the place where it returns or
  stops, with the lock word and the interrupt bit of its final state.\<close>

theorem spinlock_calls_are_hart_runs:
  "(case spinlock_acquire lk s of
      Ret u t \<Rightarrow> step\<^sup>*\<^sup>* (hart_in h Outside lk s H) (hart_in h Critical lk t H)
    | Stop r t \<Rightarrow> step\<^sup>*\<^sup>* (hart_in h Outside lk s H) (hart_in h HungAcquire lk t H)) \<and>
   (case spinlock_release lk s of
      Ret u t \<Rightarrow> step\<^sup>*\<^sup>* (hart_in h Critical lk s H) (hart_in h Outside lk t H)
    | Stop r t \<Rightarrow> step\<^sup>*\<^sup>* (hart_in h Critical lk s H) (hart_in h HungRelease lk t H))"
proof -
  let ?o = "hart_in h Outside lk s H" and ?c = "hart_in h Critical lk s H"
  have e: "hart_step h ?o (hart_in h Entered lk (intr_off s) H)"
    using hart_step.enter [of ?o h] by (simp add: hart_in_def goto_def)
  have d: "hart_step h (hart_in h Entered lk (intr_off s) H) (hart_in h HungAcquire lk (intr_off s) H)"
    if "is_held s lk"
    using hart_step.held [of "hart_in h Entered lk (intr_off s) H" h] that
    by (simp add: hart_in_def goto_def)
  have f: "hart_step h (hart_in h Entered lk (intr_off s) H) (hart_in h Testing lk (intr_off s) H)"
    if "\<not> is_held s lk"
    using hart_step.free [of "hart_in h Entered lk (intr_off s) H" h] that
    by (simp add: hart_in_def goto_def)
  have w: "hart_step h (hart_in h Testing lk (intr_off s) H)
      (hart_in h Critical lk (set_locked lk 1 (intr_off s)) H)" if "\<not> is_held s lk"
  proof -
    have "hart_in h Critical lk (set_locked lk 1 (intr_off s)) H =
        goto h Critical ((hart_in h Testing lk (intr_off s) H)\<lparr>lockword := 1\<rparr>)"
      by (rule harts.equality) (simp_all add: hart_in_def goto_def)
    then show ?thesis
      using that by (simp only:) (rule hart_step.won, simp_all add: hart_in_def goto_def)
  qed
  have n: "hart_step h ?c (hart_in h HungRelease lk s H)" if "\<not> is_held s lk"
    using hart_step.not_held [of ?c h] that by (simp add: hart_in_def goto_def)
  have r: "step\<^sup>*\<^sup>* ?c (hart_in h Outside lk (intr_on (set_locked lk 0 s)) H)" if "is_held s lk"
    using release_run [of ?c h] that by (simp add: hart_in_def goto_def in_section_def)
  show ?thesis
  proof (cases "is_held s lk")
    case True
    then show ?thesis
      using own_steps [OF e own_steps [OF d rtranclp.rtrancl_refl]] r
      by (simp add: acquire_eq spinlock_release_def del: set_locked_intr)
  next
    case False
    then show ?thesis
      using own_steps [OF e own_steps [OF f own_steps [OF w rtranclp.rtrancl_refl]]]
        own_steps [OF n rtranclp.rtrancl_refl]
      by (simp add: acquire_eq spinlock_release_def del: set_locked_intr)
  qed
qed

end
