(* ===== verification/Process.thy ===== *)
theory Process
  imports Spinlock
begin

text \<open>
  \<open>kernel/proc/process.c\<close>, \<open>include/kernel/proc/process.h\<close> and \<open>globals.h\<close>: the process
  table and the allocation and release of its slots. A \<open>struct proc *\<close> is the index of its
  slot, NULL is \<open>None\<close>. A \<open>struct trapframe *\<close> is its virtual address (0 for NULL) and
  \<open>tf_heap\<close> holds the trapframes by address.
\<close>

datatype proc_state =
    PROC_UNUSED
  | PROC_USED
  | PROC_SLEEPING
  | PROC_RUNNABLE
  | PROC_RUNNING
  | PROC_ZOMBIE

record cpu_context =
  c_ra :: u64
  c_sp :: u64
  c_s0 :: u64
  c_s1 :: u64
  c_s2 :: u64
  c_s3 :: u64
  c_s4 :: u64
  c_s5 :: u64
  c_s6 :: u64
  c_s7 :: u64
  c_s8 :: u64
  c_s9 :: u64
  c_s10 :: u64
  c_s11 :: u64

record trapframe =
  kernel_satp :: u64
  kernel_sp :: u64
  kernel_trap :: u64
  epc :: u64
  kernel_hartid :: u64
  tf_ra :: u64
  tf_sp :: u64
  tf_gp :: u64
  tf_tp :: u64
  tf_t0 :: u64
  tf_t1 :: u64
  tf_t2 :: u64
  tf_s0 :: u64
  tf_s1 :: u64
  tf_a0 :: u64
  tf_a1 :: u64
  tf_a2 :: u64
  tf_a3 :: u64
  tf_a4 :: u64
  tf_a5 :: u64
  tf_a6 :: u64
  tf_a7 :: u64
  tf_s2 :: u64
  tf_s3 :: u64
  tf_s4 :: u64
  tf_s5 :: u64
  tf_s6 :: u64
  tf_s7 :: u64
  tf_s8 :: u64
  tf_s9 :: u64
  tf_s10 :: u64
  tf_s11 :: u64
  tf_t3 :: u64
  tf_t4 :: u64
  tf_t5 :: u64
  tf_t6 :: u64

record proc =
  state :: proc_state
  pid :: int
  parent :: "nat option"
  pagetable :: u64
  sz :: u64
  kstack :: u64
  trapframe_ptr :: u64
  ctx :: cpu_context
  exit_code :: int
  pname :: string

definition NPROC :: nat where "NPROC = 64"

text \<open>
  \<open>sched_index\<close> is the static \<open>current_index\<close> of \<open>scheduler\<close>, \<open>cpu\<close> the callee-saved
  registers of the hart, \<open>int_at\<close> the \<open>int\<close>s that \<open>wait\<close> stores through its argument.
\<close>

record procs = spins +
  proc_table :: "proc list"
  current_process :: "nat option"
  next_pid :: int
  tf_heap :: "u64 \<Rightarrow> trapframe"
  sched_index :: nat
  cpu :: cpu_context
  int_at :: "u64 \<Rightarrow> int"

abbreviation proc_at :: "'a procs_scheme \<Rightarrow> nat \<Rightarrow> proc" where
  "proc_at s i \<equiv> proc_table s ! i"

definition upd_proc :: "nat \<Rightarrow> (proc \<Rightarrow> proc) \<Rightarrow> 'a procs_scheme \<Rightarrow> 'a procs_scheme" where
  "upd_proc i f s = s\<lparr>proc_table := (proc_table s)[i := f (proc_table s ! i)]\<rparr>"

definition myproc :: "'a procs_scheme \<Rightarrow> nat option" where
  "myproc s = current_process s"

definition alloc_proc :: "'a procs_scheme \<Rightarrow> nat option \<times> 'a procs_scheme" where
  "alloc_proc s =
     (case scan_from (\<lambda>i. state (proc_at s i) = PROC_UNUSED) 0 NPROC of
        Some i \<Rightarrow>
          (Some i,
           (upd_proc i (\<lambda>p. p\<lparr>state := PROC_USED, pid := next_pid s, parent := None,
              pagetable := 0, sz := 0, kstack := 0, trapframe_ptr := 0, exit_code := 0,
              pname := (pname p)[0 := CHR 0x00]\<rparr>) s)\<lparr>next_pid := next_pid s + 1\<rparr>)
      | None \<Rightarrow> (None, s))"

text \<open>\<open>free_proc\<close>: the three releases in the order of the code; NULL is ignored.\<close>

definition free_pagetable_of :: "nat \<Rightarrow> 'a procs_scheme \<Rightarrow> 'a procs_scheme" where
  "free_pagetable_of p s =
     (if pagetable (proc_at s p) \<noteq> 0
      then upd_proc p (pagetable_update (\<lambda>_. 0)) (free_page_table (pagetable (proc_at s p)) s)
      else s)"

definition free_kstack_of :: "nat \<Rightarrow> 'a procs_scheme \<Rightarrow> 'a procs_scheme" where
  "free_kstack_of p s =
     (if kstack (proc_at s p) \<noteq> 0
      then upd_proc p (kstack_update (\<lambda>_. 0))
        (free_physical_page (virt_to_phys (kstack (proc_at s p) - PAGE_SIZE)) s)
      else s)"

definition free_trapframe_of :: "nat \<Rightarrow> 'a procs_scheme \<Rightarrow> 'a procs_scheme" where
  "free_trapframe_of p s =
     (if trapframe_ptr (proc_at s p) \<noteq> 0
      then upd_proc p (trapframe_ptr_update (\<lambda>_. 0))
        (free_physical_page (virt_to_phys (trapframe_ptr (proc_at s p))) s)
      else s)"

definition free_proc :: "nat option \<Rightarrow> 'a procs_scheme \<Rightarrow> 'a procs_scheme" where
  "free_proc q s =
     (case q of
        None \<Rightarrow> s
      | Some p \<Rightarrow>
          upd_proc p (state_update (\<lambda>_. PROC_UNUSED))
            (free_trapframe_of p (free_kstack_of p (free_pagetable_of p s))))"

text \<open>
  \<open>proc_init\<close>, with its early returns: when a page is missing, the first slot stays
  \<open>PROC_USED\<close> and there is no current process.
\<close>

definition proc_init :: "'a procs_scheme \<Rightarrow> 'a procs_scheme" where
  "proc_init s0 =
     (let s = s0\<lparr>proc_table := map (state_update (\<lambda>_. PROC_UNUSED)) (proc_table s0)\<rparr>
      in case alloc_proc s of
        (None, s1) \<Rightarrow> s1
      | (Some init, s1) \<Rightarrow>
          (case physmem_alloc_page s1 of (kstack_page, s2) \<Rightarrow>
            if kstack_page = 0 then s2
            else
              let s3 = upd_proc init
                    (kstack_update (\<lambda>_. phys_to_virt kstack_page + PAGE_SIZE)) s2
              in case physmem_alloc_page s3 of (trapframe_page, s4) \<Rightarrow>
                if trapframe_page = 0 then s4
                else
                  let s5 = upd_proc init
                        (trapframe_ptr_update (\<lambda>_. phys_to_virt trapframe_page)) s4
                  in case create_page_table s5 of (table, s6) \<Rightarrow>
                    let s7 = upd_proc init (pagetable_update (\<lambda>_. table)) s6
                    in if table = 0 then s7
                       else (upd_proc init (\<lambda>p. p\<lparr>state := PROC_RUNNABLE,
                               pname := (pname p)[0 := CHR ''i'', 1 := CHR ''n'',
                                 2 := CHR ''i'', 3 := CHR ''t'', 4 := CHR 0x00]\<rparr>) s7)
                              \<lparr>current_process := Some init\<rparr>))"

subsection \<open>Frame of the table updates and of the memory operations\<close>

lemma upd_proc_sel [simp]:
  "length (proc_table (upd_proc i f s)) = length (proc_table s)"
  "proc_table (upd_proc i f s) ! j =
     (if j = i \<and> i < length (proc_table s) then f (proc_at s i) else proc_at s j)"
  "current_process (upd_proc i f s) = current_process s"
  "next_pid (upd_proc i f s) = next_pid s" "tf_heap (upd_proc i f s) = tf_heap s"
  "sched_index (upd_proc i f s) = sched_index s" "cpu (upd_proc i f s) = cpu s"
  "int_at (upd_proc i f s) = int_at s" "spin (upd_proc i f s) = spin s"
  "sie (upd_proc i f s) = sie s" "paging_active (upd_proc i f s) = paging_active s"
  "tables (upd_proc i f s) = tables s" "phys_bitmap (upd_proc i f s) = phys_bitmap s"
  "free_pages_count (upd_proc i f s) = free_pages_count s"
  "kernel_pagetable (upd_proc i f s) = kernel_pagetable s" "satp (upd_proc i f s) = satp s"
  by (auto simp: upd_proc_def nth_list_update list_update_beyond not_less)

lemma upd_proc_table:
  "proc_table (upd_proc i f s) = (proc_table s)[i := f (proc_at s i)]"
  by (simp add: upd_proc_def)

lemma physmem_cong:
  assumes "phys_bitmap t = phys_bitmap s" "free_pages_count t = free_pages_count s"
  shows "physmem_inv t = physmem_inv s" "avail_pages t = avail_pages s"
    "free_set t = free_set s"
proof -
  show "free_set t = free_set s" using assms by (simp add: free_set_def is_page_free_def)
  then show "physmem_inv t = physmem_inv s" "avail_pages t = avail_pages s"
    using assms by (simp_all add: physmem_inv_def avail_pages_def)
qed

lemma upd_proc_physmem [simp]:
  "physmem_inv (upd_proc i f s) = physmem_inv s" "avail_pages (upd_proc i f s) = avail_pages s"
  using physmem_cong [of "upd_proc i f s" s] by simp_all

text \<open>The page operations leave the process layer of the state alone.\<close>

lemma free_page_frame [frame]:
  "spins.more (free_physical_page p s) = spins.more s"
  "spin (free_physical_page p s) = spin s" "sie (free_physical_page p s) = sie s"
  "tables (free_physical_page p s) = tables s"
  "paging_active (free_physical_page p s) = paging_active s"
  "kernel_pagetable (free_physical_page p s) = kernel_pagetable s"
  by (simp_all add: free_physical_page_def mark_page_free_def Let_def)

lemma alloc_page_frame [frame]:
  assumes "physmem_alloc_page s = (p, t)"
  shows "spins.more t = spins.more s" "spin t = spin s" "sie t = sie s"
    "tables t = tables s" "paging_active t = paging_active s"
    "kernel_pagetable t = kernel_pagetable s"
  using assms
  by (auto simp: physmem_alloc_page_def mark_page_allocated_def Let_def split: option.splits)

lemma create_page_table_frame [frame]:
  assumes "create_page_table s = (pt, t)"
  shows "spins.more t = spins.more s" "spin t = spin s" "sie t = sie s"
    "paging_active t = paging_active s" "kernel_pagetable t = kernel_pagetable s"
  using assms
  by (auto simp: create_page_table_def clear_table_def Let_def physmem_alloc_page_def
      mark_page_allocated_def split: option.splits if_splits)

lemma procs_of_more:
  fixes s t :: "'a procs_scheme"
  assumes "spins.more t = spins.more s"
  shows "proc_table t = proc_table s" "current_process t = current_process s"
    "next_pid t = next_pid s" "tf_heap t = tf_heap s" "sched_index t = sched_index s"
    "cpu t = cpu s" "int_at t = int_at s"
  using assms by (cases s; cases t; simp)+

end
