(* ===== verification/Control.thy ===== *)
theory Control
  imports Process
begin

text \<open>
  \<open>kernel/proc/control.c\<close>: \<open>fork\<close>, \<open>exit\<close>, \<open>wait\<close>, \<open>sleep\<close> and \<open>wakeup\<close>. A call that enters
  \<open>scheduler\<close> does not come back to its caller; it ends in \<open>Stop Rescheduled\<close> with the
  state in which the scheduler takes over (see \<open>Scheduler\<close>).
\<close>

definition copy_fields :: "trapframe \<Rightarrow> trapframe \<Rightarrow> trapframe" where
  "copy_fields dest src =
     dest\<lparr>
       kernel_satp := kernel_satp src, kernel_sp := kernel_sp src, kernel_trap := kernel_trap src,
       epc := epc src, kernel_hartid := kernel_hartid src, tf_ra := tf_ra src,
       tf_sp := tf_sp src, tf_gp := tf_gp src, tf_tp := tf_tp src,
       tf_t0 := tf_t0 src, tf_t1 := tf_t1 src, tf_t2 := tf_t2 src,
       tf_s0 := tf_s0 src, tf_s1 := tf_s1 src, tf_a0 := tf_a0 src,
       tf_a1 := tf_a1 src, tf_a2 := tf_a2 src, tf_a3 := tf_a3 src,
       tf_a4 := tf_a4 src, tf_a5 := tf_a5 src, tf_a6 := tf_a6 src,
       tf_a7 := tf_a7 src, tf_s2 := tf_s2 src, tf_s3 := tf_s3 src,
       tf_s4 := tf_s4 src, tf_s5 := tf_s5 src, tf_s6 := tf_s6 src,
       tf_s7 := tf_s7 src, tf_s8 := tf_s8 src, tf_s9 := tf_s9 src,
       tf_s10 := tf_s10 src, tf_s11 := tf_s11 src, tf_t3 := tf_t3 src,
       tf_t4 := tf_t4 src, tf_t5 := tf_t5 src, tf_t6 := tf_t6 src\<rparr>"

definition copy_trapframe :: "u64 \<Rightarrow> u64 \<Rightarrow> 'a procs_scheme \<Rightarrow> 'a procs_scheme" where
  "copy_trapframe dest src s =
     (if dest = 0 \<or> src = 0 then s
      else s\<lparr>tf_heap := (tf_heap s)(dest := copy_fields (tf_heap s dest) (tf_heap s src))\<rparr>)"

text \<open>The child's trapframe in \<open>fork\<close>: a copy of the parent's, in which fork returns 0.\<close>

definition fork_trapframe :: "nat \<Rightarrow> nat \<Rightarrow> 'a procs_scheme \<Rightarrow> 'a procs_scheme" where
  "fork_trapframe child par s =
     (let child_tf = trapframe_ptr (proc_at s child); parent_tf = trapframe_ptr (proc_at s par)
      in if parent_tf \<noteq> 0 then
           let s' = copy_trapframe child_tf parent_tf s
           in s'\<lparr>tf_heap := (tf_heap s')(child_tf := (tf_heap s' child_tf)\<lparr>tf_a0 := 0\<rparr>)\<rparr>
         else s)"

text \<open>\<open>fork\<close> in the order of the code, with \<open>free_proc\<close> on each failure after the first two.\<close>

definition fork :: "'a procs_scheme \<Rightarrow> int \<times> 'a procs_scheme" where
  "fork s =
     (case current_process s of
        None \<Rightarrow> (- 1, s)
      | Some par \<Rightarrow>
     (case alloc_proc s of
        (None, s1) \<Rightarrow> (- 1, s1)
      | (Some child, s1) \<Rightarrow>
     (let s2 = upd_proc child (\<lambda>p. p\<lparr>parent := Some par, sz := sz (proc_at s1 par)\<rparr>) s1
      in case physmem_alloc_page s2 of (kstack_page, s3) \<Rightarrow>
        if kstack_page = 0 then (- 1, free_proc (Some child) s3)
        else
     (let s4 = upd_proc child (kstack_update (\<lambda>_. phys_to_virt kstack_page + PAGE_SIZE)) s3
      in case physmem_alloc_page s4 of (trapframe_page, s5) \<Rightarrow>
        if trapframe_page = 0 then (- 1, free_proc (Some child) s5)
        else
     (let s6 = upd_proc child (trapframe_ptr_update (\<lambda>_. phys_to_virt trapframe_page)) s5;
          s7 = fork_trapframe child par s6
      in case create_page_table s7 of (table, s8) \<Rightarrow>
        let s9 = upd_proc child (pagetable_update (\<lambda>_. table)) s8
        in if table = 0 then (- 1, free_proc (Some child) s9)
           else (pid (proc_at s9 child),
                 upd_proc child (state_update (\<lambda>_. PROC_RUNNABLE)) s9))))))"

text \<open>\<open>wakeup\<close> does not look at its channel.\<close>

definition wakeup :: "'c \<Rightarrow> 'a procs_scheme \<Rightarrow> 'a procs_scheme" where
  "wakeup chan s =
     s\<lparr>proc_table := map (\<lambda>p. if state p = PROC_SLEEPING then p\<lparr>state := PROC_RUNNABLE\<rparr> else p)
         (proc_table s)\<rparr>"

definition exit :: "int \<Rightarrow> 'a procs_scheme \<Rightarrow> (unit, 'a procs_scheme) outcome" where
  "exit status s =
     (case current_process s of
        None \<Rightarrow> Ret () s
      | Some p \<Rightarrow>
          let s1 = upd_proc p (\<lambda>q. q\<lparr>exit_code := status, state := PROC_ZOMBIE\<rparr>) s
          in case parent (proc_at s1 p) of
               None \<Rightarrow> Stop Halted s1
             | Some q \<Rightarrow> Stop Halted (wakeup q s1))"

definition is_zombie_child :: "'a procs_scheme \<Rightarrow> nat \<Rightarrow> bool" where
  "is_zombie_child s i \<longleftrightarrow>
     parent (proc_at s i) = current_process s \<and> state (proc_at s i) = PROC_ZOMBIE"

text \<open>\<open>wait\<close> stores through its argument whatever it is; a store through NULL does not end well.\<close>

definition wait :: "u64 \<Rightarrow> 'a procs_scheme \<Rightarrow> (int, 'a procs_scheme) outcome" where
  "wait status_addr s =
     (case scan_from (is_zombie_child s) 0 NPROC of
        Some child \<Rightarrow>
          if status_addr = 0 then Stop NullDeref s
          else
            let s1 = s\<lparr>int_at := (int_at s)(status_addr := exit_code (proc_at s child))\<rparr>
            in Ret (pid (proc_at s child)) (free_proc (Some child) s1)
      | None \<Rightarrow> Ret (- 1) s)"

text \<open>
  \<open>sleep\<close> in its two visible steps: the lock is released first, then the process is marked
  sleeping and the CPU given to \<open>scheduler\<close>. Without a current process \<open>sleep\<close> returns
  with the lock still held.
\<close>

definition sleep_unlock :: "lockid option \<Rightarrow> 'a procs_scheme \<Rightarrow> (unit, 'a procs_scheme) outcome" where
  "sleep_unlock lk s = (case lk of None \<Rightarrow> Ret () s | Some l \<Rightarrow> spinlock_release l s)"

definition sleep_commit :: "nat \<Rightarrow> 'a procs_scheme \<Rightarrow> 'a procs_scheme" where
  "sleep_commit p s = upd_proc p (state_update (\<lambda>_. PROC_SLEEPING)) s"

definition sleep :: "'c \<Rightarrow> lockid option \<Rightarrow> 'a procs_scheme \<Rightarrow> (unit, 'a procs_scheme) outcome" where
  "sleep chan lk s =
     (case current_process s of
        None \<Rightarrow> Ret () s
      | Some p \<Rightarrow>
          bind_out (sleep_unlock lk s) (\<lambda>_ s1. Stop Rescheduled (sleep_commit p s1)))"

end
