(* ===== verification/Slot_Table.thy ===== *)
theory Slot_Table
  imports Prelude
begin

text \<open>
  The contract of the kernel's fixed tables (processes, open files, disk descriptors): an
  allocation takes the first slot that is not in use, and fails exactly when all are. The
  client is a run of allocations; each table's component interprets the locale on its own
  allocation function.
\<close>

fun alloc_run :: "('s \<Rightarrow> nat option \<times> 's) \<Rightarrow> nat \<Rightarrow> 's \<Rightarrow> nat list \<times> 's" where
  "alloc_run alloc 0 s = ([], s)"
| "alloc_run alloc (Suc n) s =
     (case alloc s of
        (None, t) \<Rightarrow> ([], t)
      | (Some i, t) \<Rightarrow> (case alloc_run alloc n t of (is, u) \<Rightarrow> (i # is, u)))"

locale slot_table =
  fixes used :: "'s \<Rightarrow> nat set" and cap :: nat
    and alloc :: "'s \<Rightarrow> nat option \<times> 's" and invar :: "'s \<Rightarrow> bool"
  assumes used_cap: "invar s \<Longrightarrow> used s \<subseteq> {..<cap}"
    and alloc_SomeD: "invar s \<Longrightarrow> alloc s = (Some i, t) \<Longrightarrow>
      i < cap \<and> i \<notin> used s \<and> {..<i} \<subseteq> used s \<and> used t = insert i (used s) \<and> invar t"
    and alloc_NoneD: "invar s \<Longrightarrow> alloc s = (None, t) \<Longrightarrow> t = s \<and> used s = {..<cap}"
begin

lemma finite_used: "invar s \<Longrightarrow> finite (used s)"
  using used_cap finite_subset by blast

lemma alloc_None_iff:
  assumes "invar s"
  shows "fst (alloc s) = None \<longleftrightarrow> used s = {..<cap}"
proof (cases "alloc s")
  case (Pair r t)
  then show ?thesis
    using alloc_NoneD [OF assms] alloc_SomeD [OF assms] by (cases r) auto
qed

lemma alloc_Some_iff:
  assumes "invar s"
  shows "fst (alloc s) = Some i \<longleftrightarrow> i < cap \<and> i \<notin> used s \<and> {..<i} \<subseteq> used s"
proof (cases "alloc s")
  case (Pair r t)
  have uniq: "j = i" if "j \<notin> used s" "{..<j} \<subseteq> used s" "i \<notin> used s" "{..<i} \<subseteq> used s" for j
    using that by (meson lessThan_iff linorder_neqE_nat subsetD)
  show ?thesis
    using Pair alloc_NoneD [OF assms] alloc_SomeD [OF assms] uniq by (cases r) auto
qed

lemma alloc_run_spec:
  assumes "invar s" "alloc_run alloc n s = (is, t)"
  shows "invar t \<and> distinct is \<and> set is \<inter> used s = {} \<and> used t = used s \<union> set is \<and>
    length is = min n (cap - card (used s))"
  using assms
proof (induction n arbitrary: s "is")
  case 0
  then show ?case by simp
next
  case (Suc n)
  obtain r u where a: "alloc s = (r, u)" by (cases "alloc s")
  show ?case
  proof (cases r)
    case None
    then have "t = s" "is = []" "used s = {..<cap}"
      using Suc.prems a alloc_NoneD by auto
    then show ?thesis using Suc.prems(1) by simp
  next
    case (Some i)
    note sp = alloc_SomeD [OF Suc.prems(1) a [unfolded Some]]
    obtain js where js: "alloc_run alloc n u = (js, t)" "is = i # js"
      using Suc.prems(2) a Some by (auto split: prod.splits)
    note ih = Suc.IH [OF conjunct2 [OF conjunct2 [OF conjunct2 [OF conjunct2 [OF sp]]]] js(1)]
    have "card (used s) < cap"
      using psubset_card_mono [of "{..<cap}" "used s"] used_cap [OF Suc.prems(1)] sp by auto
    moreover have "card (used u) = Suc (card (used s))"
      using sp finite_used [OF Suc.prems(1)] by simp
    ultimately show ?thesis using ih sp js(2) by (auto simp: Suc_diff_Suc)
  qed
qed

end

end
