(* ===== verification/Process_Inv.thy ===== *)
theory Process_Inv
  imports Control Slot_Table Address_Spaces
begin

text \<open>
  The invariant of the process table, for a kernel whose paging is on: every page that a
  slot points at is a page of RAM that the allocator does not give out again and that no
  other slot points at, and live processes have different pids. Lemmas for the two moves
  all operations consist of, a slot taking over a fresh page and a slot giving one back,
  and the contract of the slots themselves as an interpretation of \<open>slot_table\<close>.
\<close>

subsection \<open>Pages of a slot\<close>

definition slot_pages :: "proc \<Rightarrow> u64 list" where
  "slot_pages p =
     (if pagetable p = 0 then [] else [virt_to_phys (pagetable p)]) @
     (if kstack p = 0 then [] else [virt_to_phys (kstack p - PAGE_SIZE)]) @
     (if trapframe_ptr p = 0 then [] else [virt_to_phys (trapframe_ptr p)])"

lemma slot_pages_upd [simp]:
  "slot_pages (parent_update g p) = slot_pages p" "slot_pages (sz_update h p) = slot_pages p"
  "slot_pages (state_update k p) = slot_pages p" "slot_pages (exit_code_update m p) = slot_pages p"
  "slot_pages (ctx_update n p) = slot_pages p" "slot_pages (pname_update q p) = slot_pages p"
  by (simp_all add: slot_pages_def)

definition live :: "'a procs_scheme \<Rightarrow> nat \<Rightarrow> bool" where
  "live s i \<longleftrightarrow> i < NPROC \<and> state (proc_at s i) \<noteq> PROC_UNUSED"

definition owns :: "'a procs_scheme \<Rightarrow> nat \<Rightarrow> u64 \<Rightarrow> bool" where
  "owns s i x \<longleftrightarrow> i < NPROC \<and> x \<in> set (slot_pages (proc_at s i))"

definition owned :: "'a procs_scheme \<Rightarrow> u64 set" where
  "owned s = {x. \<exists>i. owns s i x}"

definition procs_inv :: "'a procs_scheme \<Rightarrow> bool" where
  "procs_inv s \<longleftrightarrow> length (proc_table s) = NPROC \<and> physmem_inv s \<and> paging_active s \<and>
     (\<forall>i < NPROC. distinct (slot_pages (proc_at s i)) \<and>
        (\<not> live s i \<longrightarrow> slot_pages (proc_at s i) = [])) \<and>
     (\<forall>i j x. owns s i x \<and> owns s j x \<longrightarrow> i = j) \<and>
     owned s \<subseteq> ram_pages \<and> owned s \<inter> avail_pages s = {} \<and>
     (\<forall>i. live s i \<longrightarrow> pid (proc_at s i) < next_pid s \<and> 0 < pid (proc_at s i)) \<and>
     (\<forall>i j. live s i \<and> live s j \<and> pid (proc_at s i) = pid (proc_at s j) \<longrightarrow> i = j) \<and>
     0 < next_pid s"

lemma procs_invD:
  assumes "procs_inv s"
  shows "length (proc_table s) = NPROC" "physmem_inv s" "paging_active s" "0 < next_pid s"
    and "i < NPROC \<Longrightarrow> distinct (slot_pages (proc_at s i))"
    and "i < NPROC \<Longrightarrow> \<not> live s i \<Longrightarrow> slot_pages (proc_at s i) = []"
    and "owns s i x \<Longrightarrow> owns s j x \<Longrightarrow> i = j"
    and "owns s i x \<Longrightarrow> x \<in> ram_pages \<and> x \<notin> avail_pages s"
    and "live s i \<Longrightarrow> pid (proc_at s i) < next_pid s \<and> 0 < pid (proc_at s i)"
    and "live s i \<Longrightarrow> live s j \<Longrightarrow> pid (proc_at s i) = pid (proc_at s j) \<Longrightarrow> i = j"
  using assms by (auto simp: procs_inv_def owned_def)

lemma finite_avail_pages [simp]: "finite (avail_pages s)"
  by (simp add: avail_pages_def)

text \<open>What the pointers of the code give back as pages.\<close>

lemma phys_page_ptr:
  assumes "x \<in> ram_pages"
  shows "phys_to_virt x \<noteq> 0" "phys_to_virt x + PAGE_SIZE \<noteq> 0"
    "virt_to_phys (phys_to_virt x + PAGE_SIZE - PAGE_SIZE) = x"
proof -
  obtain i where i: "i < NUM_PAGES" "x = page_addr i" using assms by (auto simp: ram_pages_def)
  have "phys_to_virt x + PAGE_SIZE = 0xC0000000 + of_nat (i + 1) * 4096"
    by (simp add: i(2) page_addr_def phys_to_virt_def layout_defs algebra_simps)
  moreover have "unat (0xC0000000 + of_nat (i + 1) * 4096 :: u64) = 0xC0000000 + (i + 1) * 4096"
    using i(1) by (simp add: unat_word_ariths unsigned_of_nat NUM_PAGES_def take_bit_eq_mod)
  ultimately show "phys_to_virt x + PAGE_SIZE \<noteq> 0" by auto
  show "phys_to_virt x \<noteq> 0" using assms by (rule phys_to_virt_ram_nonzero)
  show "virt_to_phys (phys_to_virt x + PAGE_SIZE - PAGE_SIZE) = x" by simp
qed

subsection \<open>A slot takes over a page, or gives one back\<close>

lemma procs_inv_cong:
  assumes "proc_table t = proc_table s" "phys_bitmap t = phys_bitmap s"
    "free_pages_count t = free_pages_count s" "paging_active t = paging_active s"
    "next_pid t = next_pid s"
  shows "procs_inv t = procs_inv s" "owned t = owned s" "owns t = owns s" "live t = live s"
proof -
  note pc = physmem_cong [OF assms(2,3)]
  show ow: "owns t = owns s" and lv: "live t = live s"
    using assms(1) by (auto simp: owns_def live_def fun_eq_iff)
  then show "owned t = owned s" by (simp add: owned_def)
  then show "procs_inv t = procs_inv s" using ow lv pc assms by (simp add: procs_inv_def)
qed

lemma take_page:
  assumes inv: "procs_inv s" and c: "live s c"
    and x: "x \<in> avail_pages s" "avail_pages t = avail_pages s - {x}" "physmem_inv t"
    and t: "proc_table t = proc_table s" "paging_active t" "next_pid t = next_pid s"
    and f: "set (slot_pages (f (proc_at s c))) = insert x (set (slot_pages (proc_at s c)))"
      "x \<notin> set (slot_pages (proc_at s c)) \<Longrightarrow> distinct (slot_pages (proc_at s c)) \<Longrightarrow>
        distinct (slot_pages (f (proc_at s c)))"
      "state (f (proc_at s c)) = state (proc_at s c)" "pid (f (proc_at s c)) = pid (proc_at s c)"
  shows "procs_inv (upd_proc c f t)"
    and "owned (upd_proc c f t) = insert x (owned s)"
    and "live (upd_proc c f t) = live s"
proof -
  let ?u = "upd_proc c f t"
  note D = procs_invD [OF inv]
  have len: "length (proc_table t) = NPROC" using D(1) t(1) by simp
  have cN: "c < NPROC" using c by (simp add: live_def)
  have at: "proc_at ?u i = (if i = c then f (proc_at s c) else proc_at s i)" for i
    using cN len by (simp add: t(1))
  show lv: "live ?u = live s" using f(3) by (auto simp: live_def at fun_eq_iff simp del: upd_proc_sel(2))
  have ow: "owns ?u i y \<longleftrightarrow> owns s i y \<or> i = c \<and> y = x" for i y
    using cN f(1) by (auto simp: owns_def at simp del: upd_proc_sel(2))
  then show od: "owned ?u = insert x (owned s)" by (auto simp: owned_def)
  have new: "\<not> owns s i x" for i using D(8) x(1) by blast
  then have xc: "x \<notin> set (slot_pages (proc_at s c))" using cN by (auto simp: owns_def)
  have "x \<in> ram_pages" using x(1) pm.avail_pages [OF D(2)] by blast
  show "procs_inv ?u"
    unfolding procs_inv_def lv od
  proof (intro conjI allI impI)
    show "length (proc_table ?u) = NPROC" "physmem_inv ?u" "paging_active ?u" "0 < next_pid ?u"
      using len x(3) t D(4) by simp_all
    show "distinct (slot_pages (proc_at ?u i))" if "i < NPROC" for i
      using D(5) [OF that] f(2) [OF xc D(5) [OF cN]] by (simp add: at del: upd_proc_sel(2))
    show "slot_pages (proc_at ?u i) = []" if "i < NPROC" "\<not> live s i" for i
      using D(6) [OF that] that c by (auto simp: at simp del: upd_proc_sel(2))
    show "i = j" if "owns ?u i y \<and> owns ?u j y" for i j y
      using that D(7) new by (auto simp: ow)
    show "insert x (owned s) \<subseteq> ram_pages"
      using D(8) \<open>x \<in> ram_pages\<close> by (auto simp: owned_def)
    show "insert x (owned s) \<inter> avail_pages ?u = {}" using D(8) x(2) by (auto simp: owned_def)
    show "pid (proc_at ?u i) < next_pid ?u" "0 < pid (proc_at ?u i)" if "live s i" for i
      using D(9) [OF that] t(3) f(4) by (auto simp: at simp del: upd_proc_sel(2))
    show "i = j" if "live s i \<and> live s j \<and> pid (proc_at ?u i) = pid (proc_at ?u j)" for i j
      using that D(10) [of i j] f(4) by (simp add: at split: if_splits del: upd_proc_sel(2))
  qed
qed

lemma drop_page:
  assumes inv: "procs_inv s" and c: "live s c"
    and x: "x \<in> set (slot_pages (proc_at s c))"
    and f: "set (slot_pages (f (proc_at s c))) = set (slot_pages (proc_at s c)) - {x}"
      "distinct (slot_pages (proc_at s c)) \<Longrightarrow> distinct (slot_pages (f (proc_at s c)))"
      "state (f (proc_at s c)) = state (proc_at s c)" "pid (f (proc_at s c)) = pid (proc_at s c)"
  shows "procs_inv (upd_proc c f (free_physical_page x s))"
    and "avail_pages (upd_proc c f (free_physical_page x s)) = insert x (avail_pages s)"
    and "owned (upd_proc c f (free_physical_page x s)) = owned s - {x}"
    and "live (upd_proc c f (free_physical_page x s)) = live s"
proof -
  let ?t = "free_physical_page x s"
  let ?u = "upd_proc c f ?t"
  note D = procs_invD [OF inv]
  have cN: "c < NPROC" using c by (simp add: live_def)
  have own: "owns s c x" using x cN by (simp add: owns_def)
  note fr = pm.free_avail [OF D(2) conjunct1 [OF D(8) [OF own]]]
  note tf = procs_of_more [OF free_page_frame(1) [of x s]]
  have at: "proc_at ?u i = (if i = c then f (proc_at s c) else proc_at s i)" for i
    using cN D(1) by (simp add: tf)
  show av: "avail_pages ?u = insert x (avail_pages s)" using fr by simp
  show lv: "live ?u = live s" using f(3) by (auto simp: live_def at fun_eq_iff simp del: upd_proc_sel(2))
  have ow: "owns ?u i y \<longleftrightarrow> owns s i y \<and> y \<noteq> x" for i y
    using cN f(1) D(7) own by (auto simp: owns_def at simp del: upd_proc_sel(2))
  then show od: "owned ?u = owned s - {x}" by (auto simp: owned_def)
  show "procs_inv ?u"
    unfolding procs_inv_def lv od
  proof (intro conjI allI impI)
    show "length (proc_table ?u) = NPROC" "physmem_inv ?u" "paging_active ?u" "0 < next_pid ?u"
      using D(1,3,4) fr free_page_frame(5) [of x s] by (simp_all add: tf)
    show "distinct (slot_pages (proc_at ?u i))" if "i < NPROC" for i
      using D(5) [OF that] f(2) D(5) [OF cN] by (simp add: at del: upd_proc_sel(2))
    show "slot_pages (proc_at ?u i) = []" if "i < NPROC" "\<not> live s i" for i
      using D(6) [OF that] that c by (auto simp: at simp del: upd_proc_sel(2))
    show "i = j" if "owns ?u i y \<and> owns ?u j y" for i j y
      using that D(7) by (auto simp: ow)
    show "owned s - {x} \<subseteq> ram_pages" using D(8) by (auto simp: owned_def)
    show "(owned s - {x}) \<inter> avail_pages ?u = {}" using D(8) av by (auto simp: owned_def)
    show "pid (proc_at ?u i) < next_pid ?u" "0 < pid (proc_at ?u i)" if "live s i" for i
      using D(9) [OF that] f(4) by (auto simp: at tf simp del: upd_proc_sel(2))
    show "i = j" if "live s i \<and> live s j \<and> pid (proc_at ?u i) = pid (proc_at ?u j)" for i j
      using that D(10) [of i j] f(4) by (simp add: at split: if_splits del: upd_proc_sel(2))
  qed
qed

text \<open>Changes to a slot that touch neither its pages nor its pid, nor whether it is used.\<close>

lemma retouch:
  assumes inv: "procs_inv s"
    and f: "slot_pages (f (proc_at s c)) = slot_pages (proc_at s c)"
      "pid (f (proc_at s c)) = pid (proc_at s c)"
      "state (f (proc_at s c)) = PROC_UNUSED \<longleftrightarrow> state (proc_at s c) = PROC_UNUSED"
  shows "procs_inv (upd_proc c f s)" "owned (upd_proc c f s) = owned s"
    "live (upd_proc c f s) = live s"
proof -
  let ?u = "upd_proc c f s"
  note D = procs_invD [OF inv]
  have at: "proc_at ?u i = proc_at s i \<or> i = c \<and> proc_at ?u i = f (proc_at s c)" for i
    by simp
  have sl: "slot_pages (proc_at ?u i) = slot_pages (proc_at s i)"
    "pid (proc_at ?u i) = pid (proc_at s i)" for i using at [of i] f by auto
  show lv: "live ?u = live s" using at f(3) by (auto simp: live_def fun_eq_iff)
  have ow: "owns ?u = owns s" by (simp add: owns_def sl fun_eq_iff del: upd_proc_sel)
  then show od: "owned ?u = owned s" by (simp add: owned_def)
  show "procs_inv ?u"
    using inv unfolding procs_inv_def lv od ow sl by simp
qed


lemma set_state:
  assumes "procs_inv s" "state (proc_at s c) \<noteq> PROC_UNUSED" "v \<noteq> PROC_UNUSED"
  shows "procs_inv (upd_proc c (state_update (\<lambda>_. v)) s)"
    "owned (upd_proc c (state_update (\<lambda>_. v)) s) = owned s"
    "live (upd_proc c (state_update (\<lambda>_. v)) s) = live s"
  using retouch [OF assms(1), of "state_update (\<lambda>_. v)" c] assms(2,3) by simp_all

subsection \<open>Allocation and release of a slot\<close>

lemma alloc_proc_spec:
  assumes inv: "procs_inv s" and al: "alloc_proc s = (r, t)"
  shows "r = None \<Longrightarrow> t = s \<and> (\<forall>i < NPROC. live s i)"
    and "r = Some i \<Longrightarrow> i < NPROC \<and> \<not> live s i \<and> (\<forall>j < i. live s j) \<and> procs_inv t \<and>
      live t = (live s)(i := True) \<and> owned t = owned s \<and> avail_pages t = avail_pages s \<and>
      (\<forall>j. j \<noteq> i \<longrightarrow> proc_at t j = proc_at s j)"
    and "r = Some i \<Longrightarrow> proc_at t i = (proc_at s i)\<lparr>state := PROC_USED, pid := next_pid s,
      parent := None, pagetable := 0, sz := 0, kstack := 0, trapframe_ptr := 0, exit_code := 0,
      pname := (pname (proc_at s i))[0 := CHR 0x00]\<rparr>"
    and "tf_heap t = tf_heap s" "current_process t = current_process s" "int_at t = int_at s"
      "sched_index t = sched_index s" "cpu t = cpu s"
proof -
  let ?p = "\<lambda>i. state (proc_at s i) = PROC_UNUSED"
  note D = procs_invD [OF inv]
  show "r = None \<Longrightarrow> t = s \<and> (\<forall>i < NPROC. live s i)"
    using al by (auto simp: alloc_proc_def live_def scan_from_None_iff split: option.splits)
  show "tf_heap t = tf_heap s" "current_process t = current_process s" "int_at t = int_at s"
    "sched_index t = sched_index s" "cpu t = cpu s"
    using al by (auto simp: alloc_proc_def split: option.splits)
  assume r: "r = Some i"
  let ?f = "\<lambda>p. p\<lparr>state := PROC_USED, pid := next_pid s, parent := None,
    pagetable := 0, sz := 0, kstack := 0, trapframe_ptr := 0, exit_code := 0,
    pname := (pname p)[0 := CHR 0x00]\<rparr>"
  have sc: "scan_from ?p 0 NPROC = Some i" and t: "t = (upd_proc i ?f s)\<lparr>next_pid := next_pid s + 1\<rparr>"
    using al r by (auto simp: alloc_proc_def split: option.splits)
  from sc have iN: "i < NPROC" and un: "\<not> live s i" and before: "\<forall>j < i. live s j"
    by (auto simp: scan_from_Some_iff live_def)
  have at: "proc_at t j = (if j = i then ?f (proc_at s i) else proc_at s j)" for j
    using iN D(1) by (simp add: t)
  then show "proc_at t i = ?f (proc_at s i)" by simp
  have nt: "next_pid t = next_pid s + 1" by (simp add: t)
  have lv: "live t = (live s)(i := True)" using iN by (auto simp: live_def at fun_eq_iff)
  have ow: "owns t = owns s" using D(6) [OF iN un] by (auto simp: owns_def at slot_pages_def fun_eq_iff)
  then have od: "owned t = owned s" by (simp add: owned_def)
  have av: "avail_pages t = avail_pages s" "physmem_inv t"
    using physmem_cong [of t s] D(2) by (simp_all add: t)
  have "procs_inv t"
    unfolding procs_inv_def ow od av(1)
  proof (intro conjI allI impI)
    show "length (proc_table t) = NPROC" "physmem_inv t" "paging_active t" "0 < next_pid t"
      using D(1,3,4) av(2) by (simp_all add: t)
    show "distinct (slot_pages (proc_at t j))" if "j < NPROC" for j
      using D(5) [OF that] by (auto simp: at slot_pages_def)
    show "slot_pages (proc_at t j) = []" if "j < NPROC" "\<not> live t j" for j
      using D(6) [OF that(1)] that(2) by (auto simp: at lv slot_pages_def split: if_splits)
    show "j = k" if "owns s j x \<and> owns s k x" for j k x
      using that D(7) by blast
    show "owned s \<subseteq> ram_pages" "owned s \<inter> avail_pages s = {}" using D(8) by (auto simp: owned_def)
    show "pid (proc_at t j) < next_pid t" "0 < pid (proc_at t j)" if "live t j" for j
      using that D(4) D(9) [of j] nt by (auto simp: at lv split: if_splits)
    show "j = k" if "live t j \<and> live t k \<and> pid (proc_at t j) = pid (proc_at t k)" for j k
      using that D(9) [of j] D(9) [of k] D(10) [of j k] by (auto simp: at lv split: if_splits)
  qed
  with iN un before lv od av(1) at show "i < NPROC \<and> \<not> live s i \<and> (\<forall>j < i. live s j) \<and> procs_inv t \<and>
      live t = (live s)(i := True) \<and> owned t = owned s \<and> avail_pages t = avail_pages s \<and>
      (\<forall>j. j \<noteq> i \<longrightarrow> proc_at t j = proc_at s j)" by simp
qed

interpretation pt: slot_table "\<lambda>s. {i. live s i}" NPROC alloc_proc procs_inv
proof
  fix s i t
  assume "procs_inv s"
  then show "{i. live s i} \<subseteq> {..<NPROC}" by (auto simp: live_def)
  assume inv: "procs_inv s"
  show "i < NPROC \<and> i \<notin> {i. live s i} \<and> {..<i} \<subseteq> {i. live s i} \<and>
      {i. live t i} = insert i {i. live s i} \<and> procs_inv t" if "alloc_proc s = (Some i, t)"
    using alloc_proc_spec(2) [OF inv that, of i] by auto
  show "t = s \<and> {i. live s i} = {..<NPROC}" if "alloc_proc s = (None, t)"
    using alloc_proc_spec(1) [OF inv that] by (auto simp: live_def)
qed

lemma slot_pages_unused:
  assumes "procs_inv s" "slot_pages (proc_at s c) = []"
  shows "procs_inv (upd_proc c (state_update (\<lambda>_. PROC_UNUSED)) s)"
    and "owned (upd_proc c (state_update (\<lambda>_. PROC_UNUSED)) s) = owned s"
    and "live (upd_proc c (state_update (\<lambda>_. PROC_UNUSED)) s) = (live s)(c := False)"
proof -
  let ?u = "upd_proc c (state_update (\<lambda>_. PROC_UNUSED)) s"
  note D = procs_invD [OF assms(1)]
  have sl: "slot_pages (proc_at ?u i) = slot_pages (proc_at s i)"
    "pid (proc_at ?u i) = pid (proc_at s i)" for i by (simp_all add: slot_pages_def)
  show lv: "live ?u = (live s)(c := False)" using D(1) by (auto simp: live_def fun_eq_iff)
  have ow: "owns ?u = owns s" by (simp add: owns_def sl fun_eq_iff del: upd_proc_sel)
  then show od: "owned ?u = owned s" by (simp add: owned_def)
  show "procs_inv ?u"
    using assms unfolding procs_inv_def lv od ow sl by (simp add: fun_upd_apply)
qed

text \<open>One release of \<open>free_proc\<close>: the page leaves the slot and is free again.\<close>

definition gives_back :: "nat \<Rightarrow> u64 set \<Rightarrow> 'a procs_scheme \<Rightarrow> 'a procs_scheme \<Rightarrow> bool" where
  "gives_back c X s t \<longleftrightarrow> procs_inv t \<and> live t = live s \<and> owned t = owned s - X \<and>
     avail_pages t = avail_pages s \<union> X \<and> X \<subseteq> set (slot_pages (proc_at s c)) \<and>
     set (slot_pages (proc_at t c)) = set (slot_pages (proc_at s c)) - X \<and>
     proc_table t = (proc_table s)[c := proc_at t c] \<and>
     (state (proc_at t c), pid (proc_at t c), parent (proc_at t c), ctx (proc_at t c)) =
       (state (proc_at s c), pid (proc_at s c), parent (proc_at s c), ctx (proc_at s c)) \<and>
     tf_heap t = tf_heap s \<and> current_process t = current_process s \<and> int_at t = int_at s \<and>
     next_pid t = next_pid s"

lemma gives_back_step:
  assumes inv: "procs_inv s" and c: "live s c"
    and x: "x \<in> set (slot_pages (proc_at s c))"
    and f: "set (slot_pages (f (proc_at s c))) = set (slot_pages (proc_at s c)) - {x}"
      "distinct (slot_pages (proc_at s c)) \<Longrightarrow> distinct (slot_pages (f (proc_at s c)))"
      "state (f (proc_at s c)) = state (proc_at s c)" "pid (f (proc_at s c)) = pid (proc_at s c)"
      "parent (f (proc_at s c)) = parent (proc_at s c)" "ctx (f (proc_at s c)) = ctx (proc_at s c)"
  shows "gives_back c {x} s (upd_proc c f (free_physical_page x s))"
proof -
  note dp = drop_page [where f = f, OF inv c x f(1-4)]
  note tf = procs_of_more [OF free_page_frame(1) [of x s]]
  have "c < length (proc_table s)" using c procs_invD(1) [OF inv] by (simp add: live_def)
  then show ?thesis
    using dp f x by (simp add: gives_back_def tf upd_proc_def)
qed

lemma free_pagetable_of:
  assumes inv: "procs_inv s" and c: "live s c"
  shows "\<exists>X. gives_back c X s (free_pagetable_of c s) \<and>
    pagetable (proc_at (free_pagetable_of c s) c) = 0"
proof (cases "pagetable (proc_at s c) = 0")
  case True
  then show ?thesis using inv by (intro exI [of _ "{}"]) (simp add: gives_back_def free_pagetable_of_def)
next
  case False
  let ?x = "virt_to_phys (pagetable (proc_at s c))"
  have cN: "c < NPROC" "c < length (proc_table s)" using c procs_invD(1) [OF inv] by (simp_all add: live_def)
  have e: "free_pagetable_of c s = upd_proc c (pagetable_update (\<lambda>_. 0)) (free_physical_page ?x s)"
    using False procs_invD(3) [OF inv]
    by (simp add: free_pagetable_of_def free_page_table_def virt_to_phys_helper_def)
  have "gives_back c {?x} s (free_pagetable_of c s)"
    unfolding e using False procs_invD(5) [OF inv cN(1)]
    by (intro gives_back_step [OF inv c]) (auto simp: slot_pages_def)
  moreover have "pagetable (proc_at (free_pagetable_of c s) c) = 0"
    using cN(2) unfolding e by (simp add: procs_of_more [OF free_page_frame(1) [of ?x s]])
  ultimately show ?thesis by blast
qed

lemma free_kstack_of:
  assumes inv: "procs_inv s" and c: "live s c"
  shows "\<exists>X. gives_back c X s (free_kstack_of c s) \<and>
    kstack (proc_at (free_kstack_of c s) c) = 0 \<and>
    pagetable (proc_at (free_kstack_of c s) c) = pagetable (proc_at s c)"
proof (cases "kstack (proc_at s c) = 0")
  case True
  then show ?thesis using inv by (intro exI [of _ "{}"]) (simp add: gives_back_def free_kstack_of_def)
next
  case False
  let ?x = "virt_to_phys (kstack (proc_at s c) - PAGE_SIZE)"
  have cN: "c < NPROC" "c < length (proc_table s)" using c procs_invD(1) [OF inv] by (simp_all add: live_def)
  have e: "free_kstack_of c s = upd_proc c (kstack_update (\<lambda>_. 0)) (free_physical_page ?x s)"
    using False by (simp add: free_kstack_of_def)
  have "gives_back c {?x} s (free_kstack_of c s)"
    unfolding e using False procs_invD(5) [OF inv cN(1)]
    by (intro gives_back_step [OF inv c]) (auto simp: slot_pages_def)
  moreover have "kstack (proc_at (free_kstack_of c s) c) = 0 \<and>
      pagetable (proc_at (free_kstack_of c s) c) = pagetable (proc_at s c)"
    using cN(2) unfolding e by (simp add: procs_of_more [OF free_page_frame(1) [of ?x s]])
  ultimately show ?thesis by blast
qed

lemma free_trapframe_of:
  assumes inv: "procs_inv s" and c: "live s c"
  shows "\<exists>X. gives_back c X s (free_trapframe_of c s) \<and>
    trapframe_ptr (proc_at (free_trapframe_of c s) c) = 0 \<and>
    kstack (proc_at (free_trapframe_of c s) c) = kstack (proc_at s c) \<and>
    pagetable (proc_at (free_trapframe_of c s) c) = pagetable (proc_at s c)"
proof (cases "trapframe_ptr (proc_at s c) = 0")
  case True
  then show ?thesis
    using inv by (intro exI [of _ "{}"]) (simp add: gives_back_def free_trapframe_of_def)
next
  case False
  let ?x = "virt_to_phys (trapframe_ptr (proc_at s c))"
  have cN: "c < NPROC" "c < length (proc_table s)" using c procs_invD(1) [OF inv] by (simp_all add: live_def)
  have e: "free_trapframe_of c s =
      upd_proc c (trapframe_ptr_update (\<lambda>_. 0)) (free_physical_page ?x s)"
    using False by (simp add: free_trapframe_of_def)
  have "gives_back c {?x} s (free_trapframe_of c s)"
    unfolding e using False procs_invD(5) [OF inv cN(1)]
    by (intro gives_back_step [OF inv c]) (auto simp: slot_pages_def)
  moreover have "trapframe_ptr (proc_at (free_trapframe_of c s) c) = 0 \<and>
      kstack (proc_at (free_trapframe_of c s) c) = kstack (proc_at s c) \<and>
      pagetable (proc_at (free_trapframe_of c s) c) = pagetable (proc_at s c)"
    using cN(2) unfolding e by (simp add: procs_of_more [OF free_page_frame(1) [of ?x s]])
  ultimately show ?thesis by blast
qed

lemma gives_back_trans:
  "gives_back c X s t \<Longrightarrow> gives_back c Y t u \<Longrightarrow> gives_back c (X \<union> Y) s u"
  unfolding gives_back_def by (elim conjE, intro conjI)
    (simp_all, blast+, metis list_update_overwrite)

lemma free_proc_spec:
  assumes inv: "procs_inv s" and c: "live s c"
  shows "procs_inv (free_proc (Some c) s)"
    and "live (free_proc (Some c) s) = (live s)(c := False)"
    and "avail_pages (free_proc (Some c) s) = avail_pages s \<union> set (slot_pages (proc_at s c))"
    and "owned (free_proc (Some c) s) = owned s - set (slot_pages (proc_at s c))"
    and "j \<noteq> c \<Longrightarrow> proc_at (free_proc (Some c) s) j = proc_at s j"
    and "tf_heap (free_proc (Some c) s) = tf_heap s"
      "current_process (free_proc (Some c) s) = current_process s"
      "int_at (free_proc (Some c) s) = int_at s" "next_pid (free_proc (Some c) s) = next_pid s"
    and "parent (proc_at (free_proc (Some c) s) c) = parent (proc_at s c)"
      "ctx (proc_at (free_proc (Some c) s) c) = ctx (proc_at s c)"
proof -
  let ?a = "free_pagetable_of c s" let ?b = "free_kstack_of c ?a" let ?d = "free_trapframe_of c ?b"
  let ?S = "set (slot_pages (proc_at s c))"
  have lb: "live u c" "procs_inv u" if "gives_back c X s u" for X u
    using that c by (auto simp: gives_back_def)
  from free_pagetable_of [OF inv c] obtain X where X: "gives_back c X s ?a"
    "pagetable (proc_at ?a c) = 0" by blast
  from free_kstack_of [OF lb(2) [OF X(1)] lb(1) [OF X(1)]] obtain Y where Y: "gives_back c Y ?a ?b"
    "kstack (proc_at ?b c) = 0" "pagetable (proc_at ?b c) = 0" using X(2) by auto
  note XY = gives_back_trans [OF X(1) Y(1)]
  from free_trapframe_of [OF lb(2) [OF XY] lb(1) [OF XY]] obtain Z where Z: "gives_back c Z ?b ?d"
    "trapframe_ptr (proc_at ?d c) = 0" "kstack (proc_at ?d c) = 0" "pagetable (proc_at ?d c) = 0"
    using Y(2,3) by auto
  obtain W where g: "gives_back c W s ?d" using gives_back_trans [OF XY Z(1)] by blast
  have none: "slot_pages (proc_at ?d c) = []" using Z(2-4) by (simp add: slot_pages_def)
  with g have W: "W = ?S" by (auto simp: gives_back_def)
  note g = g [unfolded W gives_back_def]
  have cN: "c < NPROC" "c < length (proc_table s)" using c procs_invD(1) [OF inv] by (simp_all add: live_def)
  have fp: "free_proc (Some c) s = upd_proc c (state_update (\<lambda>_. PROC_UNUSED)) ?d"
    by (simp add: free_proc_def)
  have inv_d: "procs_inv ?d" using g by blast
  note un = slot_pages_unused [OF inv_d none]
  show "procs_inv (free_proc (Some c) s)" "live (free_proc (Some c) s) = (live s)(c := False)"
    "avail_pages (free_proc (Some c) s) = avail_pages s \<union> ?S"
    "owned (free_proc (Some c) s) = owned s - ?S"
    "tf_heap (free_proc (Some c) s) = tf_heap s"
    "current_process (free_proc (Some c) s) = current_process s"
    "int_at (free_proc (Some c) s) = int_at s" "next_pid (free_proc (Some c) s) = next_pid s"
    "parent (proc_at (free_proc (Some c) s) c) = parent (proc_at s c)"
    "ctx (proc_at (free_proc (Some c) s) c) = ctx (proc_at s c)"
    using un g by (simp_all add: fp)
  show "proc_at (free_proc (Some c) s) j = proc_at s j" if "j \<noteq> c"
  proof -
    have "proc_at ?d j = proc_at s j" using g that by (metis nth_list_update_neq)
    then show ?thesis using that by (simp add: fp)
  qed
qed

end
