(* ===== verification/Process_Life.thy ===== *)
theory Process_Life
  imports Process_Inv
begin

text \<open>
  The life of a process in \<open>kernel/proc/control.c\<close> over the invariant of \<open>Process_Inv\<close>:
  \<open>fork\<close> on every branch, \<open>exit\<close> and \<open>wait\<close>, and the round trip of the three.
\<close>

subsection \<open>A slot takes over pages\<close>

definition takes :: "nat \<Rightarrow> u64 set \<Rightarrow> 'a procs_scheme \<Rightarrow> 'a procs_scheme \<Rightarrow> bool" where
  "takes c X s t \<longleftrightarrow> procs_inv t \<and> live t = live s \<and> owned t = owned s \<union> X \<and>
     X \<subseteq> avail_pages s \<and> avail_pages t = avail_pages s - X \<and>
     set (slot_pages (proc_at t c)) = set (slot_pages (proc_at s c)) \<union> X \<and>
     proc_table t = (proc_table s)[c := proc_at t c] \<and>
     (state (proc_at t c), pid (proc_at t c), parent (proc_at t c), ctx (proc_at t c),
      sz (proc_at t c), exit_code (proc_at t c)) =
       (state (proc_at s c), pid (proc_at s c), parent (proc_at s c), ctx (proc_at s c),
        sz (proc_at s c), exit_code (proc_at s c)) \<and>
     tf_heap t = tf_heap s \<and> current_process t = current_process s \<and> int_at t = int_at s \<and>
     next_pid t = next_pid s"

lemma takes_trans: "takes c X s t \<Longrightarrow> takes c Y t u \<Longrightarrow> takes c (X \<union> Y) s u"
  unfolding takes_def by (elim conjE, intro conjI)
    (simp_all, blast+, metis list_update_overwrite)

lemma takes_step:
  assumes inv: "procs_inv s" and c: "live s c"
    and x: "x \<in> avail_pages s" "avail_pages t = avail_pages s - {x}" "physmem_inv t"
    and t: "spins.more t = spins.more s" "paging_active t"
    and f: "set (slot_pages (f (proc_at s c))) = insert x (set (slot_pages (proc_at s c)))"
      "x \<notin> set (slot_pages (proc_at s c)) \<Longrightarrow> distinct (slot_pages (proc_at s c)) \<Longrightarrow>
        distinct (slot_pages (f (proc_at s c)))"
      "state (f (proc_at s c)) = state (proc_at s c)" "pid (f (proc_at s c)) = pid (proc_at s c)"
      "parent (f (proc_at s c)) = parent (proc_at s c)" "ctx (f (proc_at s c)) = ctx (proc_at s c)"
      "sz (f (proc_at s c)) = sz (proc_at s c)"
      "exit_code (f (proc_at s c)) = exit_code (proc_at s c)"
  shows "takes c {x} s (upd_proc c f t)"
proof -
  note tm = procs_of_more [OF t(1)]
  note tp = take_page [where f = f, OF inv c x tm(1) t(2) tm(3) f(1-4)]
  have "c < length (proc_table s)" using c procs_invD(1) [OF inv] by (simp add: live_def)
  then show ?thesis
    using tp x f by (simp add: takes_def tm upd_proc_table)
qed

lemma kstack_into:
  assumes inv: "procs_inv s" and c: "live s c" and z: "kstack (proc_at s c) = 0"
    and al: "physmem_alloc_page s = (x, t)" "x \<noteq> 0"
  shows "takes c {x} s (upd_proc c (kstack_update (\<lambda>_. phys_to_virt x + PAGE_SIZE)) t)"
proof -
  note D = procs_invD [OF inv]
  note nz = pm.alloc_nonzeroD [OF D(2) al]
  have xr: "x \<in> ram_pages" using nz by blast
  note fr = alloc_page_frame [OF al(1)]
  show ?thesis
    using nz fr(5) D(3) z phys_page_ptr [OF xr]
    by (intro takes_step [OF inv c _ _ _ fr(1)]) (auto simp: slot_pages_def)
qed

lemma trapframe_into:
  assumes inv: "procs_inv s" and c: "live s c" and z: "trapframe_ptr (proc_at s c) = 0"
    and al: "physmem_alloc_page s = (x, t)" "x \<noteq> 0"
  shows "takes c {x} s (upd_proc c (trapframe_ptr_update (\<lambda>_. phys_to_virt x)) t)"
proof -
  note D = procs_invD [OF inv]
  note nz = pm.alloc_nonzeroD [OF D(2) al]
  have xr: "x \<in> ram_pages" using nz by blast
  note fr = alloc_page_frame [OF al(1)]
  show ?thesis
    using nz fr(5) D(3) z phys_page_ptr(1) [OF xr]
    by (intro takes_step [OF inv c _ _ _ fr(1)]) (auto simp: slot_pages_def)
qed

lemma pagetable_into:
  assumes inv: "procs_inv s" and c: "live s c" and z: "pagetable (proc_at s c) = 0"
    and al: "create_page_table s = (x, t)" "x \<noteq> 0"
  shows "takes c {virt_to_phys x} s (upd_proc c (pagetable_update (\<lambda>_. x)) t)"
proof -
  note D = procs_invD [OF inv]
  note fr = create_page_table_frame [OF al(1)]
  have r: "root_of t x = virt_to_phys x" using fr(4) D(3) by (simp add: virt_to_phys_helper_def)
  note cs = create_page_table_spec [OF D(2) al(1)]
  have nz: "virt_to_phys x \<in> avail_pages s" "avail_pages t = avail_pages s - {virt_to_phys x}"
    "physmem_inv t"
    using cs al(2) r by (auto split: if_splits)
  show ?thesis
    using nz fr(4) D(3) z al(2)
    by (intro takes_step [OF inv c nz fr(1)]) (auto simp: slot_pages_def)
qed

lemma alloc_zero_iff_room:
  assumes "procs_inv s" "physmem_alloc_page s = (x, t)"
  shows "x = 0 \<longleftrightarrow> avail_pages s = {}" "x = 0 \<Longrightarrow> t = s"
  using pm.alloc_zero_iff [OF procs_invD(2) [OF assms(1)] assms(2)]
    pm.alloc_zeroD [OF procs_invD(2) [OF assms(1)]] assms(2) by auto

lemma create_zero_iff_room:
  assumes "procs_inv s" "create_page_table s = (x, t)"
  shows "x = 0 \<longleftrightarrow> avail_pages s = {}" "x = 0 \<Longrightarrow> t = s"
  using create_page_table_spec [OF procs_invD(2) [OF assms(1)] assms(2)]
  by (auto split: if_splits)

subsection \<open>fork\<close>

lemma copy_fields_eq: "copy_fields dest src = trapframe.extend (trapframe.truncate src) (trapframe.more dest)"
  by (simp add: copy_fields_def trapframe.defs)

lemma copy_fields_all [simp]: "copy_fields dest (src :: trapframe) = src"
  by (simp add: copy_fields_def)

definition fork_failed :: "'a procs_scheme \<Rightarrow> 'a procs_scheme \<Rightarrow> bool" where
  "fork_failed s t \<longleftrightarrow> procs_inv t \<and> live t = live s \<and> avail_pages t = avail_pages s \<and>
     owned t = owned s \<and> current_process t = current_process s \<and>
     (\<forall>j. live s j \<longrightarrow> proc_at t j = proc_at s j \<and> tf_heap t (trapframe_ptr (proc_at s j)) =
        tf_heap s (trapframe_ptr (proc_at s j)))"

definition forked :: "nat \<Rightarrow> nat \<Rightarrow> 'a procs_scheme \<Rightarrow> 'a procs_scheme \<Rightarrow> bool" where
  "forked par c s t \<longleftrightarrow> procs_inv t \<and> c < NPROC \<and> \<not> live s c \<and> (\<forall>j < c. live s j) \<and>
     live t = (live s)(c := True) \<and> sched_index t = sched_index s \<and> cpu t = cpu s \<and>
     (\<forall>j. j \<noteq> c \<longrightarrow> proc_at t j = proc_at s j) \<and>
     state (proc_at t c) = PROC_RUNNABLE \<and> pid (proc_at t c) = next_pid s \<and>
     parent (proc_at t c) = Some par \<and> sz (proc_at t c) = sz (proc_at s par) \<and>
     exit_code (proc_at t c) = 0 \<and> ctx (proc_at t c) = ctx (proc_at s c) \<and>
     pagetable (proc_at t c) \<noteq> 0 \<and> kstack (proc_at t c) \<noteq> 0 \<and> trapframe_ptr (proc_at t c) \<noteq> 0 \<and>
     set (slot_pages (proc_at t c)) \<subseteq> avail_pages s \<and>
     avail_pages t = avail_pages s - set (slot_pages (proc_at t c)) \<and>
     (trapframe_ptr (proc_at s par) \<noteq> 0 \<longrightarrow>
       tf_heap t (trapframe_ptr (proc_at t c)) =
         (tf_heap s (trapframe_ptr (proc_at s par)))\<lparr>tf_a0 := 0\<rparr>) \<and>
     (\<forall>q. q \<noteq> trapframe_ptr (proc_at t c) \<longrightarrow> tf_heap t q = tf_heap s q) \<and>
     current_process t = current_process s"

text \<open>The failure branches: the child has taken pages \<open>X\<close> and is released.\<close>

lemma fork_undo:
  assumes inv: "procs_inv s" and al: "alloc_proc s = (Some c, s1)"
    and tk: "takes c X (upd_proc c (\<lambda>p. p\<lparr>parent := par, sz := z\<rparr>) s1) u"
    and tf: "\<And>j. live s j \<Longrightarrow> tf_heap v (trapframe_ptr (proc_at s j)) =
      tf_heap s (trapframe_ptr (proc_at s j))"
    and v: "proc_table v = proc_table u" "phys_bitmap v = phys_bitmap u"
      "free_pages_count v = free_pages_count u" "paging_active v = paging_active u"
      "next_pid v = next_pid u" "current_process v = current_process u"
  shows "fork_failed s (free_proc (Some c) v)"
proof -
  let ?s2 = "upd_proc c (\<lambda>p. p\<lparr>parent := par, sz := z\<rparr>) s1"
  note A = alloc_proc_spec(2) [OF inv al refl] and B = alloc_proc_spec(3) [OF inv al refl]
    and C = alloc_proc_spec(4-6) [OF inv al]
  have s2: "procs_inv ?s2" "owned ?s2 = owned s1" "live ?s2 = live s1"
    using retouch [of s1 "\<lambda>p. p\<lparr>parent := par, sz := z\<rparr>" c] A by (simp_all add: slot_pages_def)
  have none: "slot_pages (proc_at s1 c) = []" using B by (simp add: slot_pages_def)
  note tk = tk [unfolded takes_def]
  note cg = procs_inv_cong [OF v(1-5)]
  have v1: "procs_inv v" "live v = live s1" "owned v = owned s \<union> X" "avail_pages v = avail_pages s - X"
    "X \<subseteq> avail_pages s" "set (slot_pages (proc_at v c)) = X" "live v c"
    using tk cg s2 A none physmem_cong(2) [OF v(2,3)]
    by (simp_all add: v(1))
  note fp = free_proc_spec [OF v1(1,7)]
  have "proc_at (free_proc (Some c) v) j = proc_at s j" if "live s j" for j
  proof -
    have "j \<noteq> c" using that A by blast
    then have "proc_at (free_proc (Some c) v) j = proc_at u j" using fp(5) v(1) by simp
    also have "\<dots> = proc_at ?s2 j" using tk \<open>j \<noteq> c\<close> by (metis nth_list_update_neq)
    also have "\<dots> = proc_at s j" using A \<open>j \<noteq> c\<close> by simp
    finally show ?thesis .
  qed
  moreover have "(live s1)(c := False) = live s" using A by (auto simp: fun_eq_iff)
  moreover have "owned s \<inter> X = {}" using procs_invD(8) [OF inv] v1(5) by (auto simp: owned_def)
  ultimately show ?thesis
    using fp(1-4,6,7) v1 A C v(6) tk tf by (auto simp: fork_failed_def)
qed

lemma takes_refl: "procs_inv s \<Longrightarrow> c < length (proc_table s) \<Longrightarrow> takes c {} s s"
  by (simp add: takes_def)

lemma trapframe_not_fresh:
  assumes "procs_inv s" "live s j" "x \<in> avail_pages s"
  shows "trapframe_ptr (proc_at s j) \<noteq> phys_to_virt x"
proof
  assume e: "trapframe_ptr (proc_at s j) = phys_to_virt x"
  note D = procs_invD [OF assms(1)]
  have "phys_to_virt x \<noteq> 0"
    using pm.avail_pages [OF D(2)] assms(3) phys_to_virt_ram_nonzero by blast
  with e assms(2) have "owns s j x" by (simp add: owns_def slot_pages_def live_def)
  then show False using D(8) assms(3) by blast
qed

lemma fork_spec:
  assumes inv: "procs_inv s" and cur: "current_process s = Some par" "live s par"
    and fk: "fork s = (r, t)"
  shows "if (\<exists>i < NPROC. \<not> live s i) \<and> 3 \<le> card (avail_pages s)
    then r = next_pid s \<and> (\<exists>c. forked par c s t) else r = - 1 \<and> fork_failed s t"
proof (cases "alloc_proc s")
  case (Pair q s1)
  show ?thesis
  proof (cases q)
    case None
    then show ?thesis
      using alloc_proc_spec(1) [OF inv Pair None] Pair fk cur inv
      by (auto simp: fork_def fork_failed_def)
  next
    case (Some c)
    note al = Pair [unfolded Some]
    note A = alloc_proc_spec(2) [OF inv al refl] and B = alloc_proc_spec(3) [OF inv al refl]
      and C = alloc_proc_spec(4-6) [OF inv al]
    have free: "\<exists>i < NPROC. \<not> live s i" using A by (intro exI [of _ c]) simp
    define z where "z = sz (proc_at s1 par)"
    let ?s2 = "upd_proc c (\<lambda>p. p\<lparr>parent := Some par, sz := z\<rparr>) s1"
    have lenc: "c < length (proc_table s1)" using A procs_invD(1) [of s1] by simp
    have s2: "procs_inv ?s2" "live ?s2 c" "avail_pages ?s2 = avail_pages s"
      "live ?s2 = live s1"
      using retouch [of s1 "\<lambda>p. p\<lparr>parent := Some par, sz := z\<rparr>" c] A
      by simp_all
    have p2: "proc_at ?s2 c = (proc_at s1 c)\<lparr>parent := Some par, sz := z\<rparr>" using lenc by simp
    note T0 = takes_refl [OF s2(1), of c]
    obtain k s3 where k: "physmem_alloc_page ?s2 = (k, s3)" by (cases "physmem_alloc_page ?s2")
    note k0 = alloc_zero_iff_room [OF s2(1) k]
    show ?thesis
    proof (cases "k = 0")
      case True
      have "fork_failed s (free_proc (Some c) ?s2)"
        using fork_undo [OF inv al T0, of ?s2] lenc C(1) by simp
      moreover have "fork s = (- 1, free_proc (Some c) ?s2)"
        using cur al k k0 True by (simp add: fork_def Let_def z_def)
      ultimately show ?thesis using fk k0(1) s2(3) True by simp
    next
      case False
      let ?s4 = "upd_proc c (kstack_update (\<lambda>_. phys_to_virt k + PAGE_SIZE)) s3"
      have T1: "takes c {k} ?s2 ?s4"
        using kstack_into [OF s2(1,2) _ k False] p2 B by simp
      have s4: "procs_inv ?s4" "live ?s4 c" "avail_pages ?s4 = avail_pages s - {k}"
        "k \<in> avail_pages s" using T1 s2 by (auto simp: takes_def)
      note m3 = procs_of_more [OF alloc_page_frame(1) [OF k]]
      have p4: "proc_at ?s4 c = (proc_at ?s2 c)\<lparr>kstack := phys_to_virt k + PAGE_SIZE\<rparr>"
        using lenc by (simp add: m3)
      obtain x s5 where x: "physmem_alloc_page ?s4 = (x, s5)" by (cases "physmem_alloc_page ?s4")
      note x0 = alloc_zero_iff_room [OF s4(1) x]
      note unfold1 = fork_def z_def [symmetric] Let_def cur(1) al k False x
      show ?thesis
      proof (cases "x = 0")
        case True
        have "fork_failed s (free_proc (Some c) ?s4)"
          using fork_undo [OF inv al T1, of ?s4] C(1) m3 by simp
        moreover have "fork s = (- 1, free_proc (Some c) ?s4)"
          using x0 True by (simp add: unfold1)
        moreover have "avail_pages s = {k}" using x0(1) True s4(3,4) by auto
        ultimately show ?thesis using fk by simp
      next
        case x_nz: False
        let ?s6 = "upd_proc c (trapframe_ptr_update (\<lambda>_. phys_to_virt x)) s5"
        have T2: "takes c {x} ?s4 ?s6"
          using trapframe_into [OF s4(1,2) _ x x_nz] p4 p2 B by simp
        note T02 = takes_trans [OF T1 T2]
        note m5 = procs_of_more [OF alloc_page_frame(1) [OF x]]
        have s6: "procs_inv ?s6" "live ?s6 c" "avail_pages ?s6 = avail_pages s - {k, x}"
          "x \<in> avail_pages s" "x \<noteq> k" using T2 s4 by (auto simp: takes_def)
        have p6: "proc_at ?s6 c = (proc_at ?s4 c)\<lparr>trapframe_ptr := phys_to_virt x\<rparr>"
          using lenc by (simp add: m3 m5)
        have parc: "par \<noteq> c" using cur(2) A by blast
        have ppar: "proc_at ?s6 par = proc_at s par" using parc A by (simp add: m3 m5)
        define ptf where "ptf = trapframe_ptr (proc_at s par)"
        define H where "H = (if ptf \<noteq> 0 then (tf_heap s)(phys_to_virt x := (tf_heap s ptf)\<lparr>tf_a0 := 0\<rparr>)
          else tf_heap s)"
        have xr: "phys_to_virt x \<noteq> 0"
          using s6(4) pm.avail_pages [OF procs_invD(2) [OF inv]] phys_to_virt_ram_nonzero by blast
        have heap6: "tf_heap ?s6 = tf_heap s" using m3 m5 C(1) by simp
        let ?s7 = "?s6\<lparr>tf_heap := H\<rparr>"
        have tf_eq: "fork_trapframe c par ?s6 = ?s7"
        proof -
          have "trapframe_ptr (proc_at ?s6 c) = phys_to_virt x"
            "trapframe_ptr (proc_at ?s6 par) = ptf" using p6 ppar by (simp_all add: ptf_def)
          then show ?thesis
            unfolding fork_trapframe_def using heap6 xr
            by (simp add: H_def copy_trapframe_def Let_def del: upd_proc_sel)
        qed
        have s7: "procs_inv ?s7" "live ?s7 = live ?s6" "owned ?s7 = owned ?s6"
          "avail_pages ?s7 = avail_pages ?s6"
          using s6(1) procs_inv_cong [of ?s7 ?s6] physmem_cong(2) [of ?s7 ?s6] by simp_all
        have s7c: "live ?s7 c" "pagetable (proc_at ?s7 c) = 0" using s7(2) s6(2) p6 p4 p2 B by simp_all
        have other_tf: "H (trapframe_ptr (proc_at s j)) = tf_heap s (trapframe_ptr (proc_at s j))"
          if "live s j" for j
          using trapframe_not_fresh [OF inv that s6(4)] by (simp add: H_def)
        obtain pt s8 where pt: "create_page_table ?s7 = (pt, s8)" by (cases "create_page_table ?s7")
        note pt0 = create_zero_iff_room [OF s7(1) pt]
        let ?s9 = "upd_proc c (pagetable_update (\<lambda>_. pt)) s8"
        have fork_eq: "fork s = (if pt = 0 then (- 1, free_proc (Some c) ?s9)
            else (pid (proc_at ?s9 c), upd_proc c (state_update (\<lambda>_. PROC_RUNNABLE)) ?s9))"
          using tf_eq pt x_nz by (simp add: unfold1)
        have ne: "{k, x} \<subseteq> avail_pages s" using s4(4) s6(4) by simp
        show ?thesis
        proof (cases "pt = 0")
          case True
          then have s8: "s8 = ?s7" using pt0 by simp
          have pt9: "proc_table ?s9 = proc_table ?s6"
          proof -
            have "(proc_at ?s6 c)\<lparr>pagetable := 0\<rparr> = proc_at ?s6 c"
              using s7c(2) by (cases "proc_at ?s6 c") simp
            then show ?thesis unfolding s8 True by (simp add: upd_proc_table)
          qed
          have "fork_failed s (free_proc (Some c) ?s9)"
            using other_tf s8 pt9 by (intro fork_undo [OF inv al T02]) simp_all
          moreover have "card (avail_pages s) \<le> 2"
          proof -
            have "avail_pages s = {k, x}" using pt0(1) True s7(4) s6(3) ne by auto
            then show ?thesis using s6(5) by simp
          qed
          ultimately show ?thesis using fk fork_eq True by simp
        next
          case pt_nz: False
          have T3: "takes c {virt_to_phys pt} ?s7 ?s9"
            by (rule pagetable_into [OF s7(1) s7c pt pt_nz])
          note T = T3 [unfolded takes_def] T02 [unfolded takes_def]
          let ?t = "upd_proc c (state_update (\<lambda>_. PROC_RUNNABLE)) ?s9"
          note m8 = procs_of_more [OF create_page_table_frame(1) [OF pt]]
          have p9: "proc_at ?s9 c = (proc_at s1 c)\<lparr>parent := Some par, sz := z,
              kstack := phys_to_virt k + PAGE_SIZE, trapframe_ptr := phys_to_virt x,
              pagetable := pt\<rparr>"
            using lenc by (simp add: m3 m5 m8)
          then have "state (proc_at ?s9 c) = PROC_USED" using B by simp
          then have rt: "procs_inv ?t" "live ?t = live ?s9"
            using set_state [of ?s9 c PROC_RUNNABLE] T(1) by simp_all
          have pc: "proc_at ?t c = (proc_at ?s9 c)\<lparr>state := PROC_RUNNABLE\<rparr>"
            using lenc by (simp add: m3 m5 m8)
          have "proc_at ?t j = proc_at s j" if "j \<noteq> c" for j
            using that A by (simp add: m3 m5 m8)
          moreover have tfp: "trapframe_ptr (proc_at ?t c) = phys_to_virt x" using pc p9 by simp
          moreover have sp: "set (slot_pages (proc_at ?t c)) = {virt_to_phys pt, x, k}"
          proof -
            have "slot_pages (proc_at ?s2 c) = []" using p2 B by (simp add: slot_pages_def)
            then show ?thesis
              using T(1,2) unfolding pc by (simp del: upd_proc_sel)
          qed
          moreover have "{virt_to_phys pt, x, k} \<subseteq> avail_pages s"
            using T(1) s7(4) s6(3) ne by auto
          moreover have "avail_pages ?t = avail_pages s - {virt_to_phys pt, x, k}"
            using T(1) s7(4) s6(3) by auto
          moreover have "live ?t = (live s)(c := True)"
            using rt(2) T A s2(4) s7(2) by (simp del: upd_proc_sel)
          moreover have "kstack (proc_at ?t c) \<noteq> 0" "pagetable (proc_at ?t c) \<noteq> 0"
            "trapframe_ptr (proc_at ?t c) \<noteq> 0"
            using phys_page_ptr(2) [of k] s4(4) pm.avail_pages [OF procs_invD(2) [OF inv]] xr pt_nz
            unfolding pc p9 by auto
          moreover have "tf_heap ?t = H" using m8 by simp
          moreover have "current_process ?t = current_process s" using m3 m5 m8 C by simp
          moreover have "sched_index ?t = sched_index s" "cpu ?t = cpu s"
            using m3 m5 m8 alloc_proc_spec(7,8) [OF inv al] by simp_all
          moreover have "sz (proc_at ?t c) = sz (proc_at s par)" "parent (proc_at ?t c) = Some par"
            "state (proc_at ?t c) = PROC_RUNNABLE" "pid (proc_at ?t c) = next_pid s"
            "exit_code (proc_at ?t c) = 0" "ctx (proc_at ?t c) = ctx (proc_at s c)"
            using A parc B unfolding pc p9 by (simp_all add: z_def)
          moreover have "H (phys_to_virt x) = (tf_heap s (trapframe_ptr (proc_at s par)))\<lparr>tf_a0 := 0\<rparr>"
            if "trapframe_ptr (proc_at s par) \<noteq> 0" using that by (simp add: H_def ptf_def)
          moreover have "H q = tf_heap s q" if "q \<noteq> phys_to_virt x" for q
            using that by (simp add: H_def)
          ultimately have "forked par c s ?t"
            unfolding forked_def using rt(1) A by (simp del: upd_proc_sel)
          moreover have "3 \<le> card (avail_pages s)"
          proof -
            have "virt_to_phys pt \<noteq> x" "virt_to_phys pt \<noteq> k" using T(1) s7(4) s6(3) by auto
            then have "card {virt_to_phys pt, x, k} = 3" using s6(5) by simp
            then show ?thesis
              using card_mono [of "avail_pages s" "{virt_to_phys pt, x, k}"] finite_avail_pages
                \<open>{virt_to_phys pt, x, k} \<subseteq> avail_pages s\<close> by simp
          qed
          moreover have "pid (proc_at ?s9 c) = next_pid s" using p9 B by simp
          ultimately show ?thesis using fk fork_eq pt_nz free by (simp del: upd_proc_sel) blast
        qed
      qed
    qed
  qed
qed

end
