(* ===== verification/Process_Boot.thy ===== *)
theory Process_Boot
  imports Process_Life
begin

text \<open>
  \<open>proc_init\<close> of \<open>kernel/proc/process.c\<close>: it establishes the invariant of the process
  table, with the init process in slot 0 as the current one. Ends with a concrete state of
  a kernel after \<open>physmem_init\<close> and \<open>proc_init\<close>, for the examples.
\<close>

lemma unuse_all:
  assumes "procs_inv s" "\<And>i. i < NPROC \<Longrightarrow> slot_pages (proc_at s i) = []"
  defines "t \<equiv> s\<lparr>proc_table := map (state_update (\<lambda>_. PROC_UNUSED)) (proc_table s)\<rparr>"
  shows "procs_inv t" "live t = (\<lambda>_. False)" "avail_pages t = avail_pages s"
proof -
  note D = procs_invD [OF assms(1)]
  have at: "proc_at t i = (proc_at s i)\<lparr>state := PROC_UNUSED\<rparr>" if "i < NPROC" for i
    using that D(1) by (simp add: t_def)
  show lv: "live t = (\<lambda>_. False)" by (auto simp: live_def at fun_eq_iff)
  show av: "avail_pages t = avail_pages s" using physmem_cong [of t s] by (simp add: t_def)
  have ow: "\<not> owns t i x" for i x using assms(2) by (auto simp: owns_def at)
  show "procs_inv t"
    unfolding procs_inv_def lv using D(1-4) physmem_cong [of t s] assms(2) ow
    by (auto simp: at owned_def) (simp_all add: t_def)
qed

lemma alloc_proc_first:
  assumes "procs_inv s" "\<And>i. \<not> live s i" "alloc_proc s = (r, t)"
  shows "r = Some 0"
proof (cases r)
  case None
  then have "live s 0" using alloc_proc_spec(1) [OF assms(1,3)] by (simp add: NPROC_def)
  then show ?thesis using assms(2) by blast
next
  case (Some i)
  then have "\<forall>j < i. live s j" using alloc_proc_spec(2) [OF assms(1,3)] by simp
  then show ?thesis using Some assms(2) by (cases i) auto
qed

lemma proc_init_spec:
  assumes inv: "procs_inv s" and empty: "\<And>i. i < NPROC \<Longrightarrow> slot_pages (proc_at s i) = []"
    and cur: "current_process s = None" and room: "3 \<le> card (avail_pages s)"
  shows "procs_inv (proc_init s)" "live (proc_init s) = (\<lambda>i. i = 0)"
    and "current_process (proc_init s) = Some 0"
    and "state (proc_at (proc_init s) 0) = PROC_RUNNABLE"
      "pid (proc_at (proc_init s) 0) = next_pid s" "parent (proc_at (proc_init s) 0) = None"
      "ctx (proc_at (proc_init s) 0) = ctx (proc_at s 0)"
      "pagetable (proc_at (proc_init s) 0) \<noteq> 0" "trapframe_ptr (proc_at (proc_init s) 0) \<noteq> 0"
    and "\<exists>X. X \<subseteq> avail_pages s \<and> card X = 3 \<and> avail_pages (proc_init s) = avail_pages s - X"
    and "next_pid (proc_init s) = next_pid s + 1"
      "sched_index (proc_init s) = sched_index s" "cpu (proc_init s) = cpu s"
    and "\<And>j. 0 < j \<Longrightarrow> j < NPROC \<Longrightarrow>
      proc_at (proc_init s) j = (proc_at s j)\<lparr>state := PROC_UNUSED\<rparr>"
proof -
  define s0 where "s0 = s\<lparr>proc_table := map (state_update (\<lambda>_. PROC_UNUSED)) (proc_table s)\<rparr>"
  note ua = unuse_all [OF inv empty, folded s0_def]
  obtain r s1 where al: "alloc_proc s0 = (r, s1)" by (cases "alloc_proc s0")
  have r: "r = Some 0" using alloc_proc_first [OF ua(1) _ al] ua(2) by simp
  note al = al [unfolded r]
  note A = alloc_proc_spec(2) [OF ua(1) al refl] and B = alloc_proc_spec(3) [OF ua(1) al refl]
  have n1: "next_pid s1 = next_pid s + 1"
    using al by (auto simp: alloc_proc_def s0_def split: option.splits)
  have lens: "length (proc_table s) = NPROC" "length (proc_table s1) = NPROC"
    using procs_invD(1) [OF inv] procs_invD(1) [of s1] A by auto
  have len: "0 < length (proc_table s1)" using lens by (simp add: NPROC_def)
  have s1: "procs_inv s1" "live s1 0" "avail_pages s1 = avail_pages s" using A ua(3) by auto
  have pages: "kstack (proc_at s1 0) = 0" "trapframe_ptr (proc_at s1 0) = 0"
    "pagetable (proc_at s1 0) = 0" "state (proc_at s1 0) = PROC_USED"
    "parent (proc_at s1 0) = None" "ctx (proc_at s1 0) = ctx (proc_at s 0)"
    "pid (proc_at s1 0) = next_pid s"
    using B lens by (simp_all add: s0_def NPROC_def)
  have others: "proc_at s1 j = (proc_at s j)\<lparr>state := PROC_UNUSED\<rparr>" if "0 < j" "j < NPROC" for j
    using that A lens by (simp add: s0_def)
  obtain k s2 where k: "physmem_alloc_page s1 = (k, s2)" by (cases "physmem_alloc_page s1")
  have kn: "k \<noteq> 0" using alloc_zero_iff_room(1) [OF s1(1) k] s1(3) room by auto
  let ?s3 = "upd_proc 0 (kstack_update (\<lambda>_. phys_to_virt k + PAGE_SIZE)) s2"
  note T1 = kstack_into [OF s1(1,2) pages(1) k kn]
  note m2 = procs_of_more [OF alloc_page_frame(1) [OF k]]
  have s3: "procs_inv ?s3" "live ?s3 0" "avail_pages ?s3 = avail_pages s - {k}" "k \<in> avail_pages s"
    using T1 s1 by (auto simp: takes_def)
  have p3: "proc_at ?s3 0 = (proc_at s1 0)\<lparr>kstack := phys_to_virt k + PAGE_SIZE\<rparr>"
    using len by (simp add: m2)
  obtain x s4 where x: "physmem_alloc_page ?s3 = (x, s4)" by (cases "physmem_alloc_page ?s3")
  have c3: "card (avail_pages ?s3) = card (avail_pages s) - 1" using s3(3,4) by (simp add: card_Diff_singleton)
  have xn: "x \<noteq> 0" using alloc_zero_iff_room(1) [OF s3(1) x] c3 room by auto
  let ?s5 = "upd_proc 0 (trapframe_ptr_update (\<lambda>_. phys_to_virt x)) s4"
  have T2: "takes 0 {x} ?s3 ?s5"
    using trapframe_into [OF s3(1,2) _ x xn] p3 pages(2) by simp
  note m4 = procs_of_more [OF alloc_page_frame(1) [OF x]]
  have s5: "procs_inv ?s5" "live ?s5 0" "avail_pages ?s5 = avail_pages s - {k, x}"
    "x \<in> avail_pages s" "x \<noteq> k" using T2 s3 by (auto simp: takes_def)
  have p5: "proc_at ?s5 0 = (proc_at ?s3 0)\<lparr>trapframe_ptr := phys_to_virt x\<rparr>"
    using len by (simp add: m2 m4)
  obtain pt s6 where pt: "create_page_table ?s5 = (pt, s6)" by (cases "create_page_table ?s5")
  have "card (avail_pages ?s5) = card (avail_pages s) - 2"
    using s5(3-5) s3(4) by (simp add: card_Diff_subset)
  then have ptn: "pt \<noteq> 0" using create_zero_iff_room(1) [OF s5(1) pt] room by auto
  let ?s7 = "upd_proc 0 (pagetable_update (\<lambda>_. pt)) s6"
  have T3: "takes 0 {virt_to_phys pt} ?s5 ?s7"
    using pagetable_into [OF s5(1,2) _ pt ptn] p5 p3 pages(3) by simp
  note m6 = procs_of_more [OF create_page_table_frame(1) [OF pt]]
  have p7: "proc_at ?s7 0 = (proc_at ?s5 0)\<lparr>pagetable := pt\<rparr>"
    using len by (simp add: m2 m4 m6)
  let ?g = "\<lambda>p. p\<lparr>state := PROC_RUNNABLE, pname := (pname p)[0 := CHR ''i'', 1 := CHR ''n'',
    2 := CHR ''i'', 3 := CHR ''t'', 4 := CHR 0x00]\<rparr>"
  let ?s8 = "upd_proc 0 ?g ?s7"
  have eq: "proc_init s = ?s8\<lparr>current_process := Some 0\<rparr>"
    using al k kn x xn pt ptn by (simp add: proc_init_def Let_def flip: s0_def)
  have i7: "procs_inv ?s7" "live ?s7 = live s1" using T1 T2 T3 by (simp_all add: takes_def)
  have p5': "state (proc_at ?s7 0) = PROC_USED" unfolding p7 p5 p3 using pages by simp
  have i8: "procs_inv ?s8" "live ?s8 = live ?s7"
    using retouch [OF i7(1), of ?g 0] p5' by simp_all
  note cg = procs_inv_cong [of "?s8\<lparr>current_process := Some 0\<rparr>" ?s8]
  show "procs_inv (proc_init s)" "live (proc_init s) = (\<lambda>i. i = 0)"
    using cg(1,4) i7 i8 A ua(2) unfolding eq by (simp_all add: fun_eq_iff)
  show "current_process (proc_init s) = Some 0" by (simp add: eq)
  have p8: "proc_at ?s8 0 = ?g (proc_at ?s7 0)" using len by (simp add: m2 m4 m6)
  then have pin: "proc_at (proc_init s) 0 = ?g (proc_at ?s7 0)" by (simp add: eq)
  have xr: "phys_to_virt x \<noteq> 0"
    using s5(4) pm.avail_pages [OF procs_invD(2) [OF inv]] phys_to_virt_ram_nonzero by blast
  show "state (proc_at (proc_init s) 0) = PROC_RUNNABLE"
    "pid (proc_at (proc_init s) 0) = next_pid s" "parent (proc_at (proc_init s) 0) = None"
    "ctx (proc_at (proc_init s) 0) = ctx (proc_at s 0)"
    "pagetable (proc_at (proc_init s) 0) \<noteq> 0" "trapframe_ptr (proc_at (proc_init s) 0) \<noteq> 0"
    unfolding pin p7 p5 p3 using pages ptn xr by simp_all
  have vp: "virt_to_phys pt \<in> avail_pages s - {k, x}" using T3 s5(3) by (simp add: takes_def)
  have "avail_pages (proc_init s) = avail_pages s - {virt_to_phys pt, x, k}"
  proof -
    have "avail_pages (proc_init s) = avail_pages ?s8"
      unfolding eq by (rule physmem_cong(2)) simp_all
    then show ?thesis using T3 s5(3) by (auto simp: takes_def)
  qed
  moreover have "card {virt_to_phys pt, x, k} = 3" using vp s5(5) by auto
  ultimately show "\<exists>X. X \<subseteq> avail_pages s \<and> card X = 3 \<and>
      avail_pages (proc_init s) = avail_pages s - X"
    using vp s5(4) s3(4) by (intro exI [of _ "{virt_to_phys pt, x, k}"]) auto
  show "next_pid (proc_init s) = next_pid s + 1" by (simp add: eq n1 m2 m4 m6)
  have "sched_index s1 = sched_index s" "cpu s1 = cpu s"
    using alloc_proc_spec(7,8) [OF ua(1) al] by (simp_all add: s0_def)
  then show "sched_index (proc_init s) = sched_index s" "cpu (proc_init s) = cpu s"
    by (simp_all add: eq m2 m4 m6)
  show "proc_at (proc_init s) j = (proc_at s j)\<lparr>state := PROC_UNUSED\<rparr>" if "0 < j" "j < NPROC" for j
    using that others [OF that] by (simp add: eq m2 m4 m6)
qed

subsection \<open>A kernel after boot\<close>

definition zero_context :: cpu_context where
  "zero_context = \<lparr>c_ra = 0, c_sp = 0, c_s0 = 0, c_s1 = 0, c_s2 = 0, c_s3 = 0, c_s4 = 0,
     c_s5 = 0, c_s6 = 0, c_s7 = 0, c_s8 = 0, c_s9 = 0, c_s10 = 0, c_s11 = 0\<rparr>"

definition zero_trapframe :: trapframe where
  "zero_trapframe = \<lparr>kernel_satp = 0, kernel_sp = 0, kernel_trap = 0, epc = 0,
     kernel_hartid = 0, tf_ra = 0, tf_sp = 0, tf_gp = 0, tf_tp = 0, tf_t0 = 0, tf_t1 = 0,
     tf_t2 = 0, tf_s0 = 0, tf_s1 = 0, tf_a0 = 0, tf_a1 = 0, tf_a2 = 0, tf_a3 = 0, tf_a4 = 0,
     tf_a5 = 0, tf_a6 = 0, tf_a7 = 0, tf_s2 = 0, tf_s3 = 0, tf_s4 = 0, tf_s5 = 0, tf_s6 = 0,
     tf_s7 = 0, tf_s8 = 0, tf_s9 = 0, tf_s10 = 0, tf_s11 = 0, tf_t3 = 0, tf_t4 = 0, tf_t5 = 0,
     tf_t6 = 0\<rparr>"

text \<open>A slot of the zero-initialised table.\<close>

definition zero_proc :: proc where
  "zero_proc = \<lparr>state = PROC_UNUSED, pid = 0, parent = None, pagetable = 0, sz = 0, kstack = 0,
     trapframe_ptr = 0, ctx = zero_context, exit_code = 0, pname = replicate 32 CHR 0x00\<rparr>"

definition cold_kernel :: procs where
  "cold_kernel = physmem_init 0x80010000
     \<lparr>phys_bitmap = [], free_pages_count = 0, tables = (\<lambda>_ _. 0), kernel_pagetable = 0,
      paging_active = True, satp = 0, spin = (\<lambda>_. \<lparr>locked = 0, lk_name = []\<rparr>), sie = False,
      proc_table = replicate NPROC zero_proc, current_process = None, next_pid = 1,
      tf_heap = (\<lambda>_. zero_trapframe), sched_index = 0, cpu = zero_context, int_at = (\<lambda>_. 0)\<rparr>"

definition boot_kernel :: procs where
  "boot_kernel = proc_init cold_kernel"

lemma physmem_init_more:
  "physmem.more (physmem_init e s) = physmem.more s"
proof -
  have "physmem.more (mark_kernel_pages n s) = physmem.more s" for n and s :: "'a physmem_scheme"
    by (induction n) (simp_all add: mark_kernel_pages_Suc Let_def mark_page_allocated_def,
        simp add: mark_kernel_pages_def)
  then show ?thesis by (simp add: physmem_init_def)
qed

lemma procs_of_physmem_more:
  fixes s t :: "'a procs_scheme"
  assumes "physmem.more t = physmem.more s"
  shows "proc_table t = proc_table s" "current_process t = current_process s"
    "next_pid t = next_pid s" "sched_index t = sched_index s" "spin t = spin s"
    "paging_active t = paging_active s"
  using assms by (cases s; cases t; simp)+

lemma cold_kernel_facts:
  "procs_inv cold_kernel" "card (avail_pages cold_kernel) = 32752" "current_process cold_kernel = None"
  "next_pid cold_kernel = 1" "\<And>i. i < NPROC \<Longrightarrow> proc_at cold_kernel i = zero_proc"
  "spin cold_kernel = (\<lambda>_. \<lparr>locked = 0, lk_name = []\<rparr>)" "sched_index cold_kernel = 0"
proof -
  let ?s = "\<lparr>phys_bitmap = [], free_pages_count = 0, tables = (\<lambda>_ _. 0), kernel_pagetable = 0,
      paging_active = True, satp = 0, spin = (\<lambda>_. \<lparr>locked = 0, lk_name = []\<rparr>), sie = False,
      proc_table = replicate NPROC zero_proc, current_process = None, next_pid = 1,
      tf_heap = (\<lambda>_. zero_trapframe), sched_index = 0, cpu = zero_context,
      int_at = (\<lambda>_. 0)\<rparr> :: procs"
  have m: "physmem.more cold_kernel = physmem.more ?s"
    unfolding cold_kernel_def by (rule physmem_init_more)
  have f: "proc_table cold_kernel = replicate NPROC zero_proc" "paging_active cold_kernel"
    "current_process cold_kernel = None" "next_pid cold_kernel = 1"
    "spin cold_kernel = (\<lambda>_. \<lparr>locked = 0, lk_name = []\<rparr>)" "sched_index cold_kernel = 0"
    using procs_of_physmem_more [OF m] by simp_all
  then show "current_process cold_kernel = None" "next_pid cold_kernel = 1"
    "spin cold_kernel = (\<lambda>_. \<lparr>locked = 0, lk_name = []\<rparr>)" "sched_index cold_kernel = 0" by simp_all
  show at: "proc_at cold_kernel i = zero_proc" if "i < NPROC" for i using that f by simp
  note spec = physmem_init_spec [of "0x80010000" ?s]
  have "first_free_page 0x80010000 = 16" by (simp add: first_free_page_def Let_def layout_defs)
  then show "card (avail_pages cold_kernel) = 32752"
    using spec by (simp add: cold_kernel_def card_avail_pages NUM_PAGES_def)
  have inv: "physmem_inv cold_kernel" using spec by (simp add: cold_kernel_def)
  have "slot_pages (proc_at cold_kernel i) = []" "\<not> live cold_kernel i" if "i < NPROC" for i
    using at [OF that] by (simp_all add: slot_pages_def zero_proc_def live_def)
  then show "procs_inv cold_kernel"
    using inv f by (auto simp: procs_inv_def owns_def owned_def live_def)
qed

lemma boot_kernel_facts:
  "procs_inv boot_kernel" "live boot_kernel = (\<lambda>i. i = 0)" "current_process boot_kernel = Some 0"
  "card (avail_pages boot_kernel) = 32749" "next_pid boot_kernel = 2"
  "state (proc_at boot_kernel 0) = PROC_RUNNABLE" "pid (proc_at boot_kernel 0) = 1"
  "parent (proc_at boot_kernel 0) = None" "trapframe_ptr (proc_at boot_kernel 0) \<noteq> 0"
  "pagetable (proc_at boot_kernel 0) \<noteq> 0"
  "\<And>j. j < NPROC \<Longrightarrow> ctx (proc_at boot_kernel j) = zero_context"
  "sched_index boot_kernel = 0"
proof -
  have e: "slot_pages (proc_at cold_kernel i) = []" if "i < NPROC" for i
    using cold_kernel_facts(5) [OF that] by (simp add: slot_pages_def zero_proc_def)
  note pi = proc_init_spec [OF cold_kernel_facts(1) e cold_kernel_facts(3), folded boot_kernel_def]
  have room: "3 \<le> card (avail_pages cold_kernel)" by (simp add: cold_kernel_facts)
  note pi = pi [OF _ room]
  show "procs_inv boot_kernel" "live boot_kernel = (\<lambda>i. i = 0)" "current_process boot_kernel = Some 0"
    "next_pid boot_kernel = 2" "state (proc_at boot_kernel 0) = PROC_RUNNABLE"
    "pid (proc_at boot_kernel 0) = 1" "parent (proc_at boot_kernel 0) = None"
    "trapframe_ptr (proc_at boot_kernel 0) \<noteq> 0" "pagetable (proc_at boot_kernel 0) \<noteq> 0"
    "sched_index boot_kernel = 0"
    using pi cold_kernel_facts(4,7) by simp_all
  show "card (avail_pages boot_kernel) = 32749"
    using pi(10) cold_kernel_facts(2) by (auto simp: card_Diff_subset finite_subset)
  show "ctx (proc_at boot_kernel j) = zero_context" if "j < NPROC" for j
    using pi(7) pi(14) [of j] that cold_kernel_facts(5) [OF that] cold_kernel_facts(5) [of 0]
    by (cases "j = 0") (simp_all add: zero_proc_def NPROC_def)
qed

end
