(* ===== verification/Process_Props.thy ===== *)
theory Process_Props
  imports Process_Boot
begin

text \<open>
  The properties of process management: the invariant under every operation, \<open>fork\<close>, the
  round trip of \<open>fork\<close>, \<open>exit\<close> and \<open>wait\<close>, slots and pids, and what \<open>sleep\<close> and \<open>wakeup\<close>
  really promise.
\<close>

subsection \<open>The invariant\<close>

lemma cur_update [simp]:
  "procs_inv (s\<lparr>current_process := p\<rparr>) = procs_inv s"
  "avail_pages (s\<lparr>current_process := p\<rparr>) = avail_pages s"
  "live (s\<lparr>current_process := p\<rparr>) = live s" "owned (s\<lparr>current_process := p\<rparr>) = owned s"
  using procs_inv_cong [of "s\<lparr>current_process := p\<rparr>" s]
    physmem_cong(2) [of "s\<lparr>current_process := p\<rparr>" s] by simp_all

lemma int_update [simp]:
  "procs_inv (s\<lparr>int_at := p\<rparr>) = procs_inv s"
  "avail_pages (s\<lparr>int_at := p\<rparr>) = avail_pages s"
  "live (s\<lparr>int_at := p\<rparr>) = live s" "owned (s\<lparr>int_at := p\<rparr>) = owned s"
  using procs_inv_cong [of "s\<lparr>int_at := p\<rparr>" s] physmem_cong(2) [of "s\<lparr>int_at := p\<rparr>" s] by simp_all

lemma lock_update_inv [simp]:
  "procs_inv (set_locked l v s) = procs_inv s" "procs_inv (intr_on s) = procs_inv s"
  "procs_inv (intr_off s) = procs_inv s" "live (set_locked l v s) = live s"
  "live (intr_on s) = live s" "live (intr_off s) = live s"
proof -
  have m: "proc_table (set_locked l v s) = proc_table s" "proc_table (intr_on s) = proc_table s"
    "proc_table (intr_off s) = proc_table s" "next_pid (set_locked l v s) = next_pid s"
    "next_pid (intr_on s) = next_pid s" "next_pid (intr_off s) = next_pid s"
    by (simp_all add: set_locked_def intr_on_def intr_off_def)
  show "procs_inv (set_locked l v s) = procs_inv s" "procs_inv (intr_on s) = procs_inv s"
    "procs_inv (intr_off s) = procs_inv s" "live (set_locked l v s) = live s"
    "live (intr_on s) = live s" "live (intr_off s) = live s"
    using procs_inv_cong [of "set_locked l v s" s] procs_inv_cong [of "intr_on s" s]
      procs_inv_cong [of "intr_off s" s] by (simp_all add: m frame)
qed

definition wake :: "proc \<Rightarrow> proc" where
  "wake p = (if state p = PROC_SLEEPING then p\<lparr>state := PROC_RUNNABLE\<rparr> else p)"

lemma wake_sel [simp]:
  "slot_pages (wake p) = slot_pages p" "pid (wake p) = pid p" "parent (wake p) = parent p"
  "exit_code (wake p) = exit_code p" "state (wake p) = PROC_UNUSED \<longleftrightarrow> state p = PROC_UNUSED"
  "state (wake p) = PROC_ZOMBIE \<longleftrightarrow> state p = PROC_ZOMBIE" "ctx (wake p) = ctx p"
  "trapframe_ptr (wake p) = trapframe_ptr p" "kstack (wake p) = kstack p"
  "pagetable (wake p) = pagetable p"
  by (simp_all add: wake_def)

lemma wakeup_table: "proc_table (wakeup chan s) = map wake (proc_table s)"
  by (simp add: wakeup_def wake_def)

lemma wakeup_sel [simp]:
  "current_process (wakeup chan s) = current_process s" "tf_heap (wakeup chan s) = tf_heap s"
  "spin (wakeup chan s) = spin s" "int_at (wakeup chan s) = int_at s"
  "sie (wakeup chan s) = sie s" "next_pid (wakeup chan s) = next_pid s"
  by (simp_all add: wakeup_def)

lemma wakeup_inv:
  assumes "procs_inv s"
  shows "procs_inv (wakeup chan s)" "live (wakeup chan s) = live s"
    "owned (wakeup chan s) = owned s" "avail_pages (wakeup chan s) = avail_pages s"
    "i < NPROC \<Longrightarrow> proc_at (wakeup chan s) i = wake (proc_at s i)"
proof -
  note D = procs_invD [OF assms]
  show at: "proc_at (wakeup chan s) i = wake (proc_at s i)" if "i < NPROC" for i
    using that D(1) by (simp add: wakeup_table)
  show lv: "live (wakeup chan s) = live s" by (auto simp: live_def at fun_eq_iff)
  have ow: "owns (wakeup chan s) = owns s" by (auto simp: owns_def at fun_eq_iff)
  then show od: "owned (wakeup chan s) = owned s" by (simp add: owned_def)
  show av: "avail_pages (wakeup chan s) = avail_pages s"
    by (rule physmem_cong) (simp_all add: wakeup_def)
  have pi: "physmem_inv (wakeup chan s)"
    using D(2) physmem_cong(1) [of "wakeup chan s" s] by (simp add: wakeup_def)
  have ln: "live s i \<Longrightarrow> pid (proc_at (wakeup chan s) i) = pid (proc_at s i)" for i
    by (simp add: live_def at)
  show "procs_inv (wakeup chan s)"
    unfolding procs_inv_def lv ow od av
  proof (intro conjI allI impI)
    show "length (proc_table (wakeup chan s)) = NPROC" "physmem_inv (wakeup chan s)"
      "paging_active (wakeup chan s)" "0 < next_pid (wakeup chan s)"
      using D(1,3,4) pi by (simp_all add: wakeup_def)
    show "pid (proc_at (wakeup chan s) i) < next_pid (wakeup chan s)"
      "0 < pid (proc_at (wakeup chan s) i)" if "live s i" for i
      using ln [OF that] D(9) [OF that] by simp_all
    show "i = j" if "live s i \<and> live s j \<and>
        pid (proc_at (wakeup chan s) i) = pid (proc_at (wakeup chan s) j)" for i j
      using that ln [of i] ln [of j] D(10) [of i j] by metis
    show "distinct (slot_pages (proc_at (wakeup chan s) i))" if "i < NPROC" for i
      using D(5) [OF that] at [OF that] by simp
    show "slot_pages (proc_at (wakeup chan s) i) = []" if "i < NPROC" "\<not> live s i" for i
      using D(6) [OF that] at [OF that(1)] by simp
    show "i = j" if "owns s i x \<and> owns s j x" for i j x using that D(7) by blast
    show "owned s \<subseteq> ram_pages" "owned s \<inter> avail_pages s = {}" using D(8) by (auto simp: owned_def)
  qed
qed

lemma exit_spec:
  assumes inv: "procs_inv s" and cur: "current_process s = Some p" "live s p"
  shows "\<exists>t. exit status s = Stop Halted t \<and> procs_inv t \<and> live t = live s \<and>
    avail_pages t = avail_pages s \<and> owned t = owned s \<and> current_process t = current_process s \<and>
    tf_heap t = tf_heap s \<and> int_at t = int_at s \<and>
    state (proc_at t p) = PROC_ZOMBIE \<and> exit_code (proc_at t p) = status \<and>
    pid (proc_at t p) = pid (proc_at s p) \<and> parent (proc_at t p) = parent (proc_at s p) \<and>
    slot_pages (proc_at t p) = slot_pages (proc_at s p) \<and>
    (\<forall>j < NPROC. j \<noteq> p \<longrightarrow> proc_at t j =
       (if parent (proc_at s p) = None then proc_at s j else wake (proc_at s j)))"
proof -
  define f :: "proc \<Rightarrow> proc" where "f = (\<lambda>q. q\<lparr>exit_code := status, state := PROC_ZOMBIE\<rparr>)"
  define s1 where "s1 = upd_proc p f s"
  have pN: "p < NPROC" using cur(2) by (simp add: live_def)
  have len: "p < length (proc_table s)" using pN procs_invD(1) [OF inv] by simp
  have f: "slot_pages (f q) = slot_pages q" "pid (f q) = pid q" "state (f q) = PROC_ZOMBIE"
    "exit_code (f q) = status" "parent (f q) = parent q" for q
    by (simp_all add: f_def slot_pages_def)
  have i1: "procs_inv s1" "owned s1 = owned s" "live s1 = live s" "avail_pages s1 = avail_pages s"
    using retouch [OF inv, of f p] cur(2) by (simp_all add: live_def f s1_def)
  have sel: "current_process s1 = current_process s" "tf_heap s1 = tf_heap s" "int_at s1 = int_at s"
    by (simp_all add: s1_def)
  have at: "proc_at s1 j = (if j = p then f (proc_at s p) else proc_at s j)" for j
    using len by (simp add: s1_def)
  have ex: "exit status s = (case parent (proc_at s p) of None \<Rightarrow> Stop Halted s1
      | Some q \<Rightarrow> Stop Halted (wakeup q s1))"
    using cur(1) at [of p] by (simp add: exit_def f(5) flip: s1_def f_def)
  show ?thesis
  proof (cases "parent (proc_at s p)")
    case None
    then show ?thesis using i1 sel at f by (intro exI [of _ s1]) (simp add: ex)
  next
    case (Some q)
    note w = wakeup_inv [OF i1(1), where chan = q]
    show ?thesis
      using i1 sel at f w Some w(5) [OF pN]
      by (intro exI [of _ "wakeup q s1"]) (auto simp: ex f)
  qed
qed

lemma wait_spec:
  assumes inv: "procs_inv s" and addr: "addr \<noteq> 0"
  shows "(\<forall>i < NPROC. \<not> is_zombie_child s i) \<Longrightarrow> wait addr s = Ret (- 1) s"
    and "c < NPROC \<Longrightarrow> is_zombie_child s c \<Longrightarrow> \<forall>i < c. \<not> is_zombie_child s i \<Longrightarrow>
      \<exists>t. wait addr s = Ret (pid (proc_at s c)) t \<and> procs_inv t \<and> live t = (live s)(c := False) \<and>
        avail_pages t = avail_pages s \<union> set (slot_pages (proc_at s c)) \<and>
        int_at t addr = exit_code (proc_at s c) \<and> (\<forall>j. j \<noteq> c \<longrightarrow> proc_at t j = proc_at s j) \<and>
        current_process t = current_process s"
proof -
  show "(\<forall>i < NPROC. \<not> is_zombie_child s i) \<Longrightarrow> wait addr s = Ret (- 1) s"
    using scan_from_None_iff [of "is_zombie_child s" 0 NPROC] by (simp add: wait_def)
  assume c: "c < NPROC" "is_zombie_child s c" "\<forall>i < c. \<not> is_zombie_child s i"
  then have "scan_from (is_zombie_child s) 0 NPROC = Some c" by (simp add: scan_from_Some_iff)
  moreover let ?s1 = "s\<lparr>int_at := (int_at s)(addr := exit_code (proc_at s c))\<rparr>"
  have "live ?s1 c" using c by (simp add: live_def is_zombie_child_def)
  moreover have "procs_inv ?s1" using inv by simp
  ultimately show "\<exists>t. wait addr s = Ret (pid (proc_at s c)) t \<and> procs_inv t \<and>
      live t = (live s)(c := False) \<and>
      avail_pages t = avail_pages s \<union> set (slot_pages (proc_at s c)) \<and>
      int_at t addr = exit_code (proc_at s c) \<and> (\<forall>j. j \<noteq> c \<longrightarrow> proc_at t j = proc_at s j) \<and>
      current_process t = current_process s"
    using free_proc_spec [of ?s1 c] addr by (simp add: wait_def)
qed

lemma sleep_spec:
  assumes "current_process s = Some p" "live s p"
  shows "case lk of
      None \<Rightarrow> sleep chan lk s = Stop Rescheduled (sleep_commit p s)
    | Some l \<Rightarrow> sleep chan lk s =
        (if is_held s l then Stop Rescheduled (sleep_commit p (intr_on (set_locked l 0 s)))
         else Stop NotHeld s)"
  using assms by (simp add: sleep_def sleep_unlock_def spinlock_release_def split: option.split)

lemma sleep_inv:
  fixes s :: "'a procs_scheme"
  assumes "procs_inv s" "\<And>p. current_process s = Some p \<Longrightarrow> live s p"
  shows "procs_inv (out_state (sleep chan lk s))" "live (out_state (sleep chan lk s)) = live s"
proof -
  have "procs_inv (out_state (sleep chan lk s)) \<and> live (out_state (sleep chan lk s)) = live s"
  proof (cases "current_process s")
    case None
    then show ?thesis using assms by (simp add: sleep_def)
  next
    case (Some p)
    have c: "procs_inv (sleep_commit p t) \<and> live (sleep_commit p t) = live t"
      if "procs_inv t" "live t p" for t :: "'a procs_scheme"
      using set_state [OF that(1), of p PROC_SLEEPING] that(2)
      by (simp add: sleep_commit_def live_def)
    show ?thesis
      using sleep_spec [OF Some assms(2) [OF Some], where lk = lk and chan = chan] c assms Some
      by (cases lk) (simp_all add: c)
  qed
  then show "procs_inv (out_state (sleep chan lk s))" "live (out_state (sleep chan lk s)) = live s"
    by simp_all
qed


subsection \<open>Properties\<close>

lemma cur_live_boot: "live boot_kernel 0" "current_process boot_kernel = Some 0"
  using boot_kernel_facts by simp_all

lemma boot_no_zombies: "\<forall>i < NPROC. \<not> is_zombie_child boot_kernel i"
proof (intro allI impI)
  fix i assume i: "i < NPROC"
  have "state (proc_at boot_kernel i) \<noteq> PROC_ZOMBIE"
  proof (cases "i = 0")
    case False
    then have "\<not> live boot_kernel i" using boot_kernel_facts(2) by simp
    then show ?thesis using i by (simp add: live_def)
  qed (simp add: boot_kernel_facts(6))
  then show "\<not> is_zombie_child boot_kernel i" by (simp add: is_zombie_child_def)
qed

lemma boot_room: "(\<exists>i < NPROC. \<not> live boot_kernel i) \<and> 3 \<le> card (avail_pages boot_kernel)"
  using boot_kernel_facts(2,4) by (auto intro: exI [of _ 1] simp: NPROC_def)

lemma boot_fork:
  "fst (fork boot_kernel) = 2" "\<exists>c. forked 0 c boot_kernel (snd (fork boot_kernel))"
  using fork_spec [OF boot_kernel_facts(1) cur_live_boot(2,1) surjective_pairing]
    boot_kernel_facts(5) boot_room by simp_all





text \<open>A forked child never starts at a valid place. \<open>fork\<close> leaves the saved context of the
  slot as it was, so on a slot never used before the child's return address and stack
  pointer, which \<open>context_switch\<close> will load, are 0.\<close>

theorem fork_leaves_context:
  assumes "procs_inv s" "current_process s = Some par" "live s par" "fork s = (r, t)"
    and "r \<noteq> - 1"
  shows "\<exists>c. live t c \<and> \<not> live s c \<and> pid (proc_at t c) = r \<and> ctx (proc_at t c) = ctx (proc_at s c)"
proof -
  obtain c where "r = next_pid s" "forked par c s t"
    using fork_spec [OF assms(1-4)] assms(5) by (auto split: if_splits)
  then show ?thesis by (intro exI [of _ c]) (simp add: forked_def)
qed

theorem fork_leaves_context_witness:
  "\<exists>c < NPROC. state (proc_at (snd (fork boot_kernel)) c) = PROC_RUNNABLE \<and>
     c_ra (ctx (proc_at (snd (fork boot_kernel)) c)) = 0"
proof -
  obtain r t where f: "fork boot_kernel = (r, t)" by (cases "fork boot_kernel")
  have r: "r = 2" using boot_fork f by simp
  obtain c where c: "live t c" "\<not> live boot_kernel c"
    "ctx (proc_at t c) = ctx (proc_at boot_kernel c)"
    using fork_leaves_context [OF boot_kernel_facts(1) cur_live_boot(2,1) f] r by auto
  obtain c' where c': "forked 0 c' boot_kernel t" using boot_fork f by auto
  then have "c = c'" using c by (auto simp: forked_def split: if_splits)
  then have "state (proc_at t c) = PROC_RUNNABLE" using c' by (simp add: forked_def)
  moreover have "c < NPROC" using c(1) by (simp add: live_def)
  ultimately show ?thesis
    using c(3) f boot_kernel_facts(11) [of c] by (auto simp: zero_context_def)
qed

text \<open>C11: \<open>fork\<close>, \<open>exit\<close> and \<open>wait\<close> fit together. When the child runs \<open>exit(status)\<close> and then
  the parent, who had no dead child before, runs \<open>wait\<close>, the parent gets the child's pid
  and status, and the processes and free pages are those from before the fork.\<close>

theorem fork_exit_wait_roundtrip:
  assumes "procs_inv s" "current_process s = Some par" "live s par"
    and "fork s = (r, s1)" "r \<noteq> - 1" "live s1 c" "pid (proc_at s1 c) = r"
    and "exit status (s1\<lparr>current_process := Some c\<rparr>) = Stop Halted s2"
    and "\<forall>i < NPROC. \<not> is_zombie_child s i" "addr \<noteq> 0"
  shows "\<exists>s3. wait addr (s2\<lparr>current_process := Some par\<rparr>) = Ret r s3 \<and> int_at s3 addr = status \<and>
    live s3 = live s \<and> avail_pages s3 = avail_pages s \<and> procs_inv s3"
proof -
  obtain c' where fk: "r = next_pid s" "forked par c' s s1"
    using fork_spec [OF assms(1-4)] assms(5) by (auto split: if_splits)
  note F = fk(2) [unfolded forked_def]
  have inv1: "procs_inv s1" using F by blast
  have "c' = c" using procs_invD(10) [OF inv1, of c' c] F assms(6,7) fk(1) by simp
  note F = F [unfolded this]
  let ?s1 = "s1\<lparr>current_process := Some c\<rparr>"
  have "procs_inv ?s1" "live ?s1 c" using inv1 assms(6) by simp_all
  from exit_spec [OF this(1) _ this(2), of status] assms(8)
  have E: "procs_inv s2" "live s2 = live s1" "avail_pages s2 = avail_pages s1"
    "state (proc_at s2 c) = PROC_ZOMBIE" "exit_code (proc_at s2 c) = status"
    "pid (proc_at s2 c) = pid (proc_at s1 c)" "parent (proc_at s2 c) = parent (proc_at s1 c)"
    "slot_pages (proc_at s2 c) = slot_pages (proc_at s1 c)"
    "\<And>j. j < NPROC \<Longrightarrow> j \<noteq> c \<Longrightarrow> proc_at s2 j = wake (proc_at s1 j)"
    using F by auto
  let ?s2 = "s2\<lparr>current_process := Some par\<rparr>"
  have z: "is_zombie_child ?s2 c" using E F by (simp add: is_zombie_child_def)
  have nz: "\<not> is_zombie_child ?s2 i" if "i < c" for i
  proof -
    have i: "i < NPROC" "i \<noteq> c" using that F by auto
    then have "proc_at s2 i = wake (proc_at s i)" using E(9) F by simp
    then show ?thesis using assms(9) i(1) assms(2) by (simp add: is_zombie_child_def)
  qed
  have inv2: "procs_inv ?s2" using E(1) by simp
  have cN: "c < NPROC" using F by blast
  obtain t where t: "wait addr ?s2 = Ret (pid (proc_at ?s2 c)) t" "procs_inv t"
    "live t = (live ?s2)(c := False)"
    "avail_pages t = avail_pages ?s2 \<union> set (slot_pages (proc_at ?s2 c))"
    "int_at t addr = exit_code (proc_at ?s2 c)"
    using wait_spec(2) [OF inv2 assms(10) cN z] nz by blast
  have "live t = live s" using t(3) E(2) F by (auto simp: fun_eq_iff)
  moreover have "avail_pages t = avail_pages s" using t(4) E F by auto
  ultimately show ?thesis using t E assms(7) by simp
qed

theorem fork_exit_wait_roundtrip_witness:
  "\<exists>(s2 :: procs) s3. wait 0x1000 s2 = Ret 2 s3 \<and> int_at s3 0x1000 = 7 \<and> live s3 = live boot_kernel"
proof -
  obtain r s1 where f: "fork boot_kernel = (r, s1)" by (cases "fork boot_kernel")
  obtain c where c: "forked 0 c boot_kernel s1" and r: "r = 2"
    using boot_fork f by auto
  have lc: "live s1 c" "pid (proc_at s1 c) = r" "procs_inv s1"
    using c r boot_kernel_facts(5) by (auto simp: forked_def)
  have "procs_inv (s1\<lparr>current_process := Some c\<rparr>)" "live (s1\<lparr>current_process := Some c\<rparr>) c"
    using lc by simp_all
  then obtain s2 where s2: "exit 7 (s1\<lparr>current_process := Some c\<rparr>) = Stop Halted s2"
    using exit_spec [of "s1\<lparr>current_process := Some c\<rparr>" c 7] by auto
  show ?thesis
    using boot_no_zombies fork_exit_wait_roundtrip [OF boot_kernel_facts(1) cur_live_boot(2,1) f _ lc(1,2) s2,
        of "0x1000"] r
    by (intro exI [where P = "\<lambda>s2. \<exists>s3. wait 0x1000 s2 = Ret 2 s3 \<and> Q s3" for Q,
          of "s2\<lparr>current_process := Some 0\<rparr>"]) auto
qed

text \<open>\<open>wait\<close> does not wait. It returns -1 at once, with nothing changed, whenever no child
  of the caller is dead, also when the caller has live children; and when a child is dead
  but the address given for its status is NULL, it stores through NULL.\<close>

theorem wait_does_not_block:
  "((\<forall>i < NPROC. \<not> is_zombie_child s i) \<longrightarrow> wait addr s = Ret (- 1) s) \<and>
   ((\<exists>i < NPROC. is_zombie_child s i) \<longrightarrow> wait 0 s = Stop NullDeref s)"
  using scan_from_None_iff [of "is_zombie_child s" 0 NPROC]
  by (auto simp: wait_def split: option.split)

theorem wait_does_not_block_witness:
  "wait 0x1000 boot_kernel = Ret (- 1) boot_kernel"
  using wait_does_not_block [of boot_kernel "0x1000"] boot_no_zombies by blast

text \<open>Any run of \<open>n\<close> calls of \<open>alloc_proc\<close> gives out as many slots as are free, at most \<open>n\<close>,
  all different and none of them in use before.\<close>

theorem alloc_proc_distinct_slots:
  assumes "procs_inv s" "alloc_run alloc_proc n s = (slots, t)"
  shows "distinct slots \<and> set slots \<inter> {i. live s i} = {} \<and>
    {i. live t i} = {i. live s i} \<union> set slots \<and>
    length slots = min n (NPROC - card {i. live s i})"
  using pt.alloc_run_spec [OF assms] by blast

theorem alloc_proc_distinct_slots_witness:
  "length (fst (alloc_run alloc_proc 100 boot_kernel)) = 63"
  using alloc_proc_distinct_slots [OF boot_kernel_facts(1) surjective_pairing, of 100]
    boot_kernel_facts(2) by (simp add: NPROC_def)

text \<open>\<open>wakeup\<close> is a broadcast. It makes exactly the sleeping processes runnable, whatever
  channel they sleep on and whatever channel it is given, and changes nothing else.\<close>

theorem wakeup_ignores_channel:
  "wakeup chan s = wakeup chan' s \<and>
   (i < length (proc_table s) \<longrightarrow> proc_at (wakeup chan s) i =
      (if state (proc_at s i) = PROC_SLEEPING then (proc_at s i)\<lparr>state := PROC_RUNNABLE\<rparr>
       else proc_at s i)) \<and>
   (wakeup chan s)\<lparr>proc_table := proc_table s\<rparr> = s"
  by (simp add: wakeup_def)

theorem wakeup_ignores_channel_witness:
  "proc_at (wakeup ''inode'' (sleep_commit 0 boot_kernel)) 0 =
    (proc_at boot_kernel 0)\<lparr>state := PROC_RUNNABLE\<rparr>"
proof -
  have "0 < length (proc_table boot_kernel)"
    using procs_invD(1) [OF boot_kernel_facts(1)] by (simp add: NPROC_def)
  then show ?thesis
    using wakeup_ignores_channel [of "''inode''" "sleep_commit 0 boot_kernel" "''inode''" 0]
    by (simp add: sleep_commit_def)
qed

text \<open>A wakeup can be lost. \<open>sleep\<close> releases the lock before it marks the process sleeping;
  a \<open>wakeup\<close> between the two steps, by an interrupt or another hart, does not see it, and
  the process goes to sleep after the event it waits for. The same \<open>wakeup\<close> after \<open>sleep\<close>
  makes it runnable.\<close>

theorem wakeup_can_be_lost:
  assumes "procs_inv s" "current_process s = Some p" "live s p"
    and "state (proc_at s p) = PROC_RUNNING" "is_held s l"
  shows "\<exists>s1. sleep_unlock (Some l) s = Ret () s1 \<and>
    state (proc_at (sleep_commit p (wakeup chan s1)) p) = PROC_SLEEPING \<and>
    sleep chan (Some l) s = Stop Rescheduled (sleep_commit p s1) \<and>
    state (proc_at (wakeup chan (sleep_commit p s1)) p) = PROC_RUNNABLE"
proof -
  let ?s1 = "intr_on (set_locked l 0 s)"
  have tab: "proc_table ?s1 = proc_table s" by (simp add: intr_on_def set_locked_def)
  have p: "p < NPROC" "p < length (proc_table s)"
    using assms(3) procs_invD(1) [OF assms(1)] by (simp_all add: live_def)
  have inv1: "procs_inv ?s1" "live ?s1 p" using assms(1,3) by simp_all
  have "proc_at (wakeup chan ?s1) p = proc_at s p"
    using wakeup_inv(5) [OF inv1(1) p(1)] assms(4) tab by (simp add: wake_def)
  moreover have "length (proc_table (wakeup chan ?s1)) = length (proc_table s)"
    by (simp add: wakeup_table tab)
  moreover have "state (proc_at (wakeup chan (sleep_commit p ?s1)) p) = PROC_RUNNABLE"
    using p by (simp add: wakeup_table sleep_commit_def tab wake_def)
  ultimately show ?thesis
    using sleep_spec [OF assms(2,3), where lk = "Some l" and chan = chan] assms(5) p
    by (intro exI [of _ ?s1]) (simp add: sleep_unlock_def spinlock_release_def sleep_commit_def)
qed

text \<open>The init process running, with the lock of the log held.\<close>

definition init_running :: procs where
  "init_running = set_locked LK_log 1 (upd_proc 0 (state_update (\<lambda>_. PROC_RUNNING)) boot_kernel)"

lemma init_running_facts:
  "procs_inv init_running" "current_process init_running = Some 0" "live init_running 0"
  "state (proc_at init_running 0) = PROC_RUNNING" "is_held init_running LK_log"
proof -
  have len: "0 < length (proc_table boot_kernel)"
    using procs_invD(1) [OF boot_kernel_facts(1)] by (simp add: NPROC_def)
  show "procs_inv init_running" "live init_running 0"
    using set_state [OF boot_kernel_facts(1), of 0 PROC_RUNNING] boot_kernel_facts(6) cur_live_boot
    by (simp_all add: init_running_def)
  show "current_process init_running = Some 0" "state (proc_at init_running 0) = PROC_RUNNING"
    using len boot_kernel_facts(3) by (simp_all add: init_running_def set_locked_def)
  show "is_held init_running LK_log" by (simp add: init_running_def)
qed

theorem wakeup_can_be_lost_witness:
  "\<exists>s1. sleep_unlock (Some LK_log) init_running = Ret () s1 \<and>
    state (proc_at (sleep_commit 0 (wakeup ''log'' s1)) 0) = PROC_SLEEPING"
  using wakeup_can_be_lost [OF init_running_facts, of "''log''"] by blast

end
