(* ===== verification/Scheduler.thy ===== *)
theory Scheduler
  imports Process_Props
begin

text \<open>
  \<open>kernel/proc/scheduler.c\<close> and \<open>switch_context.S\<close>. \<open>scheduler\<close> is an endless loop over the
  table with a static index; after each switch the CPU runs on at the return address that
  \<open>context_switch\<close> has loaded, which for a process that was switched out is inside this
  same loop. So the model is one round of the inner loop, and the rounds up to the next
  switch. Properties: the choice of the next process, fairness, what a switch saves and
  restores, and what goes wrong after boot.
\<close>

definition context_switch :: "nat option \<Rightarrow> nat \<Rightarrow> 'a procs_scheme \<Rightarrow> (unit, 'a procs_scheme) outcome" where
  "context_switch old new s =
     (case old of
        None \<Rightarrow> Stop NullDeref s
      | Some p \<Rightarrow>
          let s1 = upd_proc p (ctx_update (\<lambda>_. cpu s)) s
          in Ret () (s1\<lparr>cpu := ctx (proc_at s1 new)\<rparr>))"

text \<open>The body of the \<open>if\<close> that dispatches \<open>p\<close>.\<close>

definition dispatch_to :: "nat \<Rightarrow> 'a procs_scheme \<Rightarrow> (unit, 'a procs_scheme) outcome" where
  "dispatch_to p s =
     (let prev = current_process s;
          s1 = upd_proc p (state_update (\<lambda>_. PROC_RUNNING)) (s\<lparr>current_process := Some p\<rparr>);
          s2 = (if pagetable (proc_at s1 p) \<noteq> 0
                then switch_page_table (pagetable (proc_at s1 p)) s1 else s1)
      in context_switch prev p s2)"

definition sched_round :: "'a procs_scheme \<Rightarrow> (nat option, 'a procs_scheme) outcome" where
  "sched_round s =
     (let p = sched_index s;
          s1 = s\<lparr>sched_index := (sched_index s + 1) mod NPROC\<rparr>
      in if state (proc_at s1 p) = PROC_RUNNABLE
         then bind_out (dispatch_to p s1) (\<lambda>_ t. Ret (Some p) t)
         else Ret None s1)"

text \<open>At most \<open>n\<close> rounds, up to the first that dispatches.\<close>

fun scheduler :: "nat \<Rightarrow> 'a procs_scheme \<Rightarrow> (nat option, 'a procs_scheme) outcome" where
  "scheduler 0 s = Ret None s"
| "scheduler (Suc n) s =
     bind_out (sched_round s) (\<lambda>r t. case r of None \<Rightarrow> scheduler n t | Some p \<Rightarrow> Ret (Some p) t)"

definition yield :: "'a procs_scheme \<Rightarrow> (unit, 'a procs_scheme) outcome" where
  "yield s =
     Stop Rescheduled
       (case current_process s of
          None \<Rightarrow> s
        | Some p \<Rightarrow>
            if state (proc_at s p) = PROC_RUNNING
            then upd_proc p (state_update (\<lambda>_. PROC_RUNNABLE)) s else s)"

subsection \<open>Which process is next\<close>

abbreviation runnable :: "'a procs_scheme \<Rightarrow> nat \<Rightarrow> bool" where
  "runnable s i \<equiv> state (proc_at s i) = PROC_RUNNABLE"

text \<open>The slot the loop looks at in \<open>i\<close> rounds from now.\<close>

definition slot_in :: "'a procs_scheme \<Rightarrow> nat \<Rightarrow> nat" where
  "slot_in s i = (sched_index s + i) mod NPROC"

lemma slot_in_lt [simp]: "slot_in s i < NPROC"
  by (simp add: slot_in_def NPROC_def)

lemma mod_NPROC_lt [simp]: "n mod NPROC < NPROC"
  by (simp add: NPROC_def)

lemma slot_in_Suc:
  "slot_in (s\<lparr>sched_index := Suc (sched_index s) mod NPROC\<rparr>) i = slot_in s (Suc i)"
  by (simp add: slot_in_def mod_simps)

lemma scheduler_none:
  assumes "sched_index s < NPROC" "\<forall>i < n. \<not> runnable s (slot_in s i)"
  shows "scheduler n s = Ret None (s\<lparr>sched_index := slot_in s n\<rparr>)"
  using assms
proof (induction n arbitrary: s)
  case 0
  then show ?case by (simp add: slot_in_def)
next
  case (Suc n)
  let ?t = "s\<lparr>sched_index := (sched_index s + 1) mod NPROC\<rparr>"
  have "slot_in s 0 = sched_index s" using Suc.prems(1) by (simp add: slot_in_def)
  then have "\<not> runnable s (sched_index s)" using Suc.prems(2) by force
  moreover have "scheduler n ?t = Ret None (?t\<lparr>sched_index := slot_in ?t n\<rparr>)"
    using Suc.prems by (intro Suc.IH) (auto simp: slot_in_Suc)
  ultimately show ?case by (simp add: sched_round_def Let_def slot_in_Suc)
qed

lemma scheduler_some:
  assumes "sched_index s < NPROC" "i < n" "runnable s (slot_in s i)"
    "\<forall>j < i. \<not> runnable s (slot_in s j)"
  shows "scheduler n s =
    bind_out (dispatch_to (slot_in s i) (s\<lparr>sched_index := slot_in s (Suc i)\<rparr>))
      (\<lambda>_ t. Ret (Some (slot_in s i)) t)"
  using assms
proof (induction n arbitrary: s i)
  case 0
  then show ?case by simp
next
  case (Suc n)
  let ?t = "s\<lparr>sched_index := (sched_index s + 1) mod NPROC\<rparr>"
  have s0: "slot_in s 0 = sched_index s" using Suc.prems(1) by (simp add: slot_in_def)
  show ?case
  proof (cases i)
    case 0
    have t: "?t = s\<lparr>sched_index := slot_in s (Suc 0)\<rparr>" by (simp add: slot_in_def)
    have "bind_out (bind_out m (\<lambda>_ t. Ret (Some p) t))
        (\<lambda>r t. case r of None \<Rightarrow> scheduler n t | Some p \<Rightarrow> Ret (Some p) t) =
        bind_out m (\<lambda>_ t. Ret (Some p) t)" for m :: "(unit, 'a procs_scheme) outcome" and p
      by (cases m) simp_all
    then show ?thesis using Suc.prems(3) 0 s0 t by (simp add: sched_round_def Let_def)
  next
    case (Suc k)
    have "\<not> runnable s (sched_index s)" using Suc.prems(4) s0 Suc by force
    moreover have "scheduler n ?t = bind_out (dispatch_to (slot_in ?t k)
        (?t\<lparr>sched_index := slot_in ?t (Suc k)\<rparr>)) (\<lambda>_ t. Ret (Some (slot_in ?t k)) t)"
      using Suc.prems Suc by (intro Suc.IH) (auto simp: slot_in_Suc)
    ultimately show ?thesis using Suc by (simp add: sched_round_def Let_def slot_in_Suc)
  qed
qed

subsection \<open>The effect of a dispatch\<close>

lemma dispatch_spec:
  assumes "current_process s = Some q"
  shows "\<exists>t. dispatch_to p s = Ret () t \<and> current_process t = Some p \<and>
    sched_index t = sched_index s \<and>
    proc_table t = (proc_table s)[p := (proc_at s p)\<lparr>state := PROC_RUNNING\<rparr>,
      q := ((proc_table s)[p := (proc_at s p)\<lparr>state := PROC_RUNNING\<rparr>] ! q)\<lparr>ctx := cpu s\<rparr>] \<and>
    cpu t = ctx (proc_at t p) \<and> next_pid t = next_pid s \<and> phys_bitmap t = phys_bitmap s \<and>
    free_pages_count t = free_pages_count s \<and> (paging_active s \<longrightarrow> paging_active t) \<and>
    spin t = spin s \<and> sie t = sie s \<and> tf_heap t = tf_heap s \<and> int_at t = int_at s"
  using assms
  by (simp add: dispatch_to_def context_switch_def switch_page_table_def upd_proc_def Let_def)

lemma dispatch_at:
  assumes "current_process s = Some q" "p < length (proc_table s)" "q < length (proc_table s)"
    and "dispatch_to p s = Ret () t"
  shows "state (proc_at t i) = (if i = p then PROC_RUNNING else state (proc_at s i))"
    "pid (proc_at t i) = pid (proc_at s i)" "slot_pages (proc_at t i) = slot_pages (proc_at s i)"
    "parent (proc_at t i) = parent (proc_at s i)"
    "ctx (proc_at t i) = (if i = q then cpu s else ctx (proc_at s i))"
  using dispatch_spec [OF assms(1), of p] assms(2-4)
  by (auto simp: nth_list_update slot_pages_def)

lemma dispatch_inv:
  assumes inv: "procs_inv s" and q: "current_process s = Some q" "q < NPROC"
    and p: "live s p" and d: "dispatch_to p s = Ret () t"
  shows "procs_inv t" "live t = live s"
proof -
  note D = procs_invD [OF inv]
  have pN: "p < NPROC" using p by (simp add: live_def)
  have f: "length (proc_table t) = NPROC" "paging_active t" "next_pid t = next_pid s"
    "phys_bitmap t = phys_bitmap s" "free_pages_count t = free_pages_count s"
    using dispatch_spec [OF q(1), of p] d D(1,3) by auto
  note at = dispatch_at [OF q(1) _ _ d, unfolded D(1), OF pN q(2)]
  show lv: "live t = live s" using p by (auto simp: live_def at fun_eq_iff)
  have ow: "owns t = owns s" by (simp add: owns_def at fun_eq_iff)
  then have od: "owned t = owned s" by (simp add: owned_def)
  show "procs_inv t"
    using inv f physmem_cong [OF f(4,5)] unfolding procs_inv_def lv ow od at by simp
qed


subsection \<open>Properties\<close>

definition next_is :: "'a procs_scheme \<Rightarrow> nat \<Rightarrow> bool" where
  "next_is s i \<longleftrightarrow> i < NPROC \<and> runnable s (slot_in s i) \<and> (\<forall>j < i. \<not> runnable s (slot_in s j))"

lemma next_exists:
  assumes "d < NPROC" "runnable s (slot_in s d)"
  shows "\<exists>i \<le> d. next_is s i"
proof -
  let ?P = "\<lambda>i. runnable s (slot_in s i)"
  obtain i where i: "?P i" "\<forall>j < i. \<not> ?P j"
    using exists_least_iff [of ?P] assms(2) by blast
  then have "i \<le> d" using assms(2) by (meson not_le)
  then show ?thesis using i assms(1) by (intro exI [of _ i]) (simp add: next_is_def)
qed

lemma slot_in_surj: "j < NPROC \<Longrightarrow> \<exists>d < NPROC. slot_in s d = j"
proof (intro exI conjI)
  assume j: "j < NPROC"
  let ?d = "(j + NPROC - sched_index s mod NPROC) mod NPROC"
  show "?d < NPROC" by simp
  have "sched_index s mod NPROC \<le> j + NPROC" using mod_NPROC_lt [of "sched_index s"] by linarith
  then have "(sched_index s mod NPROC + (j + NPROC - sched_index s mod NPROC)) mod NPROC = j"
    using j by simp
  then show "slot_in s ?d = j" unfolding slot_in_def by (simp add: mod_simps)
qed

lemma scheduler_next:
  assumes "procs_inv s" "sched_index s < NPROC" "current_process s = Some q" "q < NPROC"
  shows "(next_is s i \<longrightarrow> (\<exists>t. scheduler NPROC s = Ret (Some (slot_in s i)) t \<and>
      current_process t = Some (slot_in s i) \<and> sched_index t = slot_in s (Suc i) \<and>
      (\<forall>j. state (proc_at t j) = (if j = slot_in s i then PROC_RUNNING else state (proc_at s j))) \<and>
      procs_inv t)) \<and>
    ((\<forall>j < NPROC. \<not> runnable s j) \<longrightarrow>
      (\<forall>n. scheduler n s = Ret None (s\<lparr>sched_index := slot_in s n\<rparr>)))"
proof (intro conjI impI allI)
  assume n: "next_is s i"
  let ?p = "slot_in s i" and ?u = "s\<lparr>sched_index := slot_in s (Suc i)\<rparr>"
  have u: "procs_inv ?u" "current_process ?u = Some q" "live ?u ?p"
    using procs_inv_cong [of ?u s] assms(1,3) n by (simp_all add: next_is_def live_def)
  obtain t where t: "dispatch_to ?p ?u = Ret () t" "current_process t = Some ?p"
    "sched_index t = slot_in s (Suc i)" using dispatch_spec [OF u(2), of ?p] by auto
  have len: "?p < length (proc_table ?u)" "q < length (proc_table ?u)"
    using procs_invD(1) [OF assms(1)] assms(4) by simp_all
  have "scheduler NPROC s = Ret (Some ?p) t"
    using scheduler_some [OF assms(2), of i NPROC] n t(1) by (simp add: next_is_def)
  moreover have "procs_inv t" using dispatch_inv [OF u(1,2) assms(4) u(3) t(1)] by simp
  ultimately show "\<exists>t. scheduler NPROC s = Ret (Some ?p) t \<and> current_process t = Some ?p \<and>
      sched_index t = slot_in s (Suc i) \<and>
      (\<forall>j. state (proc_at t j) = (if j = ?p then PROC_RUNNING else state (proc_at s j))) \<and>
      procs_inv t"
    using dispatch_at(1) [OF u(2) len t(1)] t(2,3) by (intro exI [of _ t]) simp
next
  fix n
  assume "\<forall>j < NPROC. \<not> runnable s j"
  then show "scheduler n s = Ret None (s\<lparr>sched_index := slot_in s n\<rparr>)"
    using scheduler_none [OF assms(2)] by simp
qed

text \<open>C12: \<open>scheduler\<close> is round robin. From a state with a current process, if a process is
  runnable, one pass over the table dispatches the first runnable one after the last
  dispatched: it becomes the current and a running process, the search continues behind it
  next time, no other process changes its state, and the invariant holds. If none is
  runnable, it searches for ever without changing any process.\<close>

theorem scheduler_round_robin:
  assumes "procs_inv s" "sched_index s < NPROC" "current_process s = Some q" "q < NPROC"
  shows "(next_is s i \<longrightarrow> (\<exists>t. scheduler NPROC s = Ret (Some (slot_in s i)) t \<and>
      current_process t = Some (slot_in s i) \<and> sched_index t = slot_in s (Suc i) \<and>
      (\<forall>j. state (proc_at t j) = (if j = slot_in s i then PROC_RUNNING else state (proc_at s j))) \<and>
      procs_inv t)) \<and>
    ((\<forall>j < NPROC. \<not> runnable s j) \<longrightarrow>
      (\<forall>n. scheduler n s = Ret None (s\<lparr>sched_index := slot_in s n\<rparr>)))"
  using assms by (rule scheduler_next)

theorem scheduler_round_robin_witness:
  "\<exists>t. scheduler NPROC boot_kernel = Ret (Some 0) t \<and> current_process t = Some 0 \<and> procs_inv t"
proof -
  note ix = boot_kernel_facts(12)
  have "next_is boot_kernel 0"
    using boot_kernel_facts(6) by (simp add: next_is_def slot_in_def ix NPROC_def)
  moreover have "slot_in boot_kernel 0 = 0" by (simp add: slot_in_def ix)
  ultimately show ?thesis
    using scheduler_round_robin [OF boot_kernel_facts(1) _ boot_kernel_facts(3), of 0]
    by (auto simp: ix NPROC_def)
qed

text \<open>C13: no runnable process starves. In any run of the scheduler, whatever happens between
  its activations, a process that stays runnable until it is picked is picked within
  \<open>NPROC\<close> activations.\<close>

theorem scheduler_fair:
  assumes "\<And>n. procs_inv (f n) \<and> sched_index (f n) < NPROC \<and>
      (\<exists>q < NPROC. current_process (f n) = Some q)"
    and "\<And>n. scheduler NPROC (f n) = Ret (picked n) (g n)"
    and "\<And>n. sched_index (f (Suc n)) = sched_index (g n)"
    and "\<And>n. \<forall>m < n. picked m \<noteq> Some j \<Longrightarrow> runnable (f n) j"
    and "j < NPROC"
  shows "\<exists>n < NPROC. picked n = Some j"
proof -
  have main: "\<exists>m \<le> d. picked (n + m) = Some j"
    if "slot_in (f n) d = j" "d < NPROC" "\<forall>m < n. picked m \<noteq> Some j" for n d
    using that
  proof (induction d arbitrary: n rule: less_induct)
    case (less d)
    obtain q where q: "q < NPROC" "current_process (f n) = Some q" using assms(1) by blast
    have "runnable (f n) j" using assms(4) less.prems(3) by blast
    then obtain i where i: "i \<le> d" "next_is (f n) i"
      using next_exists [of d "f n"] less.prems(1,2) by auto
    then obtain t where t: "scheduler NPROC (f n) = Ret (Some (slot_in (f n) i)) t"
      "sched_index t = slot_in (f n) (Suc i)"
      using scheduler_next [of "f n" q i] assms(1) q by blast
    then have pk: "picked n = Some (slot_in (f n) i)" "sched_index (g n) = slot_in (f n) (Suc i)"
      using assms(2) [of n] by simp_all
    show ?case
    proof (cases "picked n = Some j")
      case True
      then show ?thesis by (intro exI [of _ 0]) simp
    next
      case False
      then have "i < d" using pk(1) less.prems(1) i(1) by (cases "i = d") auto
      have "slot_in (f (Suc n)) (d - Suc i) = slot_in (f n) (Suc i + (d - Suc i))"
        unfolding slot_in_def assms(3) pk(2) by (simp add: mod_simps add.assoc)
      then have j: "slot_in (f (Suc n)) (d - Suc i) = j" using \<open>i < d\<close> less.prems(1) by simp
      have "\<forall>m < Suc n. picked m \<noteq> Some j" using less.prems(3) False by (simp add: less_Suc_eq)
      moreover have "d - Suc i < d" "d - Suc i < NPROC" using \<open>i < d\<close> less.prems(2) by simp_all
      ultimately obtain m where "m \<le> d - Suc i" "picked (Suc n + m) = Some j"
        using less.IH [of "d - Suc i" "Suc n"] j by blast
      then show ?thesis using \<open>i < d\<close> by (intro exI [of _ "Suc m"]) simp
    qed
  qed
  obtain d where "d < NPROC" "slot_in (f 0) d = j" using slot_in_surj [OF assms(5)] by blast
  then show ?thesis using main [of 0 d] by (metis add_0 le_less_trans not_less0)
qed

text \<open>For the example: the init process alone, giving the CPU away after every turn.\<close>

fun init_turns :: "nat \<Rightarrow> procs" where
  "init_turns 0 = boot_kernel"
| "init_turns (Suc n) = out_state (yield (out_state (scheduler NPROC (init_turns n))))"

lemma yield_spec:
  assumes "procs_inv s" "current_process s = Some p" "live s p" "state (proc_at s p) = PROC_RUNNING"
  shows "\<exists>t. yield s = Stop Rescheduled t \<and> procs_inv t \<and> live t = live s \<and>
    current_process t = Some p \<and> runnable t p \<and> sched_index t = sched_index s \<and>
    (\<forall>j. j \<noteq> p \<longrightarrow> proc_at t j = proc_at s j)"
proof -
  have "p < length (proc_table s)" using assms(1,3) procs_invD(1) [of s] by (simp add: live_def)
  then show ?thesis
    using assms set_state [OF assms(1), of p PROC_RUNNABLE] by (simp add: yield_def)
qed

lemma init_turns_ok:
  "procs_inv (init_turns n) \<and> sched_index (init_turns n) < NPROC \<and>
   current_process (init_turns n) = Some 0 \<and> runnable (init_turns n) 0 \<and>
   (\<forall>i < NPROC. i \<noteq> 0 \<longrightarrow> state (proc_at (init_turns n) i) = PROC_UNUSED)"
proof (induction n)
  case 0
  have "state (proc_at boot_kernel i) = PROC_UNUSED" if "i < NPROC" "i \<noteq> 0" for i
  proof -
    have "\<not> live boot_kernel i" using that boot_kernel_facts(2) by simp
    then show ?thesis using that by (simp add: live_def)
  qed
  then show ?case using boot_kernel_facts by (simp add: NPROC_def)
next
  case (Suc n)
  let ?s = "init_turns n"
  have s: "procs_inv ?s" "sched_index ?s < NPROC" "current_process ?s = Some 0" "runnable ?s 0"
    "\<forall>i < NPROC. i \<noteq> 0 \<longrightarrow> state (proc_at ?s i) = PROC_UNUSED"
    using Suc.IH by auto
  obtain d where "d < NPROC" "slot_in ?s d = 0" using slot_in_surj [of 0 ?s] by (auto simp: NPROC_def)
  then obtain i where i: "next_is ?s i" using next_exists [of d ?s] s(4) by auto
  have "slot_in ?s i = 0"
  proof (rule ccontr)
    assume "slot_in ?s i \<noteq> 0"
    then have "state (proc_at ?s (slot_in ?s i)) = PROC_UNUSED" using s(5) by simp
    then show False using i by (simp add: next_is_def)
  qed
  with i scheduler_next [OF s(1-3), of i]
  obtain t where t: "scheduler NPROC ?s = Ret (Some 0) t" "current_process t = Some 0"
    "sched_index t = slot_in ?s (Suc i)" "procs_inv t"
    "\<forall>j. state (proc_at t j) = (if j = 0 then PROC_RUNNING else state (proc_at ?s j))"
    by (auto simp: NPROC_def)
  have "live t 0" using t(5) by (simp add: live_def NPROC_def)
  then obtain u where "yield t = Stop Rescheduled u" "procs_inv u" "current_process u = Some 0"
    "runnable u 0" "sched_index u = sched_index t" "\<forall>j. j \<noteq> 0 \<longrightarrow> proc_at u j = proc_at t j"
    using yield_spec [OF t(4,2)] t(5) by auto
  then show ?case using t s(5) by simp
qed

theorem scheduler_fair_witness:
  "\<exists>n < NPROC. \<exists>t. scheduler NPROC (init_turns n) = Ret (Some 0) t"
proof -
  define picked where "picked n = (case scheduler NPROC (init_turns n) of Ret r t \<Rightarrow> r | Stop r t \<Rightarrow> None)"
    for n
  define g where "g n = out_state (scheduler NPROC (init_turns n))" for n
  have run: "\<exists>t. scheduler NPROC (init_turns n) = Ret (picked n) t \<and> sched_index (init_turns (Suc n)) =
      sched_index t \<and> g n = t" for n
  proof -
    let ?s = "init_turns n"
    note s = init_turns_ok [of n]
    obtain d where "d < NPROC" "slot_in ?s d = 0" using slot_in_surj [of 0 ?s] by (auto simp: NPROC_def)
    then obtain i where i: "next_is ?s i" using next_exists [of d ?s] s by auto
    then obtain t where t: "scheduler NPROC ?s = Ret (Some (slot_in ?s i)) t"
      using scheduler_next [of ?s 0 i] s by (auto simp: NPROC_def)
    moreover have "sched_index (out_state (yield t)) = sched_index t"
      by (simp add: yield_def split: option.split)
    ultimately show ?thesis by (simp add: picked_def g_def)
  qed
  have "\<exists>n < NPROC. picked n = Some 0"
  proof (rule scheduler_fair [where f = init_turns and g = g])
    fix n
    show "procs_inv (init_turns n) \<and> sched_index (init_turns n) < NPROC \<and>
        (\<exists>q < NPROC. current_process (init_turns n) = Some q)"
      using init_turns_ok [of n] by (auto simp: NPROC_def)
    show "scheduler NPROC (init_turns n) = Ret (picked n) (g n)" using run [of n] by auto
    show "sched_index (init_turns (Suc n)) = sched_index (g n)" using run [of n] by auto
    show "runnable (init_turns n) 0" using init_turns_ok [of n] by simp
    show "0 < NPROC" by (simp add: NPROC_def)
  qed
  then show ?thesis using run by metis
qed

text \<open>A switch away and back restores the registers. When \<open>context_switch\<close> leaves \<open>a\<close> and
  later, with the saved context of \<open>a\<close> untouched, another call returns to \<open>a\<close>, the hart
  has the same callee-saved registers as at the first call.\<close>

theorem context_switch_roundtrip:
  assumes "context_switch (Some a) b s = Ret () t" "a \<noteq> b"
    and "a < length (proc_table s)"
    and "ctx (proc_at u a) = ctx (proc_at t a)" "context_switch (Some b) a u = Ret () v"
  shows "cpu v = cpu s"
  using assms by (auto simp: context_switch_def Let_def)

theorem context_switch_roundtrip_witness:
  "let s = boot_kernel\<lparr>cpu := zero_context\<lparr>c_sp := 0x1234\<rparr>\<rparr>;
       t = out_state (context_switch (Some 0) 1 s)
   in c_sp (cpu t) = 0 \<and> c_sp (cpu (out_state (context_switch (Some 1) 0 t))) = 0x1234"
proof -
  let ?s = "boot_kernel\<lparr>cpu := zero_context\<lparr>c_sp := 0x1234\<rparr>\<rparr>"
  let ?t = "out_state (context_switch (Some 0) 1 ?s)"
  have len: "length (proc_table ?s) = NPROC" using procs_invD(1) [OF boot_kernel_facts(1)] by simp
  have 1: "context_switch (Some 0) 1 ?s = Ret () ?t" by (simp add: context_switch_def Let_def)
  have "context_switch (Some 1) 0 ?t = Ret () (out_state (context_switch (Some 1) 0 ?t))"
    by (simp add: context_switch_def Let_def)
  from context_switch_roundtrip [OF 1 _ _ refl this]
  have "0 < length (proc_table ?s) \<Longrightarrow> cpu (out_state (context_switch (Some 1) 0 ?t)) = cpu ?s"
    by simp
  then have "cpu (out_state (context_switch (Some 1) 0 ?t)) = cpu ?s"
    unfolding len by (simp only: NPROC_def)
  moreover have "cpu ?t = zero_context"
    using boot_kernel_facts(11) [of 1] by (simp add: context_switch_def Let_def NPROC_def)
  ultimately show ?thesis by (simp add: Let_def zero_context_def)
qed

text \<open>What \<open>kernel_main\<close> does after boot. From the state that \<open>proc_init\<close> leaves, with one
  forked child and a zero-initialised table, the first activation of \<open>scheduler\<close> dispatches
  the init process onto itself; the second dispatches the child while init stays marked
  running, so two processes are running at once, and loads 0 into the return address and
  the stack pointer of the hart.\<close>

theorem boot_dispatches_child_to_zero:
  assumes "procs_inv s" "current_process s = Some 0" "live s = (\<lambda>i. i = 0)" "runnable s 0"
    and "sched_index s = 0" "\<forall>i < NPROC. ctx (proc_at s i) = zero_context"
    and "fork s = (r, s1)" "r \<noteq> - 1"
  shows "\<exists>t1 t2. scheduler NPROC s1 = Ret (Some 0) t1 \<and> cpu t1 = cpu s \<and>
    scheduler NPROC t1 = Ret (Some 1) t2 \<and>
    state (proc_at t2 0) = PROC_RUNNING \<and> state (proc_at t2 1) = PROC_RUNNING \<and>
    c_ra (cpu t2) = 0 \<and> c_sp (cpu t2) = 0"
proof -
  have "live s 0" using assms(3) by simp
  then obtain c where c: "forked 0 c s s1"
    using fork_spec [OF assms(1,2) _ assms(7)] assms(8) by (auto split: if_splits)
  have "c = 1"
  proof -
    have "c \<noteq> 0" "\<forall>j < c. j = 0" using c assms(3) by (auto simp: forked_def)
    then show ?thesis by (metis One_nat_def Suc_lessI not_gr_zero zero_less_one)
  qed
  note F = c [unfolded this forked_def]
  have s1: "procs_inv s1" "sched_index s1 = 0" "current_process s1 = Some 0" "proc_at s1 0 = proc_at s 0"
    "runnable s1 1" "ctx (proc_at s1 1) = zero_context"
    using F assms(2,5,6) by (auto simp: NPROC_def)
  note len = procs_invD(1) [OF s1(1)]
  let ?u = "s1\<lparr>sched_index := 1\<rparr>"
  have ix: "slot_in s1 0 = 0" "slot_in s1 1 = 1" by (simp_all add: slot_in_def s1(2) NPROC_def)
  have cu: "current_process ?u = Some 0" using s1(3) by simp
  obtain t1 where t1: "dispatch_to 0 ?u = Ret () t1" "current_process t1 = Some 0"
    "sched_index t1 = 1" "cpu t1 = ctx (proc_at t1 0)"
    "length (proc_table t1) = NPROC"
    using dispatch_spec [OF cu, of 0] len by auto
  have lu: "0 < length (proc_table ?u)" using len by (simp add: NPROC_def)
  note at1 = dispatch_at [OF cu lu lu t1(1)]
  have sch1: "scheduler NPROC s1 = Ret (Some 0) t1"
    using scheduler_some [of s1 0 NPROC] s1(2,4) assms(4) ix t1(1) by (simp add: NPROC_def)
  have cpu1: "cpu t1 = cpu s" using t1(4) at1(5) [of 0] F by simp
  let ?v = "t1\<lparr>sched_index := 2\<rparr>"
  have cv: "current_process ?v = Some 0" using t1(2) by simp
  obtain t2 where t2: "dispatch_to 1 ?v = Ret () t2" "cpu t2 = ctx (proc_at t2 1)"
    using dispatch_spec [OF cv, of 1] by auto
  have lv: "1 < length (proc_table ?v)" "0 < length (proc_table ?v)"
    using t1(5) by (simp_all add: NPROC_def)
  note at2 = dispatch_at [OF cv lv t2(1)]
  have ix1: "slot_in t1 0 = 1" "slot_in t1 (Suc 0) = 2" by (simp_all add: slot_in_def t1(3) NPROC_def)
  have "runnable t1 1" using at1(1) s1(5) by simp
  then have sch2: "scheduler NPROC t1 = Ret (Some 1) t2"
    using scheduler_some [of t1 0 NPROC] t1(3) ix1 t2(1) by (simp add: NPROC_def)
  have "cpu t2 = zero_context" using t2(2) at2(5) at1(5) s1(6) by simp
  then show ?thesis using sch1 cpu1 sch2 at2(1) at1(1) by (auto simp: zero_context_def)
qed

theorem boot_dispatches_child_to_zero_witness:
  "\<exists>t1 t2. scheduler NPROC (snd (fork boot_kernel)) = Ret (Some 0) t1 \<and>
     scheduler NPROC t1 = Ret (Some 1) t2 \<and> c_ra (cpu t2) = 0"
proof -
  have "fst (fork boot_kernel) \<noteq> - 1" using boot_fork(1) by simp
  then show ?thesis
    using boot_dispatches_child_to_zero [OF boot_kernel_facts(1,3,2,6,12) _ surjective_pairing]
      boot_kernel_facts(11) by blast
qed

end
