(* ===== verification/Numerals.thy ===== *)
theory Numerals
  imports Prelude
begin

text \<open>
  Numbers as strings of digits: the reference against which the conversion loops of
  \<open>console.c\<close>, \<open>printk.c\<close>, \<open>kpanic.c\<close> and \<open>ulibc.c\<close> are proved. \<open>digs b n\<close> are the digits of
  \<open>n\<close> in base \<open>b\<close>, the most significant first; \<open>digs_val\<close> reads them back.
\<close>

fun digs :: "nat \<Rightarrow> nat \<Rightarrow> nat list" where
  "digs b n = (if b < 2 \<or> n < b then [n] else digs b (n div b) @ [n mod b])"

declare digs.simps [simp del]

definition digs_val :: "nat \<Rightarrow> nat list \<Rightarrow> nat" where
  "digs_val b ds = foldl (\<lambda>a d. a * b + d) 0 ds"

lemma digs_small [simp]: "n < b \<Longrightarrow> digs b n = [n]"
  by (subst digs.simps) simp

lemma digs_step: "2 \<le> b \<Longrightarrow> b \<le> n \<Longrightarrow> digs b n = digs b (n div b) @ [n mod b]"
  by (subst digs.simps) simp

lemma digs_val_snoc [simp]: "digs_val b (ds @ [d]) = digs_val b ds * b + d"
  by (simp add: digs_val_def)

lemma digs_val_digs: "2 \<le> b \<Longrightarrow> digs_val b (digs b n) = n"
proof (induction b n rule: digs.induct)
  case (1 b n)
  show ?case
  proof (cases "n < b")
    case True
    then show ?thesis by (simp add: digs_val_def)
  next
    case False
    then show ?thesis using 1 by (simp add: digs_step)
  qed
qed

lemma digs_lt: "2 \<le> b \<Longrightarrow> d \<in> set (digs b n) \<Longrightarrow> d < b"
proof (induction b n rule: digs.induct)
  case (1 b n)
  then show ?case
    by (cases "n < b") (auto simp: digs_step)
qed

lemma digs_nonempty [simp]: "digs b n \<noteq> []"
  by (subst digs.simps) simp

lemma length_digs: "2 \<le> b \<Longrightarrow> n < b ^ k \<Longrightarrow> length (digs b n) \<le> max 1 k"
proof (induction k arbitrary: n)
  case 0
  then show ?case by simp
next
  case (Suc k)
  show ?case
  proof (cases "n < b")
    case False
    then have "n div b < b ^ k" using Suc.prems by (simp add: less_mult_imp_div_less mult.commute)
    moreover have "k \<noteq> 0" using False Suc.prems by (cases k) auto
    ultimately show ?thesis using Suc.IH [of "n div b"] Suc.prems False by (simp add: digs_step)
  qed simp
qed

lemma hd_digs: "2 \<le> b \<Longrightarrow> 0 < n \<Longrightarrow> hd (digs b n) \<noteq> 0"
proof (induction b n rule: digs.induct)
  case (1 b n)
  show ?case
  proof (cases "n < b")
    case False
    then have "0 < n div b" using 1 by (simp add: div_greater_zero_iff)
    then show ?thesis using 1 False by (simp add: digs_step)
  qed (use 1 in simp)
qed

subsection \<open>Digit characters\<close>

definition digit_char :: "nat \<Rightarrow> char" where
  "digit_char d = (if d < 10 then char_of (48 + d) else char_of (97 + d - 10))"

lemma digit_chars [simp]:
  "digit_char 0 = CHR ''0''" "digit_char (Suc 0) = CHR ''1''" "digit_char 2 = CHR ''2''"
  "digit_char 3 = CHR ''3''" "digit_char 4 = CHR ''4''" "digit_char 5 = CHR ''5''"
  "digit_char 6 = CHR ''6''" "digit_char 7 = CHR ''7''" "digit_char 8 = CHR ''8''"
  "digit_char 9 = CHR ''9''" "digit_char 10 = CHR ''a''" "digit_char 11 = CHR ''b''"
  "digit_char 12 = CHR ''c''" "digit_char 13 = CHR ''d''" "digit_char 14 = CHR ''e''"
  "digit_char 15 = CHR ''f''"
  by code_simp+

definition dec :: "nat \<Rightarrow> string" where "dec n = map digit_char (digs 10 n)"
definition hexa :: "nat \<Rightarrow> string" where "hexa n = map digit_char (digs 16 n)"

definition is_digit :: "char \<Rightarrow> bool" where
  "is_digit c \<longleftrightarrow> 48 \<le> (of_char c :: nat) \<and> (of_char c :: nat) \<le> 57"

definition digit_val :: "char \<Rightarrow> nat" where
  "digit_val c = (of_char c :: nat) - 48"

lemma digit_char_dec [simp]: "d < 10 \<Longrightarrow> is_digit (digit_char d)" "d < 10 \<Longrightarrow> digit_val (digit_char d) = d"
  by (simp_all add: is_digit_def digit_val_def digit_char_def take_bit_eq_mod)

lemma dec_digits: "c \<in> set (dec n) \<Longrightarrow> is_digit c"
  using digs_lt [of 10 _ n] by (auto simp: dec_def)

lemma dec_val: "digs_val 10 (map digit_val (dec n)) = n"
proof -
  have "map digit_val (dec n) = digs 10 n"
    using digs_lt [of 10 _ n] by (simp add: dec_def map_idI)
  then show ?thesis by (simp add: digs_val_digs)
qed

lemma dec_inj [simp]: "dec m = dec n \<longleftrightarrow> m = n"
  by (metis dec_val)

lemma dec_nonempty [simp]: "dec n \<noteq> []" "hexa n \<noteq> []"
  by (simp_all add: dec_def hexa_def)

lemma dec_0 [simp]: "dec 0 = ''0''" "hexa 0 = ''0''"
  by (simp_all add: dec_def hexa_def)

lemma dec_step: "10 \<le> n \<Longrightarrow> dec n = dec (n div 10) @ [digit_char (n mod 10)]"
  by (simp add: dec_def digs_step)

lemma hexa_step: "16 \<le> n \<Longrightarrow> hexa n = hexa (n div 16) @ [digit_char (n mod 16)]"
  by (simp add: hexa_def digs_step)

lemma dec_small: "n < 10 \<Longrightarrow> dec n = [digit_char n]" "n < 16 \<Longrightarrow> hexa n = [digit_char n]"
  by (simp_all add: dec_def hexa_def)

lemma length_dec: "n < 10 ^ k \<Longrightarrow> length (dec n) \<le> max 1 k"
  using length_digs [of 10 n k] by (simp add: dec_def)

lemma length_hexa: "n < 16 ^ k \<Longrightarrow> length (hexa n) \<le> max 1 k"
  using length_digs [of 16 n k] by (simp add: hexa_def)

text \<open>A digit string is not a minus sign, a terminator or a percent sign.\<close>

lemma is_digit_not: "is_digit c \<Longrightarrow> c \<noteq> CHR ''-'' \<and> c \<noteq> CHR 0x00 \<and> c \<noteq> CHR ''%''"
  by (auto simp: is_digit_def)

end
