(* ===== verification/Uart.thy ===== *)
theory Uart
  imports Prelude
begin

text \<open>
  \<open>kernel/io/uart.c\<close>: the polling driver of the serial port. The line status register is
  the device's: \<open>lsr\<close> gives the value of its successive reads. A wait that no later read
  ends is \<open>None\<close>. \<open>tx\<close> is what has been sent, \<open>rx\<close> what the device will deliver, one
  character per read of the receive register.
\<close>

unbundle bit_operations_syntax

definition UART_LSR_THRE :: u8 where "UART_LSR_THRE = push_bit 5 1"
definition UART_LSR_DR :: u8 where "UART_LSR_DR = push_bit 0 1"

record uart =
  lsr :: "nat \<Rightarrow> u8"
  clock :: nat
  tx :: string
  rx :: "nat \<Rightarrow> char"
  rx_count :: nat

text \<open>QEMU needs no configuration of the port.\<close>

definition uart_init :: "uart \<Rightarrow> uart" where
  "uart_init u = u"

definition ready_now :: "u8 \<Rightarrow> uart \<Rightarrow> bool" where
  "ready_now m u \<longleftrightarrow> lsr u (clock u) AND m \<noteq> 0"

definition tick :: "uart \<Rightarrow> uart" where
  "tick u = u\<lparr>clock := clock u + 1\<rparr>"

text \<open>\<open>while (!(LSR & m)) ;\<close> where each round reads the register once.\<close>

partial_function (option) uart_wait :: "u8 \<Rightarrow> uart \<Rightarrow> uart option" where
  "uart_wait m u = (if ready_now m u then Some (tick u) else uart_wait m (tick u))"

definition uart_putchar :: "char \<Rightarrow> uart \<Rightarrow> uart option" where
  "uart_putchar c u =
     (case uart_wait UART_LSR_THRE u of
        None \<Rightarrow> None
      | Some v \<Rightarrow> Some (v\<lparr>tx := tx v @ [c]\<rparr>))"

text \<open>\<open>uart_puts\<close> of the string \<open>s\<close> (without its terminator), and \<open>uart_write\<close> of bytes.\<close>

fun uart_puts :: "string \<Rightarrow> uart \<Rightarrow> uart option" where
  "uart_puts [] u = Some u"
| "uart_puts (c # s) u =
     (case uart_putchar c u of None \<Rightarrow> None | Some v \<Rightarrow> uart_puts s v)"

definition char_of_u8 :: "u8 \<Rightarrow> char" where
  "char_of_u8 b = char_of (unat b)"

definition uart_write :: "u8 list \<Rightarrow> int \<Rightarrow> uart \<Rightarrow> uart option" where
  "uart_write data len u = uart_puts (map char_of_u8 (take (nat len) data)) u"

definition uart_getchar :: "uart \<Rightarrow> (char \<times> uart) option" where
  "uart_getchar u =
     (case uart_wait UART_LSR_DR u of
        None \<Rightarrow> None
      | Some v \<Rightarrow> Some (rx v (rx_count v), v\<lparr>rx_count := rx_count v + 1\<rparr>))"

definition uart_available :: "uart \<Rightarrow> int \<times> uart" where
  "uart_available u = (if ready_now UART_LSR_DR u then 1 else 0, tick u)"

text \<open>\<open>uart_hexdump\<close>: the characters it sends for \<open>len\<close> bytes at address \<open>addr\<close>.\<close>

definition hex_upper :: "nat \<Rightarrow> char" where
  "hex_upper d = (if d < 10 then char_of (48 + d) else char_of (65 + d - 10))"

definition hex_address :: "u64 \<Rightarrow> string" where
  "hex_address a = map (\<lambda>j. hex_upper (unat (drop_bit j a AND 0xF))) (rev (map (\<lambda>k. 4 * k) [0..<16]))"

definition hexdump_cell :: "u64 \<Rightarrow> u8 list \<Rightarrow> nat \<Rightarrow> string" where
  "hexdump_cell addr data i =
     (if i mod 16 = 0
      then (if i > 0 then [CHR 0x0A] else []) @ ''0x'' @ hex_address (addr + of_nat i) @ '': ''
      else []) @
     [hex_upper (unat (drop_bit 4 (data ! i) AND 0xF)), hex_upper (unat (data ! i AND 0xF)), CHR '' '']"

definition uart_hexdump :: "u64 \<Rightarrow> u8 list \<Rightarrow> int \<Rightarrow> uart \<Rightarrow> uart option" where
  "uart_hexdump addr data len u =
     uart_puts (''HEXDUMP:'' @ [CHR 0x0A] @ concat (map (hexdump_cell addr data) [0..<nat len]) @
       [CHR 0x0A]) u"

subsection \<open>Waiting\<close>

definition ready_later :: "u8 \<Rightarrow> uart \<Rightarrow> bool" where
  "ready_later m u \<longleftrightarrow> (\<exists>n \<ge> clock u. lsr u n AND m \<noteq> 0)"

lemma tick_sel [simp]:
  "lsr (tick u) = lsr u" "tx (tick u) = tx u" "rx (tick u) = rx u" "rx_count (tick u) = rx_count u"
  "clock (tick u) = Suc (clock u)"
  by (simp_all add: tick_def)

lemma ready_later_tick: "\<not> ready_now m u \<Longrightarrow> ready_later m (tick u) \<longleftrightarrow> ready_later m u"
  unfolding ready_later_def ready_now_def tick_sel
  by (metis Suc_leD Suc_leI le_neq_implies_less)

lemma uart_wait_Some:
  "lsr u (clock u + k) AND m \<noteq> 0 \<Longrightarrow>
    \<exists>v. uart_wait m u = Some v \<and> clock u < clock v \<and> v\<lparr>clock := clock u\<rparr> = u"
proof (induction k arbitrary: u)
  case 0
  then have "uart_wait m u = Some (tick u)"
    by (subst uart_wait.simps) (simp add: ready_now_def)
  then show ?case by (simp add: tick_def)
next
  case (Suc k)
  show ?case
  proof (cases "ready_now m u")
    case True
    then have "uart_wait m u = Some (tick u)" by (subst uart_wait.simps) simp
    then show ?thesis by (simp add: tick_def)
  next
    case False
    then have "uart_wait m u = uart_wait m (tick u)" by (subst uart_wait.simps) simp
    moreover have "lsr (tick u) (clock (tick u) + k) AND m \<noteq> 0" using Suc.prems by simp
    from Suc.IH [OF this] obtain v where v: "uart_wait m (tick u) = Some v"
      "clock (tick u) < clock v" "v\<lparr>clock := clock (tick u)\<rparr> = tick u" by blast
    moreover have "v\<lparr>clock := clock u\<rparr> = u"
    proof -
      have "v\<lparr>clock := clock u\<rparr> = (v\<lparr>clock := clock (tick u)\<rparr>)\<lparr>clock := clock u\<rparr>" by simp
      also have "\<dots> = u" unfolding v(3) by (simp add: tick_def)
      finally show ?thesis .
    qed
    ultimately show ?thesis by (intro exI [of _ v]) simp
  qed
qed

lemma uart_wait_ready:
  assumes "uart_wait m u = Some v"
  shows "ready_later m u"
proof (rule uart_wait.raw_induct [where P = "\<lambda>m u v. ready_later m u", OF _ assms])
  fix w m u v
  assume ih: "\<And>m u v. w m u = Some v \<Longrightarrow> ready_later m u"
    and step: "(if ready_now m u then Some (tick u) else w m (tick u)) = Some v"
  show "ready_later m u"
  proof (cases "ready_now m u")
    case True
    then show ?thesis
      unfolding ready_later_def ready_now_def by (intro exI [of _ "clock u"]) simp
  next
    case False
    then have "ready_later m (tick u)" using ih step by simp
    then show ?thesis using ready_later_tick [OF False] by simp
  qed
qed

lemma uart_wait_iff:
  "ready_later m u \<Longrightarrow> \<exists>v. uart_wait m u = Some v \<and> clock u < clock v \<and> v\<lparr>clock := clock u\<rparr> = u"
  using uart_wait_Some by (metis le_Suc_ex ready_later_def)

text \<open>A transmitter that never stays busy for ever.\<close>

definition live_tx :: "uart \<Rightarrow> bool" where
  "live_tx u \<longleftrightarrow> (\<forall>n. \<exists>m \<ge> n. lsr u m AND UART_LSR_THRE \<noteq> 0)"

lemma uart_putchar_live:
  assumes "live_tx u"
  shows "\<exists>v. uart_putchar c u = Some v \<and> tx v = tx u @ [c] \<and> live_tx v \<and> lsr v = lsr u"
proof -
  have "ready_later UART_LSR_THRE u" using assms by (simp add: live_tx_def ready_later_def)
  then obtain v where v: "uart_wait UART_LSR_THRE u = Some v" "v\<lparr>clock := clock u\<rparr> = u"
    using uart_wait_iff by blast
  have "lsr v = lsr (v\<lparr>clock := clock u\<rparr>)" "tx v = tx (v\<lparr>clock := clock u\<rparr>)" by simp_all
  then have "lsr v = lsr u" "tx v = tx u" unfolding v(2) .
  then show ?thesis using v(1) assms by (simp add: uart_putchar_def live_tx_def)
qed

lemma uart_puts_live:
  "live_tx u \<Longrightarrow> \<exists>v. uart_puts s u = Some v \<and> tx v = tx u @ s \<and> live_tx v \<and> lsr v = lsr u"
proof (induction s arbitrary: u)
  case (Cons c s)
  obtain v where v: "uart_putchar c u = Some v" "tx v = tx u @ [c]" "live_tx v" "lsr v = lsr u"
    using uart_putchar_live [OF Cons.prems] by blast
  show ?case using Cons.IH [OF v(3)] v by auto
qed simp

subsection \<open>Properties\<close>

text \<open>C25: \<open>uart_putchar\<close> returns exactly when the transmitter is ever ready again, and \<open>uart_puts\<close>
  on a transmitter that always becomes ready sends exactly its characters, in order.\<close>

theorem uart_output:
  "(uart_putchar c u \<noteq> None \<longleftrightarrow> ready_later UART_LSR_THRE u) \<and>
   (live_tx u \<longrightarrow> (\<exists>v. uart_puts s u = Some v \<and> tx v = tx u @ s))"
proof -
  have "uart_putchar c u \<noteq> None \<longleftrightarrow> ready_later UART_LSR_THRE u"
    using uart_wait_ready [of UART_LSR_THRE u] uart_wait_iff [of UART_LSR_THRE u]
    by (cases "uart_wait UART_LSR_THRE u") (auto simp: uart_putchar_def)
  then show ?thesis using uart_puts_live by blast
qed

text \<open>A transmitter that is ready at every third read.\<close>

definition slow_uart :: uart where
  "slow_uart = \<lparr>lsr = (\<lambda>n. if n mod 3 = 0 then 0x60 else 0), clock = 1, tx = [], rx = (\<lambda>_. CHR ''x''),
     rx_count = 0\<rparr>"

lemma slow_uart_live: "live_tx slow_uart"
proof -
  have "\<exists>m \<ge> n. (if m mod 3 = 0 then 0x60 else 0 :: u8) AND UART_LSR_THRE \<noteq> 0" for n :: nat
    by (intro exI [of _ "3 * n"]) (simp add: UART_LSR_THRE_def)
  then show ?thesis by (simp add: live_tx_def slow_uart_def)
qed

theorem uart_output_witness: "\<exists>v. uart_puts ''ok'' slow_uart = Some v \<and> tx v = ''ok''"
  using uart_output [of undefined slow_uart "''ok''"] slow_uart_live
  by (simp add: slow_uart_def)

end
