(* ===== verification/Console.thy ===== *)
theory Console
  imports Numerals Uart
begin

text \<open>
  \<open>kernel/io/console.c\<close>: the characters that \<open>printf\<close> and its conversions send to the
  serial port. A conversion is the string it sends; \<open>None\<close> is behaviour that C leaves
  undefined (negating the least \<open>int\<close>, an argument of another type, reading the format
  behind its terminator). A format is its characters without the terminator.
\<close>

unbundle bit_operations_syntax

subsection \<open>Conversions\<close>

text \<open>\<open>do { buffer[i++] = '0' + n % 10; n /= 10; } while (n > 0);\<close> fills the buffer from the
  least digit; the buffer is then sent backwards.\<close>

function int_buffer :: "int \<Rightarrow> string" where
  "int_buffer n = char_of (48 + nat (c_mod n 10)) # (if c_div n 10 > 0 then int_buffer (c_div n 10) else [])"
  by auto
termination
  by (relation "measure nat") (auto simp: c_div_def sgn_if split: if_splits)

declare int_buffer.simps [simp del]

definition print_int :: "int \<Rightarrow> string option" where
  "print_int n =
     (if n = int_min then None
      else
        let is_negative = n < 0;
            buffer = int_buffer (if is_negative then - n else n)
        in Some (rev (buffer @ (if is_negative then ''-'' else []))))"

text \<open>\<open>while (n > 0) { buffer[i++] = '0' + n % 10; n /= 10; }\<close>\<close>

function u64_buffer :: "u64 \<Rightarrow> string" where
  "u64_buffer n = (if n > 0 then char_of (48 + unat (n mod 10)) # u64_buffer (n div 10) else [])"
  by auto
termination
  by (relation "measure unat") (auto simp: unat_div word_less_nat_alt unat_gt_0)

declare u64_buffer.simps [simp del]

definition print_uint64 :: "u64 \<Rightarrow> string" where
  "print_uint64 n = (if n = 0 then ''0'' else rev (u64_buffer n))"

text \<open>\<open>n\<close> is the 64-bit pattern of the signed argument; \<open>-n\<close> is undefined at the least value.\<close>

definition print_int64 :: "u64 \<Rightarrow> string option" where
  "print_int64 n =
     (if n = 0x8000000000000000 then None
      else
        let is_negative = sint n < 0;
            val = (if is_negative then - n else n)
        in Some (if val = 0 then (if is_negative then ''-'' else []) @ ''0''
                 else rev (u64_buffer val @ (if is_negative then ''-'' else []))))"

function hex_buffer :: "u64 \<Rightarrow> string" where
  "hex_buffer n =
     ''0123456789abcdef'' ! unat (n AND 0xF) #
     (if drop_bit 4 n > 0 then hex_buffer (drop_bit 4 n) else [])"
  by auto
termination
  by (relation "measure unat") (auto simp: drop_bit_eq_div unat_div word_less_nat_alt unat_gt_0)

declare hex_buffer.simps [simp del]

definition print_hex :: "u64 \<Rightarrow> string" where
  "print_hex n = ''0x'' @ rev (hex_buffer n)"

subsection \<open>printf\<close>

datatype arg = AInt int | ALong u64 | AStr string | APtr u64

definition cons_out :: "string \<Rightarrow> string option \<Rightarrow> string option" where
  "cons_out s r = (case r of None \<Rightarrow> None | Some t \<Rightarrow> Some (s @ t))"

text \<open>
  \<open>va_arg\<close> of each type; a pointer and a 64-bit integer are passed alike. An \<open>uint32\<close>
  or \<open>int\<close> passed where 64 bits are read is undefined.
\<close>

fun arg_u64 :: "arg list \<Rightarrow> (u64 \<times> arg list) option" where
  "arg_u64 (ALong x # as) = Some (x, as)"
| "arg_u64 (APtr x # as) = Some (x, as)"
| "arg_u64 as = None"

fun arg_int :: "arg list \<Rightarrow> (int \<times> arg list) option" where
  "arg_int (AInt n # as) = Some (n, as)"
| "arg_int as = None"

fun arg_str :: "arg list \<Rightarrow> (string \<times> arg list) option" where
  "arg_str (AStr s # as) = Some (s, as)"
| "arg_str as = None"

text \<open>The conversion characters behind a percent sign, with the printing they select.\<close>

fun printf :: "string \<Rightarrow> arg list \<Rightarrow> string option" where
  "printf [] as = Some []"
| "printf (c # p) as =
     (if c \<noteq> CHR ''%'' then cons_out [c] (printf p as)
      else case p of
        [] \<Rightarrow> None
      | d # q \<Rightarrow>
          if d = CHR ''s'' then
            (case arg_str as of None \<Rightarrow> None | Some (s, bs) \<Rightarrow> cons_out s (printf q bs))
          else if d = CHR ''d'' then
            (case arg_int as of None \<Rightarrow> None
             | Some (n, bs) \<Rightarrow> (case print_int n of None \<Rightarrow> None | Some s \<Rightarrow> cons_out s (printf q bs)))
          else if d = CHR ''u'' then
            (case arg_u64 as of None \<Rightarrow> None | Some (x, bs) \<Rightarrow> cons_out (print_uint64 x) (printf q bs))
          else if d = CHR ''x'' \<or> d = CHR ''p'' then
            (case arg_u64 as of None \<Rightarrow> None | Some (x, bs) \<Rightarrow> cons_out (print_hex x) (printf q bs))
          else if d = CHR ''l'' then
            (case q of
               [] \<Rightarrow> None
             | e # r \<Rightarrow>
                 if e = CHR ''d'' then
                   (case arg_u64 as of None \<Rightarrow> None
                    | Some (x, bs) \<Rightarrow>
                        (case print_int64 x of None \<Rightarrow> None | Some s \<Rightarrow> cons_out s (printf r bs)))
                 else if e = CHR ''u'' then
                   (case arg_u64 as of None \<Rightarrow> None
                    | Some (x, bs) \<Rightarrow> cons_out (print_uint64 x) (printf r bs))
                 else if e = CHR ''x'' then
                   (case arg_u64 as of None \<Rightarrow> None
                    | Some (x, bs) \<Rightarrow> cons_out (print_hex x) (printf r bs))
                 else cons_out [CHR ''%'', CHR ''l'', e] (printf r as))
          else if d = CHR ''z'' then
            (case q of
               [] \<Rightarrow> None
             | e # r \<Rightarrow>
                 if e = CHR ''u'' then
                   (case arg_u64 as of None \<Rightarrow> None
                    | Some (x, bs) \<Rightarrow> cons_out (print_uint64 x) (printf r bs))
                 else cons_out [CHR ''%'', CHR ''z'', e] (printf r as))
          else if d = CHR ''%'' then cons_out ''%'' (printf q as)
          else cons_out [CHR ''%'', d] (printf q as))"

text \<open>The call on the device: the characters through \<open>uart_putchar\<close>, one by one.\<close>

definition print_string :: "string \<Rightarrow> uart \<Rightarrow> uart option" where
  "print_string s u = uart_puts s u"

definition console_putchar :: "char \<Rightarrow> uart \<Rightarrow> uart option" where
  "console_putchar c u = uart_putchar c u"

definition console_printf :: "string \<Rightarrow> arg list \<Rightarrow> uart \<Rightarrow> uart option" where
  "console_printf fmt as u = (case printf fmt as of None \<Rightarrow> None | Some s \<Rightarrow> uart_puts s u)"

subsection \<open>The conversions print the number\<close>

lemma char_of_digit: "d < 10 \<Longrightarrow> char_of (48 + d) = digit_char d"
  by (simp add: digit_char_def)

lemma int_buffer_dec: "0 \<le> n \<Longrightarrow> rev (int_buffer n) = dec (nat n)"
proof (induction n rule: int_buffer.induct)
  case (1 n)
  have d: "char_of (48 + nat (n mod 10)) = digit_char (nat n mod 10)"
    using "1.prems" by (simp add: char_of_digit nat_mod_distrib)
  show ?case
  proof (cases "n < 10")
    case True
    then show ?thesis
      using "1.prems" d by (subst int_buffer.simps) (simp add: dec_small nat_mod_distrib)
  next
    case False
    then have "rev (int_buffer (n div 10)) = dec (nat (n div 10))" using 1 by simp
    then show ?thesis
      using "1.prems" False d
      by (subst int_buffer.simps) (simp add: dec_step nat_div_distrib)
  qed
qed

lemma u64_buffer_dec: "0 < n \<Longrightarrow> rev (u64_buffer n) = dec (unat n)"
proof (induction n rule: u64_buffer.induct)
  case (1 n)
  have d: "char_of (48 + unat (n mod 10)) = digit_char (unat n mod 10)"
    by (simp add: char_of_digit unat_mod)
  have q: "unat (n div 10) = unat n div 10" by (simp add: unat_div)
  show ?case
  proof (cases "unat n < 10")
    case True
    then have "n div 10 = 0" using q by (simp add: unat_eq_zero [symmetric] del: unat_eq_zero)
    then have "u64_buffer (n div 10) = []" by (subst u64_buffer.simps) simp
    then show ?thesis using "1.prems" True d by (subst u64_buffer.simps) (simp add: dec_small)
  next
    case False
    then have "0 < n div 10" using q by (simp add: word_less_nat_alt)
    then have "rev (u64_buffer (n div 10)) = dec (unat n div 10)" using 1 q by simp
    then show ?thesis using "1.prems" False d by (subst u64_buffer.simps) (simp add: dec_step)
  qed
qed

lemma hex_buffer_hexa: "rev (hex_buffer n) = hexa (unat n)"
proof (induction n rule: hex_buffer.induct)
  case (1 n)
  have m: "unat (n AND 0xF) = unat n mod 16"
  proof -
    have "n AND 0xF = take_bit 4 n" by (simp add: take_bit_eq_mask mask_eq_exp_minus_1)
    then show ?thesis by (simp add: unsigned_take_bit_eq take_bit_eq_mod unat_mod)
  qed
  have "map digit_char [0..<16] = ''0123456789abcdef''" by code_simp
  then have "''0123456789abcdef'' ! d = digit_char d" if "d < 16" for d :: nat
    using that by (metis add_0 length_upt nth_map nth_upt diff_zero)
  then have d: "''0123456789abcdef'' ! unat (n AND 0xF) = digit_char (unat n mod 16)"
    by (simp add: m)
  have q: "unat (drop_bit 4 n) = unat n div 16" by (simp add: drop_bit_eq_div unat_div)
  show ?case
  proof (cases "unat n < 16")
    case True
    then have "\<not> drop_bit 4 n > 0" using q by (simp add: word_less_nat_alt)
    then show ?thesis using True d by (subst hex_buffer.simps) (simp add: dec_small)
  next
    case False
    then have "drop_bit 4 n > 0" using q by (simp add: word_less_nat_alt)
    then have "rev (hex_buffer (drop_bit 4 n)) = hexa (unat n div 16)" using 1 q by simp
    then show ?thesis using False d \<open>drop_bit 4 n > 0\<close>
      by (subst hex_buffer.simps) (simp add: hexa_step)
  qed
qed

text \<open>The reference: a signed number in decimal.\<close>

definition decimal :: "int \<Rightarrow> string" where
  "decimal n = (if n < 0 then ''-'' else []) @ dec (nat \<bar>n\<bar>)"

lemma print_int_eq: "is_int n \<Longrightarrow> print_int n = (if n = int_min then None else Some (decimal n))"
  using int_buffer_dec [of n] int_buffer_dec [of "- n"]
  by (simp add: print_int_def Let_def decimal_def)

lemma print_uint64_eq: "print_uint64 n = dec (unat n)"
  using u64_buffer_dec [of n] by (simp add: print_uint64_def word_gt_0)

lemma print_hex_eq: "print_hex n = ''0x'' @ hexa (unat n)"
  by (simp add: print_hex_def hex_buffer_hexa)

lemma sint_cases:
  fixes n :: u64
  shows "uint n < 2 ^ 63 \<Longrightarrow> sint n = uint n" "2 ^ 63 \<le> uint n \<Longrightarrow> sint n = uint n - 2 ^ 64"
proof -
  have s: "sint n = (uint n + 2 ^ 63) mod 2 ^ 64 - 2 ^ 63"
    using int_word_sint [of "uint n", where 'a = 64] by simp
  have b: "0 \<le> uint n" "uint n < 2 ^ 64" using uint_bounded [of n] by simp_all
  show "uint n < 2 ^ 63 \<Longrightarrow> sint n = uint n" using b by (simp add: s)
  assume h: "2 ^ 63 \<le> uint n"
  have "uint n + 2 ^ 63 = (uint n - 2 ^ 63) + 2 ^ 64" by simp
  then have "(uint n + 2 ^ 63) mod 2 ^ 64 = (uint n - 2 ^ 63) mod 2 ^ 64"
    by (metis mod_add_self2)
  also have "\<dots> = uint n - 2 ^ 63" using h b by (intro mod_pos_pos_trivial) simp_all
  finally show "sint n = uint n - 2 ^ 64" by (simp add: s)
qed

lemma print_int64_eq:
  "print_int64 n = (if sint n = - (2 ^ 63) then None else Some (decimal (sint n)))"
proof -
  have b: "0 \<le> uint n" "uint n < 2 ^ 64" using uint_bounded [of n] by simp_all
  have least: "n = 0x8000000000000000 \<longleftrightarrow> sint n = - (2 ^ 63)"
  proof -
    have "sint (0x8000000000000000 :: u64) = - (2 ^ 63)" by simp
    then show ?thesis by (metis signed_word_eqI)
  qed
  show ?thesis
  proof (cases "uint n < 2 ^ 63")
    case True
    then have s: "sint n = uint n" by (rule sint_cases)
    have n: "n \<noteq> 0x8000000000000000" "sint n \<noteq> - (2 ^ 63)" "\<not> sint n < 0"
      using s b least by auto
    then have p: "print_int64 n = Some (if n = 0 then ''0'' else rev (u64_buffer n))"
      by (simp add: print_int64_def Let_def)
    show ?thesis
    proof (cases "n = 0")
      case False
      then have "rev (u64_buffer n) = dec (unat n)" by (intro u64_buffer_dec) (simp add: word_gt_0)
      moreover have "nat \<bar>sint n\<bar> = unat n" using s b by simp
      ultimately show ?thesis using p n False by (simp add: decimal_def)
    qed (use p n in \<open>simp add: decimal_def\<close>)
  next
    case False
    then have s: "sint n = uint n - 2 ^ 64" by (simp add: sint_cases)
    have neg: "uint (- n) = 2 ^ 64 - uint n"
      using False b by (simp add: uint_word_ariths zmod_zminus1_eq_if)
    have "- n \<noteq> 0" using False by auto
    then have buf: "rev (u64_buffer (- n)) = dec (unat (- n))"
      by (intro u64_buffer_dec) (simp add: word_gt_0)
    have "sint n < 0" using s b by simp
    have p: "print_int64 n = Some (''-'' @ rev (u64_buffer (- n)))" if "n \<noteq> 0x8000000000000000"
      unfolding print_int64_def Let_def using that \<open>- n \<noteq> 0\<close> \<open>sint n < 0\<close>
      by (simp only: if_True if_False rev_append rev.simps append.simps not_True_eq_False)
    have d: "decimal (sint n) = ''-'' @ rev (u64_buffer (- n))"
    proof -
      have "unat (- n) = nat (uint (- n))" by (rule unat_eq_nat_uint)
      also have "\<dots> = nat \<bar>sint n\<bar>" unfolding neg s using b by simp
      finally show ?thesis unfolding buf decimal_def using \<open>sint n < 0\<close> by simp
    qed
    show ?thesis
    proof (cases "n = 0x8000000000000000")
      case True
      then show ?thesis using least by (simp add: print_int64_def)
    next
      case False
      then have "sint n \<noteq> - (2 ^ 63)" using least by simp
      then show ?thesis using p [OF False] d by (simp only: if_False)
    qed
  qed
qed


lemma u64_buffer_0 [simp]: "u64_buffer 0 = []"
  by (subst u64_buffer.simps) simp

lemma buffer_bounds:
  "0 \<le> n \<Longrightarrow> n \<le> int_max \<Longrightarrow> length (int_buffer n) \<le> 10"
  "length (u64_buffer x) \<le> 20" "length (hex_buffer x) \<le> 16"
proof -
  show "length (int_buffer n) \<le> 10" if "0 \<le> n" "n \<le> int_max"
  proof -
    have "length (int_buffer n) = length (dec (nat n))"
      using int_buffer_dec [OF that(1)] by (metis length_rev)
    then show ?thesis using length_dec [of "nat n" 10] that by simp
  qed
  show "length (u64_buffer x) \<le> 20"
  proof (cases "x = 0")
    case False
    then have "length (u64_buffer x) = length (dec (unat x))"
      using u64_buffer_dec [of x] by (metis length_rev word_gt_0)
    moreover have "unat x < 2 ^ 64" using unsigned_less [of x] by simp
    then have "unat x < 10 ^ 20" by simp
    ultimately show ?thesis using length_dec [of "unat x" 20] by simp
  qed simp
  have "length (hex_buffer x) = length (hexa (unat x))"
    using hex_buffer_hexa [of x] by (metis length_rev)
  moreover have "unat x < 2 ^ 64" using unsigned_less [of x] by simp
  then have "unat x < 16 ^ 16" by simp
  ultimately show "length (hex_buffer x) \<le> 16" using length_hexa [of "unat x" 16] by simp
qed

subsection \<open>Formats as sequences of pieces\<close>

datatype piece =
    Lit char
  | Str string
  | Dec int
  | U64 string u64
  | Hex string u64
  | Long u64
  | Percent

definition u_forms :: "string set" where "u_forms = {''u'', ''lu'', ''zu''}"
definition x_forms :: "string set" where "x_forms = {''x'', ''p'', ''lx''}"

fun piece_ok :: "piece \<Rightarrow> bool" where
  "piece_ok (Lit c) = (c \<noteq> CHR ''%'')"
| "piece_ok (U64 f x) = (f \<in> u_forms)"
| "piece_ok (Hex f x) = (f \<in> x_forms)"
| "piece_ok p = True"

fun piece_fmt :: "piece \<Rightarrow> string" where
  "piece_fmt (Lit c) = [c]"
| "piece_fmt (Str s) = ''%s''"
| "piece_fmt (Dec n) = ''%d''"
| "piece_fmt (U64 f x) = ''%'' @ f"
| "piece_fmt (Hex f x) = ''%'' @ f"
| "piece_fmt (Long x) = ''%ld''"
| "piece_fmt Percent = ''%%''"

fun piece_args :: "piece \<Rightarrow> arg list" where
  "piece_args (Str s) = [AStr s]"
| "piece_args (Dec n) = [AInt n]"
| "piece_args (U64 f x) = [ALong x]"
| "piece_args (Hex f x) = [ALong x]"
| "piece_args (Long x) = [ALong x]"
| "piece_args p = []"

fun piece_out :: "piece \<Rightarrow> string option" where
  "piece_out (Lit c) = Some [c]"
| "piece_out (Str s) = Some s"
| "piece_out (Dec n) = (if n = int_min then None else Some (decimal n))"
| "piece_out (U64 f x) = Some (dec (unat x))"
| "piece_out (Hex f x) = Some (''0x'' @ hexa (unat x))"
| "piece_out (Long x) = (if sint x = - (2 ^ 63) then None else Some (decimal (sint x)))"
| "piece_out Percent = Some ''%''"

fun pieces_out :: "piece list \<Rightarrow> string option" where
  "pieces_out [] = Some []"
| "pieces_out (p # ps) =
     (case piece_out p of None \<Rightarrow> None | Some s \<Rightarrow> cons_out s (pieces_out ps))"

definition ints_ok :: "piece list \<Rightarrow> bool" where
  "ints_ok ps \<longleftrightarrow> (\<forall>n. Dec n \<in> set ps \<longrightarrow> is_int n)"

lemma printf_piece:
  assumes "piece_ok p" "\<And>n. p = Dec n \<Longrightarrow> is_int n"
  shows "printf (piece_fmt p @ rest) (piece_args p @ as) =
    (case piece_out p of None \<Rightarrow> None | Some s \<Rightarrow> cons_out s (printf rest as))"
proof (cases p)
  case (Dec n)
  then show ?thesis using assms(2) by (simp add: print_int_eq)
next
  case (U64 f x)
  then have "f = ''u'' \<or> f = ''lu'' \<or> f = ''zu''" using assms(1) by (simp add: u_forms_def)
  then show ?thesis using U64 by (auto simp: print_uint64_eq)
next
  case (Hex f x)
  then have "f = ''x'' \<or> f = ''p'' \<or> f = ''lx''" using assms(1) by (simp add: x_forms_def)
  then show ?thesis using Hex by (auto simp: print_hex_eq)
next
  case (Long x)
  then show ?thesis by (simp add: print_int64_eq)
qed (use assms in simp_all)

lemma printf_pieces:
  assumes "\<forall>p \<in> set ps. piece_ok p" "ints_ok ps"
  shows "printf (concat (map piece_fmt ps) @ rest) (concat (map piece_args ps) @ as) =
    (case pieces_out ps of None \<Rightarrow> None | Some s \<Rightarrow> cons_out s (printf rest as))"
  using assms
proof (induction ps)
  case Nil
  then show ?case by (simp add: cons_out_def split: option.split)
next
  case (Cons p ps)
  have "ints_ok ps" "\<And>n. p = Dec n \<Longrightarrow> is_int n" using Cons.prems(2) by (auto simp: ints_ok_def)
  with Cons show ?case by (simp add: printf_piece cons_out_def split: option.split)
qed

subsection \<open>Properties\<close>

text \<open>The conversions of the console print the number they are given, in decimal with a sign
  or in hexadecimal behind 0x, with no digit lost and no leading zero, and none of them
  overruns its buffer of 16 or 32 characters. The least \<open>int\<close> and the least 64-bit number
  have no defined output.\<close>

theorem console_conversions:
  assumes "is_int n"
  shows "print_int n = (if n = int_min then None else Some (decimal n)) \<and>
    print_uint64 x = dec (unat x) \<and> print_hex x = ''0x'' @ hexa (unat x) \<and>
    print_int64 x = (if sint x = - (2 ^ 63) then None else Some (decimal (sint x))) \<and>
    (n \<noteq> int_min \<longrightarrow> length (int_buffer \<bar>n\<bar>) + 1 \<le> 16) \<and> length (u64_buffer x) + 1 \<le> 32 \<and>
    length (hex_buffer x) \<le> 16"
  using assms print_int_eq [of n] print_uint64_eq [of x] print_hex_eq [of x] print_int64_eq [of x]
    buffer_bounds(1) [of "\<bar>n\<bar>"] buffer_bounds(2,3) [of x]
  by (cases "n = int_min") (auto simp: is_int_def abs_if split: if_splits)

theorem console_conversions_witness:
  "print_int (- 120) = Some ''-120'' \<and> print_hex 0xBEEF = ''0xbeef''"
proof -
  have "decimal (- 120) = ''-120''" "hexa 0xBEEF = ''beef''"
    by (simp_all add: decimal_def dec_step dec_small hexa_step)
  then show ?thesis using console_conversions [of "- 120" "0xBEEF"] by (simp add: is_int_def)
qed

text \<open>C26: \<open>printf\<close> renders its format piece by piece. For every format made of literal
  characters and the conversions %s, %d, %u, %lu, %zu, %x, %p, %lx, %ld and %%, with
  matching arguments, the output is the concatenation of what each piece prints; a format
  that ends in a single percent sign is read behind its terminator.\<close>

theorem printf_pieces_correct:
  assumes "\<forall>p \<in> set ps. piece_ok p" "ints_ok ps"
  shows "printf (concat (map piece_fmt ps)) (concat (map piece_args ps)) = pieces_out ps \<and>
    printf (concat (map piece_fmt ps) @ ''%'') (concat (map piece_args ps)) = None"
  using printf_pieces [OF assms, of "[]" "[]"] printf_pieces [OF assms, of "''%''" "[]"]
  by (simp add: cons_out_def split: option.splits)

theorem printf_pieces_correct_witness:
  "printf ''pid=%d name=%s!'' [AInt 42, AStr ''init''] = Some ''pid=42 name=init!'' \<and>
   printf ''%d%'' [AInt 42] = None"
proof -
  let ?ps = "map Lit ''pid='' @ [Dec 42] @ map Lit '' name='' @ [Str ''init'', Lit CHR ''!'']"
  have d: "decimal 42 = ''42''" by (simp add: decimal_def dec_step dec_small)
  have "printf (concat (map piece_fmt ?ps)) (concat (map piece_args ?ps)) = pieces_out ?ps"
    using printf_pieces_correct [of ?ps] by (simp add: ints_ok_def is_int_def)
  moreover have "printf (concat (map piece_fmt [Dec 42]) @ ''%'') (concat (map piece_args [Dec 42])) = None"
    using printf_pieces_correct [of "[Dec 42]"] by (simp add: ints_ok_def is_int_def)
  ultimately show ?thesis by (simp add: d cons_out_def)
qed

end
