(* ===== verification/Printk.thy ===== *)
theory Printk
  imports Console
begin

text \<open>
  \<open>kernel/io/printk.c\<close>, \<open>kpanic.c\<close> and the macros of \<open>debug.h\<close>: the second formatter, with
  field width, padding and a count of the characters printed, and the panic message. As in
  \<open>Console\<close> a conversion is the string it sends, and \<open>None\<close> is undefined behaviour.
\<close>

subsection \<open>Digits\<close>

lemma c_div_less:
  assumes "0 < c_div m b" "2 \<le> b"
  shows "nat \<bar>c_div m b\<bar> < nat \<bar>m\<bar>"
proof -
  have "m \<noteq> 0" using assms(1) by (auto simp: c_div_def)
  then have "\<bar>m\<bar> div b < \<bar>m\<bar>" using assms(2) by (intro int_div_less_self) simp_all
  moreover have "\<bar>c_div m b\<bar> = \<bar>m\<bar> div b"
    using \<open>m \<noteq> 0\<close> assms(2) by (simp add: c_div_def abs_mult sgn_if pos_imp_zdiv_nonneg_iff)
  ultimately show ?thesis by simp
qed

text \<open>The recursion passes width 0: only a number that is 0 is padded. The callers pass base
  10 or 16.\<close>

function printk_write_int :: "int \<Rightarrow> nat \<Rightarrow> int \<Rightarrow> char \<Rightarrow> string" where
  "printk_write_int n base width pad =
     (if n = 0 then (if width > 0 then replicate (nat width - 1) pad else []) @ ''0''
      else
        let sign = (if n < 0 \<and> base = 10 then ''-'' else []);
            m = (if n < 0 \<and> base = 10 then - n else n)
        in sign @
           (if c_div m (int base) > 0 \<and> 2 \<le> base
            then printk_write_int (c_div m (int base)) base 0 CHR '' '' else []) @
           [digit_char (nat (c_mod m (int base)))])"
  by auto
termination
proof (relation "measure (\<lambda>(n, base, w, p). nat \<bar>n\<bar>)", goal_cases)
  case (2 n base width pad x y)
  then have "nat \<bar>c_div y (int base)\<bar> < nat \<bar>y\<bar>" by (intro c_div_less) auto
  moreover have "\<bar>y\<bar> = \<bar>n\<bar>" using 2 by auto
  ultimately show ?case by simp
qed simp

declare printk_write_int.simps [simp del]

function printk_write_uint :: "u32 \<Rightarrow> nat \<Rightarrow> int \<Rightarrow> char \<Rightarrow> string" where
  "printk_write_uint n base width pad =
     (if n = 0 then (if width > 0 then replicate (nat width - 1) pad else []) @ ''0''
      else
        (if unat n div base > 0 \<and> 2 \<le> base
         then printk_write_uint (of_nat (unat n div base)) base 0 CHR '' '' else []) @
        [digit_char (unat n mod base)])"
  by auto
termination
proof (relation "measure (\<lambda>(n, base, w, p). unat n)", goal_cases)
  case 1
  then show ?case by simp
next
  case (2 n base width pad)
  then have "0 < unat n" by (simp add: unat_gt_0)
  then have "unat n div base < unat n" using 2 by (intro div_less_dividend) simp_all
  moreover have "unat n < 2 ^ 32" using unsigned_less [of n] by simp
  ultimately show ?case by (simp add: unsigned_of_nat take_bit_nat_eq_self)
qed

declare printk_write_uint.simps [simp del]

lemma write_int_dec: "0 < n \<Longrightarrow> printk_write_int n 10 w pad = dec (nat n)"
proof (induction n "10 :: nat" w pad rule: printk_write_int.induct)
  case (1 n w pad)
  show ?case
  proof (cases "n < 10")
    case True
    then show ?thesis using "1.prems" by (subst printk_write_int.simps) (simp add: dec_small)
  next
    case False
    then have "printk_write_int (n div 10) 10 0 CHR '' '' = dec (nat (n div 10))"
      using "1.prems" "1.hyps" by simp
    then show ?thesis using "1.prems" False
      by (subst printk_write_int.simps)
        (simp add: dec_step nat_div_distrib nat_mod_distrib)
  qed
qed

lemma write_uint_digs:
  "2 \<le> base \<Longrightarrow> n \<noteq> 0 \<Longrightarrow> printk_write_uint n base w pad = map digit_char (digs base (unat n))"
proof (induction n base w pad rule: printk_write_uint.induct)
  case (1 n base w pad)
  show ?case
  proof (cases "unat n < base")
    case True
    then show ?thesis using "1.prems" by (subst printk_write_uint.simps) simp
  next
    case False
    have "unat n < 2 ^ 32" using unsigned_less [of n] by simp
    then have lt: "unat n div base < 2 ^ 32"
      using div_le_dividend le_less_trans by blast
    let ?q = "of_nat (unat n div base) :: u32"
    have u: "unat ?q = unat n div base" using lt by (simp add: unsigned_of_nat take_bit_nat_eq_self)
    have pos: "0 < unat n div base" using False "1.prems" by (simp add: div_greater_zero_iff)
    then have "?q \<noteq> 0" using u by (metis unsigned_0 less_irrefl)
    then have "printk_write_uint ?q base 0 CHR '' '' = map digit_char (digs base (unat n div base))"
      using "1.IH" "1.prems" pos u by simp
    then show ?thesis using "1.prems" False pos
      by (subst printk_write_uint.simps) (simp add: digs_step)
  qed
qed

subsection \<open>vprintk\<close>

text \<open>An argument as the 32 bits \<open>va_arg(ap, uint32)\<close> finds in its 64-bit slot.\<close>

fun arg_u32 :: "arg list \<Rightarrow> (u32 \<times> arg list) option" where
  "arg_u32 (AInt n # as) = Some (word_of_int n, as)"
| "arg_u32 (ALong x # as) = Some (ucast x, as)"
| "arg_u32 (APtr x # as) = Some (ucast x, as)"
| "arg_u32 as = None"

fun arg_cstr :: "arg list \<Rightarrow> (string \<times> arg list) option" where
  "arg_cstr (AStr s # as) = Some (s, as)"
| "arg_cstr (APtr x # as) = (if x = 0 then Some (''(null)'', as) else None)"
| "arg_cstr as = None"

fun scan_width :: "int \<Rightarrow> string \<Rightarrow> (int \<times> string) option" where
  "scan_width w [] = Some (w, [])"
| "scan_width w (c # p) =
     (if is_digit c then
        let w' = w * 10 + int (digit_val c) in if is_int w' then scan_width w' p else None
      else Some (w, c # p))"

lemma scan_width_length: "scan_width w p = Some (v, q) \<Longrightarrow> length q \<le> length p"
proof (induction w p rule: scan_width.induct)
  case (2 w c p)
  then show ?case by (fastforce simp: Let_def split: if_splits)
qed simp

text \<open>The count that \<open>case 'd'\<close> adds to what was counted before; \<open>count = 1\<close> for 0 forgets it.\<close>

definition count_d :: "int \<Rightarrow> int \<Rightarrow> int \<Rightarrow> int" where
  "count_d count width val =
     (let count1 = count + (if width > 0 then width else if val = 0 then 1 else 0)
      in if width = 0
         then (if val = 0 then 1 else count1 + int (length (int_buffer val)))
         else count1)"

text \<open>One conversion: the text, the new count and the arguments left.\<close>

definition printk_conv :: "char \<Rightarrow> char \<Rightarrow> int \<Rightarrow> int \<Rightarrow> arg list \<Rightarrow> (string \<times> int \<times> arg list) option" where
  "printk_conv c pad width count as =
     (if c = CHR ''%'' then Some (''%'', count + 1, as)
      else if c = CHR ''d'' \<or> c = CHR ''i'' then
        (case arg_int as of None \<Rightarrow> None
         | Some (val, bs) \<Rightarrow>
             if val = int_min then None
             else
               let sign = (if val < 0 then ''-'' else []);
                   count1 = (if val < 0 then count + 1 else count);
                   v = (if val < 0 then - val else val)
               in Some (sign @ printk_write_int v 10 width pad, count_d count1 width v, bs))
      else if c = CHR ''u'' then
        (case arg_u32 as of None \<Rightarrow> None
         | Some (x, bs) \<Rightarrow>
             Some (printk_write_uint x 10 width pad, count + (if width > 0 then width else 1), bs))
      else if c = CHR ''x'' \<or> c = CHR ''X'' then
        (case arg_u32 as of None \<Rightarrow> None
         | Some (x, bs) \<Rightarrow>
             Some (printk_write_uint x 16 width pad, count + (if width > 0 then width else 1), bs))
      else if c = CHR ''s'' then
        (case arg_cstr as of None \<Rightarrow> None
         | Some (s, bs) \<Rightarrow> Some (s, count + int (length s), bs))
      else if c = CHR ''c'' then
        (case arg_int as of None \<Rightarrow> None
         | Some (n, bs) \<Rightarrow> Some ([char_of (nat (n mod 256))], count + 1, bs))
      else if c = CHR ''p'' then
        (case arg_u32 as of None \<Rightarrow> None
         | Some (x, bs) \<Rightarrow> Some (''0x'' @ printk_write_uint x 16 8 CHR ''0'', count + 2 + 8, bs))
      else Some ([CHR ''%'', c], count + 2, as))"

text \<open>A format that ends behind flags or width is read behind its terminator.\<close>

function vprintk_from :: "string \<Rightarrow> int \<Rightarrow> arg list \<Rightarrow> (string \<times> int) option" where
  "vprintk_from [] count as = Some ([], count)"
| "vprintk_from (c # p) count as =
     (if c \<noteq> CHR ''%'' then
        (case vprintk_from p (count + 1) as of None \<Rightarrow> None | Some (s, k) \<Rightarrow> Some (c # s, k))
      else if p = [] then Some ([], count)
      else
        let pad = (if hd p = CHR ''0'' then CHR ''0'' else CHR '' '');
            q = (if hd p = CHR ''0'' then tl p else p)
        in case scan_width 0 q of
             None \<Rightarrow> None
           | Some (width, []) \<Rightarrow> None
           | Some (width, d # r) \<Rightarrow>
               (case printk_conv d pad width count as of
                  None \<Rightarrow> None
                | Some (s, count', bs) \<Rightarrow>
                    (case vprintk_from r count' bs of None \<Rightarrow> None | Some (t, k) \<Rightarrow> Some (s @ t, k))))"
  by pat_completeness auto
termination
proof (relation "measure (\<lambda>(p, c, as). length p)", goal_cases)
  case (3 c p count as pad q x w xs d r)
  then have "length (d # r) \<le> length q" using scan_width_length by blast
  moreover have "length q \<le> length p" using 3 by simp
  ultimately show ?case by simp
qed simp_all


definition vprintk :: "string \<Rightarrow> arg list \<Rightarrow> (string \<times> int) option" where
  "vprintk fmt as = vprintk_from fmt 0 as"

definition printk :: "string \<Rightarrow> arg list \<Rightarrow> (string \<times> int) option" where
  "printk fmt as = vprintk fmt as"

subsection \<open>Agreement with printf\<close>

text \<open>The pieces that both formatters know.\<close>

fun shared_piece :: "piece \<Rightarrow> bool" where
  "shared_piece (Lit c) = (c \<noteq> CHR ''%'')"
| "shared_piece (Str s) = True"
| "shared_piece (Dec n) = (is_int n \<and> n \<noteq> 0 \<and> n \<noteq> int_min)"
| "shared_piece Percent = True"
| "shared_piece p = False"

fun piece_text :: "piece \<Rightarrow> string" where
  "piece_text (Dec n) = decimal n"
| "piece_text (Str s) = s"
| "piece_text (Lit c) = [c]"
| "piece_text p = ''%''"

lemma length_int_buffer: "0 \<le> n \<Longrightarrow> length (int_buffer n) = length (dec (nat n))"
  using int_buffer_dec [of n] by (metis length_rev)

lemma conv_dec:
  assumes "n \<noteq> 0" "n \<noteq> int_min"
  shows "printk_conv CHR ''d'' pad 0 k (AInt n # as) = Some (decimal n, k + int (length (decimal n)), as)"
  using assms write_int_dec [of "\<bar>n\<bar>" 0 pad] length_int_buffer [of "\<bar>n\<bar>"]
  by (auto simp: printk_conv_def count_d_def decimal_def Let_def abs_if)

lemma conv_simple:
  "printk_conv CHR ''%'' pad w k as = Some (''%'', k + 1, as)"
  "printk_conv CHR ''s'' pad w k (AStr s # as) = Some (s, k + int (length s), as)"
  by (simp_all add: printk_conv_def)

lemma vprintk_piece:
  assumes "shared_piece p"
  shows "vprintk_from (piece_fmt p @ rest) k (piece_args p @ as) =
    (case vprintk_from rest (k + int (length (piece_text p))) as of
       None \<Rightarrow> None | Some (s, j) \<Rightarrow> Some (piece_text p @ s, j))"
  using assms
  by (cases p) (simp_all add: conv_dec conv_simple is_digit_def del: scan_width.simps
      add: scan_width.simps(2) split: option.split)

lemma vprintk_pieces:
  assumes "\<forall>p \<in> set ps. shared_piece p"
  shows "vprintk_from (concat (map piece_fmt ps)) k (concat (map piece_args ps)) =
    Some (concat (map piece_text ps), k + int (length (concat (map piece_text ps))))"
  using assms
proof (induction ps arbitrary: k)
  case (Cons p ps)
  then show ?case by (simp add: vprintk_piece)
qed simp

lemma shared_out: "shared_piece p \<Longrightarrow> piece_ok p \<and> piece_out p = Some (piece_text p)"
  by (cases p) auto

lemma shared_pieces_out:
  "\<forall>p \<in> set ps. shared_piece p \<Longrightarrow>
     (\<forall>p \<in> set ps. piece_ok p) \<and> ints_ok ps \<and> pieces_out ps = Some (concat (map piece_text ps))"
proof (induction ps)
  case (Cons p ps)
  then show ?case using shared_out [of p] by (auto simp: ints_ok_def cons_out_def)
qed (simp add: ints_ok_def)

subsection \<open>Width\<close>

lemma scan_width_digits:
  assumes "\<forall>c \<in> set ds. is_digit c" "\<not> is_digit e" "0 \<le> w"
    "int (digs_val 10 (map digit_val ds)) + w * 10 ^ length ds \<le> int_max"
  shows "scan_width w (ds @ e # r) =
    Some (w * 10 ^ length ds + int (digs_val 10 (map digit_val ds)), e # r)"
  using assms
proof (induction ds arbitrary: w)
  case Nil
  then show ?case by (simp add: digs_val_def)
next
  case (Cons d ds)
  have split: "digs_val 10 (map digit_val (d # ds)) =
      digit_val d * 10 ^ length ds + digs_val 10 (map digit_val ds)"
  proof (induction ds rule: rev_induct)
    case (snoc x xs)
    have "digs_val 10 (map digit_val ((d # xs) @ [x])) =
        digs_val 10 (map digit_val (d # xs)) * 10 + digit_val x" by (simp only: map_append list.map digs_val_snoc)
    with snoc show ?case by (simp add: algebra_simps)
  qed (simp add: digs_val_def)
  let ?v = "w * 10 + int (digit_val d)"
  have e: "?v * 10 ^ length ds + int (digs_val 10 (map digit_val ds)) =
      w * 10 ^ length (d # ds) + int (digs_val 10 (map digit_val (d # ds)))"
    by (subst split) (simp add: algebra_simps)
  then have b: "int (digs_val 10 (map digit_val ds)) + ?v * 10 ^ length ds \<le> int_max"
    using Cons.prems(4) by linarith
  have v: "0 \<le> ?v" using Cons.prems(3) by simp
  then have "?v * 1 \<le> ?v * 10 ^ length ds" by (intro mult_left_mono) simp_all
  moreover have "?v * 10 ^ length ds \<le> int_max" by (rule order_trans [OF _ b]) simp
  ultimately have "?v \<le> int_max" unfolding mult_1_right by (rule order_trans)
  with v have "is_int ?v" by (simp only: is_int_def) simp
  then have "scan_width w ((d # ds) @ e # r) = scan_width ?v (ds @ e # r)"
    using Cons.prems(1) by (simp add: Let_def)
  also have "\<dots> = Some (?v * 10 ^ length ds + int (digs_val 10 (map digit_val ds)), e # r)"
    using Cons.prems b by (intro Cons.IH) simp_all
  finally show ?case using e by simp
qed

lemma scan_width_dec:
  "int w \<le> int_max \<Longrightarrow> \<not> is_digit e \<Longrightarrow> scan_width 0 (dec w @ e # r) = Some (int w, e # r)"
  using scan_width_digits [of "dec w" e 0 r] by (simp add: dec_digits dec_val)

lemma hd_dec: "0 < w \<Longrightarrow> hd (dec w) \<noteq> CHR ''0''"
proof -
  assume "0 < w"
  then have "hd (digs 10 w) \<noteq> 0" by (rule hd_digs [rotated]) simp
  moreover have "hd (digs 10 w) < 10" by (rule digs_lt [of 10 _ w]) simp_all
  ultimately have "digit_val (hd (dec w)) \<noteq> 0" by (simp add: dec_def list.map_sel)
  then show ?thesis by (auto simp: digit_val_def)
qed

lemma vprintk_width:
  assumes "0 < w" "int w \<le> int_max" "0 < n"
  shows "vprintk_from (''%'' @ dec w @ ''d'') k [AInt n] = Some (dec (nat n), k + int w)"
proof -
  have sc: "scan_width 0 (dec w @ ''d'') = Some (int w, ''d'')"
    using assms scan_width_dec [of w "CHR ''d''" "[]"] by (simp add: is_digit_def)
  have h: "hd (dec w @ ''d'') \<noteq> CHR ''0''" using hd_dec [OF assms(1)] by simp
  have "printk_conv CHR ''d'' CHR '' '' (int w) k [AInt n] = Some (dec (nat n), k + int w, [])"
    using assms write_int_dec [of n "int w" "CHR '' ''"]
    by (simp add: printk_conv_def count_d_def Let_def)
  then show ?thesis using sc h by (simp add: Let_def)
qed

subsection \<open>Properties\<close>

text \<open>C27: on formats made of literal characters, %s, %% and %d of a number other than 0 the
  two formatters of the kernel print the same text, and \<open>printk\<close> returns its length.\<close>

theorem printk_agrees_with_printf:
  assumes "\<forall>p \<in> set ps. shared_piece p"
  shows "\<exists>s. printf (concat (map piece_fmt ps)) (concat (map piece_args ps)) = Some s \<and>
    printk (concat (map piece_fmt ps)) (concat (map piece_args ps)) = Some (s, int (length s))"
proof -
  have "\<forall>p \<in> set ps. piece_ok p" "ints_ok ps" and
    o: "pieces_out ps = Some (concat (map piece_text ps))"
    using shared_pieces_out [OF assms] by auto
  then have "printf (concat (map piece_fmt ps)) (concat (map piece_args ps)) =
      Some (concat (map piece_text ps))"
    using printf_pieces [of ps "[]" "[]"] by (simp add: cons_out_def)
  then show ?thesis using vprintk_pieces [OF assms, of 0] by (simp add: printk_def vprintk_def)
qed

theorem printk_agrees_with_printf_witness:
  "printk ''a=%d!'' [AInt (- 7)] = Some (''a=-7!'', 5)"
proof -
  have d: "decimal (- 7) = ''-7''" by (simp add: decimal_def dec_small)
  have "printf ''a=%d!'' [AInt (- 7)] = Some ''a=-7!''"
    by (simp add: print_int_eq is_int_def d cons_out_def)
  then show ?thesis
    using printk_agrees_with_printf [of "map Lit ''a='' @ [Dec (- 7), Lit CHR ''!'']"]
    by (auto simp: is_int_def)
qed

text \<open>\<open>printk\<close> parses a field width, adds it to the count it returns, and prints a
  positive number without any padding; a number 0 without a width forgets the count of
  everything printed before it.\<close>

theorem printk_width_not_applied:
  assumes "0 < w" "int w \<le> int_max" "0 < n"
  shows "printk (''%'' @ dec w @ ''d'') [AInt n] = Some (dec (nat n), int w) \<and>
    printk (''abc%d'') [AInt 0] = Some (''abc0'', 1)"
  using vprintk_width [OF assms, of 0]
  by (simp add: printk_def vprintk_def printk_conv_def count_d_def printk_write_int.simps
      is_digit_def Let_def)

theorem printk_width_not_applied_witness: "printk ''%8d'' [AInt 42] = Some (''42'', 8)"
  using printk_width_not_applied [of 8 42] by (simp add: dec_small dec_step)

end
