(* ===== verification/Kpanic.thy ===== *)
theory Kpanic
  imports Printk
begin

text \<open>
  \<open>kernel/io/kpanic.c\<close> and the macros of \<open>debug.h\<close>: the panic message and the halt. The
  output is the string sent to the serial port; \<open>None\<close> is undefined behaviour of the
  formatter.
\<close>

record panic_context =
  panic_file :: "string option"
  panic_line :: int

definition panic_set_context :: "string option \<Rightarrow> int \<Rightarrow> panic_context \<Rightarrow> panic_context" where
  "panic_set_context file line c = c\<lparr>panic_file := file, panic_line := line\<rparr>"

text \<open>\<open>halt\<close> loops for ever on \<open>wfi\<close>.\<close>

definition halt :: "'s \<Rightarrow> (unit, 's) outcome" where
  "halt s = Stop Halted s"

subsection \<open>The line number\<close>

text \<open>\<open>while (line_copy > 0 && idx < 15) { line_str[idx++] = ...; line_copy /= 10; }\<close>\<close>

function fill_line :: "int \<Rightarrow> nat \<Rightarrow> string \<Rightarrow> nat \<times> string" where
  "fill_line line idx buf =
     (if line > 0 \<and> idx < 15
      then fill_line (c_div line 10) (idx + 1) (buf[idx := char_of (48 + nat (c_mod line 10))])
      else (idx, buf))"
  by auto
termination by (relation "measure (\<lambda>(line, idx, buf). 15 - idx)") auto

declare fill_line.simps [simp del]

text \<open>\<open>for (i = 0; i < idx / 2; i++)\<close> swaps the ends of the first \<open>idx\<close> characters.\<close>

definition swap_ends :: "nat \<Rightarrow> nat \<Rightarrow> 'a list \<Rightarrow> 'a list" where
  "swap_ends idx i buf = buf[i := buf ! (idx - 1 - i), idx - 1 - i := buf ! i]"

definition reverse_prefix :: "nat \<Rightarrow> 'a list \<Rightarrow> 'a list" where
  "reverse_prefix idx buf = fold (swap_ends idx) [0..<idx div 2] buf"

definition c_string :: "string \<Rightarrow> string" where
  "c_string buf = takeWhile (\<lambda>c. c \<noteq> CHR 0x00) buf"

text \<open>\<open>junk\<close> is what the uninitialised array \<open>line_str\<close> holds before.\<close>

definition line_text :: "string \<Rightarrow> int \<Rightarrow> string" where
  "line_text junk line =
     c_string
       (if line = 0 then junk[0 := CHR ''0'', 1 := CHR 0x00]
        else case fill_line line 0 junk of (idx, buf) \<Rightarrow>
          reverse_prefix idx (buf[idx := CHR 0x00]))"

subsection \<open>panic\<close>

abbreviation newline :: string where "newline \<equiv> [CHR 0x0A]"

definition rule_line :: string where
  "rule_line = replicate 52 CHR ''='' @ newline"

definition panic_location :: "string \<Rightarrow> panic_context \<Rightarrow> string" where
  "panic_location junk c =
     (case panic_file c of
        None \<Rightarrow> []
      | Some file \<Rightarrow>
          if panic_line c > 0
          then ''Location: '' @ file @ '':'' @ line_text junk (panic_line c) @ newline
          else [])"

definition panic_error :: "string option \<Rightarrow> arg list \<Rightarrow> string option" where
  "panic_error fmt as =
     (case fmt of
        None \<Rightarrow> Some []
      | Some f \<Rightarrow>
          (case vprintk f as of
             None \<Rightarrow> None
           | Some (s, count) \<Rightarrow> Some (''Error: '' @ s @ newline)))"

definition panic_text :: "string \<Rightarrow> string option \<Rightarrow> arg list \<Rightarrow> panic_context \<Rightarrow> string option" where
  "panic_text junk fmt as c =
     (case panic_error fmt as of
        None \<Rightarrow> None
      | Some e \<Rightarrow>
          Some (newline @ rule_line @ ''                   KERNEL PANIC!'' @ newline @ rule_line @
            panic_location junk c @ e @
            ''System halted. Check serial output for details.'' @ newline @ rule_line))"

text \<open>The call: the text through \<open>uart_puts\<close>, then the halt. A port that is never ready
  again keeps the loop of \<open>uart_putchar\<close> running.\<close>

definition panic :: "string \<Rightarrow> string option \<Rightarrow> arg list \<Rightarrow> panic_context \<Rightarrow> uart \<Rightarrow>
    (unit, uart) outcome" where
  "panic junk fmt as c u =
     (case panic_text junk fmt as c of
        None \<Rightarrow> Stop OutOfBounds u
      | Some s \<Rightarrow> (case uart_puts s u of None \<Rightarrow> Stop SpinsForever u | Some v \<Rightarrow> halt v))"

text \<open>\<open>PANIC(msg)\<close> and \<open>ASSERT(cond, msg)\<close> at a source position.\<close>

definition PANIC :: "string \<Rightarrow> int \<Rightarrow> string \<Rightarrow> string \<Rightarrow> panic_context \<Rightarrow> uart \<Rightarrow> (unit, uart) outcome" where
  "PANIC file line junk msg c u = panic junk (Some msg) [] (panic_set_context (Some file) line c) u"

definition ASSERT :: "string \<Rightarrow> int \<Rightarrow> string \<Rightarrow> bool \<Rightarrow> string \<Rightarrow> panic_context \<Rightarrow> uart \<Rightarrow>
    (unit, uart) outcome" where
  "ASSERT file line junk cond msg c u =
     (if \<not> cond
      then panic junk (Some (''ASSERTION FAILED: '' @ msg)) [] (panic_set_context (Some file) line c) u
      else Ret () u)"

subsection \<open>The line number is printed in decimal\<close>

lemma fill_line_eq:
  assumes "0 < line" "idx + length (dec (nat line)) \<le> 15" "15 < length buf"
  shows "fill_line line idx buf =
    (idx + length (dec (nat line)),
     take idx buf @ rev (dec (nat line)) @ drop (idx + length (dec (nat line))) buf)"
  using assms
proof (induction line idx buf rule: fill_line.induct)
  case (1 line idx buf)
  have d: "char_of (48 + nat (line mod 10)) = digit_char (nat line mod 10)"
    using "1.prems" by (simp add: digit_char_def nat_mod_distrib)
  let ?buf = "buf[idx := digit_char (nat line mod 10)]"
  have idx: "idx < 15"
    using "1.prems"(2) dec_nonempty(1) [of "nat line"] by (cases "dec (nat line)") auto
  have step: "fill_line line idx buf = fill_line (line div 10) (idx + 1) ?buf"
    using "1.prems" idx d by (subst fill_line.simps) simp
  have tk: "take (Suc idx) ?buf = take idx buf @ [digit_char (nat line mod 10)]"
    using "1.prems" idx by (simp add: take_Suc_conv_app_nth)
  show ?case
  proof (cases "line < 10")
    case True
    then have "fill_line (line div 10) (idx + 1) ?buf = (idx + 1, ?buf)"
      using "1.prems" by (subst fill_line.simps) simp
    moreover have "dec (nat line) = [digit_char (nat line mod 10)]"
      using True "1.prems" by (simp add: dec_small)
    moreover have "?buf = take idx buf @ [digit_char (nat line mod 10)] @ drop (Suc idx) buf"
      using "1.prems" idx by (simp add: upd_conv_take_nth_drop)
    ultimately show ?thesis using step by simp
  next
    case False
    then have q: "dec (nat line) = dec (nat (line div 10)) @ [digit_char (nat line mod 10)]"
      using "1.prems" by (simp add: dec_step nat_div_distrib)
    have "fill_line (c_div line 10) (idx + 1) (buf[idx := char_of (48 + nat (c_mod line 10))]) =
        (idx + 1 + length (dec (nat (line div 10))),
         take (idx + 1) ?buf @ rev (dec (nat (line div 10))) @
           drop (idx + 1 + length (dec (nat (line div 10)))) ?buf)"
      using "1.IH" "1.prems" False idx q d by simp
    then show ?thesis using "1.prems" step tk d q by simp
  qed
qed

lemma swap_ends_length [simp]: "length (swap_ends idx i buf) = length buf"
  by (simp add: swap_ends_def)

lemma reverse_loop:
  assumes "k \<le> idx div 2" "idx \<le> length buf"
  shows "length (fold (swap_ends idx) [0..<k] buf) = length buf \<and>
    (\<forall>j < length buf. fold (swap_ends idx) [0..<k] buf ! j =
      (if j < k \<or> idx - k \<le> j \<and> j < idx then buf ! (idx - 1 - j) else buf ! j))"
  using assms
proof (induction k)
  case (Suc k)
  let ?b = "fold (swap_ends idx) [0..<k] buf"
  have len: "length ?b = length buf" and b: "\<And>j. j < length buf \<Longrightarrow> ?b ! j =
      (if j < k \<or> idx - k \<le> j \<and> j < idx then buf ! (idx - 1 - j) else buf ! j)"
    using Suc by auto
  define e where "e = idx - 1 - k"
  have "2 * (idx div 2) \<le> idx" by (rule times_div_less_eq_dividend)
  then have kk: "2 * k + 2 \<le> idx" using Suc.prems(1) by linarith
  have k: "k < idx" "k < e" "e < length buf" "idx - Suc k = e" "idx - 1 - k = e" "idx - 1 - e = k"
    "idx - k = Suc e" "e < idx"
    using kk Suc.prems(2) by (simp_all add: e_def)
  have at: "?b ! k = buf ! k" "?b ! e = buf ! e"
    using b [of k] b [of e] k by (simp_all)
  have "(swap_ends idx k ?b) ! j =
      (if j < Suc k \<or> idx - Suc k \<le> j \<and> j < idx then buf ! (idx - 1 - j) else buf ! j)"
    if j: "j < length buf" for j
  proof -
    consider "j = k" | "j = e" | "j \<noteq> k" "j \<noteq> e" by blast
    then show ?thesis
    proof cases
      case 1
      then show ?thesis using k len at by (simp add: swap_ends_def)
    next
      case 2
      then show ?thesis using k len at by (simp add: swap_ends_def)
    next
      case 3
      then have "(swap_ends idx k ?b) ! j = ?b ! j" by (simp add: swap_ends_def k(4))
      also have "\<dots> = (if j < Suc k \<or> e \<le> j \<and> j < idx then buf ! (idx - 1 - j) else buf ! j)"
        using b [OF j] 3 k(7) by (auto simp: less_Suc_eq)
      finally show ?thesis unfolding k(4) .
    qed
  qed
  then have "\<forall>j < length buf. swap_ends idx k ?b ! j =
      (if j < Suc k \<or> idx - Suc k \<le> j \<and> j < idx then buf ! (idx - 1 - j) else buf ! j)"
    by blast
  moreover have "fold (swap_ends idx) [0..<Suc k] buf = swap_ends idx k ?b" by simp
  ultimately show ?case using len by (simp only: swap_ends_length simp_thms)
qed auto

lemma reverse_prefix_nth:
  assumes "idx \<le> length buf" "j < length buf"
  shows "reverse_prefix idx buf ! j = (if j < idx then buf ! (idx - 1 - j) else buf ! j)"
proof -
  have "reverse_prefix idx buf ! j =
      (if j < idx div 2 \<or> idx - idx div 2 \<le> j \<and> j < idx then buf ! (idx - 1 - j) else buf ! j)"
    using reverse_loop [of "idx div 2" idx buf] assms unfolding reverse_prefix_def by blast
  moreover have "idx - 1 - j = j" if "j < idx" "\<not> j < idx div 2" "\<not> idx - idx div 2 \<le> j"
    using that by presburger
  ultimately show ?thesis by (auto split: if_splits)
qed

lemma reverse_prefix_eq:
  assumes "idx \<le> length buf"
  shows "reverse_prefix idx buf = rev (take idx buf) @ drop idx buf"
proof (rule nth_equalityI)
  have len: "length (reverse_prefix idx buf) = length buf"
    using reverse_loop [of "idx div 2" idx buf] assms by (simp add: reverse_prefix_def)
  then show "length (reverse_prefix idx buf) = length (rev (take idx buf) @ drop idx buf)"
    using assms by simp
  fix j assume "j < length (reverse_prefix idx buf)"
  then have "j < length buf" using len by simp
  then show "reverse_prefix idx buf ! j = (rev (take idx buf) @ drop idx buf) ! j"
    using assms by (simp add: reverse_prefix_nth nth_append rev_nth)
qed

lemma line_text_dec:
  assumes "0 < line" "line \<le> int_max" "length junk = 16"
  shows "line_text junk line = dec (nat line)"
proof -
  let ?d = "dec (nat line)"
  have len: "length ?d \<le> 10" using length_dec [of "nat line" 10] assms by simp
  have f: "fill_line line 0 junk = (length ?d, rev ?d @ drop (length ?d) junk)"
    using fill_line_eq [of line 0 junk] assms len by simp
  have "(rev ?d @ drop (length ?d) junk)[length ?d := CHR 0x00] =
      rev ?d @ CHR 0x00 # drop (Suc (length ?d)) junk"
  proof -
    have "length ?d < length junk" using len assms(3) by simp
    then have "drop (length ?d) junk = junk ! length ?d # drop (Suc (length ?d)) junk"
      by (rule Cons_nth_drop_Suc [symmetric])
    then show ?thesis by (simp add: list_update_append)
  qed
  then have "line_text junk line = c_string (?d @ CHR 0x00 # drop (Suc (length ?d)) junk)"
    using assms(1) f by (simp add: line_text_def reverse_prefix_eq)
  also have "\<dots> = ?d"
    using dec_digits [of _ "nat line"] is_digit_not
    by (auto simp: c_string_def takeWhile_append)
  finally show ?thesis .
qed

subsection \<open>Properties\<close>

text \<open>A panic with a known position prints the file and the line number in decimal,
  whatever the array for the digits holds before, then the message, and halts: on a live
  port the whole text is sent and the call does not return.\<close>

theorem panic_reports_and_halts:
  assumes "panic_file c = Some file" "0 < panic_line c" "panic_line c \<le> int_max"
    "length junk = 16" "live_tx u" "\<forall>x \<in> set msg. x \<noteq> CHR ''%''"
  shows "\<exists>v pre post. panic junk (Some msg) [] c u = Stop Halted v \<and>
    tx v = tx u @ pre @ ''Location: '' @ file @ '':'' @ dec (nat (panic_line c)) @ newline @
      ''Error: '' @ msg @ newline @ post"
proof -
  have nil: "concat (map (\<lambda>x. []) xs) = []" for xs :: "char list" by simp
  have "\<forall>p \<in> set (map Lit msg). shared_piece p" using assms(6) by auto
  from vprintk_pieces [OF this, of 0] have m: "vprintk msg [] = Some (msg, int (length msg))"
    by (simp add: vprintk_def comp_def nil del: concat_eq_Nil_conv)
  let ?pre = "newline @ rule_line @ ''                   KERNEL PANIC!'' @ newline @ rule_line"
  let ?post = "''System halted. Check serial output for details.'' @ newline @ rule_line"
  let ?text = "?pre @ (''Location: '' @ file @ '':'' @ dec (nat (panic_line c)) @ newline) @
      (''Error: '' @ msg @ newline) @ ?post"
  have "panic_text junk (Some msg) [] c = Some ?text"
    using assms m by (simp add: panic_text_def panic_error_def panic_location_def line_text_dec)
  moreover obtain v where "uart_puts ?text u = Some v" "tx v = tx u @ ?text"
    using uart_puts_live [OF assms(5)] by blast
  ultimately have "panic junk (Some msg) [] c u = Stop Halted v \<and>
      tx v = tx u @ ?pre @ ''Location: '' @ file @ '':'' @ dec (nat (panic_line c)) @ newline @
        ''Error: '' @ msg @ newline @ ?post"
    by (simp add: panic_def halt_def)
  then show ?thesis by blast
qed

theorem panic_reports_and_halts_witness:
  "\<exists>v pre post. panic (replicate 16 CHR ''x'') (Some ''bad'') [] \<lparr>panic_file = Some ''a.c'', panic_line = 42\<rparr>
      slow_uart = Stop Halted v \<and>
    tx v = tx slow_uart @ pre @ ''Location: '' @ ''a.c'' @ '':'' @ ''42'' @ newline @
      ''Error: '' @ ''bad'' @ newline @ post"
  using panic_reports_and_halts [of "\<lparr>panic_file = Some ''a.c'', panic_line = 42\<rparr>" "''a.c''"
      "replicate 16 CHR ''x''" slow_uart "''bad''"] slow_uart_live
  by (simp add: dec_step dec_small)

end
