(* ===== verification/Byte_Queue.thy ===== *)
theory Byte_Queue
  imports Prelude
begin

text \<open>
  The contract of a bounded queue of bytes: \<open>enq\<close> appends while there is room, \<open>deq\<close>
  removes from the front while there is something. The clients are the loops of a writer
  and of a reader.
\<close>

fun deq_run :: "('s \<Rightarrow> 'b \<times> 's) \<Rightarrow> nat \<Rightarrow> 's \<Rightarrow> 'b list \<times> 's" where
  "deq_run deq 0 s = ([], s)"
| "deq_run deq (Suc n) s =
     (case deq s of (x, t) \<Rightarrow> (case deq_run deq n t of (xs, u) \<Rightarrow> (x # xs, u)))"

lemma deq_run_Suc:
  "deq_run deq (Suc n) s =
     (case deq_run deq n s of (xs, t) \<Rightarrow> (case deq t of (x, u) \<Rightarrow> (xs @ [x], u)))"
proof (induction n arbitrary: s)
  case (Suc n)
  obtain x t xs u y v where e: "deq s = (x, t)" "deq_run deq n t = (xs, u)" "deq u = (y, v)"
    by (metis surj_pair)
  have "deq_run deq (Suc n) t = (xs @ [y], v)" using Suc.IH [of t] e by simp
  moreover have "deq_run deq (Suc n) s = (x # xs, u)" using e by simp
  ultimately show ?case using e deq_run.simps(2) [of deq "Suc n" s] by (simp del: deq_run.simps)
qed (simp split: prod.split)

lemma deq_run_proj:
  "fst (deq_run deq (Suc n) s) = fst (deq s) # fst (deq_run deq n (snd (deq s)))"
  "snd (deq_run deq (Suc n) s) = snd (deq_run deq n (snd (deq s)))"
  by (simp_all add: case_prod_beta)

locale byte_queue =
  fixes items :: "'s \<Rightarrow> 'b list" and cap :: nat and enq :: "'b \<Rightarrow> 's \<Rightarrow> 's"
    and deq :: "'s \<Rightarrow> 'b \<times> 's" and invar :: "'s \<Rightarrow> bool"
  assumes bounded: "invar s \<Longrightarrow> length (items s) \<le> cap"
    and enq: "invar s \<Longrightarrow> length (items s) < cap \<Longrightarrow> items (enq x s) = items s @ [x] \<and> invar (enq x s)"
    and deq: "invar s \<Longrightarrow> items s = x # xs \<Longrightarrow> fst (deq s) = x \<and> items (snd (deq s)) = xs \<and> invar (snd (deq s))"
begin

lemma enq_all:
  assumes "invar s" "length (items s) + length xs \<le> cap"
  shows "items (fold enq xs s) = items s @ xs \<and> invar (fold enq xs s)"
  using assms
proof (induction xs arbitrary: s)
  case (Cons x xs)
  have "length (items s) < cap" using Cons.prems(2) by simp
  from enq [OF Cons.prems(1) this, of x] show ?case using Cons by simp
qed simp

lemma deq_all:
  assumes "invar s" "n \<le> length (items s)"
  shows "fst (deq_run deq n s) = take n (items s) \<and> items (snd (deq_run deq n s)) = drop n (items s) \<and>
    invar (snd (deq_run deq n s))"
  using assms
proof (induction n arbitrary: s)
  case (Suc n)
  obtain x xs where i: "items s = x # xs" using Suc.prems(2) by (cases "items s") auto
  note d = deq [OF Suc.prems(1) i]
  have "n \<le> length (items (snd (deq s)))" using d i Suc.prems(2) by simp
  from Suc.IH [OF _ this] d i show ?case by (auto split: prod.splits)
qed simp

text \<open>What is written to an empty queue comes out again in order.\<close>

lemma in_order:
  assumes "invar s" "items s = []" "length xs \<le> cap"
  shows "fst (deq_run deq (length xs) (fold enq xs s)) = xs \<and>
    items (snd (deq_run deq (length xs) (fold enq xs s))) = []"
  using enq_all [OF assms(1), of xs] deq_all [of "fold enq xs s" "length xs"] assms by simp

end

end
