(* ===== verification/Loops.thy ===== *)
theory Loops
  imports Prelude
begin

text \<open>
  Loops of kernel calls. \<open>loop_out f x s\<close> runs \<open>f\<close> on the local variables \<open>x\<close> and the
  state \<open>s\<close> until it breaks with a result (\<open>Inr\<close>), stops, or for ever; a loop that
  never ends is \<open>Stop SpinsForever\<close> with the state it was entered in.
\<close>

partial_function (option) iterate ::
    "('x \<Rightarrow> 's \<Rightarrow> ('x + 'r, 's) outcome) \<Rightarrow> 'x \<Rightarrow> 's \<Rightarrow> ('r, 's) outcome option" where
  "iterate f x s =
     (case f x s of
        Stop r t \<Rightarrow> Some (Stop r t)
      | Ret v t \<Rightarrow> (case v of Inl y \<Rightarrow> iterate f y t | Inr a \<Rightarrow> Some (Ret a t)))"

definition loop_out ::
    "('x \<Rightarrow> 's \<Rightarrow> ('x + 'r, 's) outcome) \<Rightarrow> 'x \<Rightarrow> 's \<Rightarrow> ('r, 's) outcome" where
  "loop_out f x s = (case iterate f x s of None \<Rightarrow> Stop SpinsForever s | Some r \<Rightarrow> r)"

text \<open>\<open>while (b) body;\<close>\<close>

definition while_out ::
    "('s \<Rightarrow> bool) \<Rightarrow> ('s \<Rightarrow> (unit, 's) outcome) \<Rightarrow> 's \<Rightarrow> (unit, 's) outcome" where
  "while_out b body s =
     loop_out (\<lambda>_ s. if b s then bind_out (body s) (\<lambda>_ t. Ret (Inl ()) t) else Ret (Inr ()) s) () s"

text \<open>\<open>for (i = lo; i < lo + n; i++) body(i);\<close>\<close>

fun for_out :: "nat \<Rightarrow> nat \<Rightarrow> (nat \<Rightarrow> 's \<Rightarrow> (unit, 's) outcome) \<Rightarrow> 's \<Rightarrow> (unit, 's) outcome" where
  "for_out lo 0 body s = Ret () s"
| "for_out lo (Suc n) body s = bind_out (body lo s) (\<lambda>_ t. for_out (Suc lo) n body t)"

lemma loop_out_break: "f x s = Ret (Inr a) t \<Longrightarrow> loop_out f x s = Ret a t"
  by (simp add: loop_out_def iterate.simps)

lemma loop_out_stop: "f x s = Stop r t \<Longrightarrow> loop_out f x s = Stop r t"
  by (simp add: loop_out_def iterate.simps)

lemma loop_out_step:
  assumes "f x s = Ret (Inl y) t" "loop_out f y t = Ret a u"
  shows "loop_out f x s = Ret a u"
proof -
  have "iterate f x s = iterate f y t" using assms(1) by (subst iterate.simps) simp
  then show ?thesis using assms(2) by (simp add: loop_out_def split: option.splits)
qed

text \<open>Unrolling: the loop from the start is the loop from any state it reaches.\<close>

lemma iterate_step: "f x s = Ret (Inl y) t \<Longrightarrow> iterate f x s = iterate f y t"
  by (subst iterate.simps) simp

lemma iterate_run:
  assumes "\<And>k. k < n \<Longrightarrow> f (x k) (u k) = Ret (Inl (x (Suc k))) (u (Suc k))"
  shows "iterate f (x 0) (u 0) = iterate f (x n) (u n)"
  using assms by (induction n) (auto simp: iterate_step)

lemma loop_out_run:
  assumes "\<And>k. k < n \<Longrightarrow> f (x k) (u k) = Ret (Inl (x (Suc k))) (u (Suc k))"
  shows "f (x n) (u n) = Ret (Inr a) t \<Longrightarrow> loop_out f (x 0) (u 0) = Ret a t"
    "f (x n) (u n) = Stop r t \<Longrightarrow> loop_out f (x 0) (u 0) = Stop r t"
  using iterate_run [of n f x u, OF assms] by (simp_all add: loop_out_def iterate.simps [of f "x n"])

lemma iterate_no_progress:
  assumes "iterate f x s = Some r"
  shows "f x s \<noteq> Ret (Inl x) s"
proof -
  show ?thesis using assms
    by (rule iterate.raw_induct [where P = "\<lambda>f x s r. f x s \<noteq> Ret (Inl x) s" and
          xa = "((f, x), s)", unfolded prod.case, rotated, unfolded prod.case])
      (auto split: outcome.splits sum.splits)
qed

lemma loop_out_forever: "f x s = Ret (Inl x) s \<Longrightarrow> loop_out f x s = Stop SpinsForever s"
  using iterate_no_progress [of f x s] by (cases "iterate f x s") (auto simp: loop_out_def)

lemma while_out_done [simp]: "\<not> b s \<Longrightarrow> while_out b body s = Ret () s"
  by (simp add: while_out_def loop_out_break)

lemma while_out_stop: "b s \<Longrightarrow> body s = Stop r t \<Longrightarrow> while_out b body s = Stop r t"
  by (simp add: while_out_def loop_out_stop)

lemma while_out_forever: "b s \<Longrightarrow> body s = Ret () s \<Longrightarrow> while_out b body s = Stop SpinsForever s"
  by (simp add: while_out_def loop_out_forever)

lemma while_out_once:
  "b s \<Longrightarrow> body s = Ret () t \<Longrightarrow> \<not> b t \<Longrightarrow> while_out b body s = Ret () t"
  by (simp add: while_out_def loop_out_step loop_out_break)

text \<open>The rule for total correctness, with a measure.\<close>

lemma loop_out_measure:
  fixes m :: "'x \<Rightarrow> nat"
  assumes "P x s"
    and "\<And>x s. P x s \<Longrightarrow> (\<exists>a t. f x s = Ret (Inr a) t \<and> Q a t) \<or>
      (\<exists>y t. f x s = Ret (Inl y) t \<and> P y t \<and> m y < m x)"
  shows "\<exists>a t. loop_out f x s = Ret a t \<and> Q a t"
  using assms(1)
proof (induction "m x" arbitrary: x s rule: less_induct)
  case less
  from assms(2) [OF less.prems] show ?case
  proof (elim disjE exE conjE)
    fix y t assume "f x s = Ret (Inl y) t" "P y t" "m y < m x"
    then show ?thesis using less.hyps loop_out_step by metis
  qed (use loop_out_break in metis)
qed

text \<open>The invariant rule for a counted loop.\<close>

lemma for_out_inv:
  assumes "P lo s" "\<And>i s. lo \<le> i \<Longrightarrow> i < lo + n \<Longrightarrow> P i s \<Longrightarrow> \<exists>t. body i s = Ret () t \<and> P (Suc i) t"
  shows "\<exists>t. for_out lo n body s = Ret () t \<and> P (lo + n) t"
  using assms
proof (induction n arbitrary: lo s)
  case (Suc n)
  obtain t where t: "body lo s = Ret () t" "P (Suc lo) t" using Suc.prems(1,2) by force
  have "\<exists>u. for_out (Suc lo) n body t = Ret () u \<and> P (Suc lo + n) u"
    using t(2) Suc.prems(2) by (intro Suc.IH) auto
  then show ?case using t(1) by auto
qed simp

subsection \<open>Little-endian fields\<close>

definition le_byte :: "nat \<Rightarrow> 'a::len word \<Rightarrow> u8" where
  "le_byte i x = ucast (drop_bit (8 * i) x)"

definition get16 :: "u8 list \<Rightarrow> nat \<Rightarrow> u16" where
  "get16 d o' = ucast (d ! o') OR push_bit 8 (ucast (d ! (o' + 1)))"

definition put16 :: "u8 list \<Rightarrow> nat \<Rightarrow> u16 \<Rightarrow> u8 list" where
  "put16 d o' x = d[o' := le_byte 0 x, o' + 1 := le_byte 1 x]"

definition get32 :: "u8 list \<Rightarrow> nat \<Rightarrow> u32" where
  "get32 d o' = ucast (d ! o') OR push_bit 8 (ucast (d ! (o' + 1))) OR
     push_bit 16 (ucast (d ! (o' + 2))) OR push_bit 24 (ucast (d ! (o' + 3)))"

definition put32 :: "u8 list \<Rightarrow> nat \<Rightarrow> u32 \<Rightarrow> u8 list" where
  "put32 d o' x = d[o' := le_byte 0 x, o' + 1 := le_byte 1 x, o' + 2 := le_byte 2 x, o' + 3 := le_byte 3 x]"

lemma put_length [simp]: "length (put16 d i x) = length d" "length (put32 d i y) = length d"
  by (simp_all add: put16_def put32_def)

lemma le_bytes_16: "ucast (le_byte 0 x) OR push_bit 8 (ucast (le_byte (Suc 0) x)) = (x :: u16)"
proof (rule bit_word_eqI)
  fix n assume "n < LENGTH(16)"
  then show "bit (ucast (le_byte 0 x) OR push_bit 8 (ucast (le_byte (Suc 0) x)) :: u16) n = bit x n"
    by (cases "n < 8") (auto simp: le_byte_def bit_or_iff bit_push_bit_iff bit_ucast_iff bit_drop_bit_eq)
qed

lemma le_bytes_32: "ucast (le_byte 0 x) OR push_bit 8 (ucast (le_byte (Suc 0) x)) OR
     push_bit 16 (ucast (le_byte 2 x)) OR push_bit 24 (ucast (le_byte 3 x)) = (x :: u32)"
proof (rule bit_word_eqI)
  fix n assume "n < LENGTH(32)"
  then show "bit (ucast (le_byte 0 x) OR push_bit 8 (ucast (le_byte (Suc 0) x)) OR
     push_bit 16 (ucast (le_byte 2 x)) OR push_bit 24 (ucast (le_byte 3 x)) :: u32) n = bit x n"
    by (cases "n < 8"; cases "n < 16"; cases "n < 24")
      (auto simp: le_byte_def bit_or_iff bit_push_bit_iff bit_ucast_iff bit_drop_bit_eq)
qed

lemma get_put16 [simp]: "i + 2 \<le> length d \<Longrightarrow> get16 (put16 d i x) i = x"
  by (simp add: get16_def put16_def le_bytes_16)

lemma get_put32 [simp]: "i + 4 \<le> length d \<Longrightarrow> get32 (put32 d i x) i = x"
  by (simp add: get32_def put32_def le_bytes_32)

lemma put_frame [simp]:
  "i + 4 \<le> j \<or> j + 4 \<le> i \<Longrightarrow> get32 (put32 d i x) j = get32 d j"
  "i + 2 \<le> j \<or> j + 4 \<le> i \<Longrightarrow> get32 (put16 d i y) j = get32 d j"
  "i + 4 \<le> j \<or> j + 2 \<le> i \<Longrightarrow> get16 (put32 d i x) j = get16 d j"
  "i + 2 \<le> j \<or> j + 2 \<le> i \<Longrightarrow> get16 (put16 d i y) j = get16 d j"
  by (auto simp: get32_def put32_def get16_def put16_def)

subsection \<open>Byte-wise copies\<close>

text \<open>\<open>for (i = 0; i < n; i++) to[to_off + i] = from[from_off + i];\<close>\<close>

definition copy_loop :: "nat \<Rightarrow> nat \<Rightarrow> nat \<Rightarrow> 'a list \<Rightarrow> 'a list \<Rightarrow> 'a list" where
  "copy_loop n to_off from_off from to =
     fold (\<lambda>i d. d[to_off + i := from ! (from_off + i)]) [0..<n] to"

lemma copy_loop_eq:
  assumes "to_off + n \<le> length to" "from_off + n \<le> length from"
  shows "copy_loop n to_off from_off from to =
    take to_off to @ take n (drop from_off from) @ drop (to_off + n) to"
  using assms
proof (induction n)
  case (Suc n)
  have "copy_loop (Suc n) to_off from_off from to =
      (copy_loop n to_off from_off from to)[to_off + n := from ! (from_off + n)]"
    by (simp add: copy_loop_def)
  also have "\<dots> = (take to_off to @ take n (drop from_off from) @ drop (to_off + n) to)
      [to_off + n := from ! (from_off + n)]"
    using Suc by simp
  also have "\<dots> = take to_off to @ take n (drop from_off from) @
      (drop (to_off + n) to)[0 := from ! (from_off + n)]"
    using Suc.prems by (simp add: list_update_append)
  also have "(drop (to_off + n) to)[0 := from ! (from_off + n)] =
      from ! (from_off + n) # drop (to_off + Suc n) to"
    using Suc.prems by (simp flip: Cons_nth_drop_Suc)
  finally show ?case using Suc.prems by (simp add: take_Suc_conv_app_nth)
qed (simp add: copy_loop_def)

lemma copy_loop_length [simp]: "length (copy_loop n i j from to) = length to"
  unfolding copy_loop_def by (induction n) simp_all

lemma copy_whole: "length from = n \<Longrightarrow> length to = n \<Longrightarrow> copy_loop n 0 0 from to = from"
  by (simp add: copy_loop_eq)

end
