(* ===== verification/Disk_State.thy ===== *)
theory Disk_State
  imports Control Loops
begin

text \<open>
  The data of the block layers of the file system: \<open>include/kernel/param.h\<close>,
  \<open>kernel/fs/sleeplock.h\<close>, \<open>buffer.h\<close> and \<open>virtio_defs.h\<close>. A \<open>struct buf *\<close> is an index:
  the buffers of the cache are 0 to \<open>NBUF - 1\<close>, \<open>HEAD\<close> is \<open>&bcache.head\<close>. Memory
  that the disk device reads and writes is named by the object that holds it (\<open>vaddr\<close>).
\<close>

unbundle bit_operations_syntax

definition BSIZE :: nat where "BSIZE = 512"
definition NBUF :: nat where "NBUF = 30"
definition HEAD :: nat where "HEAD = NBUF"

subsection \<open>Sleep locks and wait channels\<close>

text \<open>The sleep locks of the kernel are those inside buffers and inodes.\<close>

datatype slid = SL_buf nat | SL_inode nat

fun inner :: "slid \<Rightarrow> lockid" where
  "inner (SL_buf i) = LK_buf_sleep i"
| "inner (SL_inode i) = LK_inode_sleep i"

record sleeplock =
  sl_locked :: int
  sl_name :: string
  sl_pid :: int

text \<open>The addresses that are used as channels of \<open>sleep\<close> and \<open>wakeup\<close>.\<close>

datatype chan =
    CH_sleep slid
  | CH_info nat
  | CH_buf nat
  | CH_log
  | CH_nread u64
  | CH_nwrite u64

subsection \<open>Buffers\<close>

definition B_VALID :: u32 where "B_VALID = 2"
definition B_DIRTY :: u32 where "B_DIRTY = 4"

record buf =
  b_flags :: u32
  b_dev :: u32
  b_blockno :: u32
  b_refcnt :: u32
  b_prev :: nat
  b_next :: nat
  b_data :: "u8 list"

lemma flag_bits [simp]: "B_VALID \<noteq> 0" "B_DIRTY \<noteq> 0"
  by (simp_all add: B_VALID_def B_DIRTY_def)

definition is_valid :: "buf \<Rightarrow> bool" where "is_valid b \<longleftrightarrow> b_flags b AND B_VALID \<noteq> 0"
definition is_dirty :: "buf \<Rightarrow> bool" where "is_dirty b \<longleftrightarrow> b_flags b AND B_DIRTY \<noteq> 0"

subsection \<open>The virtqueue\<close>

definition VIRTIO_RING_SIZE :: nat where "VIRTIO_RING_SIZE = 8"
definition VIRTQ_DESC_F_NEXT :: u16 where "VIRTQ_DESC_F_NEXT = 1"
definition VIRTQ_DESC_F_WRITE :: u16 where "VIRTQ_DESC_F_WRITE = 2"
definition VIRTIO_BLK_T_IN :: u32 where "VIRTIO_BLK_T_IN = 0"
definition VIRTIO_BLK_T_OUT :: u32 where "VIRTIO_BLK_T_OUT = 1"

datatype vaddr = A_null | A_op nat | A_data nat | A_status nat

record virtq_desc =
  d_addr :: vaddr
  d_len :: u32
  d_flags :: u16
  d_next :: u16

record virtio_blk_req =
  r_type :: u32
  r_reserved :: u32
  r_sector :: u64

text \<open>
  \<open>avail_idx\<close> and \<open>avail_ring\<close> are the driver ring, \<open>used_idx\<close> and \<open>used_ring\<close> (the ids)
  the device ring, \<open>info_b\<close> and \<open>info_status\<close> the array \<open>info\<close>, \<open>last_used\<close> the static
  \<open>used_idx\<close> of the interrupt handler. \<open>seen\<close> is the device's position in the driver ring.
\<close>

record virtq =
  desc :: "nat \<Rightarrow> virtq_desc"
  avail_idx :: u16
  avail_ring :: "nat \<Rightarrow> u16"
  used_idx :: u16
  used_ring :: "nat \<Rightarrow> u32"
  info_b :: "nat \<Rightarrow> nat option"
  info_status :: "nat \<Rightarrow> u8"
  ops :: "nat \<Rightarrow> virtio_blk_req"
  last_used :: u16
  seen :: u16

text \<open>The medium: its sectors, and (for statements about crashes) every write in order.\<close>

record medium =
  sectors :: "u64 \<Rightarrow> u8 list"
  writes :: "(u64 \<times> u8 list) list"

record disks = procs +
  sleeplk :: "slid \<Rightarrow> sleeplock"
  bufs :: "nat \<Rightarrow> buf"
  vq :: virtq
  disk :: medium
  mmio :: "(u64 \<times> u32) list"

subsection \<open>Updates\<close>

definition upd_buf :: "nat \<Rightarrow> (buf \<Rightarrow> buf) \<Rightarrow> 'a disks_scheme \<Rightarrow> 'a disks_scheme" where
  "upd_buf i f s = s\<lparr>bufs := (bufs s)(i := f (bufs s i))\<rparr>"

definition upd_sleep :: "slid \<Rightarrow> (sleeplock \<Rightarrow> sleeplock) \<Rightarrow> 'a disks_scheme \<Rightarrow> 'a disks_scheme" where
  "upd_sleep i f s = s\<lparr>sleeplk := (sleeplk s)(i := f (sleeplk s i))\<rparr>"

lemma upd_buf_sel [simp]:
  "bufs (upd_buf i f s) = (bufs s)(i := f (bufs s i))" "sleeplk (upd_buf i f s) = sleeplk s"
  "vq (upd_buf i f s) = vq s" "disk (upd_buf i f s) = disk s" "mmio (upd_buf i f s) = mmio s"
  "spin (upd_buf i f s) = spin s" "sie (upd_buf i f s) = sie s"
  "current_process (upd_buf i f s) = current_process s"
  "proc_table (upd_buf i f s) = proc_table s" "disks.more (upd_buf i f s) = disks.more s"
  by (simp_all add: upd_buf_def)

lemma upd_sleep_sel [simp]:
  "bufs (upd_sleep l f s) = bufs s" "sleeplk (upd_sleep l f s) = (sleeplk s)(l := f (sleeplk s l))"
  "vq (upd_sleep l f s) = vq s" "disk (upd_sleep l f s) = disk s" "mmio (upd_sleep l f s) = mmio s"
  "spin (upd_sleep l f s) = spin s" "sie (upd_sleep l f s) = sie s"
  "current_process (upd_sleep l f s) = current_process s"
  "proc_table (upd_sleep l f s) = proc_table s" "disks.more (upd_sleep l f s) = disks.more s"
  by (simp_all add: upd_sleep_def)

lemma intr_disks_sel [simp]:
  "bufs (intr_on s) = bufs s" "sleeplk (intr_on s) = sleeplk s" "vq (intr_on s) = vq s"
  "disk (intr_on s) = disk s" "mmio (intr_on s) = mmio s" "spin (intr_on s) = spin s"
  "current_process (intr_on s) = current_process s" "proc_table (intr_on s) = proc_table s"
  "disks.more (intr_on s) = disks.more s"
  "bufs (intr_off s) = bufs s" "sleeplk (intr_off s) = sleeplk s" "vq (intr_off s) = vq s"
  "disk (intr_off s) = disk s" "mmio (intr_off s) = mmio s" "spin (intr_off s) = spin s"
  "current_process (intr_off s) = current_process s" "proc_table (intr_off s) = proc_table s"
  "disks.more (intr_off s) = disks.more s"
  by (simp_all add: intr_on_def intr_off_def)

lemma set_locked_disks_sel [simp]:
  "bufs (set_locked l v s) = bufs s" "sleeplk (set_locked l v s) = sleeplk s"
  "vq (set_locked l v s) = vq s" "disk (set_locked l v s) = disk s"
  "mmio (set_locked l v s) = mmio s" "disks.more (set_locked l v s) = disks.more s"
  "current_process (set_locked l v s) = current_process s"
  "proc_table (set_locked l v s) = proc_table s"
  by (simp_all add: set_locked_def)

lemma wakeup_disks_sel [simp]:
  "bufs (wakeup c s) = bufs s" "sleeplk (wakeup c s) = sleeplk s" "vq (wakeup c s) = vq s"
  "disk (wakeup c s) = disk s" "mmio (wakeup c s) = mmio s" "spin (wakeup c s) = spin s"
  "sie (wakeup c s) = sie s" "current_process (wakeup c s) = current_process s"
  "disks.more (wakeup c s) = disks.more s"
  by (simp_all add: wakeup_def)

lemma held_disks [simp]:
  "spinlock_held l (upd_buf i f s) = spinlock_held l s"
  "spinlock_held l (upd_sleep j g s) = spinlock_held l s"
  "spinlock_held l (wakeup c s) = spinlock_held l s"
  by (simp_all add: spinlock_held_def)

subsection \<open>The running process and the locks\<close>

definition my_pid :: "'a disks_scheme \<Rightarrow> int option" where
  "my_pid s = (case current_process s of None \<Rightarrow> None | Some p \<Rightarrow> Some (pid (proc_at s p)))"

lemma my_pid_wakeup [simp]:
  assumes "\<And>p. current_process s = Some p \<Longrightarrow> p < length (proc_table s)"
  shows "my_pid (wakeup c s) = my_pid s"
  using assms by (auto simp: my_pid_def wakeup_def split: option.split)

lemma my_pid_sel [simp]:
  "my_pid (upd_buf i f s) = my_pid s" "my_pid (upd_sleep l g s) = my_pid s"
  "my_pid (intr_on s) = my_pid s" "my_pid (intr_off s) = my_pid s"
  "my_pid (set_locked k v s) = my_pid s"
  by (simp_all add: my_pid_def split: option.split)

text \<open>
  What a call of the file system changes outside its own data: the interrupt flag, and
  sleeping processes that become runnable. \<open>calm s t\<close> says that nothing else of the
  process and lock state differs.
\<close>

definition wake_step :: "proc \<Rightarrow> proc \<Rightarrow> bool" where
  "wake_step p q \<longleftrightarrow> q = p \<or> state p = PROC_SLEEPING \<and> q = p\<lparr>state := PROC_RUNNABLE\<rparr>"

definition calm :: "'a disks_scheme \<Rightarrow> 'b disks_scheme \<Rightarrow> bool" where
  "calm s t \<longleftrightarrow> spin t = spin s \<and> current_process t = current_process s \<and>
     list_all2 wake_step (proc_table s) (proc_table t)"

lemma wake_step_refl [simp]: "wake_step p p"
  by (simp add: wake_step_def)

lemma wake_step_trans: "wake_step p q \<Longrightarrow> wake_step q r \<Longrightarrow> wake_step p r"
  by (auto simp: wake_step_def)

lemma calm_refl [simp]: "calm s s"
  by (simp add: calm_def list.rel_refl)

lemma calm_trans [trans]: "calm s t \<Longrightarrow> calm t u \<Longrightarrow> calm s u"
  unfolding calm_def using list_all2_trans [of wake_step wake_step wake_step] wake_step_trans by metis

lemma calmI: "spin t = spin s \<Longrightarrow> current_process t = current_process s \<Longrightarrow>
    proc_table t = proc_table s \<Longrightarrow> calm s t"
  by (simp add: calm_def list.rel_refl)

lemma wakeup_steps: "list_all2 wake_step (proc_table s) (proc_table (wakeup c s))"
  by (auto simp: wakeup_def list_all2_conv_all_nth wake_step_def)

lemma calm_wakeup: "calm s t \<Longrightarrow> calm s (wakeup c t)"
  using calm_trans [of s t "wakeup c t"] by (simp add: calm_def wakeup_steps)

lemma calm_held: "calm s t \<Longrightarrow> spinlock_held l t = spinlock_held l s"
  by (simp add: calm_def spinlock_held_def)

definition on_cpu :: "'a disks_scheme \<Rightarrow> bool" where
  "on_cpu s \<longleftrightarrow> (\<exists>p. current_process s = Some p \<and> p < length (proc_table s))"

lemma calm_my_pid: "calm s t \<Longrightarrow> on_cpu s \<Longrightarrow> my_pid t = my_pid s"
  by (auto simp: calm_def on_cpu_def my_pid_def list_all2_conv_all_nth wake_step_def)

lemma calm_on_cpu: "calm s t \<Longrightarrow> on_cpu t = on_cpu s"
  by (auto simp: calm_def on_cpu_def list_all2_lengthD)

text \<open>All the locks outside pipes are free.\<close>

definition locks_free :: "'a disks_scheme \<Rightarrow> bool" where
  "locks_free s \<longleftrightarrow> (\<forall>l. (\<forall>a. l \<noteq> LK_pipe a) \<longrightarrow> spinlock_held l s = 0)"

lemma locks_freeD:
  assumes "locks_free s"
  shows "spinlock_held LK_bcache s = 0" "spinlock_held LK_log s = 0" "spinlock_held LK_icache s = 0"
    "spinlock_held LK_ftable s = 0" "spinlock_held LK_disk s = 0"
    "spinlock_held (inner i) s = 0"
  using assms by (cases i; auto simp: locks_free_def)+

lemma calm_locks_free: "calm s t \<Longrightarrow> locks_free t = locks_free s"
  by (simp add: locks_free_def calm_held)

text \<open>A critical section that leaves the lock table as it was.\<close>

lemma calm_critical:
  assumes "spinlock_held l s = 0" "calm (set_locked l 1 (intr_off s)) t"
  shows "calm s (intr_on (set_locked l 0 t))"
proof -
  have "spin (set_locked l 0 t) = spin s"
  proof -
    have "(spin s)(l := (spin s l)\<lparr>locked := 0\<rparr>) = spin s"
      using assms(1) by (simp add: spinlock_held_def fun_upd_idem_iff)
    moreover have "spin (set_locked l 0 t) = (spin s)(l := (spin s l)\<lparr>locked := 0\<rparr>)"
      using assms(2) by (simp add: calm_def set_locked_def intr_off_def)
    ultimately show ?thesis by simp
  qed
  then show ?thesis using assms(2) by (simp add: calm_def)
qed

end
