(* ===== verification/Linked_Buffers.thy ===== *)
theory Linked_Buffers
  imports Disk_State
begin

text \<open>
  The doubly linked list of the buffer cache, \<open>kernel/fs/buffer.c\<close>: circular through
  \<open>bcache.head\<close>, most recently used buffer first. The pointers refine a list of buffer
  numbers (\<open>lru\<close>).
\<close>

subsection \<open>Pointer operations\<close>

text \<open>\<open>b->next->prev = b->prev; b->prev->next = b->next;\<close>\<close>

definition unlink :: "nat \<Rightarrow> (nat \<Rightarrow> buf) \<Rightarrow> (nat \<Rightarrow> buf)" where
  "unlink i B =
     (let B1 = B(b_next (B i) := (B (b_next (B i)))\<lparr>b_prev := b_prev (B i)\<rparr>)
      in B1(b_prev (B1 i) := (B1 (b_prev (B1 i)))\<lparr>b_next := b_next (B1 i)\<rparr>))"

text \<open>\<open>b->next = head.next; b->prev = &head; head.next->prev = b; head.next = b;\<close>\<close>

definition insert_front :: "nat \<Rightarrow> (nat \<Rightarrow> buf) \<Rightarrow> (nat \<Rightarrow> buf)" where
  "insert_front i B =
     (let B1 = B(i := (B i)\<lparr>b_next := b_next (B HEAD), b_prev := HEAD\<rparr>);
          B2 = B1(b_next (B1 HEAD) := (B1 (b_next (B1 HEAD)))\<lparr>b_prev := i\<rparr>)
      in B2(HEAD := (B2 HEAD)\<lparr>b_next := i\<rparr>))"

text \<open>\<open>for (b = start; b != &head; b = step(b)) if (p(b)) return b;\<close> \<open>None\<close> is a search that
  never ends.\<close>

partial_function (option) search :: "(buf \<Rightarrow> nat) \<Rightarrow> (buf \<Rightarrow> bool) \<Rightarrow> (nat \<Rightarrow> buf) \<Rightarrow> nat \<Rightarrow> nat option option" where
  "search step p B i =
     (if i = HEAD then Some None
      else if p (B i) then Some (Some i) else search step p B (step (B i)))"

subsection \<open>Paths\<close>

fun path :: "(nat \<Rightarrow> nat) \<Rightarrow> nat list \<Rightarrow> bool" where
  "path f (a # b # xs) \<longleftrightarrow> f a = b \<and> path f (b # xs)"
| "path f xs \<longleftrightarrow> True"

lemma path_append: "path f (xs @ a # ys) \<longleftrightarrow> path f (xs @ [a]) \<and> path f (a # ys)"
  by (induction f xs rule: path.induct) (auto simp: neq_Nil_conv split: list.splits)

lemma path_upd: "p \<notin> set (butlast xs) \<Longrightarrow> path (f(p := v)) xs \<longleftrightarrow> path f xs"
  by (induction f xs rule: path.induct) auto

definition lru :: "(nat \<Rightarrow> buf) \<Rightarrow> nat list \<Rightarrow> bool" where
  "lru B L \<longleftrightarrow> path (\<lambda>i. b_next (B i)) (HEAD # L @ [HEAD]) \<and>
     path (\<lambda>i. b_prev (B i)) (HEAD # rev L @ [HEAD]) \<and> distinct L \<and> HEAD \<notin> set L"

text \<open>The search finds the first match in list order, and ends.\<close>

lemma search_path:
  assumes "path (\<lambda>i. step (B i)) (i # xs @ [HEAD])" "HEAD \<notin> set xs"
  shows "search step p B (step (B i)) = Some (find (\<lambda>i. p (B i)) xs)"
  using assms
proof (induction xs arbitrary: i)
  case Nil
  then show ?case by (subst search.simps) simp
next
  case (Cons x xs)
  then have "step (B i) = x" "x \<noteq> HEAD" by auto
  then show ?case using Cons by (subst search.simps) simp
qed

lemma find_SomeD: "find p xs = Some x \<Longrightarrow> x \<in> set xs \<and> p x"
  by (induction xs) (auto split: if_splits)

lemma search_next: "lru B L \<Longrightarrow> search b_next p B (b_next (B HEAD)) = Some (find (\<lambda>i. p (B i)) L)"
  by (intro search_path) (auto simp: lru_def)

lemma search_prev: "lru B L \<Longrightarrow> search b_prev p B (b_prev (B HEAD)) = Some (find (\<lambda>i. p (B i)) (rev L))"
  by (intro search_path) (auto simp: lru_def)

subsection \<open>The pointer operations on the list\<close>

text \<open>What a buffer holds beside its links.\<close>

definition payload :: "buf \<Rightarrow> u32 \<times> u32 \<times> u32 \<times> u32 \<times> u8 list" where
  "payload b = (b_flags b, b_dev b, b_blockno b, b_refcnt b, b_data b)"

lemma payload_upd [simp]:
  "payload (b\<lparr>b_next := n\<rparr>) = payload b" "payload (b\<lparr>b_prev := n\<rparr>) = payload b"
  by (simp_all add: payload_def)

lemma payload_links [simp]:
  "payload (unlink i B j) = payload (B j)" "payload (insert_front i B j) = payload (B j)"
  by (simp_all add: unlink_def insert_front_def Let_def payload_def)

lemma payloadD:
  "payload b = payload c \<Longrightarrow> b_flags b = b_flags c \<and> b_dev b = b_dev c \<and> b_blockno b = b_blockno c \<and>
     b_refcnt b = b_refcnt c \<and> b_data b = b_data c"
  by (simp add: payload_def)

lemma unlink_links:
  assumes "b_next (B i) \<noteq> i" "b_prev (B i) \<noteq> i"
  shows "(\<lambda>j. b_next (unlink i B j)) = (\<lambda>j. b_next (B j))(b_prev (B i) := b_next (B i))"
    "(\<lambda>j. b_prev (unlink i B j)) = (\<lambda>j. b_prev (B j))(b_next (B i) := b_prev (B i))"
  using assms by (auto simp: unlink_def Let_def)

lemma insert_links:
  assumes "i \<noteq> HEAD" "b_next (B HEAD) \<noteq> i"
  shows "(\<lambda>j. b_next (insert_front i B j)) = (\<lambda>j. b_next (B j))(i := b_next (B HEAD), HEAD := i)"
    "(\<lambda>j. b_prev (insert_front i B j)) = (\<lambda>j. b_prev (B j))(i := HEAD, b_next (B HEAD) := i)"
  using assms by (auto simp: insert_front_def Let_def)

lemma path_skip:
  assumes "path f (us @ [p, i, n] @ vs)" "p \<notin> set us" "p \<notin> set (butlast (n # vs))"
  shows "path (f(p := n)) (us @ [p, n] @ vs)"
proof -
  have "path f (us @ [p])" "path f (n # vs)"
    using assms(1) path_append [of f us p "[i, n] @ vs"] path_append [of f "[p, i]" n vs] by auto
  then have "path (f(p := n)) (us @ [p])" "path (f(p := n)) (n # vs)"
    using assms(2,3) path_upd [of p "us @ [p]" f n] path_upd [of p "n # vs" f n] by auto
  then show ?thesis using path_append [of "f(p := n)" us p "n # vs"] by simp
qed

text \<open>The neighbours of an element of the circular list.\<close>

lemma neighbours:
  assumes "distinct (xs @ i # ys)" "HEAD \<notin> set (xs @ i # ys)"
  obtains us p n vs where "HEAD # (xs @ i # ys) @ [HEAD] = us @ [p, i, n] @ vs"
    "us @ [p] = HEAD # xs" "n # vs = ys @ [HEAD]" "p \<notin> set us" "p \<notin> set (butlast (n # vs))"
    "n \<notin> set vs" "n \<notin> set (tl (us @ [p]))" "p \<noteq> i" "n \<noteq> i"
proof -
  obtain us p where up: "us @ [p] = HEAD # xs" by (metis append_butlast_last_id list.distinct(1))
  obtain n vs where nv: "n # vs = ys @ [HEAD]" by (cases ys) auto
  have dist: "distinct (us @ [p])" using assms up by (simp only: up) simp
  have dist2: "distinct (n # vs)" using assms nv by (simp only: nv) simp
  have "HEAD # (xs @ i # ys) @ [HEAD] = (HEAD # xs) @ i # (ys @ [HEAD])" by simp
  then have eq: "HEAD # (xs @ i # ys) @ [HEAD] = us @ [p, i, n] @ vs" by (simp flip: up nv)
  have "set (us @ [p]) = insert HEAD (set xs)" by (simp only: up) simp
  then have p: "p \<in> insert HEAD (set xs)" by auto
  have bl: "butlast (n # vs) = ys" by (simp only: nv) simp
  have tl: "tl (us @ [p]) = xs" by (simp only: up) simp
  have n: "n \<in> insert HEAD (set ys)" using arg_cong [OF nv, of set] by auto
  have pn: "p \<notin> set us" "n \<notin> set vs" using dist dist2 by simp_all
  have "p \<notin> set (butlast (n # vs))" unfolding bl using p assms by auto
  moreover have "n \<notin> set (tl (us @ [p]))" unfolding tl using n assms by auto
  moreover have "p \<noteq> i" "n \<noteq> i" using p n assms by auto
  ultimately show ?thesis using that eq up nv pn by blast
qed

lemma lru_unlink:
  assumes "lru B (xs @ i # ys)"
  shows "lru (unlink i B) (xs @ ys)"
proof -
  have d: "distinct (xs @ i # ys)" "HEAD \<notin> set (xs @ i # ys)" using assms by (auto simp: lru_def)
  obtain us p n vs where nb: "HEAD # (xs @ i # ys) @ [HEAD] = us @ [p, i, n] @ vs"
    "us @ [p] = HEAD # xs" "n # vs = ys @ [HEAD]" "p \<notin> set us" "p \<notin> set (butlast (n # vs))"
    "n \<notin> set vs" "n \<notin> set (tl (us @ [p]))" "p \<noteq> i" "n \<noteq> i"
    using neighbours [OF d] by metis
  let ?f = "\<lambda>j. b_next (B j)" and ?g = "\<lambda>j. b_prev (B j)"
  have f: "path ?f (us @ [p, i, n] @ vs)" using assms nb(1) by (simp add: lru_def)
  have r: "HEAD # rev (xs @ i # ys) @ [HEAD] = rev vs @ [n, i, p] @ rev us"
    using arg_cong [OF nb(1), of rev] by simp
  have "path ?g (HEAD # rev (xs @ i # ys) @ [HEAD])" using assms by (simp only: lru_def)
  then have g: "path ?g (rev vs @ [n, i, p] @ rev us)" unfolding r .
  have fi: "?f i = n" using f path_append [of ?f "us @ [p]" i "n # vs"] by simp
  have gi: "?g i = p" using g path_append [of ?g "rev vs @ [n]" i "p # rev us"] by simp
  note l = unlink_links [of B i, unfolded fi gi, OF nb(9,8)]
  have "path (?f(p := n)) (us @ [p, n] @ vs)" using path_skip [OF f nb(4,5)] .
  moreover have "us @ [p, n] @ vs = HEAD # (xs @ ys) @ [HEAD]"
  proof -
    have "us @ [p, n] @ vs = (us @ [p]) @ (n # vs)" by simp
    then show ?thesis by (simp only: nb(2,3)) simp
  qed
  moreover have "path (?g(n := p)) (rev vs @ [n, p] @ rev us)"
  proof (rule path_skip [OF g])
    show "n \<notin> set (rev vs)" using nb(6) by simp
    have "butlast (p # rev us) = rev (tl (us @ [p]))"
      by (metis butlast_rev rev.simps(2) rev_append rev_rev_ident append_Cons append_Nil)
    then show "n \<notin> set (butlast (p # rev us))" using nb(7) by simp
  qed
  moreover have "rev vs @ [n, p] @ rev us = HEAD # rev (xs @ ys) @ [HEAD]"
  proof -
    have "rev vs @ [n, p] @ rev us = rev (n # vs) @ rev (us @ [p])" by simp
    then show ?thesis by (simp only: nb(2,3)) simp
  qed
  ultimately show ?thesis using d by (simp add: lru_def l)
qed

lemma lru_insert_front:
  assumes "lru B L" "i \<notin> set L" "i \<noteq> HEAD"
  shows "lru (insert_front i B) (i # L)"
proof -
  let ?f = "\<lambda>j. b_next (B j)" and ?g = "\<lambda>j. b_prev (B j)"
  obtain h vs where hv: "h # vs = L @ [HEAD]" by (cases L) auto
  have f: "path ?f (HEAD # h # vs)" using assms(1) by (simp add: lru_def hv)
  have r: "HEAD # rev L @ [HEAD] = rev vs @ [h, HEAD]"
    using arg_cong [OF hv, of rev] by simp
  have g: "path ?g (rev vs @ [h, HEAD])" using assms(1) by (simp add: lru_def r)
  have h: "?f HEAD = h" using f by simp
  have bl: "butlast (h # vs) = L" by (simp only: hv) simp
  have "h \<in> insert HEAD (set L)" "set vs \<subseteq> insert HEAD (set L)"
    using arg_cong [OF hv, of set] by auto
  have hi: "h \<noteq> i" "i \<notin> set vs" using assms(2,3) \<open>h \<in> _\<close> \<open>set vs \<subseteq> _\<close> by auto
  have "distinct (h # vs)" using assms(1) by (simp add: hv lru_def)
  then have hd: "h \<notin> set vs" by simp
  note l = insert_links [of i B, unfolded h, OF assms(3) hi(1)]
  have "path ?f (h # vs)" using f by simp
  moreover have "i \<notin> set (butlast (h # vs))" "HEAD \<notin> set (butlast (h # vs))"
    unfolding bl using assms by (simp_all add: lru_def)
  ultimately have "path (?f(i := h, HEAD := i)) (h # vs)" by (simp only: path_upd simp_thms)
  then have "path (?f(i := h, HEAD := i)) (HEAD # (i # L) @ [HEAD])"
    using assms(3) by (simp flip: hv)
  moreover have "path (?g(i := HEAD, h := i)) (HEAD # rev (i # L) @ [HEAD])"
  proof -
    have "path (?g(i := HEAD, h := i)) (rev vs @ [h])"
      using g path_append [of ?g "rev vs" h "[HEAD]"] hd hi by (simp add: path_upd)
    moreover have "HEAD # rev (i # L) @ [HEAD] = rev vs @ h # [i, HEAD]"
      using r by simp
    moreover have "path (?g(i := HEAD, h := i)) (h # [i, HEAD])" using hi by simp
    ultimately show ?thesis by (simp only: path_append [of _ "rev vs" h "[i, HEAD]"])
  qed
  ultimately show ?thesis using assms by (simp add: lru_def l)
qed

lemma lru_front: "lru B (xs @ i # ys) \<Longrightarrow> lru (insert_front i (unlink i B)) (i # xs @ ys)"
proof -
  assume l: "lru B (xs @ i # ys)"
  then have "i \<notin> set (xs @ ys)" "i \<noteq> HEAD" by (auto simp: lru_def)
  then show ?thesis using lru_insert_front [OF lru_unlink [OF l]] by simp
qed

lemma lru_cong: "(\<And>i. b_next (C i) = b_next (B i)) \<Longrightarrow> (\<And>i. b_prev (C i) = b_prev (B i)) \<Longrightarrow>
    lru C L = lru B L"
  by (simp add: lru_def)

end
