(* ===== verification/Sleeplock.thy ===== *)
theory Sleeplock
  imports Disk_State
begin

text \<open>
  \<open>kernel/fs/sleeplock.c\<close>. Every operation of the file system that may sleep takes the
  behaviour of \<open>sleep\<close> as the argument \<open>slp\<close>: \<open>kernel_sleep\<close> is the kernel's own, which
  gives the CPU to \<open>scheduler\<close> and does not come back; the contract its callers are
  written for (release the lock, be woken, take it again) is another instance.
\<close>

type_synonym 's sleeper = "chan \<Rightarrow> lockid \<Rightarrow> 's \<Rightarrow> (unit, 's) outcome"

definition kernel_sleep :: "'a procs_scheme sleeper" where
  "kernel_sleep c l s = sleep c (Some l) s"

definition sleeplock_init :: "slid \<Rightarrow> string \<Rightarrow> 'a disks_scheme \<Rightarrow> 'a disks_scheme" where
  "sleeplock_init lk name s =
     spinlock_init (inner lk) ''sleeplock''
       (upd_sleep lk (\<lambda>l. l\<lparr>sl_locked := 0, sl_name := name, sl_pid := 0\<rparr>) s)"

definition take_sleeplock :: "slid \<Rightarrow> 'a disks_scheme \<Rightarrow> 'a disks_scheme" where
  "take_sleeplock lk s =
     (let s1 = upd_sleep lk (sl_locked_update (\<lambda>_. 1)) s
      in case current_process s1 of
           None \<Rightarrow> s1
         | Some p \<Rightarrow> upd_sleep lk (sl_pid_update (\<lambda>_. pid (proc_at s1 p))) s1)"

definition sleeplock_acquire ::
    "'a disks_scheme sleeper \<Rightarrow> slid \<Rightarrow> 'a disks_scheme \<Rightarrow> (unit, 'a disks_scheme) outcome" where
  "sleeplock_acquire slp lk s =
     bind_out (spinlock_acquire (inner lk) s) (\<lambda>_ s1.
     bind_out (while_out (\<lambda>s. sl_locked (sleeplk s lk) \<noteq> 0) (slp (CH_sleep lk) (inner lk)) s1) (\<lambda>_ s2.
     spinlock_release (inner lk) (take_sleeplock lk s2)))"

definition sleeplock_release :: "slid \<Rightarrow> 'a disks_scheme \<Rightarrow> (unit, 'a disks_scheme) outcome" where
  "sleeplock_release lk s =
     bind_out (spinlock_acquire (inner lk) s) (\<lambda>_ s1.
     spinlock_release (inner lk)
       (wakeup (CH_sleep lk) (upd_sleep lk (\<lambda>l. l\<lparr>sl_locked := 0, sl_pid := 0\<rparr>) s1)))"

definition sleeplock_held :: "slid \<Rightarrow> 'a disks_scheme \<Rightarrow> (bool, 'a disks_scheme) outcome" where
  "sleeplock_held lk s =
     bind_out (spinlock_acquire (inner lk) s) (\<lambda>_ s1.
     let r = (sl_locked (sleeplk s1 lk) \<noteq> 0 \<and> current_process s1 \<noteq> None \<and>
              my_pid s1 = Some (sl_pid (sleeplk s1 lk)))
     in bind_out (spinlock_release (inner lk) s1) (\<lambda>_ s2. Ret r s2))"

subsection \<open>Behaviour on one hart\<close>

definition owns_sleep :: "'a disks_scheme \<Rightarrow> slid \<Rightarrow> bool" where
  "owns_sleep s lk \<longleftrightarrow> sl_locked (sleeplk s lk) \<noteq> 0 \<and> my_pid s = Some (sl_pid (sleeplk s lk))"

definition sleep_free :: "'a disks_scheme \<Rightarrow> slid \<Rightarrow> bool" where
  "sleep_free s lk \<longleftrightarrow> sl_locked (sleeplk s lk) = 0"

lemma critical:
  "spinlock_held l s = 0 \<Longrightarrow> set_locked l 0 (set_locked l 1 s) = s"
  by (simp add: set_locked_same)

lemma sleeplock_acquire_free:
  assumes "spinlock_held (inner lk) s = 0" "sleep_free s lk"
  shows "sleeplock_acquire slp lk s =
    Ret () (intr_on (set_locked (inner lk) 0 (take_sleeplock lk (set_locked (inner lk) 1 (intr_off s)))))"
  using assms
  by (simp add: sleeplock_acquire_def acquire_eq spinlock_release_def sleep_free_def
      take_sleeplock_def Let_def split: option.split)

lemma take_sleeplock_sel [simp]:
  "bufs (take_sleeplock l s) = bufs s" "vq (take_sleeplock l s) = vq s"
  "disk (take_sleeplock l s) = disk s" "mmio (take_sleeplock l s) = mmio s"
  "spin (take_sleeplock l s) = spin s" "current_process (take_sleeplock l s) = current_process s"
  "proc_table (take_sleeplock l s) = proc_table s" "disks.more (take_sleeplock l s) = disks.more s"
  "k \<noteq> l \<Longrightarrow> sleeplk (take_sleeplock l s) k = sleeplk s k"
  by (simp_all add: take_sleeplock_def Let_def split: option.split)

lemma take_sleeplock_owns: "on_cpu s \<Longrightarrow> owns_sleep (take_sleeplock lk s) lk"
  by (auto simp: owns_sleep_def take_sleeplock_def Let_def on_cpu_def my_pid_def)

lemma owns_sleep_cong: "sleeplk t lk = sleeplk s lk \<Longrightarrow> my_pid t = my_pid s \<Longrightarrow>
    owns_sleep t lk = owns_sleep s lk"
  by (simp add: owns_sleep_def)

text \<open>What an operation leaves alone when it only takes or gives back sleep locks.\<close>

definition same_blocks :: "'a disks_scheme \<Rightarrow> 'a disks_scheme \<Rightarrow> bool" where
  "same_blocks s t \<longleftrightarrow> bufs t = bufs s \<and> vq t = vq s \<and> disk t = disk s \<and> mmio t = mmio s \<and>
     disks.more t = disks.more s"

lemma acquire_spec:
  assumes "locks_free s" "sleep_free s lk" "on_cpu s"
  shows "\<exists>t. sleeplock_acquire slp lk s = Ret () t \<and> owns_sleep t lk \<and> calm s t \<and> same_blocks s t \<and>
    (\<forall>k. k \<noteq> lk \<longrightarrow> sleeplk t k = sleeplk s k)"
proof -
  let ?u = "take_sleeplock lk (set_locked (inner lk) 1 (intr_off s))"
  have h: "spinlock_held (inner lk) s = 0" using assms(1) by (rule locks_freeD)
  have "calm (set_locked (inner lk) 1 (intr_off s)) ?u" by (rule calmI) simp_all
  then have "calm s (intr_on (set_locked (inner lk) 0 ?u))" by (rule calm_critical [OF h])
  moreover have "owns_sleep (intr_on (set_locked (inner lk) 0 ?u)) lk"
  proof -
    have "on_cpu (set_locked (inner lk) 1 (intr_off s))" using assms(3) by (simp add: on_cpu_def)
    then have "owns_sleep ?u lk" by (rule take_sleeplock_owns)
    then show ?thesis by (simp add: owns_sleep_def)
  qed
  ultimately show ?thesis
    using sleeplock_acquire_free [OF h assms(2)] by (simp add: same_blocks_def)
qed

lemma release_spec:
  assumes "locks_free s"
  shows "\<exists>t. sleeplock_release lk s = Ret () t \<and> sleep_free t lk \<and> calm s t \<and> same_blocks s t \<and>
    (\<forall>k. k \<noteq> lk \<longrightarrow> sleeplk t k = sleeplk s k)"
proof -
  have h: "spinlock_held (inner lk) s = 0" using assms(1) by (rule locks_freeD)
  let ?u = "wakeup (CH_sleep lk) (upd_sleep lk (\<lambda>l. l\<lparr>sl_locked := 0, sl_pid := 0\<rparr>)
      (set_locked (inner lk) 1 (intr_off s)))"
  have "calm (set_locked (inner lk) 1 (intr_off s)) ?u" by (intro calm_wakeup calmI) simp_all
  then have "calm s (intr_on (set_locked (inner lk) 0 ?u))" by (rule calm_critical [OF h])
  then show ?thesis using h
    by (simp add: sleeplock_release_def acquire_eq spinlock_release_def sleep_free_def same_blocks_def)
qed

lemma held_spec:
  assumes "locks_free s"
  shows "\<exists>t. sleeplock_held lk s = Ret (owns_sleep s lk) t \<and> calm s t \<and> same_blocks s t \<and>
    sleeplk t = sleeplk s"
proof -
  have h: "spinlock_held (inner lk) s = 0" using assms(1) by (rule locks_freeD)
  have "calm s (intr_on (set_locked (inner lk) 0 (set_locked (inner lk) 1 (intr_off s))))"
    by (rule calm_critical [OF h]) simp
  moreover have "my_pid s = Some x \<Longrightarrow> current_process s \<noteq> None" for x
    by (auto simp: my_pid_def split: option.splits)
  ultimately show ?thesis using h
    by (auto simp: sleeplock_held_def acquire_eq spinlock_release_def Let_def owns_sleep_def
        same_blocks_def)
qed

subsection \<open>Properties\<close>

text \<open>A free sleep lock is taken without sleeping, whatever \<open>sleep\<close> does; the running process
  then holds it, no other lock changes, and releasing it makes it free again. The two calls leave
  every spin lock, the buffers and the disk as they were.\<close>

theorem sleeplock_roundtrip:
  assumes "locks_free s" "sleep_free s lk" "on_cpu s"
  shows "\<exists>t u. sleeplock_acquire slp lk s = Ret () t \<and>
    (\<exists>t'. sleeplock_held lk t = Ret True t') \<and>
    sleeplock_release lk t = Ret () u \<and> sleep_free u lk \<and> calm s u \<and> same_blocks s u \<and>
    (\<forall>k. k \<noteq> lk \<longrightarrow> sleeplk u k = sleeplk s k)"
proof -
  obtain t where t: "sleeplock_acquire slp lk s = Ret () t" "owns_sleep t lk" "calm s t"
    "same_blocks s t" "\<forall>k. k \<noteq> lk \<longrightarrow> sleeplk t k = sleeplk s k"
    using acquire_spec [OF assms] by blast
  have lf: "locks_free t" using calm_locks_free [OF t(3)] assms(1) by simp
  obtain u where u: "sleeplock_release lk t = Ret () u" "sleep_free u lk" "calm t u"
    "same_blocks t u" "\<forall>k. k \<noteq> lk \<longrightarrow> sleeplk u k = sleeplk t k"
    using release_spec [OF lf] by blast
  have "\<exists>t'. sleeplock_held lk t = Ret True t'" using held_spec [OF lf, of lk] t(2) by auto
  moreover have "calm s u" using t(3) u(3) by (rule calm_trans)
  moreover have "same_blocks s u" using t(4) u(4) by (simp add: same_blocks_def)
  ultimately show ?thesis using t u by auto
qed

text \<open>A sleep lock that is taken is never acquired with the kernel's own \<open>sleep\<close>. A running
  process is marked sleeping with interrupts on and the lock's spin lock free, and
  the call does not come back to take the lock; without a current process the call keeps
  looping with the spin lock held and interrupts off.\<close>

theorem sleeplock_contention_never_returns:
  assumes "spinlock_held (inner lk) s = 0" "\<not> sleep_free s lk"
  shows "(\<forall>p. current_process s = Some p \<and> p < length (proc_table s) \<longrightarrow>
      (\<exists>t. sleeplock_acquire kernel_sleep lk s = Stop Rescheduled t \<and>
         state (proc_at t p) = PROC_SLEEPING \<and> spinlock_held (inner lk) t = 0 \<and> sie t \<and>
         sleeplk t = sleeplk s)) \<and>
    (current_process s = None \<longrightarrow>
      (\<exists>t. sleeplock_acquire kernel_sleep lk s = Stop SpinsForever t \<and>
         spinlock_held (inner lk) t \<noteq> 0 \<and> \<not> sie t))"
proof (intro conjI allI impI)
  let ?s1 = "set_locked (inner lk) 1 (intr_off s)"
  let ?b = "\<lambda>s. sl_locked (sleeplk s lk) \<noteq> 0"
  have b: "?b ?s1" using assms(2) by (simp add: sleep_free_def)
  have acq: "spinlock_acquire (inner lk) s = Ret () ?s1" using assms(1) by (simp add: acquire_eq)
  { fix p assume p: "current_process s = Some p \<and> p < length (proc_table s)"
    let ?t = "sleep_commit p (intr_on (set_locked (inner lk) 0 ?s1))"
    have "kernel_sleep (CH_sleep lk) (inner lk) ?s1 = Stop Rescheduled ?t"
      using p by (simp add: kernel_sleep_def sleep_def sleep_unlock_def spinlock_release_def)
    then have "sleeplock_acquire kernel_sleep lk s = Stop Rescheduled ?t"
      using acq while_out_stop [where b = ?b, OF b] by (simp add: sleeplock_acquire_def)
    moreover have "sleeplk ?t = sleeplk s" by (simp add: sleep_commit_def upd_proc_def)
    ultimately show "\<exists>t. sleeplock_acquire kernel_sleep lk s = Stop Rescheduled t \<and>
         state (proc_at t p) = PROC_SLEEPING \<and> spinlock_held (inner lk) t = 0 \<and> sie t \<and>
         sleeplk t = sleeplk s"
      using p by (simp add: sleep_commit_def spinlock_held_def set_locked_def) }
  assume "current_process s = None"
  then have "kernel_sleep (CH_sleep lk) (inner lk) ?s1 = Ret () ?s1"
    by (simp add: kernel_sleep_def sleep_def)
  then have "sleeplock_acquire kernel_sleep lk s = Stop SpinsForever ?s1"
    using acq while_out_forever [where b = ?b, OF b] by (simp add: sleeplock_acquire_def)
  then show "\<exists>t. sleeplock_acquire kernel_sleep lk s = Stop SpinsForever t \<and>
         spinlock_held (inner lk) t \<noteq> 0 \<and> \<not> sie t" by simp
qed

end
