(* ===== verification/Virtio.thy ===== *)
theory Virtio
  imports Sleeplock
begin

text \<open>
  \<open>kernel/fs/virtio_disk.c\<close>: the driver of the VirtIO block device. A request is three
  descriptors in a chain; its completion is reported by the interrupt handler. The device
  is a parameter (\<open>serve\<close>): \<open>obeys_virtio\<close> states what the VirtIO specification says a block
  device does with one submitted request.
\<close>

unbundle bit_operations_syntax

subsection \<open>Registers\<close>

definition VIRTIO0 :: u64 where "VIRTIO0 = 0x10001000"
definition VIRTIO_MMIO_QUEUE_NOTIFY :: u64 where "VIRTIO_MMIO_QUEUE_NOTIFY = 0x050"
definition VIRTIO_MMIO_INTERRUPT_ACK :: u64 where "VIRTIO_MMIO_INTERRUPT_ACK = 0x064"

definition write_reg :: "u64 \<Rightarrow> u32 \<Rightarrow> 'a disks_scheme \<Rightarrow> 'a disks_scheme" where
  "write_reg r v s = s\<lparr>mmio := mmio s @ [(VIRTIO0 + r, v)]\<rparr>"

definition set_vq :: "(virtq \<Rightarrow> virtq) \<Rightarrow> 'a disks_scheme \<Rightarrow> 'a disks_scheme" where
  "set_vq f s = s\<lparr>vq := f (vq s)\<rparr>"

subsection \<open>Descriptors\<close>

definition alloc_desc :: "virtq \<Rightarrow> int" where
  "alloc_desc q =
     (case scan_from (\<lambda>i. info_b q i = None) 0 VIRTIO_RING_SIZE of Some i \<Rightarrow> int i | None \<Rightarrow> - 1)"

definition clear_desc :: "nat \<Rightarrow> virtq \<Rightarrow> virtq" where
  "clear_desc i q =
     q\<lparr>desc := (desc q)(i := \<lparr>d_addr = A_null, d_len = 0, d_flags = 0, d_next = 0\<rparr>),
       info_b := (info_b q)(i := None)\<rparr>"

definition free_desc :: "nat \<Rightarrow> 'a disks_scheme \<Rightarrow> 'a disks_scheme" where
  "free_desc i s = wakeup (CH_info i) (set_vq (clear_desc i) s)"

text \<open>One attempt at three descriptors. An entry of \<open>idx\<close> is \<open>None\<close> before the first
  assignment to it.\<close>

fun grab :: "nat \<Rightarrow> nat \<Rightarrow> nat \<Rightarrow> int option list \<Rightarrow> virtq \<Rightarrow> int option list \<times> bool \<times> virtq" where
  "grab b i 0 idx q = (idx, True, q)"
| "grab b i (Suc n) idx q =
     (let v = alloc_desc q; idx' = idx[i := Some v]
      in if v < 0 then (idx', False, q)
         else grab b (Suc i) n idx' (q\<lparr>info_b := (info_b q)(nat v := Some b)\<rparr>))"

text \<open>Giving back after a failed attempt tests every entry; an unassigned one is undefined.\<close>

definition give_back :: "int option list \<Rightarrow> 'a disks_scheme \<Rightarrow> (unit, 'a disks_scheme) outcome" where
  "give_back idx =
     for_out 0 3 (\<lambda>i s. case idx ! i of
         None \<Rightarrow> Stop OutOfBounds s
       | Some v \<Rightarrow> Ret () (if v \<ge> 0 then free_desc (nat v) s else s))"

definition alloc3_desc :: "'a disks_scheme sleeper \<Rightarrow> nat \<Rightarrow> 'a disks_scheme \<Rightarrow>
    (int option list, 'a disks_scheme) outcome" where
  "alloc3_desc slp b s =
     loop_out (\<lambda>idx s.
       case grab b 0 3 idx (vq s) of (idx', ok, q) \<Rightarrow>
         let s1 = s\<lparr>vq := q\<rparr>
         in if ok then Ret (Inr idx') s1
            else bind_out (give_back idx' s1) (\<lambda>_ s2.
                 bind_out (slp (CH_info 0) LK_disk s2) (\<lambda>_ s3. Ret (Inl idx') s3)))
       [None, None, None] s"

subsection \<open>Requests\<close>

text \<open>Filling the request, the three descriptors and the driver ring (lines 162 to 194).\<close>

definition fill_request :: "nat \<Rightarrow> nat \<Rightarrow> nat \<Rightarrow> nat \<Rightarrow> bool \<Rightarrow> u64 \<Rightarrow> virtq \<Rightarrow> virtq" where
  "fill_request i0 i1 i2 b write sector q =
     q\<lparr>ops := (ops q)(i0 := \<lparr>r_type = (if write then VIRTIO_BLK_T_OUT else VIRTIO_BLK_T_IN),
                              r_reserved = 0, r_sector = sector\<rparr>),
       desc := (desc q)(
         i0 := \<lparr>d_addr = A_op i0, d_len = 16, d_flags = VIRTQ_DESC_F_NEXT, d_next = of_nat i1\<rparr>,
         i1 := \<lparr>d_addr = A_data b, d_len = of_nat BSIZE,
                d_flags = (if write then 0 else VIRTQ_DESC_F_WRITE) OR VIRTQ_DESC_F_NEXT,
                d_next = of_nat i2\<rparr>,
         i2 := \<lparr>d_addr = A_status i0, d_len = 1, d_flags = VIRTQ_DESC_F_WRITE, d_next = 0\<rparr>),
       info_status := (info_status q)(i0 := 0xff),
       info_b := (info_b q)(i0 := Some b),
       avail_ring := (avail_ring q)(unat (avail_idx q) mod VIRTIO_RING_SIZE := of_nat i0),
       avail_idx := avail_idx q + 1\<rparr>"

definition finish_request :: "nat \<Rightarrow> nat \<Rightarrow> nat \<Rightarrow> 'a disks_scheme \<Rightarrow> 'a disks_scheme" where
  "finish_request i0 i1 i2 s =
     free_desc i2 (free_desc i1 (free_desc i0
       (set_vq (\<lambda>q. q\<lparr>info_b := (info_b q)(i0 := None)\<rparr>) s)))"

definition idx_at :: "int option list \<Rightarrow> nat \<Rightarrow> nat" where
  "idx_at idx i = (case idx ! i of None \<Rightarrow> 0 | Some v \<Rightarrow> nat v)"

definition virtio_disk_rw :: "'a disks_scheme sleeper \<Rightarrow> nat \<Rightarrow> bool \<Rightarrow> 'a disks_scheme \<Rightarrow>
    (unit, 'a disks_scheme) outcome" where
  "virtio_disk_rw slp b write s =
     (let sector = ucast (b_blockno (bufs s b) * of_nat (BSIZE div 512)) in
      bind_out (spinlock_acquire LK_disk s) (\<lambda>_ s1.
      bind_out (alloc3_desc slp b s1) (\<lambda>idx s2.
      let i0 = idx_at idx 0; i1 = idx_at idx 1; i2 = idx_at idx 2;
          s3 = set_vq (fill_request i0 i1 i2 b write sector) s2;
          s4 = upd_buf b (b_flags_update (\<lambda>f. f AND NOT B_VALID)) s3;
          s5 = write_reg VIRTIO_MMIO_QUEUE_NOTIFY 0 s4
      in bind_out (while_out (\<lambda>s. b_flags (bufs s b) AND B_VALID = 0) (slp (CH_buf b) LK_disk) s5) (\<lambda>_ s6.
         spinlock_release LK_disk (finish_request i0 i1 i2 s6)))))"

subsection \<open>The interrupt handler\<close>

text \<open>\<open>int_status\<close> is what the interrupt status register reads.\<close>

definition intr_entry :: "'a disks_scheme \<Rightarrow> (unit, 'a disks_scheme) outcome" where
  "intr_entry s =
     (let id = unat (used_ring (vq s) (unat (last_used (vq s)) mod VIRTIO_RING_SIZE))
      in if id \<ge> VIRTIO_RING_SIZE then Stop OutOfBounds s
         else
           let s1 = (case info_b (vq s) id of
                 None \<Rightarrow> s
               | Some b \<Rightarrow> wakeup (CH_buf b) (upd_buf b (b_flags_update (\<lambda>f. f OR B_VALID)) s))
           in Ret () (set_vq (last_used_update (\<lambda>u. u + 1)) s1))"

definition virtio_disk_intr :: "u32 \<Rightarrow> 'a disks_scheme \<Rightarrow> (unit, 'a disks_scheme) outcome" where
  "virtio_disk_intr int_status s =
     bind_out (spinlock_acquire LK_disk s) (\<lambda>_ s1.
     let s2 = write_reg VIRTIO_MMIO_INTERRUPT_ACK (int_status AND 3) s1
     in bind_out (while_out (\<lambda>s. last_used (vq s) \<noteq> used_idx (vq s)) intr_entry s2) (\<lambda>_ s3.
        spinlock_release LK_disk s3))"

subsection \<open>The device\<close>

record device =
  serve :: "virtq \<Rightarrow> medium \<Rightarrow> (nat \<Rightarrow> u8 list) \<Rightarrow> virtq \<times> medium \<times> (nat \<Rightarrow> u8 list)"
  dev_status :: u32

definition write_sector :: "u64 \<Rightarrow> u8 list \<Rightarrow> medium \<Rightarrow> medium" where
  "write_sector n d m = m\<lparr>sectors := (sectors m)(n := d), writes := writes m @ [(n, d)]\<rparr>"

text \<open>The request at the head \<open>h\<close>: its data descriptor and its status descriptor.\<close>

definition is_request :: "virtq \<Rightarrow> nat \<Rightarrow> nat \<Rightarrow> bool \<Rightarrow> nat \<Rightarrow> nat \<Rightarrow> nat \<Rightarrow> bool" where
  "is_request q h op write data st nxt \<longleftrightarrow>
     d_addr (desc q h) = A_op op \<and> d_flags (desc q h) = VIRTQ_DESC_F_NEXT \<and>
     (let d1 = desc q (unat (d_next (desc q h))) in
       d_addr d1 = A_data data \<and> d_len d1 = of_nat BSIZE \<and>
       d_flags d1 = (if write then 0 else VIRTQ_DESC_F_WRITE) OR VIRTQ_DESC_F_NEXT \<and>
       unat (d_next d1) = nxt) \<and>
     d_addr (desc q nxt) = A_status st \<and> d_flags (desc q nxt) = VIRTQ_DESC_F_WRITE \<and>
     r_type (ops q op) = (if write then VIRTIO_BLK_T_OUT else VIRTIO_BLK_T_IN)"

text \<open>Completing it: the transfer, the status byte, the entry in the device ring.\<close>

definition complete_request :: "nat \<Rightarrow> nat \<Rightarrow> bool \<Rightarrow> nat \<Rightarrow> nat \<Rightarrow> virtq \<Rightarrow> medium \<Rightarrow>
    (nat \<Rightarrow> u8 list) \<Rightarrow> virtq \<times> medium \<times> (nat \<Rightarrow> u8 list)" where
  "complete_request h op write data st q m d =
     (let sector = r_sector (ops q op) in
      (q\<lparr>seen := seen q + 1,
         used_ring := (used_ring q)(unat (used_idx q) mod VIRTIO_RING_SIZE := of_nat h),
         used_idx := used_idx q + 1,
         info_status := (info_status q)(st := 0)\<rparr>,
       if write then write_sector sector (d data) m else m,
       if write then d else d(data := sectors m sector)))"

definition obeys_virtio :: "device \<Rightarrow> bool" where
  "obeys_virtio D \<longleftrightarrow>
     (\<forall>q m d h op write data st nxt.
        avail_idx q = seen q + 1 \<and> h = unat (avail_ring q (unat (seen q) mod VIRTIO_RING_SIZE)) \<and>
        is_request q h op write data st nxt \<longrightarrow>
        serve D q m d = complete_request h op write data st q m d)"

definition run_device :: "device \<Rightarrow> 'a disks_scheme \<Rightarrow> 'a disks_scheme" where
  "run_device D s =
     (case serve D (vq s) (disk s) (\<lambda>i. b_data (bufs s i)) of (q, m, d) \<Rightarrow>
        s\<lparr>vq := q, disk := m, bufs := (\<lambda>i. (bufs s i)\<lparr>b_data := d i\<rparr>)\<rparr>)"

text \<open>
  \<open>sleep\<close> as its callers in the driver rely on it: the lock is released, the device works
  and interrupts, the handler runs, the process is woken and takes the lock again.
\<close>

definition served_sleep :: "device \<Rightarrow> 'a disks_scheme sleeper" where
  "served_sleep D c l s =
     (case current_process s of
        None \<Rightarrow> Ret () s
      | Some p \<Rightarrow>
          bind_out (spinlock_release l s) (\<lambda>_ s1.
          bind_out (virtio_disk_intr (dev_status D) (run_device D s1)) (\<lambda>_ s2.
          spinlock_acquire l s2)))"

text \<open>A device that follows the specification.\<close>

definition virtio_blk_serve :: "virtq \<Rightarrow> medium \<Rightarrow> (nat \<Rightarrow> u8 list) \<Rightarrow>
    virtq \<times> medium \<times> (nat \<Rightarrow> u8 list)" where
  "virtio_blk_serve q m d =
     (if avail_idx q = seen q then (q, m, d)
      else
        let h = unat (avail_ring q (unat (seen q) mod VIRTIO_RING_SIZE));
            d1 = desc q (unat (d_next (desc q h))); d2 = desc q (unat (d_next d1))
        in case d_addr (desc q h) of
             A_op op \<Rightarrow>
               (case d_addr d1 of
                  A_data data \<Rightarrow>
                    (case d_addr d2 of
                       A_status st \<Rightarrow>
                         complete_request h op (r_type (ops q op) = VIRTIO_BLK_T_OUT) data st q m d
                     | _ \<Rightarrow> (q, m, d))
                | _ \<Rightarrow> (q, m, d))
           | _ \<Rightarrow> (q, m, d))"

definition virtio_blk :: device where
  "virtio_blk = \<lparr>serve = virtio_blk_serve, dev_status = 1\<rparr>"

lemma virtio_blk_obeys: "obeys_virtio virtio_blk"
  by (auto simp: obeys_virtio_def virtio_blk_def virtio_blk_serve_def is_request_def Let_def
      VIRTIO_BLK_T_OUT_def VIRTIO_BLK_T_IN_def)

end
