(* ===== verification/Virtio_Props.thy ===== *)
theory Virtio_Props
  imports Virtio
begin

text \<open>The driver with a device that follows the specification: a request moves one block.\<close>

unbundle bit_operations_syntax

definition vq_idle :: "virtq \<Rightarrow> bool" where
  "vq_idle q \<longleftrightarrow> (\<forall>i < VIRTIO_RING_SIZE. info_b q i = None) \<and> seen q = avail_idx q \<and>
     last_used q = used_idx q"

subsection \<open>The virtqueue through one request\<close>

lemma alloc_desc_eq:
  "i < VIRTIO_RING_SIZE \<Longrightarrow> info_b q i = None \<Longrightarrow> (\<And>j. j < i \<Longrightarrow> info_b q j \<noteq> None) \<Longrightarrow>
    alloc_desc q = int i"
proof -
  assume "i < VIRTIO_RING_SIZE" "info_b q i = None" "\<And>j. j < i \<Longrightarrow> info_b q j \<noteq> None"
  then have "scan_from (\<lambda>i. info_b q i = None) 0 VIRTIO_RING_SIZE = Some i"
    by (subst scan_from_Some_iff) auto
  then show ?thesis by (simp add: alloc_desc_def)
qed

lemma grab_idle:
  assumes "\<forall>i < VIRTIO_RING_SIZE. info_b q i = None"
  shows "grab b 0 3 [None, None, None] q = ([Some 0, Some 1, Some 2], True,
    q\<lparr>info_b := (info_b q)(0 := Some b, 1 := Some b, 2 := Some b)\<rparr>)"
proof -
  let ?q1 = "q\<lparr>info_b := (info_b q)(0 := Some b)\<rparr>"
  let ?q2 = "?q1\<lparr>info_b := (info_b ?q1)(1 := Some b)\<rparr>"
  have "alloc_desc q = int 0" "alloc_desc ?q1 = int 1" "alloc_desc ?q2 = int 2"
    using assms by (intro alloc_desc_eq; auto simp: VIRTIO_RING_SIZE_def less_2_cases_iff)+
  then show ?thesis by (simp add: numeral_3_eq_3 numeral_2_eq_2 Let_def)
qed

lemma is_request_fill:
  "is_request (fill_request 0 1 2 b w sec q) 0 0 w b 0 2"
  by (simp add: is_request_def fill_request_def Let_def)

definition served_queue :: "nat \<Rightarrow> bool \<Rightarrow> u64 \<Rightarrow> virtq \<Rightarrow> virtq" where
  "served_queue b w sec q =
     (let q1 = fill_request 0 1 2 b w sec q in
      q1\<lparr>seen := seen q + 1,
        used_ring := (used_ring q)(unat (used_idx q) mod VIRTIO_RING_SIZE := 0),
        used_idx := used_idx q + 1, info_status := (info_status q1)(0 := 0)\<rparr>)"

lemma fill_request_sel [simp]:
  "avail_idx (fill_request i0 i1 i2 b w sec q) = avail_idx q + 1"
  "seen (fill_request i0 i1 i2 b w sec q) = seen q" "used_idx (fill_request i0 i1 i2 b w sec q) = used_idx q"
  "used_ring (fill_request i0 i1 i2 b w sec q) = used_ring q"
  "last_used (fill_request i0 i1 i2 b w sec q) = last_used q"
  "info_b (fill_request i0 i1 i2 b w sec q) = (info_b q)(i0 := Some b)"
  "avail_ring (fill_request i0 i1 i2 b w sec q) (unat (avail_idx q) mod VIRTIO_RING_SIZE) = of_nat i0"
  "ops (fill_request i0 i1 i2 b w sec q) i0 =
     \<lparr>r_type = (if w then VIRTIO_BLK_T_OUT else VIRTIO_BLK_T_IN), r_reserved = 0, r_sector = sec\<rparr>"
  by (simp_all add: fill_request_def)

lemma obeys_virtioD:
  "obeys_virtio D \<Longrightarrow> avail_idx q = seen q + 1 \<Longrightarrow>
    unat (avail_ring q (unat (seen q) mod VIRTIO_RING_SIZE)) = h \<Longrightarrow>
    is_request q h op write data st nxt \<Longrightarrow> serve D q m d = complete_request h op write data st q m d"
  unfolding obeys_virtio_def by metis

lemma serve_fill:
  assumes "obeys_virtio D" "seen q = avail_idx q"
  shows "serve D (fill_request 0 1 2 b w sec q) m d =
    (served_queue b w sec q, if w then write_sector sec (d b) m else m,
     if w then d else d(b := sectors m sec))"
proof -
  let ?q = "fill_request 0 1 2 b w sec q"
  have "unat (avail_ring ?q (unat (seen ?q) mod VIRTIO_RING_SIZE)) = 0"
    using assms(2) by simp
  moreover have "avail_idx ?q = seen ?q + 1" using assms(2) by simp
  ultimately have "serve D ?q m d = complete_request 0 0 w b 0 ?q m d"
    using is_request_fill [of b w sec q] by (intro obeys_virtioD [OF assms(1)])
  then show ?thesis by (simp add: complete_request_def Let_def served_queue_def)
qed

subsection \<open>The calls through one request\<close>

definition transferred :: "nat \<Rightarrow> bool \<Rightarrow> u64 \<Rightarrow> 'a disks_scheme \<Rightarrow> nat \<Rightarrow> buf" where
  "transferred b w sec s = (bufs s)(b := (bufs s b)
     \<lparr>b_flags := b_flags (bufs s b) OR B_VALID,
      b_data := if w then b_data (bufs s b) else sectors (disk s) sec\<rparr>)"

lemma set_vq_sel [simp]:
  "vq (set_vq f s) = f (vq s)" "bufs (set_vq f s) = bufs s" "sleeplk (set_vq f s) = sleeplk s"
  "disk (set_vq f s) = disk s" "mmio (set_vq f s) = mmio s" "spin (set_vq f s) = spin s"
  "sie (set_vq f s) = sie s" "current_process (set_vq f s) = current_process s"
  "proc_table (set_vq f s) = proc_table s" "disks.more (set_vq f s) = disks.more s"
  "spinlock_held l (set_vq f s) = spinlock_held l s"
  by (simp_all add: set_vq_def spinlock_held_def)

lemma write_reg_sel [simp]:
  "vq (write_reg r v s) = vq s" "bufs (write_reg r v s) = bufs s"
  "sleeplk (write_reg r v s) = sleeplk s" "disk (write_reg r v s) = disk s"
  "spin (write_reg r v s) = spin s" "sie (write_reg r v s) = sie s"
  "current_process (write_reg r v s) = current_process s"
  "proc_table (write_reg r v s) = proc_table s" "disks.more (write_reg r v s) = disks.more s"
  "spinlock_held l (write_reg r v s) = spinlock_held l s"
  by (simp_all add: write_reg_def spinlock_held_def)

lemma run_device_sel [simp]:
  "sleeplk (run_device D s) = sleeplk s" "spin (run_device D s) = spin s"
  "sie (run_device D s) = sie s" "current_process (run_device D s) = current_process s"
  "proc_table (run_device D s) = proc_table s" "disks.more (run_device D s) = disks.more s"
  "spinlock_held l (run_device D s) = spinlock_held l s"
  by (simp_all add: run_device_def spinlock_held_def split: prod.split)

text \<open>What the higher layers see of a step: the frame of every call below.\<close>

definition quiet :: "'a disks_scheme \<Rightarrow> 'a disks_scheme \<Rightarrow> bool" where
  "quiet s t \<longleftrightarrow> calm s t \<and> sleeplk t = sleeplk s \<and> disks.more t = disks.more s"

lemma quiet_refl [simp]: "quiet s s"
  by (simp add: quiet_def)

lemma quiet_trans [trans]: "quiet s t \<Longrightarrow> quiet t u \<Longrightarrow> quiet s u"
  unfolding quiet_def using calm_trans [of s t u] by simp

lemma quiet_same: "spin t = spin s \<Longrightarrow> current_process t = current_process s \<Longrightarrow>
    proc_table t = proc_table s \<Longrightarrow> sleeplk t = sleeplk s \<Longrightarrow> disks.more t = disks.more s \<Longrightarrow> quiet s t"
  by (simp add: quiet_def calmI)

lemma quiet_wakeup: "quiet s t \<Longrightarrow> quiet s (wakeup c t)"
  by (simp add: quiet_def calm_wakeup)

lemma quiet_free_desc: "quiet s t \<Longrightarrow> quiet s (free_desc i t)"
  unfolding free_desc_def
  by (rule quiet_wakeup, rule quiet_trans [of _ t]) (simp_all add: quiet_same)

lemma free_desc_sel [simp]:
  "vq (free_desc i s) = clear_desc i (vq s)" "bufs (free_desc i s) = bufs s"
  "disk (free_desc i s) = disk s" "spinlock_held l (free_desc i s) = spinlock_held l s"
  by (simp_all add: free_desc_def)

text \<open>The handler on one completed request.\<close>

lemma intr_one:
  assumes "spinlock_held LK_disk s = 0" "last_used (vq s) + 1 = used_idx (vq s)"
    "used_ring (vq s) (unat (last_used (vq s)) mod VIRTIO_RING_SIZE) = 0"
    "info_b (vq s) 0 = Some b"
  shows "\<exists>t. virtio_disk_intr v s = Ret () t \<and> quiet s t \<and>
    vq t = (vq s)\<lparr>last_used := used_idx (vq s)\<rparr> \<and> disk t = disk s \<and>
    bufs t = (bufs s)(b := (bufs s b)\<lparr>b_flags := b_flags (bufs s b) OR B_VALID\<rparr>)"
proof -
  let ?s1 = "write_reg VIRTIO_MMIO_INTERRUPT_ACK (v AND 3) (set_locked LK_disk 1 (intr_off s))"
  let ?t1 = "set_vq (last_used_update (\<lambda>u. u + 1))
      (wakeup (CH_buf b) (upd_buf b (b_flags_update (\<lambda>f. f OR B_VALID)) ?s1))"
  let ?w = "\<lambda>s :: 'a disks_scheme. last_used (vq s) \<noteq> used_idx (vq s)"
  have e: "intr_entry ?s1 = Ret () ?t1"
    using assms by (simp add: intr_entry_def Let_def VIRTIO_RING_SIZE_def)
  have "last_used (vq s) \<noteq> last_used (vq s) + 1" by simp
  then have w: "?w ?s1" "\<not> ?w ?t1" using assms(2) by (simp_all add: eq_commute)
  have wh: "while_out ?w intr_entry ?s1 = Ret () ?t1"
    using w(1) e w(2) by (rule while_out_once [where b = ?w and s = ?s1 and t = ?t1])
  let ?t = "intr_on (set_locked LK_disk 0 ?t1)"
  have "virtio_disk_intr v s = Ret () ?t"
    using assms(1) wh by (simp add: virtio_disk_intr_def acquire_eq spinlock_release_def Let_def)
  moreover have "quiet s ?t"
  proof -
    have "calm (set_locked LK_disk 1 (intr_off s)) ?t1"
      by (rule calm_trans [OF calm_wakeup calmI]) (auto intro: calmI)
    then have "calm s ?t" by (rule calm_critical [OF assms(1)])
    then show ?thesis by (simp add: quiet_def)
  qed
  ultimately show ?thesis using assms(2) by (intro exI [of _ ?t]) (cases "bufs s b", simp)
qed

lemma run_device_fill:
  assumes "obeys_virtio D" "vq s = fill_request 0 1 2 b w sec q" "seen q = avail_idx q"
  shows "vq (run_device D s) = served_queue b w sec q"
    "disk (run_device D s) = (if w then write_sector sec (b_data (bufs s b)) (disk s) else disk s)"
    "bufs (run_device D s) =
       (if w then bufs s else (bufs s)(b := (bufs s b)\<lparr>b_data := sectors (disk s) sec\<rparr>))"
  using serve_fill [OF assms(1,3)] by (auto simp: run_device_def assms(2))

lemma served_wait:
  assumes "obeys_virtio D" "vq s = fill_request 0 1 2 b w sec q" "seen q = avail_idx q"
    "last_used q = used_idx q" "spinlock_held LK_disk s \<noteq> 0" "current_process s = Some p"
  shows "\<exists>t. served_sleep D c LK_disk s = Ret () t \<and> spinlock_held LK_disk t \<noteq> 0 \<and>
    calm (intr_on (set_locked LK_disk 0 s)) (set_locked LK_disk 0 t) \<and> sleeplk t = sleeplk s \<and>
    disks.more t = disks.more s \<and>
    vq t = (served_queue b w sec q)\<lparr>last_used := used_idx q + 1\<rparr> \<and>
    disk t = (if w then write_sector sec (b_data (bufs s b)) (disk s) else disk s) \<and>
    bufs t = transferred b w sec s"
proof -
  let ?s1 = "intr_on (set_locked LK_disk 0 s)"
  let ?s2 = "run_device D ?s1"
  have vq1: "vq ?s1 = fill_request 0 1 2 b w sec q" using assms(2) by simp
  note rd = run_device_fill [OF assms(1) vq1 assms(3)]
  have sq: "last_used (served_queue b w sec q) = last_used q" "used_idx (served_queue b w sec q) = used_idx q + 1"
    "used_ring (served_queue b w sec q) (unat (used_idx q) mod VIRTIO_RING_SIZE) = 0"
    "info_b (served_queue b w sec q) 0 = Some b"
    by (simp_all add: served_queue_def Let_def)
  obtain t where t: "virtio_disk_intr (dev_status D) ?s2 = Ret () t" "quiet ?s2 t"
    "vq t = (vq ?s2)\<lparr>last_used := used_idx (vq ?s2)\<rparr>" "disk t = disk ?s2"
    "bufs t = (bufs ?s2)(b := (bufs ?s2 b)\<lparr>b_flags := b_flags (bufs ?s2 b) OR B_VALID\<rparr>)"
    using intr_one [of ?s2 b "dev_status D"] assms(4) sq rd(1) by auto
  have "calm ?s2 t" using t(2) by (simp add: quiet_def)
  then have ht: "spinlock_held LK_disk t = 0" using calm_held [of ?s2 t LK_disk] by simp
  let ?t = "set_locked LK_disk 1 (intr_off t)"
  have "calm ?s1 t"
  proof -
    have "calm ?s1 ?s2" by (rule calmI) simp_all
    then show ?thesis using t(2) calm_trans by (auto simp: quiet_def)
  qed
  moreover have "calm t (set_locked LK_disk 0 ?t)"
    using ht by (intro calmI) (simp_all add: set_locked_same)
  ultimately have "calm ?s1 (set_locked LK_disk 0 ?t)" by (rule calm_trans)
  moreover have "served_sleep D c LK_disk s = Ret () ?t"
    using assms(5,6) t(1) ht by (simp add: served_sleep_def spinlock_release_def acquire_eq)
  moreover have "bufs t = transferred b w sec s"
    using t(5) rd(3) by (auto simp: transferred_def)
  ultimately show ?thesis using t rd sq by (intro exI [of _ ?t]) (simp add: quiet_def)
qed

subsection \<open>One request\<close>

lemma calm_set_locked: "calm s t \<Longrightarrow> calm (set_locked l v s) (intr_on (set_locked l v t))"
  by (simp add: calm_def set_locked_def intr_on_def)

lemma flags_or_valid:
  "(f AND NOT B_VALID) OR B_VALID = f OR B_VALID" "(f AND NOT B_VALID) AND B_VALID = 0"
  "(f OR B_VALID) AND B_VALID \<noteq> 0"
proof -
  show "(f AND NOT B_VALID) OR B_VALID = f OR B_VALID" "(f AND NOT B_VALID) AND B_VALID = 0"
    by (rule bit_word_eqI; auto simp: bit_simps)+
  have "bit B_VALID 1" by (simp add: B_VALID_def)
  then have "bit ((f OR B_VALID) AND B_VALID) 1" by (simp add: bit_simps)
  then show "(f OR B_VALID) AND B_VALID \<noteq> 0" by (metis bit_0_eq bot_apply bot_bool_def)
qed

lemma is_valid_transferred [simp]: "is_valid (transferred b w sec s b)"
  using flags_or_valid(3) [of "b_flags (bufs s b)"] by (simp add: transferred_def is_valid_def B_VALID_def)

definition block_sector :: "buf \<Rightarrow> u64" where
  "block_sector b = ucast (b_blockno b * of_nat (BSIZE div 512))"

lemma alloc3_idle:
  assumes "\<forall>i < VIRTIO_RING_SIZE. info_b (vq s) i = None"
  shows "alloc3_desc slp b s = Ret [Some 0, Some 1, Some 2]
    (s\<lparr>vq := (vq s)\<lparr>info_b := (info_b (vq s))(0 := Some b, 1 := Some b, 2 := Some b)\<rparr>\<rparr>)"
  unfolding alloc3_desc_def by (rule loop_out_break) (simp add: grab_idle [OF assms])

text \<open>Giving the descriptors back makes the queue idle again.\<close>

lemma vq_idle_after:
  assumes "vq_idle q"
  shows "vq_idle (clear_desc 2 (clear_desc 1 (clear_desc 0
    ((\<lambda>q. q\<lparr>info_b := (info_b q)(0 := None)\<rparr>)
      ((served_queue b w sec (q\<lparr>info_b := (info_b q)(0 := Some b, 1 := Some b, 2 := Some b)\<rparr>))
        \<lparr>last_used := used_idx q + 1\<rparr>)))))"
  using assms by (auto simp: vq_idle_def clear_desc_def served_queue_def Let_def)

lemma quiet_finish: "quiet s (finish_request i0 i1 i2 s)"
  unfolding finish_request_def by (intro quiet_free_desc quiet_same) simp_all

lemma finish_sel [simp]:
  "vq (finish_request i0 i1 i2 s) = clear_desc i2 (clear_desc i1 (clear_desc i0
     ((vq s)\<lparr>info_b := (info_b (vq s))(i0 := None)\<rparr>)))"
  "bufs (finish_request i0 i1 i2 s) = bufs s" "disk (finish_request i0 i1 i2 s) = disk s"
  "spinlock_held l (finish_request i0 i1 i2 s) = spinlock_held l s"
  by (simp_all add: finish_request_def)

lemma rw_spec:
  fixes s :: "'a disks_scheme"
  assumes "obeys_virtio D" "vq_idle (vq s)" "spinlock_held LK_disk s = 0" "current_process s = Some p"
  shows "\<exists>t. virtio_disk_rw (served_sleep D) b w s = Ret () t \<and> quiet s t \<and> vq_idle (vq t) \<and>
    bufs t = transferred b w (block_sector (bufs s b)) s \<and>
    disk t = (if w then write_sector (block_sector (bufs s b)) (b_data (bufs s b)) (disk s) else disk s)"
proof -
  let ?sec = "block_sector (bufs s b)" and ?q = "vq s"
  let ?q' = "?q\<lparr>info_b := (info_b ?q)(0 := Some b, 1 := Some b, 2 := Some b)\<rparr>"
  let ?s1 = "set_locked LK_disk 1 (intr_off s)"
  let ?s3 = "set_vq (fill_request 0 1 2 b w ?sec) (?s1\<lparr>vq := ?q'\<rparr>)"
  let ?s5 = "write_reg VIRTIO_MMIO_QUEUE_NOTIFY 0 (upd_buf b (b_flags_update (\<lambda>f. f AND NOT B_VALID)) ?s3)"
  let ?w = "\<lambda>s :: 'a disks_scheme. b_flags (bufs s b) AND B_VALID = 0"
  have q': "seen ?q' = avail_idx ?q'" "last_used ?q' = used_idx ?q'"
    using assms(2) by (simp_all add: vq_idle_def)
  have al: "alloc3_desc (served_sleep D) b ?s1 = Ret [Some 0, Some 1, Some 2] (?s1\<lparr>vq := ?q'\<rparr>)"
    using alloc3_idle [of ?s1] assms(2) by (simp add: vq_idle_def)
  have v5: "vq ?s5 = fill_request 0 1 2 b w ?sec ?q'" by simp
  have h5: "spinlock_held LK_disk ?s5 \<noteq> 0" by (simp add: spinlock_held_def set_locked_def)
  have cp5: "current_process ?s5 = Some p" using assms(4) by simp
  obtain t where t: "served_sleep D (CH_buf b) LK_disk ?s5 = Ret () t" "spinlock_held LK_disk t \<noteq> 0"
    "calm (intr_on (set_locked LK_disk 0 ?s5)) (set_locked LK_disk 0 t)" "sleeplk t = sleeplk ?s5"
    "disks.more t = disks.more ?s5"
    "vq t = (served_queue b w ?sec ?q')\<lparr>last_used := used_idx ?q' + 1\<rparr>"
    "disk t = (if w then write_sector ?sec (b_data (bufs ?s5 b)) (disk ?s5) else disk ?s5)"
    "bufs t = transferred b w ?sec ?s5"
    using served_wait [OF assms(1) v5 q' h5 cp5] by blast
  have w5: "?w ?s5" by (simp add: flags_or_valid)
  have wt: "\<not> ?w t" using is_valid_transferred [of b w ?sec ?s5] by (simp add: t(8) is_valid_def)
  have wh: "while_out ?w (served_sleep D (CH_buf b) LK_disk) ?s5 = Ret () t"
    using w5 t(1) wt by (rule while_out_once [where b = ?w and s = ?s5 and t = t])
  let ?t = "intr_on (set_locked LK_disk 0 (finish_request 0 1 2 t))"
  have "virtio_disk_rw (served_sleep D) b w s = Ret () ?t"
    using assms(3) al wh t(2)
    by (simp add: virtio_disk_rw_def acquire_eq spinlock_release_def Let_def idx_at_def block_sector_def)
  moreover have "quiet s ?t"
  proof -
    have "calm ?s1 ?s5" by (rule calmI) simp_all
    then have "calm s (intr_on (set_locked LK_disk 0 ?s5))" by (rule calm_critical [OF assms(3)])
    then have "calm s (set_locked LK_disk 0 t)" using t(3) by (rule calm_trans)
    moreover have "calm (set_locked LK_disk 0 t) ?t"
      using quiet_finish [of t 0 1 2] by (intro calm_set_locked) (simp add: quiet_def)
    ultimately have "calm s ?t" by (rule calm_trans)
    then show ?thesis using t(4,5) quiet_finish [of t 0 1 2] by (simp add: quiet_def)
  qed
  moreover have "vq_idle (vq ?t)" using vq_idle_after [OF assms(2), of b w ?sec] by (simp add: t(6))
  moreover have "bufs ?t = transferred b w ?sec s"
    using t(8) by (auto simp: transferred_def flags_or_valid)
  ultimately show ?thesis using t(7) by (intro exI [of _ ?t]) auto
qed

end
