(* ===== verification/Buffer_Cache.thy ===== *)
theory Buffer_Cache
  imports Linked_Buffers Virtio_Props
begin

text \<open>
  \<open>kernel/fs/buffer.c\<close> and \<open>block.c\<close>: the cache of disk blocks and the block layer over the
  disk driver. NULL is \<open>None\<close>.
\<close>

unbundle bit_operations_syntax

subsection \<open>buffer.c\<close>

definition set_bufs :: "((nat \<Rightarrow> buf) \<Rightarrow> (nat \<Rightarrow> buf)) \<Rightarrow> 'a disks_scheme \<Rightarrow> 'a disks_scheme" where
  "set_bufs f s = s\<lparr>bufs := f (bufs s)\<rparr>"

lemma set_bufs_sel [simp]:
  "bufs (set_bufs f s) = f (bufs s)" "sleeplk (set_bufs f s) = sleeplk s" "vq (set_bufs f s) = vq s"
  "disk (set_bufs f s) = disk s" "mmio (set_bufs f s) = mmio s" "spin (set_bufs f s) = spin s"
  "current_process (set_bufs f s) = current_process s" "proc_table (set_bufs f s) = proc_table s"
  "disks.more (set_bufs f s) = disks.more s" "spinlock_held l (set_bufs f s) = spinlock_held l s"
  by (simp_all add: set_bufs_def spinlock_held_def)

definition init_buffer :: "nat \<Rightarrow> 'a disks_scheme \<Rightarrow> 'a disks_scheme" where
  "init_buffer i s = sleeplock_init (SL_buf i) ''buffer'' (set_bufs (insert_front i) s)"

definition buf_cache_init :: "'a disks_scheme \<Rightarrow> 'a disks_scheme" where
  "buf_cache_init s =
     fold init_buffer [0..<NBUF]
       (upd_buf HEAD (\<lambda>b. b\<lparr>b_prev := HEAD, b_next := HEAD\<rparr>) (spinlock_init LK_bcache ''bcache'' s))"

definition is_block :: "u32 \<Rightarrow> u32 \<Rightarrow> buf \<Rightarrow> bool" where
  "is_block dev blockno b \<longleftrightarrow> b_dev b = dev \<and> b_blockno b = blockno"

definition recyclable :: "buf \<Rightarrow> bool" where
  "recyclable b \<longleftrightarrow> b_refcnt b = 0 \<and> \<not> is_dirty b"

text \<open>The spin lock of the cache is given back before the sleep lock of the buffer is taken.\<close>

definition lock_found :: "'a disks_scheme sleeper \<Rightarrow> nat \<Rightarrow> 'a disks_scheme \<Rightarrow>
    (nat option, 'a disks_scheme) outcome" where
  "lock_found slp b s =
     bind_out (spinlock_release LK_bcache s) (\<lambda>_ s1.
     bind_out (sleeplock_acquire slp (SL_buf b) s1) (\<lambda>_ s2. Ret (Some b) s2))"

definition buf_get :: "'a disks_scheme sleeper \<Rightarrow> u32 \<Rightarrow> u32 \<Rightarrow> 'a disks_scheme \<Rightarrow>
    (nat option, 'a disks_scheme) outcome" where
  "buf_get slp dev blockno s =
     bind_out (spinlock_acquire LK_bcache s) (\<lambda>_ s1.
     case search b_next (is_block dev blockno) (bufs s1) (b_next (bufs s1 HEAD)) of
       None \<Rightarrow> Stop SpinsForever s1
     | Some (Some b) \<Rightarrow> lock_found slp b (upd_buf b (b_refcnt_update (\<lambda>n. n + 1)) s1)
     | Some None \<Rightarrow>
         (case search b_prev recyclable (bufs s1) (b_prev (bufs s1 HEAD)) of
            None \<Rightarrow> Stop SpinsForever s1
          | Some (Some b) \<Rightarrow>
              lock_found slp b
                (upd_buf b (\<lambda>x. x\<lparr>b_dev := dev, b_blockno := blockno, b_flags := 0, b_refcnt := 1\<rparr>) s1)
          | Some None \<Rightarrow> bind_out (spinlock_release LK_bcache s1) (\<lambda>_ s2. Ret None s2)))"

definition buf_release :: "nat \<Rightarrow> 'a disks_scheme \<Rightarrow> (unit, 'a disks_scheme) outcome" where
  "buf_release b s =
     bind_out (sleeplock_held (SL_buf b) s) (\<lambda>held s1.
     if \<not> held then Ret () s1
     else
       bind_out (sleeplock_release (SL_buf b) s1) (\<lambda>_ s2.
       bind_out (spinlock_acquire LK_bcache s2) (\<lambda>_ s3.
       let s4 = upd_buf b (b_refcnt_update (\<lambda>n. n - 1)) s3;
           s5 = (if b_refcnt (bufs s4 b) = 0 then set_bufs (\<lambda>B. insert_front b (unlink b B)) s4 else s4)
       in spinlock_release LK_bcache s5)))"

definition buf_pin :: "nat \<Rightarrow> 'a disks_scheme \<Rightarrow> (unit, 'a disks_scheme) outcome" where
  "buf_pin b s =
     bind_out (spinlock_acquire LK_bcache s) (\<lambda>_ s1.
     spinlock_release LK_bcache (upd_buf b (b_refcnt_update (\<lambda>n. n + 1)) s1))"

definition buf_unpin :: "nat \<Rightarrow> 'a disks_scheme \<Rightarrow> (unit, 'a disks_scheme) outcome" where
  "buf_unpin b s =
     bind_out (spinlock_acquire LK_bcache s) (\<lambda>_ s1.
     spinlock_release LK_bcache (upd_buf b (b_refcnt_update (\<lambda>n. n - 1)) s1))"

subsection \<open>block.c\<close>

definition block_read :: "'a disks_scheme sleeper \<Rightarrow> u32 \<Rightarrow> u32 \<Rightarrow> 'a disks_scheme \<Rightarrow>
    (nat option, 'a disks_scheme) outcome" where
  "block_read slp dev blockno s =
     bind_out (buf_get slp dev blockno s) (\<lambda>r s1.
     case r of
       None \<Rightarrow> Ret None s1
     | Some b \<Rightarrow>
         if b_flags (bufs s1 b) AND B_VALID = 0
         then bind_out (virtio_disk_rw slp b False s1) (\<lambda>_ s2. Ret (Some b) s2)
         else Ret (Some b) s1)"

definition block_write :: "'a disks_scheme sleeper \<Rightarrow> nat \<Rightarrow> 'a disks_scheme \<Rightarrow>
    (unit, 'a disks_scheme) outcome" where
  "block_write slp b s =
     bind_out (sleeplock_held (SL_buf b) s) (\<lambda>held s1.
     if \<not> held then Ret () s1
     else virtio_disk_rw slp b True (upd_buf b (b_flags_update (\<lambda>f. f OR B_DIRTY)) s1))"

definition block_release :: "nat \<Rightarrow> 'a disks_scheme \<Rightarrow> (unit, 'a disks_scheme) outcome" where
  "block_release b s = buf_release b s"

definition block_pin :: "nat \<Rightarrow> 'a disks_scheme \<Rightarrow> (unit, 'a disks_scheme) outcome" where
  "block_pin b s = buf_pin b s"

definition block_unpin :: "nat \<Rightarrow> 'a disks_scheme \<Rightarrow> (unit, 'a disks_scheme) outcome" where
  "block_unpin b s = buf_unpin b s"

subsection \<open>The invariant of the cache\<close>

text \<open>
  One device is in use. A buffer is fresh (as \<open>buf_cache_init\<close> leaves it) or holds a block of
  the device, no block is in two buffers, an unreferenced buffer is unlocked and, when
  valid, agrees with the disk.
\<close>

definition fresh :: "buf \<Rightarrow> bool" where
  "fresh b \<longleftrightarrow> b_dev b = 0 \<and> b_blockno b = 0 \<and> b_refcnt b = 0 \<and> b_flags b = 0"

definition on_disk :: "'a disks_scheme \<Rightarrow> u32 \<Rightarrow> u8 list" where
  "on_disk s n = sectors (disk s) (ucast n)"

definition cache_inv :: "u32 \<Rightarrow> 'a disks_scheme \<Rightarrow> bool" where
  "cache_inv d s \<longleftrightarrow> d \<noteq> 0 \<and>
     (\<exists>L. lru (bufs s) L \<and> set L = {..<NBUF}) \<and>
     (\<forall>i < NBUF. b_dev (bufs s i) = d \<or> fresh (bufs s i)) \<and>
     (\<forall>i < NBUF. \<forall>j < NBUF. b_dev (bufs s i) = d \<and> b_dev (bufs s j) = d \<and>
        b_blockno (bufs s i) = b_blockno (bufs s j) \<longrightarrow> i = j) \<and>
     (\<forall>i < NBUF. b_refcnt (bufs s i) = 0 \<longrightarrow> sleep_free s (SL_buf i) \<and>
        (is_valid (bufs s i) \<longrightarrow> b_data (bufs s i) = on_disk s (b_blockno (bufs s i)))) \<and>
     (\<forall>i < NBUF. length (b_data (bufs s i)) = BSIZE) \<and>
     (\<forall>n. length (sectors (disk s) n) = BSIZE) \<and> vq_idle (vq s)"

text \<open>The buffer that holds a block, and what a reader sees of a block.\<close>

definition holder :: "u32 \<Rightarrow> 'a disks_scheme \<Rightarrow> u32 \<Rightarrow> nat option" where
  "holder d s n = scan_from (\<lambda>i. is_block d n (bufs s i)) 0 NBUF"

definition view :: "u32 \<Rightarrow> 'a disks_scheme \<Rightarrow> u32 \<Rightarrow> u8 list" where
  "view d s n =
     (case holder d s n of
        None \<Rightarrow> on_disk s n
      | Some i \<Rightarrow> if is_valid (bufs s i) then b_data (bufs s i) else on_disk s n)"

definition refs :: "u32 \<Rightarrow> 'a disks_scheme \<Rightarrow> u32 \<Rightarrow> u32" where
  "refs d s n = (case holder d s n of None \<Rightarrow> 0 | Some i \<Rightarrow> b_refcnt (bufs s i))"

text \<open>The blocks whose buffers cannot be recycled.\<close>

definition stuck :: "u32 \<Rightarrow> 'a disks_scheme \<Rightarrow> u32 set" where
  "stuck d s = {n. \<exists>i. holder d s n = Some i \<and> \<not> recyclable (bufs s i)}"

lemma cache_invD:
  assumes "cache_inv d s"
  shows "d \<noteq> 0" "\<exists>L. lru (bufs s) L \<and> set L = {..<NBUF}"
    "\<And>i. i < NBUF \<Longrightarrow> b_dev (bufs s i) = d \<or> fresh (bufs s i)"
    "\<And>i j. i < NBUF \<Longrightarrow> j < NBUF \<Longrightarrow> b_dev (bufs s i) = d \<Longrightarrow> b_dev (bufs s j) = d \<Longrightarrow>
       b_blockno (bufs s i) = b_blockno (bufs s j) \<Longrightarrow> i = j"
    "\<And>i. i < NBUF \<Longrightarrow> b_refcnt (bufs s i) = 0 \<Longrightarrow> sleep_free s (SL_buf i)"
    "\<And>i. i < NBUF \<Longrightarrow> b_refcnt (bufs s i) = 0 \<Longrightarrow> is_valid (bufs s i) \<Longrightarrow>
       b_data (bufs s i) = on_disk s (b_blockno (bufs s i))"
    "\<And>i. i < NBUF \<Longrightarrow> length (b_data (bufs s i)) = BSIZE"
    "\<And>n. length (sectors (disk s) n) = BSIZE" "vq_idle (vq s)"
  using assms unfolding cache_inv_def by blast+

lemma holder_Some:
  assumes "cache_inv d s"
  shows "holder d s n = Some i \<longleftrightarrow> i < NBUF \<and> is_block d n (bufs s i)"
proof
  show "holder d s n = Some i \<Longrightarrow> i < NBUF \<and> is_block d n (bufs s i)"
    by (auto simp: holder_def dest: scan_from_SomeD)
  assume r: "i < NBUF \<and> is_block d n (bufs s i)"
  then obtain j where j: "holder d s n = Some j"
    unfolding holder_def using scan_from_None_iff [of "\<lambda>i. is_block d n (bufs s i)" 0 NBUF]
    by (cases "scan_from (\<lambda>i. is_block d n (bufs s i)) 0 NBUF") auto
  then have "j < NBUF \<and> is_block d n (bufs s j)"
    by (auto simp: holder_def dest: scan_from_SomeD)
  then have "i = j" using r cache_invD(4) [OF assms, of i j] by (simp add: is_block_def)
  then show "holder d s n = Some i" using j by simp
qed

lemma holder_None:
  "holder d s n = None \<longleftrightarrow> (\<forall>i < NBUF. \<not> is_block d n (bufs s i))"
  by (auto simp: holder_def scan_from_None_iff)

lemma view_length: "cache_inv d s \<Longrightarrow> length (view d s n) = BSIZE"
  by (auto simp: view_def on_disk_def holder_Some cache_invD split: option.split)

text \<open>A buffer can be recycled while fewer than \<open>NBUF\<close> blocks are stuck.\<close>

lemma exists_recyclable:
  assumes inv: "cache_inv d s" and K: "stuck d s \<subseteq> K" "finite K" "card K < NBUF"
  shows "\<exists>i < NBUF. recyclable (bufs s i)"
proof (rule ccontr)
  assume "\<not> (\<exists>i < NBUF. recyclable (bufs s i))"
  then have nr: "\<And>i. i < NBUF \<Longrightarrow> \<not> recyclable (bufs s i)" by blast
  have dev: "b_dev (bufs s i) = d" if "i < NBUF" for i
    using cache_invD(3) [OF inv that] nr [OF that] by (auto simp: fresh_def recyclable_def is_dirty_def)
  have "inj_on (\<lambda>i. b_blockno (bufs s i)) {..<NBUF}"
    using cache_invD(4) [OF inv] dev by (intro inj_onI) auto
  moreover have "(\<lambda>i. b_blockno (bufs s i)) ` {..<NBUF} \<subseteq> K"
  proof -
    have "b_blockno (bufs s i) \<in> stuck d s" if "i < NBUF" for i
    proof -
      have "holder d s (b_blockno (bufs s i)) = Some i"
        using holder_Some [OF inv] that dev by (simp add: is_block_def)
      then show ?thesis using nr [OF that] by (auto simp: stuck_def)
    qed
    then show ?thesis using K(1) by auto
  qed
  ultimately have "NBUF \<le> card K" using card_inj_on_le [of _ "{..<NBUF}" K] K(2) by simp
  then show False using K(3) by simp
qed

end
