(* ===== verification/Cache_Props.thy ===== *)
theory Cache_Props
  imports Buffer_Cache
begin

text \<open>
  The block layer over its abstraction: for every block number the data a reader sees
  (\<open>view\<close>), the references (\<open>refs\<close>) and whether its buffer is marked dirty (\<open>dirty\<close>), and the
  medium. Each operation changes the abstraction of one block.
\<close>

unbundle bit_operations_syntax

definition dirty :: "u32 \<Rightarrow> 'a disks_scheme \<Rightarrow> u32 \<Rightarrow> bool" where
  "dirty d s n = (case holder d s n of None \<Rightarrow> False | Some i \<Rightarrow> is_dirty (bufs s i))"

lemma stuck_eq: "stuck d s = {n. refs d s n \<noteq> 0 \<or> dirty d s n}"
  by (auto simp: stuck_def refs_def dirty_def recyclable_def split: option.splits)

subsection \<open>Changing one buffer\<close>

lemma payload_eq:
  assumes "payload b = payload c"
  shows "b_flags b = b_flags c" "b_dev b = b_dev c" "b_blockno b = b_blockno c"
    "b_refcnt b = b_refcnt c" "b_data b = b_data c" "is_valid b = is_valid c"
    "is_dirty b = is_dirty c" "is_block d n b = is_block d n c" "fresh b = fresh c"
    "recyclable b = recyclable c"
  using assms
  by (simp_all add: payload_def is_valid_def is_dirty_def is_block_def fresh_def recyclable_def)

text \<open>
  \<open>changes_only d n b y s t\<close>: buffer \<open>b\<close>, which held block \<open>n\<close> or could be recycled, now holds
  block \<open>n\<close> as \<open>y\<close>; the other buffers and, except for sector \<open>n\<close>, the medium are as they were.
\<close>

definition changes_only :: "u32 \<Rightarrow> u32 \<Rightarrow> nat \<Rightarrow> buf \<Rightarrow> 'a disks_scheme \<Rightarrow> 'a disks_scheme \<Rightarrow> bool" where
  "changes_only d n b y s t \<longleftrightarrow>
     cache_inv d s \<and> b < NBUF \<and> is_block d n y \<and> is_valid y \<and>
     (holder d s n = Some b \<or> holder d s n = None \<and> recyclable (bufs s b)) \<and>
     payload (bufs t b) = payload y \<and> length (b_data y) = BSIZE \<and>
     (\<forall>i. i \<noteq> b \<longrightarrow> payload (bufs t i) = payload (bufs s i)) \<and>
     (\<forall>k. k \<noteq> SL_buf b \<longrightarrow> sleeplk t k = sleeplk s k) \<and>
     (\<exists>L. lru (bufs t) L \<and> set L = {..<NBUF}) \<and>
     (\<forall>m. m \<noteq> n \<longrightarrow> on_disk t m = on_disk s m) \<and>
     (\<forall>m. length (sectors (disk t) m) = BSIZE) \<and> vq_idle (vq t) \<and>
     (b_refcnt y = 0 \<longrightarrow> sleep_free t (SL_buf b) \<and> b_data y = on_disk t n)"

lemma changes_onlyD:
  assumes "changes_only d n b y s t"
  shows "cache_inv d s" "b < NBUF" "is_block d n y" "is_valid y"
    "holder d s n = Some b \<or> holder d s n = None \<and> recyclable (bufs s b)"
    "payload (bufs t b) = payload y" "length (b_data y) = BSIZE"
    "\<And>i. i \<noteq> b \<Longrightarrow> payload (bufs t i) = payload (bufs s i)"
    "\<And>k. k \<noteq> SL_buf b \<Longrightarrow> sleeplk t k = sleeplk s k"
    "\<exists>L. lru (bufs t) L \<and> set L = {..<NBUF}"
    "\<And>m. m \<noteq> n \<Longrightarrow> on_disk t m = on_disk s m" "\<And>m. length (sectors (disk t) m) = BSIZE"
    "vq_idle (vq t)" "b_refcnt y = 0 \<Longrightarrow> sleep_free t (SL_buf b) \<and> b_data y = on_disk t n"
  using assms unfolding changes_only_def by blast+

lemma block_b:
  assumes st: "changes_only d n b y s t"
  shows "is_block d m (bufs t b) \<longleftrightarrow> m = n"
  using payload_eq(8) [OF changes_onlyD(6) [OF st]] changes_onlyD(3) [OF st]
  by (auto simp: is_block_def)

lemma block_other:
  assumes st: "changes_only d n b y s t"
  shows "i \<noteq> b \<Longrightarrow> is_block d m (bufs t i) \<longleftrightarrow> is_block d m (bufs s i)"
  using payload_eq(8) [OF changes_onlyD(8) [OF st]] by blast

lemma not_n:
  assumes st: "changes_only d n b y s t"
  shows "i \<noteq> b \<Longrightarrow> i < NBUF \<Longrightarrow> \<not> is_block d n (bufs s i)"
  using changes_onlyD(5) [OF st] holder_Some [OF changes_onlyD(1) [OF st], of n i]
    holder_None [of d s n] by auto

lemma inv_t:
  assumes st: "changes_only d n b y s t"
  shows "cache_inv d t"
  unfolding cache_inv_def
proof (intro conjI allI impI)
  note inv = changes_onlyD(1) [OF st]
    and b = changes_onlyD(2) [OF st]
    and y = changes_onlyD(3,4) [OF st]
    and from_s = changes_onlyD(5) [OF st]
    and new = changes_onlyD(6,7) [OF st]
    and others = changes_onlyD(8,9) [OF st]
    and list = changes_onlyD(10) [OF st]
    and medium = changes_onlyD(11,12) [OF st]
    and idle = changes_onlyD(13) [OF st]
    and unref = changes_onlyD(14) [OF st]
  note block_b = block_b [OF st] and block_other = block_other [OF st] and not_n = not_n [OF st]
  show "d \<noteq> 0" "\<exists>L. lru (bufs t) L \<and> set L = {..<NBUF}" "vq_idle (vq t)"
    using cache_invD(1) [OF inv] list idle by auto
  fix i assume i: "i < NBUF"
  show "b_dev (bufs t i) = d \<or> fresh (bufs t i)"
  proof (cases "i = b")
    case True
    then show ?thesis using payload_eq(2) [OF new(1)] y(1) by (simp add: is_block_def)
  next
    case False
    then show ?thesis using cache_invD(3) [OF inv i] payload_eq(2,9) [OF others(1)] by metis
  qed
  show "length (b_data (bufs t i)) = BSIZE"
    using cache_invD(7) [OF inv i] payload_eq(5) [OF others(1)] payload_eq(5) [OF new(1)] new(2)
    by (cases "i = b") auto
  { assume r: "b_refcnt (bufs t i) = 0"
    show "sleep_free t (SL_buf i)"
    proof (cases "i = b")
      case True
      then show ?thesis using unref r payload_eq(4) [OF new(1)] by simp
    next
      case False
      then have "b_refcnt (bufs s i) = 0" using r payload_eq(4) [OF others(1)] by metis
      then have "sleep_free s (SL_buf i)" by (rule cache_invD(5) [OF inv i])
      then show ?thesis using others(2) [of "SL_buf i"] False by (simp add: sleep_free_def)
    qed
    assume v: "is_valid (bufs t i)"
    show "b_data (bufs t i) = on_disk t (b_blockno (bufs t i))"
    proof (cases "i = b")
      case True
      then show ?thesis
        using unref r payload_eq(3,4,5) [OF new(1)] y(1) by (simp add: is_block_def)
    next
      case False
      note e = payload_eq [OF others(1) [OF False]]
      have f: "b_dev (bufs s i) = d" using cache_invD(3) [OF inv i] v e by (auto simp: fresh_def is_valid_def)
      then have "b_blockno (bufs s i) \<noteq> n" using not_n [OF False i] by (auto simp: is_block_def)
      then show ?thesis using cache_invD(6) [OF inv i] r v e medium(1) by simp
    qed }
next
  note inv = changes_onlyD(1) [OF st] and b = changes_onlyD(2) [OF st]
    and block_b = block_b [OF st] and block_other = block_other [OF st] and not_n = not_n [OF st]
  fix i j
  assume ij: "i < NBUF" "j < NBUF"
    and same: "b_dev (bufs t i) = d \<and> b_dev (bufs t j) = d \<and> b_blockno (bufs t i) = b_blockno (bufs t j)"
  then have bl: "is_block d (b_blockno (bufs t i)) (bufs t i)" "is_block d (b_blockno (bufs t i)) (bufs t j)"
    by (simp_all add: is_block_def)
  show "i = j"
  proof (rule ccontr)
    assume "i \<noteq> j"
    then consider "i = b" "j \<noteq> b" | "i \<noteq> b" "j = b" | "i \<noteq> b" "j \<noteq> b" by blast
    then show False
    proof cases
      case 1
      then show ?thesis using bl block_b block_other not_n ij by auto
    next
      case 2
      then show ?thesis using bl block_b block_other not_n ij by auto
    next
      case 3
      then have "is_block d (b_blockno (bufs t i)) (bufs s i)" "is_block d (b_blockno (bufs t i)) (bufs s j)"
        using bl block_other by auto
      then show ?thesis using cache_invD(4) [OF inv ij] \<open>i \<noteq> j\<close> by (auto simp: is_block_def)
    qed
  qed
qed (rule changes_onlyD(12) [OF st])

lemma holder_t:
  assumes st: "changes_only d n b y s t"
  shows "holder d t m =
    (if m = n then Some b else if holder d s m = Some b then None else holder d s m)"
proof -
  note inv = changes_onlyD(1) [OF st] and b = changes_onlyD(2) [OF st]
    and inv_t = inv_t [OF st] and block_b = block_b [OF st] and block_other = block_other [OF st]
  show ?thesis
  proof (cases "m = n")
  case True
  then show ?thesis using holder_Some [OF inv_t, of n b] b block_b by simp
next
  case False
  show ?thesis
  proof (cases "holder d s m = Some b")
    case True
    have "\<not> is_block d m (bufs t i)" if "i < NBUF" for i
      using True holder_Some [OF inv, of m b] holder_Some [OF inv, of m i] that False block_b block_other
      by (cases "i = b") auto
    then show ?thesis using True False by (simp add: holder_None)
  next
    case no: False
    show ?thesis
    proof (cases "holder d s m")
      case None
      then have "\<not> is_block d m (bufs t i)" if "i < NBUF" for i
        using that False block_b block_other by (cases "i = b") (auto simp: holder_None)
      then have "holder d t m = None" by (simp add: holder_None)
      then show ?thesis using None False by simp
    next
      case (Some i)
      then have "i \<noteq> b" "i < NBUF" "is_block d m (bufs s i)" using no holder_Some [OF inv, of m i] by auto
      then have "holder d t m = Some i" using holder_Some [OF inv_t, of m i] block_other by auto
      then show ?thesis using Some False no by simp
    qed
  qed
  qed
qed

text \<open>The block that loses its buffer was unreferenced, clean, and agreed with the disk.\<close>

lemma evicted:
  assumes st: "changes_only d n b y s t" and m: "m \<noteq> n" "holder d s m = Some b"
  shows "recyclable (bufs s b)"
    "is_valid (bufs s b) \<Longrightarrow> b_data (bufs s b) = on_disk s m"
proof -
  note inv = changes_onlyD(1) [OF st] and b = changes_onlyD(2) [OF st] and from_s = changes_onlyD(5) [OF st]
  have bl: "is_block d m (bufs s b)" using holder_Some [OF inv, of m b] m(2) by simp
  have "holder d s n \<noteq> Some b" using holder_Some [OF inv, of n b] bl m(1) by (auto simp: is_block_def)
  then show r: "recyclable (bufs s b)" using from_s by simp
  assume "is_valid (bufs s b)"
  then show "b_data (bufs s b) = on_disk s m"
    using cache_invD(6) [OF inv b] r bl by (simp add: recyclable_def is_block_def)
qed

lemma views_t:
  assumes st: "changes_only d n b y s t"
  shows "view d t = (view d s)(n := b_data y)" "refs d t = (refs d s)(n := b_refcnt y)"
  "dirty d t = (dirty d s)(n := is_dirty y)"
proof -
  note inv = changes_onlyD(1) [OF st]
    and b = changes_onlyD(2) [OF st]
    and y = changes_onlyD(3,4) [OF st]
    and from_s = changes_onlyD(5) [OF st]
    and new = changes_onlyD(6,7) [OF st]
    and others = changes_onlyD(8,9) [OF st]
    and list = changes_onlyD(10) [OF st]
    and medium = changes_onlyD(11,12) [OF st]
    and idle = changes_onlyD(13) [OF st]
    and unref = changes_onlyD(14) [OF st]
  note holder_t = holder_t [OF st] and evicted = evicted [OF st]
  note e = payload_eq [OF new(1)]
  { fix m assume m: "m \<noteq> n"
    have *: "view d t m = view d s m \<and> refs d t m = refs d s m \<and> dirty d t m = dirty d s m"
    proof (cases "holder d s m = Some b")
      case True
      then have "holder d t m = None" using m by (simp add: holder_t)
      then show ?thesis using evicted [OF m True] True m medium(1) [OF m]
        by (auto simp: view_def refs_def dirty_def recyclable_def)
    next
      case False
      then have ht: "holder d t m = holder d s m" using m by (simp add: holder_t)
      show ?thesis
      proof (cases "holder d s m")
        case None
        then show ?thesis using ht medium(1) [OF m] by (simp add: view_def refs_def dirty_def)
      next
        case (Some i)
        then have "i \<noteq> b" using False by auto
        note e = payload_eq [OF others(1) [OF this]]
        show ?thesis using Some ht medium(1) [OF m] e by (simp add: view_def refs_def dirty_def)
      qed
    qed
    note this } note rest = this
  have ht: "holder d t n = Some b" by (simp add: holder_t)
  show "view d t = (view d s)(n := b_data y)" "refs d t = (refs d s)(n := b_refcnt y)"
    "dirty d t = (dirty d s)(n := is_dirty y)"
    using rest ht e y(2) by (auto simp: fun_eq_iff view_def refs_def dirty_def)
qed

end
