(* ===== verification/Block_Specs.thy ===== *)
theory Block_Specs
  imports Cache_Props
begin

text \<open>
  What each operation of the block layer does to the abstraction of \<open>Cache_Props\<close>, in a
  state where no lock is held outside the buffers, and with a disk that follows the
  specification.
\<close>

unbundle bit_operations_syntax

definition block_ok :: "u32 \<Rightarrow> 'a disks_scheme \<Rightarrow> bool" where
  "block_ok d s \<longleftrightarrow> cache_inv d s \<and> locks_free s \<and> on_cpu s"

text \<open>The frame of an operation on buffer \<open>b\<close>.\<close>

definition only_buf :: "nat \<Rightarrow> 'a disks_scheme \<Rightarrow> 'a disks_scheme \<Rightarrow> bool" where
  "only_buf b s t \<longleftrightarrow> calm s t \<and> disks.more t = disks.more s \<and>
     (\<forall>i. i \<noteq> b \<longrightarrow> payload (bufs t i) = payload (bufs s i)) \<and>
     (\<forall>k. k \<noteq> SL_buf b \<longrightarrow> sleeplk t k = sleeplk s k)"

lemma only_buf_trans: "only_buf b s t \<Longrightarrow> only_buf b t u \<Longrightarrow> only_buf b s u"
  unfolding only_buf_def using calm_trans by metis

lemma block_ok_calm: "calm s t \<Longrightarrow> block_ok d s \<Longrightarrow> cache_inv d t \<Longrightarrow> block_ok d t"
  by (simp add: block_ok_def calm_locks_free calm_on_cpu)

subsection \<open>Taking a buffer\<close>

lemma lock_found_spec:
  assumes "spinlock_held LK_bcache s = 0" "calm (set_locked LK_bcache 1 (intr_off s)) u"
    "locks_free s" "on_cpu s" "sleep_free u (SL_buf b)"
  shows "\<exists>t. lock_found slp b u = Ret (Some b) t \<and> calm s t \<and> owns_sleep t (SL_buf b) \<and>
    same_blocks u t \<and> (\<forall>k. k \<noteq> SL_buf b \<longrightarrow> sleeplk t k = sleeplk u k)"
proof -
  let ?v = "intr_on (set_locked LK_bcache 0 u)"
  have cv: "calm s ?v" using calm_critical [OF assms(1,2)] .
  have "spinlock_held LK_bcache u = 1" using calm_held [OF assms(2), of LK_bcache] by simp
  then have rel: "spinlock_release LK_bcache u = Ret () ?v" by (simp add: spinlock_release_def)
  have "locks_free ?v" "on_cpu ?v" using cv assms(3,4) by (simp_all add: calm_locks_free calm_on_cpu)
  moreover have "sleep_free ?v (SL_buf b)" using assms(5) by (simp add: sleep_free_def)
  ultimately obtain t where t: "sleeplock_acquire slp (SL_buf b) ?v = Ret () t" "owns_sleep t (SL_buf b)"
    "calm ?v t" "same_blocks ?v t" "\<forall>k. k \<noteq> SL_buf b \<longrightarrow> sleeplk t k = sleeplk ?v k"
    using acquire_spec by blast
  have "same_blocks u t" using t(4) by (simp add: same_blocks_def)
  moreover have "calm s t" using cv t(3) by (rule calm_trans)
  ultimately show ?thesis using rel t by (simp add: lock_found_def)
qed

lemma find_holder:
  assumes "cache_inv d s" "set L = {..<NBUF}"
  shows "find (\<lambda>i. is_block d n (bufs s i)) L = holder d s n"
proof (cases "find (\<lambda>i. is_block d n (bufs s i)) L")
  case None
  then have "\<forall>i \<in> set L. \<not> is_block d n (bufs s i)" by (simp add: find_None_iff)
  then have "holder d s n = None" using assms(2) by (auto simp: holder_None)
  with None show ?thesis by simp
next
  case (Some i)
  then have "i \<in> set L" "is_block d n (bufs s i)"
    by (auto simp: find_Some_iff)
  then have "holder d s n = Some i" using assms by (simp add: holder_Some)
  with Some show ?thesis by simp
qed

definition new_holder :: "u32 \<Rightarrow> u32 \<Rightarrow> buf \<Rightarrow> buf" where
  "new_holder d n x = x\<lparr>b_dev := d, b_blockno := n, b_flags := 0, b_refcnt := 1\<rparr>"

lemma buf_get_spec:
  assumes ok: "block_ok d s"
    and free: "\<And>i. holder d s n = Some i \<Longrightarrow> sleep_free s (SL_buf i)"
    and room: "holder d s n = None \<Longrightarrow> \<exists>i < NBUF. recyclable (bufs s i)"
  shows "\<exists>t b y. buf_get slp d n s = Ret (Some b) t \<and> b < NBUF \<and> calm s t \<and> vq t = vq s \<and>
    disk t = disk s \<and> disks.more t = disks.more s \<and> owns_sleep t (SL_buf b) \<and>
    (\<forall>k. k \<noteq> SL_buf b \<longrightarrow> sleeplk t k = sleeplk s k) \<and> bufs t = (bufs s)(b := y) \<and>
    (holder d s n = Some b \<and> y = b_refcnt_update (\<lambda>n. n + 1) (bufs s b) \<or>
     holder d s n = None \<and> recyclable (bufs s b) \<and> y = new_holder d n (bufs s b))"
proof -
  have inv: "cache_inv d s" and lf: "locks_free s" and cpu: "on_cpu s" using ok by (simp_all add: block_ok_def)
  obtain L where L: "lru (bufs s) L" "set L = {..<NBUF}" using cache_invD(2) [OF inv] by blast
  let ?s1 = "set_locked LK_bcache 1 (intr_off s)"
  have h: "spinlock_held LK_bcache s = 0" using lf by (rule locks_freeD)
  then have acq: "spinlock_acquire LK_bcache s = Ret () ?s1" by (simp add: acquire_eq)
  have f1: "search b_next (is_block d n) (bufs s) (b_next (bufs s HEAD)) = Some (holder d s n)"
    using search_next [OF L(1)] find_holder [OF inv L(2)] by simp
  show ?thesis
  proof (cases "holder d s n")
    case (Some b)
    let ?u = "upd_buf b (b_refcnt_update (\<lambda>n. n + 1)) ?s1"
    have "calm ?s1 ?u" by (rule calmI) simp_all
    moreover have "sleep_free ?u (SL_buf b)" using free [OF Some] by (simp add: sleep_free_def)
    ultimately obtain t where t: "lock_found slp b ?u = Ret (Some b) t" "calm s t"
      "owns_sleep t (SL_buf b)" "same_blocks ?u t" "\<forall>k. k \<noteq> SL_buf b \<longrightarrow> sleeplk t k = sleeplk ?u k"
      using lock_found_spec [OF h _ lf cpu] by blast
    have "buf_get slp d n s = Ret (Some b) t" using acq f1 Some t(1) by (simp add: buf_get_def)
    moreover have "b < NBUF" using holder_Some [OF inv] Some by blast
    ultimately show ?thesis using t Some by (auto simp: same_blocks_def)
  next
    case None
    have "\<exists>b. find (\<lambda>i. recyclable (bufs s i)) (rev L) = Some b"
      using room [OF None] L(2) find_None_iff [of "\<lambda>i. recyclable (bufs s i)" "rev L"] by auto
    then obtain b where b: "find (\<lambda>i. recyclable (bufs s i)) (rev L) = Some b" ..
    then have b2: "b \<in> set (rev L)" "recyclable (bufs s b)"
      using find_SomeD by fastforce+
    then have bn: "b < NBUF" using L(2) by simp
    have f2: "search b_prev recyclable (bufs s) (b_prev (bufs s HEAD)) = Some (Some b)"
      using search_prev [OF L(1)] b by simp
    let ?u = "upd_buf b (\<lambda>x. x\<lparr>b_dev := d, b_blockno := n, b_flags := 0, b_refcnt := 1\<rparr>) ?s1"
    have "calm ?s1 ?u" by (rule calmI) simp_all
    moreover have "sleep_free ?u (SL_buf b)"
      using cache_invD(5) [OF inv bn] b2(2) by (simp add: recyclable_def sleep_free_def)
    ultimately obtain t where t: "lock_found slp b ?u = Ret (Some b) t" "calm s t"
      "owns_sleep t (SL_buf b)" "same_blocks ?u t" "\<forall>k. k \<noteq> SL_buf b \<longrightarrow> sleeplk t k = sleeplk ?u k"
      using lock_found_spec [OF h _ lf cpu] by blast
    have "buf_get slp d n s = Ret (Some b) t" using acq f1 f2 None t(1) by (simp add: buf_get_def)
    then show ?thesis using t None bn b2(2) by (auto simp: same_blocks_def new_holder_def)
  qed
qed

subsection \<open>Reading a block\<close>

lemma dirty_flags:
  "(f OR B_VALID) AND B_DIRTY = f AND B_DIRTY" "(f OR B_DIRTY) AND B_VALID = f AND B_VALID"
  "(f OR B_DIRTY) AND B_DIRTY \<noteq> 0"
proof -
  have v: "bit B_VALID i \<longleftrightarrow> i = 1" for i
    using bit_exp_iff [where 'a = u32, of 1 i] by (auto simp: B_VALID_def bit_simps)
  have d: "bit B_DIRTY i \<longleftrightarrow> i = 2" for i
    using bit_exp_iff [where 'a = u32, of 2 i] by (auto simp: B_DIRTY_def bit_simps)
  show "(f OR B_VALID) AND B_DIRTY = f AND B_DIRTY" "(f OR B_DIRTY) AND B_VALID = f AND B_VALID"
    by (rule bit_word_eqI; auto simp: bit_simps v d)+
  have "bit ((f OR B_DIRTY) AND B_DIRTY) 2" by (simp add: bit_simps d)
  then show "(f OR B_DIRTY) AND B_DIRTY \<noteq> 0" by (metis bit_0_eq bot_apply bot_bool_def)
qed

lemma block_sector_eq: "block_sector b = ucast (b_blockno b)"
  by (simp add: block_sector_def BSIZE_def)

lemma block_read_spec:
  assumes ok: "block_ok d s" and dev: "obeys_virtio D"
    and free: "\<And>i. holder d s n = Some i \<Longrightarrow> sleep_free s (SL_buf i)"
    and room: "holder d s n = None \<Longrightarrow> \<exists>i < NBUF. recyclable (bufs s i)"
    and noover: "refs d s n + 1 \<noteq> 0"
  shows "\<exists>t b. block_read (served_sleep D) d n s = Ret (Some b) t \<and> only_buf b s t \<and> b < NBUF \<and>
    block_ok d t \<and> holder d t n = Some b \<and> is_valid (bufs t b) \<and> owns_sleep t (SL_buf b) \<and>
    view d t = view d s \<and> refs d t = (refs d s)(n := refs d s n + 1) \<and> dirty d t = dirty d s \<and>
    disk t = disk s"
proof -
  have inv: "cache_inv d s" using ok by (simp add: block_ok_def)
  obtain u b y where u: "buf_get (served_sleep D) d n s = Ret (Some b) u" "b < NBUF" "calm s u" "vq u = vq s"
    "disk u = disk s" "disks.more u = disks.more s" "owns_sleep u (SL_buf b)"
    "\<forall>k. k \<noteq> SL_buf b \<longrightarrow> sleeplk u k = sleeplk s k" "bufs u = (bufs s)(b := y)" and
    y: "holder d s n = Some b \<and> y = b_refcnt_update (\<lambda>n. n + 1) (bufs s b) \<or>
     holder d s n = None \<and> recyclable (bufs s b) \<and> y = new_holder d n (bufs s b)"
    using buf_get_spec [OF ok free room] by blast
  have bly: "is_block d n y"
    using y holder_Some [OF inv, of n b] by (auto simp: is_block_def new_holder_def)
  have refy: "b_refcnt y = refs d s n + 1" using y by (auto simp: refs_def new_holder_def)
  have linky: "b_next y = b_next (bufs s b)" "b_prev y = b_prev (bufs s b)"
    using y by (auto simp: new_holder_def)
  have dirtyy: "is_dirty y = dirty d s n"
    using y by (auto simp: dirty_def new_holder_def is_dirty_def)
  have leny: "length (b_data y) = BSIZE"
    using y cache_invD(7) [OF inv u(2)] by (auto simp: new_holder_def)
  have viewy: "is_valid y \<Longrightarrow> b_data y = view d s n"
    using y by (auto simp: view_def new_holder_def is_valid_def)
  have viewn: "\<not> is_valid y \<Longrightarrow> on_disk s n = view d s n"
    using y by (auto simp: view_def new_holder_def is_valid_def)
  text \<open>The state after the transfer, if any, holds \<open>z\<close> in the buffer.\<close>
  define z where "z = y\<lparr>b_flags := b_flags y OR B_VALID, b_data := view d s n\<rparr>"
  have "\<exists>t. block_read (served_sleep D) d n s = Ret (Some b) t \<and> calm s t \<and>
      disks.more t = disks.more s \<and> sleeplk t = sleeplk u \<and> my_pid t = my_pid u \<and> vq_idle (vq t) \<and>
      disk t = disk s \<and> bufs t = (bufs s)(b := if is_valid y then y else z)"
  proof (cases "is_valid y")
    case True
    then have "block_read (served_sleep D) d n s = Ret (Some b) u"
      using u(1,9) by (simp add: block_read_def is_valid_def)
    then show ?thesis using u True cache_invD(9) [OF inv] by auto
  next
    case False
    have lf: "locks_free u" "on_cpu u"
      using ok u(3) by (simp_all add: block_ok_def calm_locks_free calm_on_cpu)
    obtain p where p: "current_process u = Some p" using lf(2) by (auto simp: on_cpu_def)
    have idle: "vq_idle (vq u)" using cache_invD(9) [OF inv] u(4) by simp
    obtain t where t: "virtio_disk_rw (served_sleep D) b False u = Ret () t" "quiet u t" "vq_idle (vq t)"
      "bufs t = transferred b False (block_sector (bufs u b)) u" "disk t = disk u"
      using rw_spec [OF dev idle locks_freeD(5) [OF lf(1)] p, of b False] by auto
    have "block_read (served_sleep D) d n s = Ret (Some b) t"
      using u(1,9) t(1) False by (simp add: block_read_def is_valid_def)
    moreover have "bufs t = (bufs s)(b := z)"
      using t(4) u(5,9) bly viewn [OF False]
      by (auto simp: transferred_def z_def block_sector_eq is_block_def on_disk_def)
    moreover have "calm s t" using u(3) t(2) calm_trans by (auto simp: quiet_def)
    moreover have "my_pid t = my_pid u" using t(2) lf(2) by (auto simp: quiet_def calm_my_pid)
    ultimately show ?thesis using t u False by (auto simp: quiet_def)
  qed
  then obtain t where t: "block_read (served_sleep D) d n s = Ret (Some b) t" "calm s t"
    "disks.more t = disks.more s" "sleeplk t = sleeplk u" "my_pid t = my_pid u" "vq_idle (vq t)"
    "disk t = disk s" "bufs t = (bufs s)(b := if is_valid y then y else z)" by blast
  let ?z = "if is_valid y then y else z"
  have zz: "is_block d n ?z" "is_valid ?z" "b_data ?z = view d s n" "b_refcnt ?z = refs d s n + 1"
    "is_dirty ?z = dirty d s n" "b_next ?z = b_next (bufs s b)" "b_prev ?z = b_prev (bufs s b)"
    using bly viewy refy linky dirtyy
    by (auto simp: z_def is_block_def is_valid_def is_dirty_def flags_or_valid dirty_flags)
  have ch: "changes_only d n b ?z s t"
    unfolding changes_only_def
  proof (intro conjI allI impI)
    show "\<exists>L. lru (bufs t) L \<and> set L = {..<NBUF}"
      using cache_invD(2) [OF inv] zz(6,7) lru_cong [of "bufs t" "bufs s"] by (auto simp: t(8))
    show "holder d s n = Some b \<or> holder d s n = None \<and> recyclable (bufs s b)" using y by blast
    show "length (b_data ?z) = BSIZE" using zz(3) view_length [OF inv] by simp
    show "b_refcnt ?z = 0 \<Longrightarrow> sleep_free t (SL_buf b)" "b_refcnt ?z = 0 \<Longrightarrow> b_data ?z = on_disk t n"
      using zz(4) noover by auto
  qed (use inv u t zz cache_invD(8) [OF inv] in \<open>auto simp: on_disk_def\<close>)
  note vt = views_t [OF ch, unfolded zz]
  have "view d t = view d s" using vt(1) by (simp add: fun_upd_idem)
  moreover have "dirty d t = dirty d s" using vt(3) by (simp add: fun_upd_idem)
  moreover have "only_buf b s t" using t u by (auto simp: only_buf_def)
  moreover have "owns_sleep t (SL_buf b)" using u(7) t(4,5) by (simp add: owns_sleep_def)
  moreover have "holder d t n = Some b" using holder_t [OF ch, of n] by simp
  moreover have "is_valid (bufs t b)" using t(8) zz(2) by simp
  moreover have "block_ok d t" using block_ok_calm [OF t(2) ok inv_t [OF ch]] .
  ultimately show ?thesis using t(1,7) u(2) vt(2) by blast
qed

subsection \<open>Changing and writing a block\<close>

text \<open>What the owner of a referenced, valid buffer does.\<close>

definition owned_buf :: "u32 \<Rightarrow> 'a disks_scheme \<Rightarrow> u32 \<Rightarrow> nat \<Rightarrow> bool" where
  "owned_buf d s n b \<longleftrightarrow> holder d s n = Some b \<and> is_valid (bufs s b) \<and> owns_sleep s (SL_buf b)"

lemma owned_bufD:
  assumes "owned_buf d s n b" "block_ok d s"
  shows "b < NBUF" "is_block d n (bufs s b)" "b_data (bufs s b) = view d s n"
    "b_refcnt (bufs s b) = refs d s n" "is_dirty (bufs s b) = dirty d s n" "is_valid (bufs s b)"
    "refs d s n \<noteq> 0"
proof -
  have inv: "cache_inv d s" using assms(2) by (simp add: block_ok_def)
  show b: "b < NBUF" "is_block d n (bufs s b)"
    using assms(1) holder_Some [OF inv, of n b] by (simp_all add: owned_buf_def)
  show "b_data (bufs s b) = view d s n" "b_refcnt (bufs s b) = refs d s n"
    "is_dirty (bufs s b) = dirty d s n" "is_valid (bufs s b)"
    using assms(1) by (simp_all add: owned_buf_def view_def refs_def dirty_def)
  then show "refs d s n \<noteq> 0"
    using cache_invD(5) [OF inv b(1)] assms(1) by (auto simp: owned_buf_def owns_sleep_def sleep_free_def)
qed

text \<open>Owning a buffer survives an operation on another one.\<close>

lemma owned_buf_frame:
  assumes "owned_buf d s n b" "block_ok d s" "block_ok d t" "only_buf c s t" "b \<noteq> c"
  shows "owned_buf d t n b"
proof -
  note o = owned_bufD [OF assms(1,2)]
  have c: "calm s t" "payload (bufs t b) = payload (bufs s b)" "sleeplk t (SL_buf b) = sleeplk s (SL_buf b)"
    using assms(4,5) by (simp_all add: only_buf_def)
  have "on_cpu s" using assms(2) by (simp add: block_ok_def)
  then have "my_pid t = my_pid s" using c(1) by (rule calm_my_pid [rotated])
  then have "owns_sleep t (SL_buf b)" using assms(1) c(3) by (simp add: owned_buf_def owns_sleep_def)
  moreover have "holder d t n = Some b"
    using holder_Some [of d t n b] assms(3) o(1,2) payload_eq(8) [OF c(2)] by (simp add: block_ok_def)
  ultimately show ?thesis using o(6) payload_eq(6) [OF c(2)] by (simp add: owned_buf_def)
qed

lemma set_data_spec:
  assumes ok: "block_ok d s" and own: "owned_buf d s n b" and len: "length x = BSIZE"
  shows "block_ok d (upd_buf b (b_data_update (\<lambda>_. x)) s) \<and>
    only_buf b s (upd_buf b (b_data_update (\<lambda>_. x)) s) \<and>
    owned_buf d (upd_buf b (b_data_update (\<lambda>_. x)) s) n b \<and>
    view d (upd_buf b (b_data_update (\<lambda>_. x)) s) = (view d s)(n := x) \<and>
    refs d (upd_buf b (b_data_update (\<lambda>_. x)) s) = refs d s \<and>
    dirty d (upd_buf b (b_data_update (\<lambda>_. x)) s) = dirty d s"
proof -
  let ?t = "upd_buf b (b_data_update (\<lambda>_. x)) s" and ?y = "b_data_update (\<lambda>_. x) (bufs s b)"
  note o = owned_bufD [OF own ok]
  have inv: "cache_inv d s" using ok by (simp add: block_ok_def)
  have ch: "changes_only d n b ?y s ?t"
    unfolding changes_only_def
  proof (intro conjI allI impI)
    show "\<exists>L. lru (bufs ?t) L \<and> set L = {..<NBUF}"
      using cache_invD(2) [OF inv] lru_cong [of "bufs ?t" "bufs s"] by auto
    show "holder d s n = Some b \<or> holder d s n = None \<and> recyclable (bufs s b)"
      using own by (simp add: owned_buf_def)
    show "b_refcnt ?y = 0 \<Longrightarrow> sleep_free ?t (SL_buf b)" "b_refcnt ?y = 0 \<Longrightarrow> b_data ?y = on_disk ?t n"
      using o(4,7) by auto
  qed (use inv len o cache_invD(8,9) [OF inv] in \<open>auto simp: on_disk_def is_block_def is_valid_def payload_def\<close>)
  note vt = views_t [OF ch]
  have "is_dirty ?y = dirty d s n" using o(5) by (simp add: is_dirty_def)
  then have "refs d ?t = refs d s" "dirty d ?t = dirty d s" "view d ?t = (view d s)(n := x)"
    using vt o(4) by (simp_all add: fun_upd_idem)
  moreover have "calm s ?t" by (rule calmI) simp_all
  moreover have "owned_buf d ?t n b"
    using own holder_t [OF ch, of n] by (simp add: owned_buf_def is_valid_def owns_sleep_def)
  ultimately show ?thesis using block_ok_calm [OF _ ok inv_t [OF ch]] by (auto simp: only_buf_def)
qed

lemma ucast_sector: "(ucast (m :: u32) :: u64) = ucast n \<longleftrightarrow> m = n"
proof
  assume "(ucast m :: u64) = ucast n"
  then have "unat (ucast m :: u64) = unat (ucast n :: u64)" by simp
  then show "m = n" by (subst word_unat_eq_iff) (simp add: unsigned_ucast_eq take_bit_nat_eq_self unsigned_less
        less_le_trans [OF unsigned_less])
qed simp

lemma dirty_valid:
  "(f OR B_DIRTY OR B_VALID) AND B_VALID \<noteq> 0" "(f OR B_DIRTY OR B_VALID) AND B_DIRTY \<noteq> 0"
  using flags_or_valid(3) [of "f OR B_DIRTY"] dirty_flags(3) [of "f OR B_VALID"]
  by (simp_all only: or.assoc or.commute [of B_VALID B_DIRTY] simp_thms)

lemma block_write_spec:
  assumes ok: "block_ok d s" and dev: "obeys_virtio D" and own: "owned_buf d s n b"
  shows "\<exists>t. block_write (served_sleep D) b s = Ret () t \<and> only_buf b s t \<and> block_ok d t \<and>
    owned_buf d t n b \<and> view d t = view d s \<and> refs d t = refs d s \<and> dirty d t = (dirty d s)(n := True) \<and>
    disk t = write_sector (ucast n) (view d s n) (disk s)"
proof -
  note o = owned_bufD [OF own ok]
  have inv: "cache_inv d s" and lf: "locks_free s" and cpu: "on_cpu s" using ok by (simp_all add: block_ok_def)
  obtain u where u: "sleeplock_held (SL_buf b) s = Ret True u" "calm s u" "same_blocks s u" "sleeplk u = sleeplk s"
    using held_spec [OF lf, of "SL_buf b"] own by (auto simp: owned_buf_def)
  let ?v = "upd_buf b (b_flags_update (\<lambda>f. f OR B_DIRTY)) u"
  have cv: "calm s ?v" using u(2) calm_trans [of s u ?v] by (simp add: calmI)
  have lv: "locks_free ?v" "on_cpu ?v" using cv lf cpu by (simp_all only: calm_locks_free calm_on_cpu)
  obtain p where p: "current_process ?v = Some p" using lv(2) by (auto simp: on_cpu_def)
  have idle: "vq_idle (vq ?v)" using cache_invD(9) [OF inv] u(3) by (simp add: same_blocks_def)
  obtain t where t: "virtio_disk_rw (served_sleep D) b True ?v = Ret () t" "quiet ?v t" "vq_idle (vq t)"
    "bufs t = transferred b True (block_sector (bufs ?v b)) ?v"
    "disk t = write_sector (block_sector (bufs ?v b)) (b_data (bufs ?v b)) (disk ?v)"
    using rw_spec [OF dev idle locks_freeD(5) [OF lv(1)] p, of b True] by auto
  let ?y = "(bufs s b)\<lparr>b_flags := b_flags (bufs s b) OR B_DIRTY OR B_VALID\<rparr>"
  have bt: "bufs t = (bufs s)(b := ?y)"
    using t(4) u(3) by (cases "bufs s b") (auto simp: transferred_def same_blocks_def or.assoc)
  have sec: "block_sector (bufs ?v b) = ucast n"
    using o(2) u(3) by (simp add: block_sector_eq same_blocks_def is_block_def)
  have dt: "disk t = write_sector (ucast n) (view d s n) (disk s)"
    using t(5) sec o(3) u(3) by (simp add: same_blocks_def)
  have sl: "sleeplk t = sleeplk s" using t(2) u(4) by (simp add: quiet_def)
  have ct: "calm s t" using cv t(2) calm_trans by (auto simp: quiet_def)
  have pid: "my_pid t = my_pid s" using calm_my_pid [OF ct cpu] .
  have ch: "changes_only d n b ?y s t"
    unfolding changes_only_def
  proof (intro conjI allI impI)
    show "\<exists>L. lru (bufs t) L \<and> set L = {..<NBUF}"
      using cache_invD(2) [OF inv] lru_cong [of "bufs t" "bufs s"] by (auto simp: bt)
    show "holder d s n = Some b \<or> holder d s n = None \<and> recyclable (bufs s b)"
      using own by (simp add: owned_buf_def)
    show "b_refcnt ?y = 0 \<Longrightarrow> sleep_free t (SL_buf b)" "b_refcnt ?y = 0 \<Longrightarrow> b_data ?y = on_disk t n"
      using o(4,7) by auto
    show "is_valid ?y" by (simp add: is_valid_def dirty_valid)
    show "length (sectors (disk t) m) = BSIZE" for m
      using cache_invD(8) [OF inv, of m] view_length [OF inv, of n] by (simp add: dt write_sector_def)
    show "on_disk t m = on_disk s m" if "m \<noteq> n" for m
      using that by (simp add: on_disk_def dt write_sector_def ucast_sector)
  qed (use inv o t(3) bt sl view_length [OF inv] in \<open>auto simp: is_block_def payload_def\<close>)
  note vt = views_t [OF ch]
  have "is_dirty ?y" by (simp add: is_dirty_def dirty_valid)
  then have "refs d t = refs d s" "dirty d t = (dirty d s)(n := True)" "view d t = view d s"
    using vt o(3,4) by (simp_all add: fun_upd_idem)
  moreover have "owned_buf d t n b"
    using own holder_t [OF ch, of n] sl pid by (simp add: owned_buf_def bt is_valid_def dirty_valid owns_sleep_def)
  moreover have "only_buf b s t"
    using ct t(2) u(3) by (auto simp: only_buf_def bt sl quiet_def same_blocks_def)
  moreover have "block_write (served_sleep D) b s = Ret () t"
    using u(1) t(1) by (simp add: block_write_def)
  ultimately show ?thesis using dt block_ok_calm [OF ct ok inv_t [OF ch]] by blast
qed

subsection \<open>References\<close>

lemma u32_pred: "n + 1 - 1 = (n :: u32)" by simp

text \<open>Giving a buffer back. When it was the last reference, the block must agree with the disk.\<close>

lemma block_release_spec:
  assumes ok: "block_ok d s" and own: "owned_buf d s n b"
    and last: "refs d s n = 1 \<Longrightarrow> view d s n = on_disk s n"
  shows "\<exists>t. block_release b s = Ret () t \<and> only_buf b s t \<and> block_ok d t \<and> sleep_free t (SL_buf b) \<and>
    holder d t n = Some b \<and> view d t = view d s \<and> refs d t = (refs d s)(n := refs d s n - 1) \<and>
    dirty d t = dirty d s \<and> disk t = disk s"
proof -
  note o = owned_bufD [OF own ok]
  have inv: "cache_inv d s" and lf: "locks_free s" and cpu: "on_cpu s" using ok by (simp_all add: block_ok_def)
  obtain u where u: "sleeplock_held (SL_buf b) s = Ret True u" "calm s u" "same_blocks s u" "sleeplk u = sleeplk s"
    using held_spec [OF lf, of "SL_buf b"] own by (auto simp: owned_buf_def)
  have lu: "locks_free u" using u(2) lf by (simp add: calm_locks_free)
  obtain v where v: "sleeplock_release (SL_buf b) u = Ret () v" "sleep_free v (SL_buf b)" "calm u v"
    "same_blocks u v" "\<forall>k. k \<noteq> SL_buf b \<longrightarrow> sleeplk v k = sleeplk u k"
    using release_spec [OF lu] by blast
  have csv: "calm s v" using u(2) v(3) by (rule calm_trans)
  have sb: "same_blocks s v" using u(3) v(4) by (simp add: same_blocks_def)
  have h: "spinlock_held LK_bcache v = 0" using csv lf locks_freeD(1) by (metis calm_locks_free)
  let ?v1 = "set_locked LK_bcache 1 (intr_off v)"
  let ?v4 = "upd_buf b (b_refcnt_update (\<lambda>n. n - 1)) ?v1"
  let ?v5 = "if b_refcnt (bufs ?v4 b) = 0 then set_bufs (\<lambda>B. insert_front b (unlink b B)) ?v4 else ?v4"
  let ?t = "intr_on (set_locked LK_bcache 0 ?v5)"
  have "spinlock_held LK_bcache ?v5 = 1" by (simp add: set_bufs_def spinlock_held_def set_locked_def)
  then have run: "block_release b s = Ret () ?t"
    using u(1) v(1) h
    by (simp add: block_release_def buf_release_def acquire_eq spinlock_release_def Let_def)
  have "calm ?v1 ?v5" by (rule calmI) (simp_all add: set_bufs_def)
  then have "calm v ?t" by (rule calm_critical [OF h])
  then have ct: "calm s ?t" using csv calm_trans by blast
  let ?y = "b_refcnt_update (\<lambda>n. n - 1) (bufs s b)"
  have bv: "bufs ?v4 = (bufs s)(b := ?y)" using sb by (simp add: same_blocks_def)
  have bt: "bufs ?t = (if b_refcnt ?y = 0 then insert_front b (unlink b ((bufs s)(b := ?y))) else (bufs s)(b := ?y))"
    using bv by (simp add: set_bufs_def)
  obtain L where L: "lru (bufs s) L" "set L = {..<NBUF}" using cache_invD(2) [OF inv] by blast
  have list: "\<exists>L. lru (bufs ?t) L \<and> set L = {..<NBUF}"
  proof (cases "b_refcnt ?y = 0")
    case True
    obtain xs ys where xy: "L = xs @ b # ys" using o(1) L(2) by (metis lessThan_iff split_list)
    have "lru ((bufs s)(b := ?y)) (xs @ b # ys)"
      using L(1) lru_cong [of "(bufs s)(b := ?y)" "bufs s"] xy by auto
    then have "lru (bufs ?t) (b # xs @ ys)" using lru_front bt True by simp
    moreover have "set (b # xs @ ys) = {..<NBUF}" using L(2) xy by auto
    ultimately show ?thesis by blast
  next
    case False
    then have "lru (bufs ?t) L" using L(1) lru_cong [of "bufs ?t" "bufs s"] bt by auto
    then show ?thesis using L(2) by blast
  qed
  have pay: "payload (bufs ?t i) = payload (((bufs s)(b := ?y)) i)" for i unfolding bt by simp
  have frame: "vq ?t = vq s" "disk ?t = disk s" "disks.more ?t = disks.more s" "sleeplk ?t = sleeplk v"
    using sb by (simp_all add: same_blocks_def set_bufs_def)
  have ch: "changes_only d n b ?y s ?t"
    unfolding changes_only_def
  proof (intro conjI allI impI)
    show "holder d s n = Some b \<or> holder d s n = None \<and> recyclable (bufs s b)"
      using own by (simp add: owned_buf_def)
    show "sleep_free ?t (SL_buf b)" using v(2) frame(4) by (simp add: sleep_free_def)
    show "b_refcnt ?y = 0 \<Longrightarrow> b_data ?y = on_disk ?t n"
      using o(3,4) last frame(2) by (simp add: on_disk_def)
    show "payload (bufs ?t b) = payload ?y" "\<And>i. i \<noteq> b \<Longrightarrow> payload (bufs ?t i) = payload (bufs s i)"
      using pay by auto
    show "\<And>k. k \<noteq> SL_buf b \<Longrightarrow> sleeplk ?t k = sleeplk s k" using frame(4) v(5) u(4) by simp
    show "is_block d n ?y" "is_valid ?y" using o by (simp_all add: is_block_def is_valid_def)
    show "length (b_data ?y) = BSIZE" using o(3) view_length [OF inv] by simp
    show "on_disk ?t m = on_disk s m" for m using frame(2) by (simp add: on_disk_def)
    show "length (sectors (disk ?t) m) = BSIZE" for m unfolding frame(2) by (rule cache_invD(8) [OF inv])
    show "vq_idle (vq ?t)" unfolding frame(1) by (rule cache_invD(9) [OF inv])
  qed (use inv o list in auto)
  note vt = views_t [OF ch]
  have "is_dirty ?y = dirty d s n" using o(5) by (simp add: is_dirty_def)
  then have "refs d ?t = (refs d s)(n := refs d s n - 1)" "dirty d ?t = dirty d s" "view d ?t = view d s"
    using vt o(3,4) by (simp_all add: fun_upd_idem)
  moreover have "holder d ?t n = Some b" using holder_t [OF ch, of n] by simp
  moreover have "sleep_free ?t (SL_buf b)" using v(2) frame(4) by (simp add: sleep_free_def)
  moreover have "only_buf b s ?t" using ct pay frame(3,4) v(5) u(4) by (auto simp: only_buf_def)
  ultimately show ?thesis using run frame(2) block_ok_calm [OF ct ok inv_t [OF ch]] by blast
qed

text \<open>\<open>buf_pin\<close> and \<open>buf_unpin\<close> on a referenced buffer.\<close>

lemma ref_change_spec:
  assumes ok: "block_ok d s" and own: "owned_buf d s n b" and nz: "f (refs d s n) \<noteq> 0"
  shows "\<exists>t. bind_out (spinlock_acquire LK_bcache s) (\<lambda>_ s1.
      spinlock_release LK_bcache (upd_buf b (b_refcnt_update f) s1)) = Ret () t \<and> only_buf b s t \<and>
    block_ok d t \<and> owned_buf d t n b \<and> view d t = view d s \<and>
    refs d t = (refs d s)(n := f (refs d s n)) \<and> dirty d t = dirty d s \<and> disk t = disk s"
proof -
  note o = owned_bufD [OF own ok]
  have inv: "cache_inv d s" and lf: "locks_free s" and cpu: "on_cpu s" using ok by (simp_all add: block_ok_def)
  have h: "spinlock_held LK_bcache s = 0" using lf by (rule locks_freeD)
  let ?s1 = "set_locked LK_bcache 1 (intr_off s)"
  let ?t = "intr_on (set_locked LK_bcache 0 (upd_buf b (b_refcnt_update f) ?s1))"
  let ?y = "b_refcnt_update f (bufs s b)"
  have run: "bind_out (spinlock_acquire LK_bcache s) (\<lambda>_ s1.
      spinlock_release LK_bcache (upd_buf b (b_refcnt_update f) s1)) = Ret () ?t"
    using h by (simp add: acquire_eq spinlock_release_def)
  have "calm ?s1 (upd_buf b (b_refcnt_update f) ?s1)" by (rule calmI) simp_all
  then have ct: "calm s ?t" by (rule calm_critical [OF h])
  have ch: "changes_only d n b ?y s ?t"
    unfolding changes_only_def
  proof (intro conjI allI impI)
    show "\<exists>L. lru (bufs ?t) L \<and> set L = {..<NBUF}"
      using cache_invD(2) [OF inv] lru_cong [of "bufs ?t" "bufs s"] by auto
    show "holder d s n = Some b \<or> holder d s n = None \<and> recyclable (bufs s b)"
      using own by (simp add: owned_buf_def)
    show "b_refcnt ?y = 0 \<Longrightarrow> sleep_free ?t (SL_buf b)" "b_refcnt ?y = 0 \<Longrightarrow> b_data ?y = on_disk ?t n"
      using o(4) nz by auto
    show "length (b_data ?y) = BSIZE" using o(3) view_length [OF inv] by simp
  qed (use inv o cache_invD(8,9) [OF inv] in \<open>auto simp: on_disk_def is_block_def is_valid_def payload_def\<close>)
  note vt = views_t [OF ch]
  have "is_dirty ?y = dirty d s n" using o(5) by (simp add: is_dirty_def)
  then have "refs d ?t = (refs d s)(n := f (refs d s n))" "dirty d ?t = dirty d s" "view d ?t = view d s"
    using vt o(3,4) by (simp_all add: fun_upd_idem)
  moreover have "owned_buf d ?t n b"
    using own holder_t [OF ch, of n] by (simp add: owned_buf_def is_valid_def owns_sleep_def)
  moreover have "only_buf b s ?t" using ct by (simp add: only_buf_def)
  ultimately show ?thesis using run block_ok_calm [OF ct ok inv_t [OF ch]] by (intro exI [of _ ?t]) simp
qed

lemmas buf_pin_spec = ref_change_spec [where f = "\<lambda>n. n + 1", folded buf_pin_def]
lemmas buf_unpin_spec = ref_change_spec [where f = "\<lambda>n. n - 1", folded buf_unpin_def]

end
