(* ===== verification/Log.thy ===== *)
theory Log
  imports Block_Specs
begin

text \<open>
  \<open>kernel/fs/log.c\<close>: the write-ahead log. The header block of the log holds the number of
  logged blocks and their numbers as 32-bit little-endian fields.
\<close>

definition MAXOPBLOCKS :: int where "MAXOPBLOCKS = 10"
definition LOGSIZE :: nat where "LOGSIZE = 30"

record logheader =
  lh_n :: int
  lh_block :: "int list"

record log =
  log_start :: int
  log_size :: int
  outstanding :: int
  committing :: int
  log_dev :: int
  lh :: logheader

record logs = disks +
  logst :: log

definition upd_log :: "(log \<Rightarrow> log) \<Rightarrow> 'a logs_scheme \<Rightarrow> 'a logs_scheme" where
  "upd_log f s = s\<lparr>logst := f (logst s)\<rparr>"

definition set_lh_n :: "int \<Rightarrow> 'a logs_scheme \<Rightarrow> 'a logs_scheme" where
  "set_lh_n n = upd_log (\<lambda>l. l\<lparr>lh := (lh l)\<lparr>lh_n := n\<rparr>\<rparr>)"

definition set_lh_block :: "nat \<Rightarrow> int \<Rightarrow> 'a logs_scheme \<Rightarrow> 'a logs_scheme" where
  "set_lh_block i v = upd_log (\<lambda>l. l\<lparr>lh := (lh l)\<lparr>lh_block := (lh_block (lh l))[i := v]\<rparr>\<rparr>)"

text \<open>The block numbers passed to \<open>block_read\<close>: an \<open>int\<close> as \<open>uint32\<close>.\<close>

definition dev_of :: "'a logs_scheme \<Rightarrow> u32" where
  "dev_of s = word_of_int (log_dev (logst s))"

definition head_block :: "'a logs_scheme \<Rightarrow> u32" where
  "head_block s = word_of_int (log_start (logst s))"

definition log_block :: "'a logs_scheme \<Rightarrow> nat \<Rightarrow> u32" where
  "log_block s tail = word_of_int (log_start (logst s) + int tail + 1)"

definition home_block :: "'a logs_scheme \<Rightarrow> nat \<Rightarrow> u32" where
  "home_block s tail = word_of_int (lh_block (lh (logst s)) ! tail)"

subsection \<open>The header\<close>

text \<open>\<open>struct logheader\<close> at the start of a block.\<close>

definition header_n :: "u8 list \<Rightarrow> int" where
  "header_n x = sint (get32 x 0)"

definition header_block :: "u8 list \<Rightarrow> nat \<Rightarrow> int" where
  "header_block x i = sint (get32 x (4 + 4 * i))"

definition put_header :: "logheader \<Rightarrow> u8 list \<Rightarrow> u8 list" where
  "put_header h x =
     fold (\<lambda>i x. put32 x (4 + 4 * i) (word_of_int (lh_block h ! i))) [0..<nat (lh_n h)]
       (put32 x 0 (word_of_int (lh_n h)))"

definition read_head :: "'a logs_scheme sleeper \<Rightarrow> 'a logs_scheme \<Rightarrow> (unit, 'a logs_scheme) outcome" where
  "read_head slp s =
     bind_out (block_read slp (dev_of s) (head_block s) s) (\<lambda>r s1.
     case r of
       None \<Rightarrow> Ret () s1
     | Some b \<Rightarrow>
         let s2 = set_lh_n (header_n (b_data (bufs s1 b))) s1
         in bind_out (for_out 0 (nat (lh_n (lh (logst s2)))) (\<lambda>i s.
              if i \<ge> LOGSIZE then Stop OutOfBounds s
              else Ret () (set_lh_block i (header_block (b_data (bufs s b)) i) s)) s2) (\<lambda>_ s3.
            block_release b s3))"

definition write_head :: "'a logs_scheme sleeper \<Rightarrow> 'a logs_scheme \<Rightarrow> (unit, 'a logs_scheme) outcome" where
  "write_head slp s =
     bind_out (block_read slp (dev_of s) (head_block s) s) (\<lambda>r s1.
     case r of
       None \<Rightarrow> Ret () s1
     | Some b \<Rightarrow>
         if lh_n (lh (logst s1)) > int LOGSIZE then Stop OutOfBounds s1
         else
           let s2 = upd_buf b (b_data_update (put_header (lh (logst s1)))) s1
           in bind_out (block_write slp b s2) (\<lambda>_ s3. block_release b s3))"

subsection \<open>Copying between the log and the file system\<close>

definition write_log_block :: "'a logs_scheme sleeper \<Rightarrow> nat \<Rightarrow> 'a logs_scheme \<Rightarrow>
    (unit, 'a logs_scheme) outcome" where
  "write_log_block slp tail s =
     bind_out (block_read slp (dev_of s) (log_block s tail) s) (\<lambda>to s1.
     bind_out (block_read slp (dev_of s1) (home_block s1 tail) s1) (\<lambda>from s2.
     case (to, from) of
       (Some t, Some f) \<Rightarrow>
         let s3 = upd_buf t (b_data_update (copy_loop BSIZE 0 0 (b_data (bufs s2 f)))) s2
         in bind_out (block_write slp t s3) (\<lambda>_ s4.
            bind_out (block_release f s4) (\<lambda>_ s5. block_release t s5))
     | _ \<Rightarrow> Ret () s2))"

definition write_log :: "'a logs_scheme sleeper \<Rightarrow> 'a logs_scheme \<Rightarrow> (unit, 'a logs_scheme) outcome" where
  "write_log slp s = for_out 0 (nat (lh_n (lh (logst s)))) (write_log_block slp) s"

definition install_block :: "'a logs_scheme sleeper \<Rightarrow> bool \<Rightarrow> nat \<Rightarrow> 'a logs_scheme \<Rightarrow>
    (unit, 'a logs_scheme) outcome" where
  "install_block slp recovering tail s =
     bind_out (block_read slp (dev_of s) (log_block s tail) s) (\<lambda>lbuf s1.
     bind_out (block_read slp (dev_of s1) (home_block s1 tail) s1) (\<lambda>dbuf s2.
     case (lbuf, dbuf) of
       (Some l, Some h) \<Rightarrow>
         let s3 = upd_buf h (b_data_update (copy_loop BSIZE 0 0 (b_data (bufs s2 l)))) s2
         in bind_out (block_write slp h s3) (\<lambda>_ s4.
            bind_out (if \<not> recovering then buf_unpin h s4 else Ret () s4) (\<lambda>_ s5.
            bind_out (block_release l s5) (\<lambda>_ s6. block_release h s6)))
     | _ \<Rightarrow> Ret () s2))"

definition install_trans :: "'a logs_scheme sleeper \<Rightarrow> bool \<Rightarrow> 'a logs_scheme \<Rightarrow>
    (unit, 'a logs_scheme) outcome" where
  "install_trans slp recovering s =
     for_out 0 (nat (lh_n (lh (logst s)))) (install_block slp recovering) s"

definition commit :: "'a logs_scheme sleeper \<Rightarrow> 'a logs_scheme \<Rightarrow> (unit, 'a logs_scheme) outcome" where
  "commit slp s =
     (if lh_n (lh (logst s)) > 0 then
        bind_out (write_log slp s) (\<lambda>_ s1.
        bind_out (write_head slp s1) (\<lambda>_ s2.
        bind_out (install_trans slp False s2) (\<lambda>_ s3. write_head slp (set_lh_n 0 s3))))
      else Ret () s)"

definition recover_from_log :: "'a logs_scheme sleeper \<Rightarrow> 'a logs_scheme \<Rightarrow>
    (unit, 'a logs_scheme) outcome" where
  "recover_from_log slp s =
     bind_out (read_head slp s) (\<lambda>_ s1.
     bind_out (install_trans slp True s1) (\<lambda>_ s2. write_head slp (set_lh_n 0 s2)))"

text \<open>\<open>sizeof(struct logheader)\<close> is 4 + 4 * LOGSIZE, below \<open>BSIZE\<close>.\<close>

definition log_init :: "'a logs_scheme sleeper \<Rightarrow> int \<Rightarrow> int \<Rightarrow> int \<Rightarrow> 'a logs_scheme \<Rightarrow>
    (unit, 'a logs_scheme) outcome" where
  "log_init slp dev start nblocks s =
     (if 4 + 4 * LOGSIZE \<ge> BSIZE then Ret () s
      else
        let s1 = upd_log (\<lambda>l. l\<lparr>log_start := start, log_size := nblocks, outstanding := 0,
                     committing := 0, log_dev := dev\<rparr>) (spinlock_init LK_log ''log'' s)
        in bind_out (read_head slp s1) (\<lambda>_ s2. recover_from_log slp s2))"

subsection \<open>Operations of a transaction\<close>

definition log_begin_op :: "'a logs_scheme sleeper \<Rightarrow> 'a logs_scheme \<Rightarrow> (unit, 'a logs_scheme) outcome" where
  "log_begin_op slp s =
     bind_out (spinlock_acquire LK_log s) (\<lambda>_ s1.
     loop_out (\<lambda>_ s.
       if committing (logst s) \<noteq> 0 then bind_out (slp CH_log LK_log s) (\<lambda>_ t. Ret (Inl ()) t)
       else if lh_n (lh (logst s)) + (outstanding (logst s) + 1) * MAXOPBLOCKS > int LOGSIZE
       then bind_out (slp CH_log LK_log s) (\<lambda>_ t. Ret (Inl ()) t)
       else bind_out (spinlock_release LK_log (upd_log (outstanding_update (\<lambda>n. n + 1)) s))
              (\<lambda>_ t. Ret (Inr ()) t)) () s1)"

definition log_end_op :: "'a logs_scheme sleeper \<Rightarrow> 'a logs_scheme \<Rightarrow> (unit, 'a logs_scheme) outcome" where
  "log_end_op slp s =
     bind_out (spinlock_acquire LK_log s) (\<lambda>_ s1.
     let s2 = upd_log (outstanding_update (\<lambda>n. n - 1)) s1;
         do_commit = (outstanding (logst s2) = 0);
         s3 = (if do_commit then upd_log (committing_update (\<lambda>_. 1)) s2 else wakeup CH_log s2)
     in bind_out (spinlock_release LK_log s3) (\<lambda>_ s4.
        if \<not> do_commit then Ret () s4
        else
          bind_out (commit slp s4) (\<lambda>_ s5.
          bind_out (spinlock_acquire LK_log s5) (\<lambda>_ s6.
          spinlock_release LK_log (wakeup CH_log (upd_log (committing_update (\<lambda>_. 0)) s6))))))"

text \<open>The position of a block in the log, or the first position behind.\<close>

definition log_slot :: "log \<Rightarrow> int \<Rightarrow> nat" where
  "log_slot l v =
     (case scan_from (\<lambda>i. lh_block (lh l) ! i = v) 0 (nat (lh_n (lh l))) of
        Some i \<Rightarrow> i | None \<Rightarrow> nat (lh_n (lh l)))"

definition log_write :: "nat \<Rightarrow> 'a logs_scheme \<Rightarrow> (unit, 'a logs_scheme) outcome" where
  "log_write b s =
     bind_out (spinlock_acquire LK_log s) (\<lambda>_ s1.
     let n = lh_n (lh (logst s1)) in
     if n \<ge> int LOGSIZE \<or> n \<ge> log_size (logst s1) - 1 then spinlock_release LK_log s1
     else if outstanding (logst s1) < 1 then spinlock_release LK_log s1
     else
       let v = int_of_u32 (b_blockno (bufs s1 b)); i = log_slot (logst s1) v;
           s2 = set_lh_block i v s1
       in bind_out (if int i = n then bind_out (buf_pin b s2) (\<lambda>_ s3. Ret () (set_lh_n (n + 1) s3))
                    else Ret () s2) (\<lambda>_ s4. spinlock_release LK_log s4))"

subsection \<open>The log's fields do not touch the block layer\<close>

lemma upd_log_sel [simp]:
  "bufs (upd_log f s) = bufs s" "sleeplk (upd_log f s) = sleeplk s" "vq (upd_log f s) = vq s"
  "disk (upd_log f s) = disk s" "spin (upd_log f s) = spin s" "sie (upd_log f s) = sie s"
  "current_process (upd_log f s) = current_process s" "proc_table (upd_log f s) = proc_table s"
  "logst (upd_log f s) = f (logst s)" "logs.more (upd_log f s) = logs.more s"
  "spinlock_held k (upd_log f s) = spinlock_held k s"
  by (simp_all add: upd_log_def spinlock_held_def)

lemma block_layer_cong:
  fixes s :: "'a disks_scheme" and t :: "'b disks_scheme"
  assumes "bufs t = bufs s" "disk t = disk s"
  shows "view d t = view d s" "refs d t = refs d s" "dirty d t = dirty d s" "holder d t = holder d s"
    "on_disk t = on_disk s"
proof -
  show h: "holder d t = holder d s" by (rule ext) (simp add: holder_def assms)
  show o: "on_disk t = on_disk s" by (rule ext) (simp add: on_disk_def assms)
  show "view d t = view d s" "refs d t = refs d s" "dirty d t = dirty d s"
    by (rule ext, simp add: view_def refs_def dirty_def h o assms split: option.split)+
qed

lemma upd_log_block [simp]:
  "view d (upd_log f s) = view d s" "refs d (upd_log f s) = refs d s"
  "dirty d (upd_log f s) = dirty d s" "holder d (upd_log f s) = holder d s"
  "on_disk (upd_log f s) = on_disk s"
  by (rule block_layer_cong; simp)+

lemma upd_log_ok [simp]:
  "block_ok d (upd_log f s) = block_ok d s" "my_pid (upd_log f s) = my_pid s"
  "owned_buf d (upd_log f s) n b = owned_buf d s n b"
  by (simp_all add: block_ok_def cache_inv_def sleep_free_def locks_free_def on_cpu_def on_disk_def
      my_pid_def owned_buf_def owns_sleep_def split: option.split)

lemma only_buf_logst: "only_buf b s t \<Longrightarrow> logst t = logst s" for s t :: "'a logs_scheme"
  by (cases s; cases t) (simp add: only_buf_def)

end
