(* ===== verification/Log_Steps.thy ===== *)
theory Log_Steps
  imports Log
begin

text \<open>
  The steps of a commit and of recovery over the abstraction of the block layer: each one
  copies a block, writes it to the disk, and gives its buffers back.
\<close>

text \<open>The frame of a step that holds no buffer before and after.\<close>

definition step_frame :: "'a logs_scheme \<Rightarrow> 'a logs_scheme \<Rightarrow> bool" where
  "step_frame s t \<longleftrightarrow> calm s t \<and> disks.more t = disks.more s \<and>
     (\<forall>j. sleeplk t (SL_inode j) = sleeplk s (SL_inode j))"

definition unlocked :: "'a disks_scheme \<Rightarrow> bool" where
  "unlocked s \<longleftrightarrow> (\<forall>i. i < NBUF \<longrightarrow> sleep_free s (SL_buf i))"

lemma step_frame_refl [simp]: "step_frame s s"
  by (simp add: step_frame_def)

lemma step_frame_trans: "step_frame s t \<Longrightarrow> step_frame t u \<Longrightarrow> step_frame s u"
  unfolding step_frame_def using calm_trans by metis

lemma only_buf_step: "only_buf b s t \<Longrightarrow> step_frame s t"
  by (simp add: only_buf_def step_frame_def)

lemma step_frame_logst: "step_frame s t \<Longrightarrow> logst t = logst s \<and> logs.more t = logs.more s"
  by (cases s; cases t) (simp add: step_frame_def)

lemma step_frame_blocks:
  "step_frame s t \<Longrightarrow> dev_of t = dev_of s \<and> head_block t = head_block s \<and>
     log_block t k = log_block s k \<and> home_block t k = home_block s k"
  using step_frame_logst [of s t]
  by (simp add: dev_of_def head_block_def log_block_def home_block_def)

lemma unlockedD: "unlocked s \<Longrightarrow> cache_inv d s \<Longrightarrow> holder d s n = Some i \<Longrightarrow> sleep_free s (SL_buf i)"
  using holder_Some [of d s n i] by (simp add: unlocked_def)

subsection \<open>Reading\<close>

lemma read_spec:
  assumes ok: "block_ok d s" and dev: "obeys_virtio D"
    and free: "\<And>i. holder d s n = Some i \<Longrightarrow> sleep_free s (SL_buf i)"
    and room: "stuck d s \<subseteq> K" "finite K" "card K < NBUF" and noover: "refs d s n + 1 \<noteq> 0"
  shows "\<exists>t b. block_read (served_sleep D) d n s = Ret (Some b) t \<and> only_buf b s t \<and> block_ok d t \<and>
    owned_buf d t n b \<and> view d t = view d s \<and> refs d t = (refs d s)(n := refs d s n + 1) \<and>
    dirty d t = dirty d s \<and> disk t = disk s"
proof -
  have "\<exists>i < NBUF. recyclable (bufs s i)"
    using exists_recyclable [OF _ room] ok by (simp add: block_ok_def)
  then show ?thesis
    using block_read_spec [OF ok dev free _ noover] unfolding owned_buf_def by blast
qed

text \<open>A referenced block keeps its buffer while another block is read.\<close>

lemma other_buffer:
  assumes "block_ok d s" "block_ok d t" "only_buf b s t" "holder d t n = Some b"
    "holder d s m = Some c" "refs d t m \<noteq> 0" "m \<noteq> n"
  shows "c \<noteq> b"
proof
  assume "c = b"
  have inv: "cache_inv d s" "cache_inv d t" using assms(1,2) by (simp_all add: block_ok_def)
  obtain e where e: "holder d t m = Some e" using assms(6) by (auto simp: refs_def split: option.splits)
  have bl: "is_block d n (bufs t b)" "is_block d m (bufs t e)"
    using assms(4) e holder_Some [OF inv(2)] by auto
  then have "e \<noteq> b" using assms(7) by (auto simp: is_block_def)
  then have "payload (bufs t e) = payload (bufs s e)" using assms(3) by (simp add: only_buf_def)
  then have "is_block d m (bufs s e)" using bl(2) payload_eq(8) by blast
  moreover have "e < NBUF" using e holder_Some [OF inv(2)] by blast
  ultimately have "holder d s m = Some e" using holder_Some [OF inv(1)] by blast
  then show False using assms(5) \<open>e \<noteq> b\<close> \<open>c = b\<close> by simp
qed

lemma two_reads:
  assumes ok: "block_ok d s" and dev: "obeys_virtio D" and ul: "unlocked s" and neq: "m \<noteq> n"
    and room: "stuck d s \<subseteq> K" "finite K" "card (insert m K) < NBUF"
    and refs: "refs d s m + 1 \<noteq> 0" "refs d s n + 1 \<noteq> 0"
  shows "\<exists>t u b c. block_read (served_sleep D) d m s = Ret (Some b) t \<and>
    block_read (served_sleep D) d n t = Ret (Some c) u \<and> b \<noteq> c \<and> step_frame s t \<and> step_frame t u \<and>
    block_ok d u \<and> owned_buf d u m b \<and> owned_buf d u n c \<and>
    (\<forall>i < NBUF. i \<noteq> b \<and> i \<noteq> c \<longrightarrow> sleep_free u (SL_buf i)) \<and>
    view d u = view d s \<and> refs d u = (refs d s)(m := refs d s m + 1, n := refs d s n + 1) \<and>
    dirty d u = dirty d s \<and> disk u = disk s"
proof -
  have inv: "cache_inv d s" using ok by (simp add: block_ok_def)
  have c1: "card K < NBUF" using room(2,3) card_mono [of "insert m K" K] by force
  obtain t b where t: "block_read (served_sleep D) d m s = Ret (Some b) t" "only_buf b s t" "block_ok d t"
    "owned_buf d t m b" "view d t = view d s" "refs d t = (refs d s)(m := refs d s m + 1)"
    "dirty d t = dirty d s" "disk t = disk s"
    using read_spec [OF ok dev unlockedD [OF ul inv, of m] room(1,2) c1 refs(1)] by blast
  have invt: "cache_inv d t" using t(3) by (simp add: block_ok_def)
  have "stuck d t \<subseteq> insert m K" using room(1) t(6,7) by (auto simp: stuck_eq)
  moreover have "sleep_free t (SL_buf i)" if "holder d t n = Some i" for i
  proof -
    have i: "i < NBUF" "is_block d n (bufs t i)" using that holder_Some [OF invt] by blast+
    have "holder d t m = Some b" using t(4) by (simp add: owned_buf_def)
    then have "i \<noteq> b" using i(2) holder_Some [OF invt, of m b] neq by (auto simp: is_block_def)
    then show ?thesis using ul i(1) t(2) by (simp add: unlocked_def only_buf_def sleep_free_def)
  qed
  ultimately obtain u c where u: "block_read (served_sleep D) d n t = Ret (Some c) u" "only_buf c t u"
    "block_ok d u" "owned_buf d u n c" "view d u = view d t" "refs d u = (refs d t)(n := refs d t n + 1)"
    "dirty d u = dirty d t" "disk u = disk t"
    using read_spec [OF t(3) dev _ _ _ room(3), of n] refs(2) t(6) neq room(2) by (auto simp: fun_upd_def)
  have "b \<noteq> c"
  proof (rule other_buffer [OF t(3) u(3,2)])
    show "holder d u n = Some c" "holder d t m = Some b" using u(4) t(4) by (simp_all add: owned_buf_def)
    show "refs d u m \<noteq> 0" using u(6) t(6) neq refs(1) by simp
  qed (rule neq)
  moreover have "owned_buf d u m b" using owned_buf_frame [OF t(4,3) u(3,2) \<open>b \<noteq> c\<close>] .
  moreover have "sleep_free u (SL_buf i)" if "i < NBUF" "i \<noteq> b" "i \<noteq> c" for i
    using that ul t(2) u(2) by (simp add: unlocked_def only_buf_def sleep_free_def)
  ultimately show ?thesis
    using t u neq only_buf_step [OF t(2)] only_buf_step [OF u(2)] by (auto simp: fun_upd_twist)
qed

subsection \<open>Giving both buffers back\<close>

lemma two_releases:
  assumes ok: "block_ok d s" and own: "owned_buf d s m b" "owned_buf d s n c" and neq: "b \<noteq> c" "m \<noteq> n"
    and last: "refs d s m = 1 \<Longrightarrow> view d s m = on_disk s m" "refs d s n = 1 \<Longrightarrow> view d s n = on_disk s n"
    and rest: "\<forall>i < NBUF. i \<noteq> b \<and> i \<noteq> c \<longrightarrow> sleep_free s (SL_buf i)"
  shows "\<exists>t u. block_release b s = Ret () t \<and> block_release c t = Ret () u \<and> step_frame s u \<and>
    block_ok d u \<and> unlocked u \<and> view d u = view d s \<and>
    refs d u = (refs d s)(m := refs d s m - 1, n := refs d s n - 1) \<and> dirty d u = dirty d s \<and>
    disk u = disk s"
proof -
  obtain t where t: "block_release b s = Ret () t" "only_buf b s t" "block_ok d t" "sleep_free t (SL_buf b)"
    "view d t = view d s" "refs d t = (refs d s)(m := refs d s m - 1)" "dirty d t = dirty d s" "disk t = disk s"
    using block_release_spec [OF ok own(1) last(1)] by blast
  have own2: "owned_buf d t n c" using owned_buf_frame [OF own(2) ok t(3,2)] neq(1) by simp
  have "refs d t n = 1 \<Longrightarrow> view d t n = on_disk t n"
    using last(2) t(5,6,8) neq(2) by (simp add: on_disk_def)
  from block_release_spec [OF t(3) own2 this]
  obtain u where u: "block_release c t = Ret () u" "only_buf c t u" "block_ok d u" "sleep_free u (SL_buf c)"
    "view d u = view d t" "refs d u = (refs d t)(n := refs d t n - 1)" "dirty d u = dirty d t" "disk u = disk t"
    by blast
  have "unlocked u"
    unfolding unlocked_def
  proof (intro allI impI)
    fix i assume i: "i < NBUF"
    show "sleep_free u (SL_buf i)"
      using rest i t(2,4) u(2,4) by (cases "i = b"; cases "i = c") (auto simp: only_buf_def sleep_free_def)
  qed
  moreover have "step_frame s u"
    using only_buf_step [OF t(2)] only_buf_step [OF u(2)] by (rule step_frame_trans)
  ultimately show ?thesis using t u neq(2) by (auto simp: fun_upd_twist)
qed

subsection \<open>One block into the log\<close>

lemma write_log_block_spec:
  assumes ok: "block_ok d s" and dev: "obeys_virtio D" and ul: "unlocked s" and d: "dev_of s = d"
    and blocks: "log_block s k = m" "home_block s k = n" "m \<noteq> n"
    and room: "stuck d s \<subseteq> K" "finite K" "card (insert m K) < NBUF"
    and refs: "refs d s m = 0" "refs d s n = 1"
  shows "\<exists>t. write_log_block (served_sleep D) k s = Ret () t \<and> step_frame s t \<and> block_ok d t \<and> unlocked t \<and>
    view d t = (view d s)(m := view d s n) \<and> refs d t = refs d s \<and> dirty d t = (dirty d s)(m := True) \<and>
    disk t = write_sector (ucast m) (view d s n) (disk s)"
proof -
  have inv: "cache_inv d s" using ok by (simp add: block_ok_def)
  obtain t u b c where tu: "block_read (served_sleep D) d m s = Ret (Some b) t"
    "block_read (served_sleep D) d n t = Ret (Some c) u" "b \<noteq> c" "step_frame s t" "step_frame t u"
    "block_ok d u" "owned_buf d u m b" "owned_buf d u n c"
    "\<forall>i < NBUF. i \<noteq> b \<and> i \<noteq> c \<longrightarrow> sleep_free u (SL_buf i)"
    "view d u = view d s" "refs d u = (refs d s)(m := refs d s m + 1, n := refs d s n + 1)"
    "dirty d u = dirty d s" "disk u = disk s"
    using two_reads [OF ok dev ul blocks(3) room] refs by force
  have x: "copy_loop BSIZE 0 0 (b_data (bufs u c)) (b_data (bufs u b)) = view d s n"
    using owned_bufD(3) [OF tu(7,6)] owned_bufD(3) [OF tu(8,6)] view_length [OF inv]
    by (simp add: tu(10) copy_whole)
  let ?v = "upd_buf b (b_data_update (\<lambda>_. view d s n)) u"
  have v_eq: "upd_buf b (b_data_update (copy_loop BSIZE 0 0 (b_data (bufs u c)))) u = ?v"
    by (cases "bufs u b") (use x in \<open>simp add: upd_buf_def\<close>)
  note sv = set_data_spec [OF tu(6,7) view_length [OF inv, of n]]
  have v: "block_ok d ?v" "only_buf b u ?v" "owned_buf d ?v m b" "view d ?v = (view d u)(m := view d s n)"
    "refs d ?v = refs d u" "dirty d ?v = dirty d u"
    using sv by simp_all
  have cv: "owned_buf d ?v n c" using owned_buf_frame [OF tu(8,6) v(1,2)] tu(3) by simp
  obtain w where w: "block_write (served_sleep D) b ?v = Ret () w" "only_buf b ?v w" "block_ok d w"
    "owned_buf d w m b" "view d w = view d ?v" "refs d w = refs d ?v" "dirty d w = (dirty d ?v)(m := True)"
    "disk w = write_sector (ucast m) (view d ?v m) (disk ?v)"
    using block_write_spec [OF v(1) dev v(3)] by blast
  have cw: "owned_buf d w n c" using owned_buf_frame [OF cv v(1) w(3,2)] tu(3) by simp
  have dw: "disk w = write_sector (ucast m) (view d s n) (disk s)" using w(8) v(4) tu(13) by simp
  have sl: "\<forall>i < NBUF. i \<noteq> c \<and> i \<noteq> b \<longrightarrow> sleep_free w (SL_buf i)"
    using tu(9) v(2) w(2) by (simp add: only_buf_def sleep_free_def)
  have mdisk: "view d w m = on_disk w m" using w(5) v(4) dw by (simp add: on_disk_def write_sector_def)
  have rw: "refs d w = (refs d s)(m := 1, n := 2)" using w(6) v(5) tu(11) refs by simp
  obtain x y where xy: "block_release c w = Ret () x" "block_release b x = Ret () y" "step_frame w y"
    "block_ok d y" "unlocked y" "view d y = view d w"
    "refs d y = (refs d w)(n := refs d w n - 1, m := refs d w m - 1)" "dirty d y = dirty d w" "disk y = disk w"
    using two_releases [OF w(3) cw w(4) _ _ _ _ sl] tu(3) blocks(3) mdisk rw by auto
  have "step_frame u w" using only_buf_step [OF v(2)] only_buf_step [OF w(2)] by (rule step_frame_trans)
  then have fr: "step_frame s y" using tu(4,5) xy(3) step_frame_trans by blast
  have "dev_of t = d" "home_block t k = n"
    using step_frame_blocks [OF tu(4), of k] d blocks by auto
  then have "write_log_block (served_sleep D) k s = Ret () y"
    using tu(1,2) w(1) xy(1,2) v_eq by (simp add: write_log_block_def d blocks Let_def)
  moreover have "refs d y = refs d s" using xy(7) rw refs blocks(3) by (auto simp: fun_eq_iff)
  moreover have "view d y = (view d s)(m := view d s n)" using xy(6) w(5) v(4) tu(10) by simp
  moreover have "dirty d y = (dirty d s)(m := True)" using xy(8) w(7) v(6) tu(12) by simp
  ultimately show ?thesis using fr xy dw by auto
qed

subsection \<open>One block out of the log\<close>

lemma unref_view:
  assumes "cache_inv d s" "refs d s n = 0"
  shows "view d s n = on_disk s n"
proof (cases "holder d s n")
  case (Some i)
  then have "i < NBUF" "is_block d n (bufs s i)" using holder_Some [OF assms(1)] by auto
  then show ?thesis
    using Some assms(2) cache_invD(6) [OF assms(1)] by (auto simp: view_def refs_def is_block_def)
qed (simp add: view_def)

lemma install_block_spec:
  assumes ok: "block_ok d s" and dev: "obeys_virtio D" and ul: "unlocked s" and d: "dev_of s = d"
    and blocks: "log_block s k = m" "home_block s k = n" "m \<noteq> n"
    and room: "stuck d s \<subseteq> K" "finite K" "card (insert m K) < NBUF"
    and refs: "refs d s m = 0" "refs d s n = (if recovering then 0 else 1)"
  shows "\<exists>t. install_block (served_sleep D) recovering k s = Ret () t \<and> step_frame s t \<and> block_ok d t \<and>
    unlocked t \<and> view d t = (view d s)(n := view d s m) \<and> refs d t = (refs d s)(n := 0) \<and>
    dirty d t = (dirty d s)(n := True) \<and> disk t = write_sector (ucast n) (view d s m) (disk s)"
proof -
  have inv: "cache_inv d s" using ok by (simp add: block_ok_def)
  obtain t u b c where tu: "block_read (served_sleep D) d m s = Ret (Some b) t"
    "block_read (served_sleep D) d n t = Ret (Some c) u" "b \<noteq> c" "step_frame s t" "step_frame t u"
    "block_ok d u" "owned_buf d u m b" "owned_buf d u n c"
    "\<forall>i < NBUF. i \<noteq> b \<and> i \<noteq> c \<longrightarrow> sleep_free u (SL_buf i)"
    "view d u = view d s" "refs d u = (refs d s)(m := refs d s m + 1, n := refs d s n + 1)"
    "dirty d u = dirty d s" "disk u = disk s"
    using two_reads [OF ok dev ul blocks(3) room] refs by (cases recovering) force+
  have x: "copy_loop BSIZE 0 0 (b_data (bufs u b)) (b_data (bufs u c)) = view d s m"
    using owned_bufD(3) [OF tu(7,6)] owned_bufD(3) [OF tu(8,6)] view_length [OF inv]
    by (simp add: tu(10) copy_whole)
  let ?v = "upd_buf c (b_data_update (\<lambda>_. view d s m)) u"
  have v_eq: "upd_buf c (b_data_update (copy_loop BSIZE 0 0 (b_data (bufs u b)))) u = ?v"
    by (cases "bufs u c") (use x in \<open>simp add: upd_buf_def\<close>)
  note sv = set_data_spec [OF tu(6,8) view_length [OF inv, of m]]
  have v: "block_ok d ?v" "only_buf c u ?v" "owned_buf d ?v n c" "view d ?v = (view d u)(n := view d s m)"
    "refs d ?v = refs d u" "dirty d ?v = dirty d u"
    using sv by simp_all
  have bv: "owned_buf d ?v m b" using owned_buf_frame [OF tu(7,6) v(1,2) tu(3)] .
  obtain w where w: "block_write (served_sleep D) c ?v = Ret () w" "only_buf c ?v w" "block_ok d w"
    "owned_buf d w n c" "view d w = view d ?v" "refs d w = refs d ?v" "dirty d w = (dirty d ?v)(n := True)"
    "disk w = write_sector (ucast n) (view d ?v n) (disk ?v)"
    using block_write_spec [OF v(1) dev v(3)] by blast
  have bw: "owned_buf d w m b" using owned_buf_frame [OF bv v(1) w(3,2) tu(3)] .
  have dw: "disk w = write_sector (ucast n) (view d s m) (disk s)" using w(8) v(4) tu(13) by simp
  have rw: "refs d w = (refs d s)(m := 1, n := if recovering then 1 else 2)" using w(6) v(5) tu(11) refs by simp
  have "\<exists>z. (if \<not> recovering then buf_unpin c w else Ret () w) = Ret () z \<and> only_buf c w z \<and> block_ok d z \<and>
      owned_buf d z n c \<and> view d z = view d w \<and> refs d z = (refs d s)(m := 1, n := 1) \<and>
      dirty d z = dirty d w \<and> disk z = disk w"
  proof (cases recovering)
    case True
    then show ?thesis using w(3,4) rw by (simp add: only_buf_def)
  next
    case False
    then have "refs d w n - 1 \<noteq> 0" using rw by simp
    then show ?thesis using buf_unpin_spec [OF w(3,4)] False rw by simp
  qed
  then obtain z where z: "(if \<not> recovering then buf_unpin c w else Ret () w) = Ret () z" "only_buf c w z"
    "block_ok d z" "owned_buf d z n c" "view d z = view d w" "refs d z = (refs d s)(m := 1, n := 1)"
    "dirty d z = dirty d w" "disk z = disk w" by blast
  have bz: "owned_buf d z m b" using owned_buf_frame [OF bw w(3) z(3,2) tu(3)] .
  have sl: "\<forall>i < NBUF. i \<noteq> b \<and> i \<noteq> c \<longrightarrow> sleep_free z (SL_buf i)"
    using tu(9) v(2) w(2) z(2) by (simp add: only_buf_def sleep_free_def)
  have ndisk: "view d z n = on_disk z n"
    using z(5,8) w(5) v(4) dw by (simp add: on_disk_def write_sector_def)
  have mdisk: "view d z m = on_disk z m"
    using z(5,8) w(5) v(4) dw tu(10) blocks(3) unref_view [OF inv refs(1)]
    by (simp add: on_disk_def write_sector_def ucast_sector)
  obtain x y where xy: "block_release b z = Ret () x" "block_release c x = Ret () y" "step_frame z y"
    "block_ok d y" "unlocked y" "view d y = view d z"
    "refs d y = (refs d z)(m := refs d z m - 1, n := refs d z n - 1)" "dirty d y = dirty d z" "disk y = disk z"
    using two_releases [OF z(3) bz z(4) tu(3) blocks(3) mdisk ndisk sl] by blast
  have "step_frame u z"
    using only_buf_step [OF v(2)] only_buf_step [OF w(2)] only_buf_step [OF z(2)] step_frame_trans by blast
  then have fr: "step_frame s y" using tu(4,5) xy(3) step_frame_trans by blast
  have "dev_of t = d" "home_block t k = n"
    using step_frame_blocks [OF tu(4), of k] d blocks by auto
  then have "install_block (served_sleep D) recovering k s = Ret () y"
    using tu(1,2) w(1) z(1) xy(1,2) v_eq by (simp add: install_block_def d blocks Let_def)
  moreover have "refs d y = (refs d s)(n := 0)" using xy(7) z(6) refs(1) by (auto simp: fun_eq_iff)
  moreover have "view d y = (view d s)(n := view d s m)" using xy(6) z(5) w(5) v(4) tu(10) by simp
  moreover have "dirty d y = (dirty d s)(n := True)" using xy(8) z(7) w(7) v(6) tu(12) by simp
  ultimately show ?thesis using fr xy(4,5,9) z(8) dw by auto
qed

subsection \<open>The header\<close>

lemma put_header_length [simp]: "length (put_header h x) = length x"
proof -
  have "length (fold (\<lambda>i x. put32 x (4 + 4 * i) (f i)) is x) = length x" for f "is" and x :: "u8 list"
    by (induction "is" arbitrary: x) simp_all
  then show ?thesis by (simp add: put_header_def)
qed

lemma write_head_spec:
  assumes ok: "block_ok d s" and dev: "obeys_virtio D" and ul: "unlocked s" and d: "dev_of s = d"
    and room: "stuck d s \<subseteq> K" "finite K" "card K < NBUF"
    and refs: "refs d s (head_block s) = 0" and n: "lh_n (lh (logst s)) \<le> int LOGSIZE"
  shows "\<exists>t. write_head (served_sleep D) s = Ret () t \<and> step_frame s t \<and> block_ok d t \<and> unlocked t \<and>
    view d t = (view d s)(head_block s := put_header (lh (logst s)) (view d s (head_block s))) \<and>
    refs d t = refs d s \<and> dirty d t = (dirty d s)(head_block s := True) \<and>
    disk t = write_sector (ucast (head_block s)) (put_header (lh (logst s)) (view d s (head_block s))) (disk s)"
proof -
  let ?m = "head_block s" and ?h = "lh (logst s)"
  have inv: "cache_inv d s" using ok by (simp add: block_ok_def)
  let ?x = "put_header ?h (view d s ?m)"
  obtain t b where t: "block_read (served_sleep D) d ?m s = Ret (Some b) t" "only_buf b s t" "block_ok d t"
    "owned_buf d t ?m b" "view d t = view d s" "refs d t = (refs d s)(?m := refs d s ?m + 1)"
    "dirty d t = dirty d s" "disk t = disk s"
    using read_spec [OF ok dev unlockedD [OF ul inv, of ?m] room] refs by force
  have lt: "logst t = logst s" using only_buf_logst [OF t(2)] .
  let ?v = "upd_buf b (b_data_update (\<lambda>_. ?x)) t"
  have v_eq: "upd_buf b (b_data_update (put_header ?h)) t = ?v"
    using owned_bufD(3) [OF t(4,3)] by (cases "bufs t b") (simp add: upd_buf_def t(5))
  have len: "length ?x = BSIZE" using view_length [OF inv] by simp
  note sv = set_data_spec [OF t(3,4) len]
  have v: "block_ok d ?v" "only_buf b t ?v" "owned_buf d ?v ?m b" "view d ?v = (view d t)(?m := ?x)"
    "refs d ?v = refs d t" "dirty d ?v = dirty d t"
    using sv by simp_all
  obtain w where w: "block_write (served_sleep D) b ?v = Ret () w" "only_buf b ?v w" "block_ok d w"
    "owned_buf d w ?m b" "view d w = view d ?v" "refs d w = refs d ?v" "dirty d w = (dirty d ?v)(?m := True)"
    "disk w = write_sector (ucast ?m) (view d ?v ?m) (disk ?v)"
    using block_write_spec [OF v(1) dev v(3)] by blast
  have dw: "disk w = write_sector (ucast ?m) ?x (disk s)" using w(8) v(4) t(8) by simp
  have "view d w ?m = on_disk w ?m" using w(5) v(4) dw by (simp add: on_disk_def write_sector_def)
  from block_release_spec [OF w(3,4) this]
  obtain y where y: "block_release b w = Ret () y" "only_buf b w y" "block_ok d y" "sleep_free y (SL_buf b)"
    "view d y = view d w" "refs d y = (refs d w)(?m := refs d w ?m - 1)" "dirty d y = dirty d w" "disk y = disk w"
    by blast
  have "unlocked y"
    unfolding unlocked_def
  proof (intro allI impI)
    fix i assume "i < NBUF"
    then show "sleep_free y (SL_buf i)"
      using ul t(2) v(2) w(2) y(2,4) by (cases "i = b") (auto simp: only_buf_def sleep_free_def unlocked_def)
  qed
  moreover have "step_frame s y"
    using only_buf_step [OF t(2)] only_buf_step [OF v(2)] only_buf_step [OF w(2)] only_buf_step [OF y(2)]
      step_frame_trans by blast
  moreover have "write_head (served_sleep D) s = Ret () y"
    using t(1) w(1) y(1) v_eq n lt by (simp add: write_head_def d Let_def)
  moreover have "refs d y = refs d s" using y(6) w(6) v(5) t(6) by (auto simp: fun_eq_iff)
  ultimately show ?thesis using y w(5,7) v(4,6) t(5,7) dw by auto
qed

end
