(* ===== verification/Log_Commit.thy ===== *)
theory Log_Commit
  imports Log_Steps
begin

text \<open>
  A commit as the sequence of its disk writes: the changed blocks into the log area, the
  header with their number, the blocks to their places, the header with number 0.
\<close>

type_synonym block_writes = "(u32 \<times> u8 list) list"

definition upd_all :: "block_writes \<Rightarrow> (u32 \<Rightarrow> u8 list) \<Rightarrow> (u32 \<Rightarrow> u8 list)" where
  "upd_all ws V = fold (\<lambda>(n, x) V. V(n := x)) ws V"

definition write_all :: "block_writes \<Rightarrow> medium \<Rightarrow> medium" where
  "write_all ws m = fold (\<lambda>(n, x). write_sector (ucast n) x) ws m"

lemma upd_all_simps [simp]:
  "upd_all [] V = V" "upd_all (ws @ vs) V = upd_all vs (upd_all ws V)" "upd_all ((n, x) # ws) V = upd_all ws (V(n := x))"
  "write_all [] m = m" "write_all (ws @ vs) m = write_all vs (write_all ws m)"
  "write_all ((n, x) # ws) m = write_all ws (write_sector (ucast n) x m)"
  by (simp_all add: upd_all_def write_all_def)

lemma upd_all_other: "n \<notin> fst ` set ws \<Longrightarrow> upd_all ws V n = V n"
  by (induction ws rule: rev_induct) (auto simp: split: prod.splits)

lemma upd_all_map:
  assumes "inj_on f {..<n}"
  shows "k < n \<Longrightarrow> upd_all (map (\<lambda>k. (f k, g k)) [0..<n]) V (f k) = g k"
  using assms
proof (induction n)
  case (Suc n)
  have "inj_on f {..<n}" using Suc.prems(2) by (rule inj_on_subset) auto
  moreover have "k < n \<Longrightarrow> f k \<noteq> f n" using Suc.prems(2) by (auto dest: inj_onD)
  ultimately show ?case using Suc by (cases "k = n") simp_all
qed simp

subsection \<open>Where the blocks are\<close>

definition log_geometry :: "u32 \<Rightarrow> (nat \<Rightarrow> u32) \<Rightarrow> (nat \<Rightarrow> u32) \<Rightarrow> nat \<Rightarrow> bool" where
  "log_geometry hb0 lb hb n \<longleftrightarrow> inj_on lb {..<n} \<and> inj_on hb {..<n} \<and>
     (\<forall>j < n. \<forall>k < n. lb j \<noteq> hb k) \<and> (\<forall>k < n. lb k \<noteq> hb0 \<and> hb k \<noteq> hb0)"

definition log_writes :: "(nat \<Rightarrow> u32) \<Rightarrow> (nat \<Rightarrow> u32) \<Rightarrow> (u32 \<Rightarrow> u8 list) \<Rightarrow> nat \<Rightarrow> block_writes" where
  "log_writes lb hb V n = map (\<lambda>k. (lb k, V (hb k))) [0..<n]"

definition home_writes :: "(nat \<Rightarrow> u32) \<Rightarrow> (nat \<Rightarrow> u32) \<Rightarrow> (u32 \<Rightarrow> u8 list) \<Rightarrow> nat \<Rightarrow> block_writes" where
  "home_writes lb hb V n = map (\<lambda>k. (hb k, V (lb k))) [0..<n]"

lemma writes_Suc:
  "log_writes lb hb V (Suc k) = log_writes lb hb V k @ [(lb k, V (hb k))]"
  "home_writes lb hb V (Suc k) = home_writes lb hb V k @ [(hb k, V (lb k))]"
  "log_writes lb hb V 0 = []" "home_writes lb hb V 0 = []"
  by (simp_all add: log_writes_def home_writes_def)

lemma fst_writes:
  "fst ` set (log_writes lb hb V k) = lb ` {..<k}" "fst ` set (home_writes lb hb V k) = hb ` {..<k}"
  by (simp_all add: log_writes_def home_writes_def image_image atLeast0LessThan)

text \<open>The state of a commit under way.\<close>

definition underway :: "u32 \<Rightarrow> 'a logs_scheme \<Rightarrow> block_writes \<Rightarrow> 'a logs_scheme \<Rightarrow> bool" where
  "underway d s ws t \<longleftrightarrow> step_frame s t \<and> block_ok d t \<and> unlocked t \<and>
     view d t = upd_all ws (view d s) \<and> disk t = write_all ws (disk s) \<and>
     (\<forall>n. dirty d t n \<longleftrightarrow> dirty d s n \<or> n \<in> fst ` set ws)"

lemma underway_refl: "block_ok d s \<Longrightarrow> unlocked s \<Longrightarrow> underway d s [] s"
  by (simp add: underway_def)

lemma underway_trans: "underway d s ws t \<Longrightarrow> underway d t vs u \<Longrightarrow> underway d s (ws @ vs) u"
  unfolding underway_def using step_frame_trans [of s t u] by (auto simp: image_Un)

lemma underway_step:
  "step_frame s t \<Longrightarrow> block_ok d t \<Longrightarrow> unlocked t \<Longrightarrow> view d t = (view d s)(n := x) \<Longrightarrow>
    dirty d t = (dirty d s)(n := True) \<Longrightarrow> disk t = write_sector (ucast n) x (disk s) \<Longrightarrow>
    underway d s [(n, x)] t"
  by (auto simp: underway_def)

subsection \<open>The loops\<close>

lemma write_log_spec:
  assumes ok: "block_ok d s" and dev: "obeys_virtio D" and ul: "unlocked s" and d: "dev_of s = d"
    and n: "nat (lh_n (lh (logst s))) = n"
    and geo: "log_geometry (head_block s) (log_block s) (home_block s) n"
    and refs: "\<And>k. k < n \<Longrightarrow> refs d s (log_block s k) = 0 \<and> refs d s (home_block s k) = 1"
    and room: "stuck d s \<union> log_block s ` {..<n} \<subseteq> K" "finite K" "card K < NBUF"
  shows "\<exists>t. write_log (served_sleep D) s = Ret () t \<and>
    underway d s (log_writes (log_block s) (home_block s) (view d s) n) t \<and> refs d t = refs d s"
proof -
  let ?lb = "log_block s" and ?hb = "home_block s"
  let ?P = "\<lambda>k t. k \<le> n \<and> underway d s (log_writes ?lb ?hb (view d s) k) t \<and> refs d t = refs d s"
  have "\<exists>t. for_out 0 n (write_log_block (served_sleep D)) s = Ret () t \<and> ?P (0 + n) t"
  proof (rule for_out_inv [where P = ?P])
    show "?P 0 s" using underway_refl [OF ok ul] by (simp add: writes_Suc)
    fix k t assume k: "0 \<le> k" "k < 0 + n" and P: "?P k t"
    then have u: "step_frame s t" "block_ok d t" "unlocked t"
      "view d t = upd_all (log_writes ?lb ?hb (view d s) k) (view d s)"
      "\<forall>n. dirty d t n \<longleftrightarrow> dirty d s n \<or> n \<in> ?lb ` {..<k}"
      by (simp_all add: underway_def fst_writes)
    note bl = step_frame_blocks [OF u(1)]
    have neq: "?lb k \<noteq> ?hb k" "?hb k \<notin> ?lb ` {..<k}" using geo k by (auto simp: log_geometry_def) (metis less_trans)
    have v: "view d t (?hb k) = view d s (?hb k)"
      unfolding u(4) by (rule upd_all_other) (simp add: fst_writes neq(2))
    have st: "stuck d t \<subseteq> K" using room(1) u(5) P k by (auto simp: stuck_eq)
    have "?lb k \<in> K" using room(1) k by auto
    then have c: "card (insert (?lb k) K) < NBUF" using room(3) by (simp add: insert_absorb)
    obtain w where w: "write_log_block (served_sleep D) k t = Ret () w" "step_frame t w" "block_ok d w"
      "unlocked w" "view d w = (view d t)(?lb k := view d t (?hb k))" "refs d w = refs d t"
      "dirty d w = (dirty d t)(?lb k := True)"
      "disk w = write_sector (ucast (?lb k)) (view d t (?hb k)) (disk t)"
      using write_log_block_spec [OF u(2) dev u(3) _ _ _ neq(1) st room(2) c, of k] bl d refs [of k] k P by auto
    have "underway d t [(?lb k, view d s (?hb k))] w"
      using underway_step [OF w(2,3,4,5,7,8)] by (simp add: v)
    then have "?P (Suc k) w"
      using underway_trans [of d s _ t _ w] P w(6) k by (simp add: writes_Suc)
    with w(1) show "\<exists>w. write_log_block (served_sleep D) k t = Ret () w \<and> ?P (Suc k) w" by blast
  qed
  then show ?thesis by (auto simp: write_log_def n)
qed

lemma install_trans_spec:
  assumes ok: "block_ok d s" and dev: "obeys_virtio D" and ul: "unlocked s" and d: "dev_of s = d"
    and n: "nat (lh_n (lh (logst s))) = n"
    and geo: "log_geometry (head_block s) (log_block s) (home_block s) n"
    and refs: "\<And>k. k < n \<Longrightarrow> refs d s (log_block s k) = 0 \<and>
       refs d s (home_block s k) = (if recovering then 0 else 1)"
    and room: "finite (stuck d s)"
      "\<And>k. k < n \<Longrightarrow> card (insert (log_block s k) (stuck d s \<union> home_block s ` {..<k})) < NBUF"
  shows "\<exists>t. install_trans (served_sleep D) recovering s = Ret () t \<and>
    underway d s (home_writes (log_block s) (home_block s) (view d s) n) t \<and>
    refs d t = (\<lambda>m. if m \<in> home_block s ` {..<n} then 0 else refs d s m)"
proof -
  let ?lb = "log_block s" and ?hb = "home_block s"
  let ?P = "\<lambda>k t. k \<le> n \<and> underway d s (home_writes ?lb ?hb (view d s) k) t \<and>
    refs d t = (\<lambda>m. if m \<in> ?hb ` {..<k} then 0 else refs d s m)"
  have "\<exists>t. for_out 0 n (install_block (served_sleep D) recovering) s = Ret () t \<and> ?P (0 + n) t"
  proof (rule for_out_inv [where P = ?P])
    show "?P 0 s" using underway_refl [OF ok ul] by (simp add: writes_Suc)
    fix k t assume k: "0 \<le> k" "k < 0 + n" and P: "?P k t"
    then have u: "step_frame s t" "block_ok d t" "unlocked t"
      "view d t = upd_all (home_writes ?lb ?hb (view d s) k) (view d s)"
      "\<forall>n. dirty d t n \<longleftrightarrow> dirty d s n \<or> n \<in> ?hb ` {..<k}"
      and rt: "refs d t = (\<lambda>m. if m \<in> ?hb ` {..<k} then 0 else refs d s m)"
      by (simp_all add: underway_def fst_writes)
    note bl = step_frame_blocks [OF u(1)]
    have neq: "?lb k \<noteq> ?hb k" "?lb k \<notin> ?hb ` {..<k}" "?hb k \<notin> ?hb ` {..<k}"
      using geo k by (auto simp: log_geometry_def dest: inj_onD)
    have v: "view d t (?lb k) = view d s (?lb k)"
      unfolding u(4) by (rule upd_all_other) (simp add: fst_writes neq(2))
    let ?K = "stuck d s \<union> ?hb ` {..<k}"
    have st: "stuck d t \<subseteq> ?K" using u(5) rt by (auto simp: stuck_eq)
    have c: "card (insert (?lb k) ?K) < NBUF" "finite ?K" using room k by auto
    have r: "refs d t (?lb k) = 0" "refs d t (?hb k) = (if recovering then 0 else 1)"
      using rt neq refs [of k] k by auto
    obtain w where w: "install_block (served_sleep D) recovering k t = Ret () w" "step_frame t w" "block_ok d w"
      "unlocked w" "view d w = (view d t)(?hb k := view d t (?lb k))" "refs d w = (refs d t)(?hb k := 0)"
      "dirty d w = (dirty d t)(?hb k := True)"
      "disk w = write_sector (ucast (?hb k)) (view d t (?lb k)) (disk t)"
      using install_block_spec [OF u(2) dev u(3) _ _ _ neq(1) st c(2,1) r, of k] bl d by auto
    have "underway d t [(?hb k, view d s (?lb k))] w"
      using underway_step [OF w(2,3,4,5,7,8)] by (simp add: v)
    moreover have "refs d w = (\<lambda>m. if m \<in> ?hb ` {..<Suc k} then 0 else refs d s m)"
      using w(6) rt by (auto simp: fun_eq_iff less_Suc_eq)
    ultimately have "?P (Suc k) w"
      using underway_trans [of d s _ t _ w] P k by (simp add: writes_Suc)
    with w(1) show "\<exists>w. install_block (served_sleep D) recovering k t = Ret () w \<and> ?P (Suc k) w" by blast
  qed
  then show ?thesis by (auto simp: install_trans_def n)
qed

subsection \<open>The whole commit\<close>

definition commit_writes :: "u32 \<Rightarrow> (nat \<Rightarrow> u32) \<Rightarrow> (nat \<Rightarrow> u32) \<Rightarrow> logheader \<Rightarrow> (u32 \<Rightarrow> u8 list) \<Rightarrow>
    nat \<Rightarrow> block_writes" where
  "commit_writes head lb hb h V n =
     log_writes lb hb V n @ [(head, put_header h (V head))] @
     map (\<lambda>k. (hb k, V (hb k))) [0..<n] @
     [(head, put_header (h\<lparr>lh_n := 0\<rparr>) (put_header h (V head)))]"

lemma step_frame_header: "step_frame s t \<Longrightarrow> lh (logst t) = lh (logst s)"
  using step_frame_logst [of s t] by simp

lemma underwayD:
  assumes "underway d s ws t"
  shows "step_frame s t" "block_ok d t" "unlocked t" "view d t = upd_all ws (view d s)"
    "disk t = write_all ws (disk s)" "\<And>n. dirty d t n \<longleftrightarrow> dirty d s n \<or> n \<in> fst ` set ws"
  using assms by (simp_all add: underway_def)

lemma commit_spec:
  assumes ok: "block_ok d s" and dev: "obeys_virtio D" and ul: "unlocked s" and d: "dev_of s = d"
    and n: "lh_n (lh (logst s)) = int n" "0 < n" "n \<le> LOGSIZE"
    and geo: "log_geometry (head_block s) (log_block s) (home_block s) n"
    and refs: "\<And>k. k < n \<Longrightarrow> refs d s (log_block s k) = 0 \<and> refs d s (home_block s k) = 1"
      "refs d s (head_block s) = 0"
    and room: "finite (stuck d s)"
      "card (insert (head_block s) (stuck d s \<union> log_block s ` {..<n})) < NBUF"
  shows "\<exists>t. commit (served_sleep D) s = Ret () t \<and> calm s t \<and> block_ok d t \<and> unlocked t \<and>
    disk t = write_all (commit_writes (head_block s) (log_block s) (home_block s) (lh (logst s)) (view d s) n) (disk s) \<and>
    view d t = upd_all (commit_writes (head_block s) (log_block s) (home_block s) (lh (logst s)) (view d s) n) (view d s) \<and>
    refs d t = (\<lambda>m. if m \<in> home_block s ` {..<n} then 0 else refs d s m) \<and>
    logst t = (logst s)\<lparr>lh := (lh (logst s))\<lparr>lh_n := 0\<rparr>\<rparr> \<and> logs.more t = logs.more s \<and>
    (\<forall>m. dirty d t m \<longrightarrow> dirty d s m \<or> m \<in> insert (head_block s) (log_block s ` {..<n} \<union> home_block s ` {..<n})) \<and>
    (\<forall>j. sleeplk t (SL_inode j) = sleeplk s (SL_inode j))"
proof -
  let ?lb = "log_block s" and ?hb = "home_block s" and ?m = "head_block s" and ?h = "lh (logst s)"
  let ?V = "view d s"
  let ?K = "insert ?m (stuck d s \<union> ?lb ` {..<n})"
  have fin: "finite ?K" using room(1) by simp
  have homes: "?hb k \<in> stuck d s" if "k < n" for k using refs(1) [OF that] by (simp add: stuck_eq)
  obtain s1 where s1: "write_log (served_sleep D) s = Ret () s1"
    "underway d s (log_writes ?lb ?hb ?V n) s1" "refs d s1 = refs d s"
    using write_log_spec [OF ok dev ul d _ geo refs(1) _ fin room(2)] n(1) by auto
  note u1 = underwayD [OF s1(2)] and b1 = step_frame_blocks [OF underwayD(1) [OF s1(2)]]
  have h1: "lh (logst s1) = ?h" using step_frame_header [OF u1(1)] .
  have gm: "?m \<notin> ?lb ` {..<n}" "?m \<notin> ?hb ` {..<n}" using geo by (auto simp: log_geometry_def)
  have V1: "view d s1 ?m = ?V ?m" unfolding u1(4) by (rule upd_all_other) (simp add: fst_writes gm)
  have st1: "stuck d s1 \<subseteq> ?K" using u1(6) s1(3) by (auto simp: stuck_eq fst_writes)
  let ?x = "put_header ?h (?V ?m)"
  obtain s2 where s2: "write_head (served_sleep D) s1 = Ret () s2" "step_frame s1 s2" "block_ok d s2"
    "unlocked s2" "view d s2 = (view d s1)(?m := ?x)" "refs d s2 = refs d s1"
    "dirty d s2 = (dirty d s1)(?m := True)" "disk s2 = write_sector (ucast ?m) ?x (disk s1)"
    using write_head_spec [OF u1(2) dev u1(3) _ st1 fin room(2)] b1 d s1(3) refs(2) h1 n V1 by auto
  have u2: "underway d s (log_writes ?lb ?hb ?V n @ [(?m, ?x)]) s2"
    using underway_trans [OF s1(2) underway_step [OF s2(2,3,4,5,7,8)]] .
  note u2D = underwayD [OF u2] and b2 = step_frame_blocks [OF underwayD(1) [OF u2]]
  have h2: "lh (logst s2) = ?h" using step_frame_header [OF u2D(1)] .
  have V2: "view d s2 (?lb k) = ?V (?hb k)" if "k < n" for k
  proof -
    have "?lb k \<noteq> ?m" using gm(1) that by (metis imageI lessThan_iff)
    then have "view d s2 (?lb k) = upd_all (log_writes ?lb ?hb ?V n) ?V (?lb k)"
      unfolding u2D(4) by simp
    also have "\<dots> = ?V (?hb k)"
      unfolding log_writes_def using geo that by (intro upd_all_map) (simp_all add: log_geometry_def)
    finally show ?thesis .
  qed
  have st2: "stuck d s2 \<subseteq> ?K" using st1 s2(6,7) by (auto simp: stuck_eq)
  obtain s3 where s3: "install_trans (served_sleep D) False s2 = Ret () s3"
    "underway d s2 (home_writes (log_block s2) (home_block s2) (view d s2) n) s3"
    "refs d s3 = (\<lambda>m. if m \<in> home_block s2 ` {..<n} then 0 else refs d s2 m)"
  proof -
    have lb2: "log_block s2 = ?lb" "home_block s2 = ?hb" using b2 by auto
    have "card (insert (log_block s2 k) (stuck d s2 \<union> home_block s2 ` {..<k})) < NBUF" if "k < n" for k
    proof -
      have "insert (log_block s2 k) (stuck d s2 \<union> home_block s2 ` {..<k}) \<subseteq> ?K"
        using st2 that homes lb2 by auto
      then show ?thesis using card_mono [OF fin] room(2) le_less_trans by blast
    qed
    moreover have "finite (stuck d s2)" using st2 fin by (rule finite_subset)
    ultimately show ?thesis
      using that install_trans_spec [OF s2(3) dev s2(4), of n False] b2 d h2 n(1) geo lb2 s2(6) s1(3) refs(1)
      by auto
  qed
  have hw: "home_writes (log_block s2) (home_block s2) (view d s2) n = map (\<lambda>k. (?hb k, ?V (?hb k))) [0..<n]"
    using V2 b2 by (auto simp: home_writes_def)
  have u3: "underway d s ((log_writes ?lb ?hb ?V n @ [(?m, ?x)]) @ map (\<lambda>k. (?hb k, ?V (?hb k))) [0..<n]) s3"
    using underway_trans [OF u2 s3(2)] hw by simp
  note u3D = underwayD [OF u3] and b3 = step_frame_blocks [OF underwayD(1) [OF u3]]
  have V3: "view d s3 ?m = ?x"
  proof -
    have "?m \<notin> fst ` set (map (\<lambda>k. (?hb k, ?V (?hb k))) [0..<n])" using gm(2) by auto
    then have "view d s3 ?m = upd_all (log_writes ?lb ?hb ?V n @ [(?m, ?x)]) ?V ?m"
      unfolding u3D(4) upd_all_simps(2) [of "_ @ _"] by (rule upd_all_other)
    then show ?thesis by simp
  qed
  let ?t = "set_lh_n 0 s3"
  have t: "block_ok d ?t" "unlocked ?t" "dev_of ?t = d" "head_block ?t = ?m" "view d ?t = view d s3"
    "refs d ?t = refs d s3" "dirty d ?t = dirty d s3" "disk ?t = disk s3"
    "lh (logst ?t) = ?h\<lparr>lh_n := 0\<rparr>"
    using u3D(2,3) b3 d step_frame_header [OF u3D(1)]
    by (simp_all add: set_lh_n_def unlocked_def sleep_free_def dev_of_def head_block_def)
  have st3: "stuck d ?t \<subseteq> ?K"
  proof
    fix x assume "x \<in> stuck d ?t"
    then have "refs d s3 x \<noteq> 0 \<or> dirty d s3 x" by (simp add: stuck_eq t)
    then show "x \<in> ?K"
    proof
      assume "refs d s3 x \<noteq> 0"
      then have "refs d s x \<noteq> 0" using s3(3) s2(6) s1(3) by (auto split: if_splits)
      then show ?thesis by (simp add: stuck_eq)
    next
      assume "dirty d s3 x"
      then have "dirty d s x \<or> x \<in> ?lb ` {..<n} \<or> x = ?m \<or> x \<in> ?hb ` {..<n}"
        using u3D(6) by (auto simp: image_Un fst_writes image_image atLeast0LessThan)
      then show ?thesis using homes by (auto simp: stuck_eq)
    qed
  qed
  have r: "refs d ?t (head_block ?t) = 0" using t s3(3) s2(6) s1(3) refs(2) by simp
  have l: "lh_n (lh (logst ?t)) \<le> int LOGSIZE" by (simp add: t(9))
  obtain y where y: "write_head (served_sleep D) ?t = Ret () y" "step_frame ?t y" "block_ok d y"
    "unlocked y" "view d y = (view d ?t)(?m := put_header (lh (logst ?t)) (view d ?t ?m))"
    "refs d y = refs d ?t" "dirty d y = (dirty d ?t)(?m := True)"
    "disk y = write_sector (ucast ?m) (put_header (lh (logst ?t)) (view d ?t ?m)) (disk ?t)"
    using write_head_spec [OF t(1) dev t(2,3) st3 fin room(2) r l] t(4) by auto
  have run: "commit (served_sleep D) s = Ret () y"
    using s1(1) s2(1) s3(1) y(1) n by (simp add: commit_def)
  have sf: "logst s3 = logst s" "logs.more s3 = logs.more s"
    using step_frame_logst [OF u3D(1)] by simp_all
  have "logst y = (logst s)\<lparr>lh := ?h\<lparr>lh_n := 0\<rparr>\<rparr>" "logs.more y = logs.more s"
    using step_frame_logst [OF y(2)] sf by (simp_all add: set_lh_n_def)
  moreover have "calm s y"
  proof -
    have "calm s s3" "calm ?t y" using u3D(1) y(2) by (simp_all add: step_frame_def)
    moreover have "calm s3 ?t" by (rule calmI) (simp_all add: set_lh_n_def)
    ultimately show ?thesis using calm_trans by blast
  qed
  moreover have "\<forall>m. dirty d y m \<longrightarrow> dirty d s m \<or> m \<in> insert ?m (?lb ` {..<n} \<union> ?hb ` {..<n})"
    using y(7) t(4,7) u3D(6) by (auto simp: image_Un fst_writes image_image atLeast0LessThan)
  moreover have "\<forall>j. sleeplk y (SL_inode j) = sleeplk s (SL_inode j)"
    using u3D(1) y(2) by (simp add: step_frame_def set_lh_n_def)
  moreover have "refs d y = (\<lambda>m. if m \<in> ?hb ` {..<n} then 0 else refs d s m)"
    using y(6) t(6) s3(3) s2(6) s1(3) b2 by (auto simp: fun_eq_iff)
  moreover have "disk y = write_all (commit_writes ?m ?lb ?hb ?h ?V n) (disk s)"
    using y(8) t(5,8,9) V3 u3D(5) by (simp add: commit_writes_def)
  moreover have "view d y = upd_all (commit_writes ?m ?lb ?hb ?h ?V n) ?V"
    using y(5) t(5,9) V3 u3D(4) by (simp add: commit_writes_def)
  ultimately show ?thesis using run y(3,4) by blast
qed

end
