(* ===== verification/Log_Recovery.thy ===== *)
theory Log_Recovery
  imports Log_Commit
begin

text \<open>Reading the header back, recovery at boot, and what a crash during a commit leaves.\<close>

subsection \<open>The header as bytes\<close>

lemma get32_put_fields:
  assumes "4 * n + 4 \<le> length x"
  shows "get32 (fold (\<lambda>i x. put32 x (4 + 4 * i) (f i)) [0..<n] x) 0 = get32 x 0"
    "i < n \<Longrightarrow> get32 (fold (\<lambda>i x. put32 x (4 + 4 * i) (f i)) [0..<n] x) (4 + 4 * i) = f i"
proof -
  have len: "length (fold (\<lambda>i x. put32 x (4 + 4 * i) (f i)) [0..<n] x) = length x" for n
    by (induction n) simp_all
  have "get32 (fold (\<lambda>i x. put32 x (4 + 4 * i) (f i)) [0..<n] x) 0 = get32 x 0 \<and>
    (\<forall>i < n. get32 (fold (\<lambda>i x. put32 x (4 + 4 * i) (f i)) [0..<n] x) (4 + 4 * i) = f i)"
    using assms
  proof (induction n)
    case (Suc n)
    let ?y = "fold (\<lambda>i x. put32 x (4 + 4 * i) (f i)) [0..<n] x"
    have "get32 (put32 ?y (4 + 4 * n) (f n)) (4 + 4 * i) = f i" if "i < Suc n" for i
    proof (cases "i = n")
      case True
      then show ?thesis using Suc.prems len [of n] by (simp only: True) (rule get_put32, simp)
    next
      case False
      then have "4 + 4 * i + 4 \<le> 4 + 4 * n" using that by simp
      then show ?thesis using Suc False that by simp
    qed
    then show ?case using Suc by simp
  qed simp
  then show "get32 (fold (\<lambda>i x. put32 x (4 + 4 * i) (f i)) [0..<n] x) 0 = get32 x 0"
    "i < n \<Longrightarrow> get32 (fold (\<lambda>i x. put32 x (4 + 4 * i) (f i)) [0..<n] x) (4 + 4 * i) = f i"
    by blast+
qed

lemma header_roundtrip:
  assumes "0 \<le> lh_n h" "lh_n h \<le> int LOGSIZE" "length x = BSIZE"
  shows "header_n (put_header h x) = lh_n h"
    "i < nat (lh_n h) \<Longrightarrow>
      word_of_int (header_block (put_header h x) i) = (word_of_int (lh_block h ! i) :: u32)"
proof -
  have len: "4 * nat (lh_n h) + 4 \<le> length (put32 x 0 (word_of_int (lh_n h)))"
    using assms by (simp add: LOGSIZE_def BSIZE_def)
  have "sint (word_of_int (lh_n h) :: u32) = lh_n h"
    using assms by (simp add: signed_of_int signed_take_bit_int_eq_self LOGSIZE_def)
  then show "header_n (put_header h x) = lh_n h"
    using get32_put_fields(1) [OF len] assms(3)
    by (simp add: header_n_def put_header_def BSIZE_def)
  assume "i < nat (lh_n h)"
  then have "get32 (put_header h x) (4 + 4 * i) = word_of_int (lh_block h ! i)"
    using get32_put_fields(2) [OF len] by (simp add: put_header_def)
  then show "word_of_int (header_block (put_header h x) i) = (word_of_int (lh_block h ! i) :: u32)"
    by (simp add: header_block_def)
qed

subsection \<open>Reading the header\<close>

definition read_header :: "u8 list \<Rightarrow> logheader \<Rightarrow> logheader" where
  "read_header x h =
     \<lparr>lh_n = header_n x,
      lh_block = map (header_block x) [0..<nat (header_n x)] @ drop (nat (header_n x)) (lh_block h)\<rparr>"

lemma take_fields: "i < length xs \<Longrightarrow>
    (map f [0..<i] @ drop i xs)[i := f i] = map f [0..<Suc i] @ drop (Suc i) xs"
  by (simp add: list_update_append flip: Cons_nth_drop_Suc)

lemma read_head_spec:
  assumes ok: "block_ok d s" and dev: "obeys_virtio D" and ul: "unlocked s" and d: "dev_of s = d"
    and room: "stuck d s \<subseteq> K" "finite K" "card K < NBUF" and refs: "refs d s (head_block s) = 0"
    and n: "header_n (view d s (head_block s)) \<le> int LOGSIZE" "length (lh_block (lh (logst s))) = LOGSIZE"
  shows "\<exists>t. read_head (served_sleep D) s = Ret () t \<and> calm s t \<and> block_ok d t \<and> unlocked t \<and>
    view d t = view d s \<and> refs d t = refs d s \<and> dirty d t = dirty d s \<and> disk t = disk s \<and>
    logst t = (logst s)\<lparr>lh := read_header (view d s (head_block s)) (lh (logst s))\<rparr> \<and>
    logs.more t = logs.more s"
proof -
  let ?m = "head_block s" let ?x = "view d s ?m" and ?old = "lh_block (lh (logst s))"
  have inv: "cache_inv d s" using ok by (simp add: block_ok_def)
  obtain t b where t: "block_read (served_sleep D) d ?m s = Ret (Some b) t" "only_buf b s t" "block_ok d t"
    "owned_buf d t ?m b" "view d t = view d s" "refs d t = (refs d s)(?m := refs d s ?m + 1)"
    "dirty d t = dirty d s" "disk t = disk s"
    using read_spec [OF ok dev unlockedD [OF ul inv, of ?m] room] refs by force
  have lt: "logst t = logst s" using only_buf_logst [OF t(2)] .
  have x: "b_data (bufs t b) = ?x" using owned_bufD(3) [OF t(4,3)] t(5) by simp
  let ?n = "nat (header_n ?x)"
  let ?f = "\<lambda>i. upd_log (\<lambda>l. l\<lparr>lh := \<lparr>lh_n = header_n ?x, lh_block = map (header_block ?x) [0..<i] @ drop i ?old\<rparr>\<rparr>) t"
  let ?body = "\<lambda>i s. if i \<ge> LOGSIZE then Stop OutOfBounds s
              else Ret () (set_lh_block i (header_block (b_data (bufs s b)) i) s)"
  have "\<exists>u. for_out 0 ?n ?body (set_lh_n (header_n ?x) t) = Ret () u \<and> u = ?f (0 + ?n)"
  proof (rule for_out_inv [where P = "\<lambda>i u. u = ?f i"])
    show "set_lh_n (header_n ?x) t = ?f 0" by (simp add: set_lh_n_def upd_log_def lt)
    fix i u assume i: "0 \<le> i" "i < 0 + ?n" and u: "u = ?f i"
    have "i < LOGSIZE" using i n by simp
    moreover have "set_lh_block i (header_block ?x i) (?f i) = ?f (Suc i)"
      using take_fields [of i ?old "header_block ?x"] n(2) \<open>i < LOGSIZE\<close> by (simp add: set_lh_block_def upd_log_def)
    ultimately show "\<exists>v. ?body i u = Ret () v \<and> v = ?f (Suc i)" by (simp add: u x)
  qed
  then have lp: "for_out 0 ?n ?body (set_lh_n (header_n ?x) t) = Ret () (?f ?n)" by simp
  let ?u = "?f ?n"
  have own: "owned_buf d ?u ?m b" "block_ok d ?u" using t(3,4) by simp_all
  have vu: "view d ?u ?m = on_disk ?u ?m"
    using unref_view [OF inv refs] t(5,8) by (simp add: on_disk_def)
  from block_release_spec [OF own(2,1) vu]
  obtain y where y: "block_release b ?u = Ret () y" "only_buf b ?u y" "block_ok d y" "sleep_free y (SL_buf b)"
    "view d y = view d ?u" "refs d y = (refs d ?u)(?m := refs d ?u ?m - 1)" "dirty d y = dirty d ?u" "disk y = disk ?u"
    by blast
  have "unlocked y"
    unfolding unlocked_def
  proof (intro allI impI)
    fix i assume "i < NBUF"
    then show "sleep_free y (SL_buf i)"
      using ul t(2) y(2,4) by (cases "i = b") (auto simp: only_buf_def sleep_free_def unlocked_def)
  qed
  moreover have "read_head (served_sleep D) s = Ret () y"
    using t(1) lp y(1) x by (simp add: read_head_def d Let_def set_lh_n_def)
  moreover have "calm s y"
  proof -
    have "calm s t" "calm ?u y" using t(2) y(2) by (simp_all add: only_buf_def)
    moreover have "calm t ?u" by (rule calmI) simp_all
    ultimately show ?thesis using calm_trans by blast
  qed
  moreover have "logst y = (logst s)\<lparr>lh := read_header ?x (lh (logst s))\<rparr>" "logs.more y = logs.more s"
    using step_frame_logst [OF only_buf_step [OF y(2)]] step_frame_logst [OF only_buf_step [OF t(2)]]
    by (simp_all add: read_header_def)
  moreover have "refs d y = refs d s" using y(6) t(6) by (auto simp: fun_eq_iff)
  ultimately show ?thesis using y(3,5,7,8) t(5,7,8) by (intro exI [of _ y]) simp
qed

subsection \<open>Recovery\<close>

text \<open>What recovery writes, from what is on the disk.\<close>

definition saved_home :: "u32 \<Rightarrow> (u32 \<Rightarrow> u8 list) \<Rightarrow> nat \<Rightarrow> u32" where
  "saved_home head V k = word_of_int (header_block (V head) k)"

definition recovery_writes :: "u32 \<Rightarrow> (nat \<Rightarrow> u32) \<Rightarrow> (u32 \<Rightarrow> u8 list) \<Rightarrow> block_writes" where
  "recovery_writes head lb V =
     map (\<lambda>k. (saved_home head V k, V (lb k))) [0..<nat (header_n (V head))] @
     [(head, put_header \<lparr>lh_n = 0, lh_block = []\<rparr> (V head))]"

lemma put_header_0: "lh_n h = 0 \<Longrightarrow> put_header h x = put_header \<lparr>lh_n = 0, lh_block = []\<rparr> x"
  by (simp add: put_header_def)

lemma home_block_read:
  assumes "logst t = (logst s)\<lparr>lh := read_header x (lh (logst s))\<rparr>" "k < nat (header_n x)"
  shows "home_block t k = word_of_int (header_block x k)"
  using assms by (simp add: home_block_def read_header_def nth_append)

lemma recover_spec:
  assumes ok: "block_ok d s" and dev: "obeys_virtio D" and ul: "unlocked s" and d: "dev_of s = d"
    and none: "stuck d s = {}" and len: "length (lh_block (lh (logst s))) = LOGSIZE"
    and n: "0 \<le> header_n (view d s (head_block s))" "header_n (view d s (head_block s)) < int LOGSIZE"
    and geo: "log_geometry (head_block s) (log_block s) (saved_home (head_block s) (view d s))
      (nat (header_n (view d s (head_block s))))"
  shows "\<exists>t. recover_from_log (served_sleep D) s = Ret () t \<and> calm s t \<and> block_ok d t \<and> unlocked t \<and>
    disk t = write_all (recovery_writes (head_block s) (log_block s) (view d s)) (disk s) \<and>
    view d t = upd_all (recovery_writes (head_block s) (log_block s) (view d s)) (view d s) \<and>
    refs d t = (\<lambda>_. 0) \<and> lh_n (lh (logst t)) = 0 \<and> logs.more t = logs.more s"
proof -
  let ?m = "head_block s" let ?x = "view d s ?m" let ?n = "nat (header_n ?x)"
  have r0: "refs d s k = 0" "\<not> dirty d s k" for k using none by (auto simp: stuck_eq)
  have card0: "card (stuck d s) < NBUF" "finite (stuck d s)" by (simp_all add: none NBUF_def)
  have le: "header_n ?x \<le> int LOGSIZE" using n(2) by simp
  obtain s1 where s1: "read_head (served_sleep D) s = Ret () s1" "calm s s1" "block_ok d s1" "unlocked s1"
    "view d s1 = view d s" "refs d s1 = refs d s" "dirty d s1 = dirty d s" "disk s1 = disk s"
    "logst s1 = (logst s)\<lparr>lh := read_header ?x (lh (logst s))\<rparr>" "logs.more s1 = logs.more s"
    using read_head_spec [OF ok dev ul d order_refl card0(2,1) r0(1) le len] by blast
  have b1: "dev_of s1 = d" "head_block s1 = ?m" "log_block s1 = log_block s"
    using s1(9) d by (auto simp: dev_of_def head_block_def log_block_def fun_eq_iff)
  have hb: "home_block s1 k = saved_home ?m (view d s) k" if "k < ?n" for k
    using home_block_read [OF s1(9) that] by (simp add: saved_home_def)
  have n1: "nat (lh_n (lh (logst s1))) = ?n" by (simp add: s1(9) read_header_def)
  have geo1: "log_geometry (head_block s1) (log_block s1) (home_block s1) ?n"
    using geo hb by (auto simp: log_geometry_def b1 inj_on_def)
  have st1: "stuck d s1 = {}" using s1(6,7) r0 by (auto simp: stuck_eq)
  have "card (insert (log_block s1 k) (stuck d s1 \<union> home_block s1 ` {..<k})) < NBUF" if "k < ?n" for k
  proof -
    have "card (insert (log_block s1 k) (home_block s1 ` {..<k})) \<le> Suc (card (home_block s1 ` {..<k}))"
      by (rule card_insert_le_m1) simp_all
    also have "\<dots> \<le> Suc k" using card_image_le [of "{..<k}" "home_block s1"] by simp
    also have "\<dots> < NBUF" using that n(2) by (simp add: NBUF_def LOGSIZE_def)
    finally show ?thesis by (simp add: st1)
  qed
  then obtain s2 where s2: "install_trans (served_sleep D) True s1 = Ret () s2"
    "underway d s1 (home_writes (log_block s1) (home_block s1) (view d s1) ?n) s2"
    "refs d s2 = (\<lambda>m. if m \<in> home_block s1 ` {..<?n} then 0 else refs d s1 m)"
    using install_trans_spec [OF s1(3) dev s1(4) b1(1) n1 geo1, of True] s1(6) r0 st1 by auto
  note u2 = underwayD [OF s2(2)]
  have hw: "home_writes (log_block s1) (home_block s1) (view d s1) ?n =
      map (\<lambda>k. (saved_home ?m (view d s) k, view d s (log_block s k))) [0..<?n]"
    using hb by (auto simp: home_writes_def b1 s1(5))
  let ?t = "set_lh_n 0 s2"
  have b2: "dev_of s2 = d" "head_block s2 = ?m" using step_frame_blocks [OF u2(1)] b1 by simp_all
  have t: "block_ok d ?t" "unlocked ?t" "dev_of ?t = d" "head_block ?t = ?m" "view d ?t = view d s2"
    "refs d ?t = (\<lambda>_. 0)" "dirty d ?t = dirty d s2" "disk ?t = disk s2" "lh_n (lh (logst ?t)) = 0"
    using u2(2,3) b2 s2(3) s1(6) r0
    by (auto simp: set_lh_n_def unlocked_def sleep_free_def dev_of_def head_block_def)
  have "?m \<notin> fst ` set (map (\<lambda>k. (saved_home ?m (view d s) k, view d s (log_block s k))) [0..<?n])"
    using geo by (auto simp: log_geometry_def)
  then have V2: "view d s2 ?m = ?x" unfolding u2(4) [unfolded hw] s1(5) by (rule upd_all_other)
  let ?K = "saved_home ?m (view d s) ` {..<?n}"
  have K: "stuck d ?t \<subseteq> ?K" "finite ?K" "card ?K < NBUF"
  proof -
    show "stuck d ?t \<subseteq> ?K"
      using u2(6) t(6,7) s1(7) r0(2) hb by (auto simp: stuck_eq fst_writes)
    show "card ?K < NBUF"
      using card_image_le [of "{..<?n}" "saved_home ?m (view d s)"] n(2) by (simp add: NBUF_def LOGSIZE_def)
  qed simp
  have r: "refs d ?t (head_block ?t) = 0" "lh_n (lh (logst ?t)) \<le> int LOGSIZE" by (simp_all add: t)
  obtain y where y: "write_head (served_sleep D) ?t = Ret () y" "step_frame ?t y" "block_ok d y"
    "unlocked y" "view d y = (view d ?t)(?m := put_header (lh (logst ?t)) (view d ?t ?m))"
    "refs d y = refs d ?t"
    "disk y = write_sector (ucast ?m) (put_header (lh (logst ?t)) (view d ?t ?m)) (disk ?t)"
    using write_head_spec [OF t(1) dev t(2,3) K r] t(4) by auto
  have hd: "put_header (lh (logst ?t)) (view d ?t ?m) = put_header \<lparr>lh_n = 0, lh_block = []\<rparr> ?x"
    unfolding t(5) V2 by (rule put_header_0) (rule t(9))
  have "recover_from_log (served_sleep D) s = Ret () y"
    using s1(1) s2(1) y(1) by (simp add: recover_from_log_def)
  moreover have "calm s y"
  proof -
    have "calm s1 s2" "calm ?t y" using u2(1) y(2) by (simp_all add: step_frame_def)
    moreover have "calm s2 ?t" by (rule calmI) (simp_all add: set_lh_n_def)
    ultimately show ?thesis using calm_trans s1(2) by blast
  qed
  moreover have "logst y = logst ?t \<and> logs.more y = logs.more s"
    using step_frame_logst [OF y(2)] step_frame_logst [OF u2(1)] s1(10) by (simp add: set_lh_n_def)
  moreover have "disk y = write_all (recovery_writes ?m (log_block s) (view d s)) (disk s)"
    using y(7) hd u2(5) hw s1(8) by (simp add: recovery_writes_def t(8))
  moreover have "view d y = upd_all (recovery_writes ?m (log_block s) (view d s)) (view d s)"
    using y(5) hd u2(4) hw s1(5) by (simp add: recovery_writes_def t(5))
  ultimately show ?thesis using y(3,4,6) t(6,9) by auto
qed

end
