(* ===== verification/Log_Crash.thy ===== *)
theory Log_Crash
  imports Log_Recovery
begin

text \<open>
  A crash between two disk writes of a commit: recovery at the next boot leaves either every
  block of the transaction as it was before, or every one with its new contents.
\<close>

subsection \<open>Prefixes of the writes of a commit\<close>

lemma sectors_write_all:
  "(\<lambda>n. sectors (write_all ws m) (ucast n)) = upd_all ws (\<lambda>n. sectors m (ucast n))"
proof (induction ws arbitrary: m)
  case (Cons w ws)
  obtain n x where w: "w = (n, x)" by force
  have "(\<lambda>k. sectors (write_sector (ucast n) x m) (ucast k)) = (\<lambda>k. sectors m (ucast k))(n := x)"
    by (auto simp: write_sector_def fun_eq_iff ucast_sector)
  then show ?case using Cons [of "write_sector (ucast n) x m"] by (simp add: w)
qed simp

lemma on_disk_write_all: "disk t = write_all ws (disk s) \<Longrightarrow> on_disk t = upd_all ws (on_disk s)"
  using sectors_write_all [of ws "disk s"] by (simp add: on_disk_def [abs_def])

lemma take_writes:
  "j \<le> n \<Longrightarrow> take j (log_writes lb hb V n) = log_writes lb hb V j"
  "i \<le> n \<Longrightarrow> take i (map (\<lambda>k. (hb k, V (hb k))) [0..<n]) = map (\<lambda>k. (hb k, V (hb k))) [0..<i]"
  by (simp_all add: log_writes_def take_map)

lemma prefix_cases:
  assumes "j \<le> length (commit_writes hd0 lb hb h V n)"
  shows "(\<exists>i \<le> n. take j (commit_writes hd0 lb hb h V n) = log_writes lb hb V i) \<or>
    (\<exists>i \<le> n. take j (commit_writes hd0 lb hb h V n) =
       log_writes lb hb V n @ [(hd0, put_header h (V hd0))] @ map (\<lambda>k. (hb k, V (hb k))) [0..<i]) \<or>
    take j (commit_writes hd0 lb hb h V n) = commit_writes hd0 lb hb h V n"
proof -
  have len: "length (log_writes lb hb V n) = n" by (simp add: log_writes_def)
  consider "j \<le> n" | i where "j = n + 1 + i" "i \<le> n" | "j = 2 * n + 2"
  proof -
    have "j \<le> 2 * n + 2" using assms len by (simp add: commit_writes_def)
    then show ?thesis using that(1) that(2) [of "j - n - 1"] that(3) by linarith
  qed
  then show ?thesis
  proof cases
    case 1
    then have "take j (commit_writes hd0 lb hb h V n) = log_writes lb hb V j"
      using take_writes(1) len by (simp add: commit_writes_def)
    with 1 show ?thesis by blast
  next
    case 2
    then have "take j (commit_writes hd0 lb hb h V n) =
       log_writes lb hb V n @ [(hd0, put_header h (V hd0))] @ map (\<lambda>k. (hb k, V (hb k))) [0..<i]"
      using take_writes(2) [of i n hb V] len by (simp add: commit_writes_def)
    with 2 show ?thesis by blast
  next
    case 3
    then show ?thesis using len by (simp add: commit_writes_def)
  qed
qed

subsection \<open>What is on the disk after a crash\<close>

definition log_area :: "u32 \<Rightarrow> (nat \<Rightarrow> u32) \<Rightarrow> nat \<Rightarrow> u32 set" where
  "log_area head lb n = insert head (lb ` {..<n})"

text \<open>The state of the disk before, with the transaction complete in the log, or after.\<close>

definition disk_old :: "u32 \<Rightarrow> (nat \<Rightarrow> u32) \<Rightarrow> nat \<Rightarrow> (u32 \<Rightarrow> u8 list) \<Rightarrow> (u32 \<Rightarrow> u8 list) \<Rightarrow> bool" where
  "disk_old head lb n V0 W \<longleftrightarrow> header_n (W head) = 0 \<and> (\<forall>x. x \<notin> log_area head lb n \<longrightarrow> W x = V0 x)"

definition disk_new :: "u32 \<Rightarrow> (nat \<Rightarrow> u32) \<Rightarrow> (nat \<Rightarrow> u32) \<Rightarrow> nat \<Rightarrow> (u32 \<Rightarrow> u8 list) \<Rightarrow> (u32 \<Rightarrow> u8 list) \<Rightarrow>
    (u32 \<Rightarrow> u8 list) \<Rightarrow> bool" where
  "disk_new head lb hb n V0 V W \<longleftrightarrow> header_n (W head) = 0 \<and>
     (\<forall>x. x \<notin> log_area head lb n \<longrightarrow> W x = (if x \<in> hb ` {..<n} then V x else V0 x))"

definition disk_logged :: "u32 \<Rightarrow> (nat \<Rightarrow> u32) \<Rightarrow> (nat \<Rightarrow> u32) \<Rightarrow> nat \<Rightarrow> (u32 \<Rightarrow> u8 list) \<Rightarrow>
    (u32 \<Rightarrow> u8 list) \<Rightarrow> (u32 \<Rightarrow> u8 list) \<Rightarrow> bool" where
  "disk_logged head lb hb n V0 V W \<longleftrightarrow> header_n (W head) = int n \<and>
     (\<forall>k < n. saved_home head W k = hb k \<and> W (lb k) = V (hb k)) \<and>
     (\<forall>x. x \<notin> log_area head lb n \<longrightarrow> x \<notin> hb ` {..<n} \<longrightarrow> W x = V0 x)"

text \<open>A transaction that commits over a disk whose log is empty.\<close>

definition transaction :: "u32 \<Rightarrow> (nat \<Rightarrow> u32) \<Rightarrow> (nat \<Rightarrow> u32) \<Rightarrow> logheader \<Rightarrow> nat \<Rightarrow>
    (u32 \<Rightarrow> u8 list) \<Rightarrow> (u32 \<Rightarrow> u8 list) \<Rightarrow> bool" where
  "transaction head lb hb h n V0 V \<longleftrightarrow> log_geometry head lb hb n \<and> lh_n h = int n \<and> n \<le> LOGSIZE \<and>
     (\<forall>k. hb k = word_of_int (lh_block h ! k)) \<and> length (V head) = BSIZE \<and> header_n (V0 head) = 0"

lemma transactionD:
  assumes "transaction head lb hb h n V0 V"
  shows "log_geometry head lb hb n" "lh_n h = int n" "n \<le> LOGSIZE"
    "\<And>k. hb k = word_of_int (lh_block h ! k)" "length (V head) = BSIZE" "header_n (V0 head) = 0"
  using assms by (simp_all add: transaction_def)

lemma head_not:
  assumes tr: "transaction head lb hb h n V0 V"
  shows "head \<notin> lb ` {..<n}" "head \<notin> hb ` {..<n}" "k < n \<Longrightarrow> lb k \<notin> hb ` {..<n}"
  using transactionD(1) [OF tr] by (auto simp: log_geometry_def)

lemma crash_in_log:
  assumes tr: "transaction head lb hb h n V0 V" and "i \<le> n"
  shows "disk_old head lb n V0 (upd_all (log_writes lb hb V i) V0)"
proof -
  note geo = transactionD(1) [OF tr] and h = transactionD(2-4) [OF tr] and len = transactionD(5) [OF tr]
    and clean = transactionD(6) [OF tr]
  note head_not = head_not [OF tr]
  have "fst ` set (log_writes lb hb V i) \<subseteq> lb ` {..<n}" using assms by (auto simp: fst_writes)
  then have "upd_all (log_writes lb hb V i) V0 x = V0 x" if "x \<notin> lb ` {..<n}" for x
    using that by (intro upd_all_other) blast
  then show ?thesis using head_not(1) clean by (simp add: disk_old_def log_area_def)
qed

lemma home_writes_at:
  "i \<le> (n :: nat) \<Longrightarrow> x \<notin> hb ` {..<n} \<Longrightarrow> upd_all (map (\<lambda>k. (hb k, V (hb k))) [0..<i]) U x = U x"
  by (rule upd_all_other) auto

lemma crash_after_header:
  assumes tr: "transaction head lb hb h n V0 V" and i: "i \<le> n"
  shows "disk_logged head lb hb n V0 V (upd_all (log_writes lb hb V n @
    [(head, put_header h (V head))] @ map (\<lambda>k. (hb k, V (hb k))) [0..<i]) V0)" (is "disk_logged _ _ _ _ _ _ ?W")
proof -
  note geo = transactionD(1) [OF tr] and h = transactionD(2-4) [OF tr] and len = transactionD(5) [OF tr]
    and clean = transactionD(6) [OF tr]
  note head_not = head_not [OF tr]
  let ?U = "(upd_all (log_writes lb hb V n) V0)(head := put_header h (V head))"
  have W: "?W x = ?U x" if "x \<notin> hb ` {..<n}" for x using home_writes_at [OF i that, of V ?U] by simp
  have hd0: "?W head = put_header h (V head)" using W [OF head_not(2)] by simp
  have "0 \<le> lh_n h" "lh_n h \<le> int LOGSIZE" using h by simp_all
  note r = header_roundtrip [OF this len]
  have "header_n (?W head) = int n" using r(1) h(1) hd0 by simp
  moreover have "saved_home head ?W k = hb k" if "k < n" for k
    using r(2) [of k] that h hd0 by (simp add: saved_home_def)
  moreover have "?W (lb k) = V (hb k)" if "k < n" for k
  proof -
    have "lb k \<noteq> head" using head_not(1) that by (metis imageI lessThan_iff)
    then have "?W (lb k) = upd_all (log_writes lb hb V n) V0 (lb k)" using W [OF head_not(3) [OF that]] by simp
    also have "\<dots> = V (hb k)"
      unfolding log_writes_def using geo that by (intro upd_all_map) (simp_all add: log_geometry_def)
    finally show ?thesis .
  qed
  moreover have "?W x = V0 x" if "x \<notin> log_area head lb n" "x \<notin> hb ` {..<n}" for x
  proof -
    have "x \<noteq> head" "x \<notin> lb ` {..<n}" using that(1) by (simp_all add: log_area_def)
    then show ?thesis using W [OF that(2)] upd_all_other [of x "log_writes lb hb V n" V0]
      by (simp add: fst_writes)
  qed
  ultimately show ?thesis by (simp add: disk_logged_def)
qed

lemma homes_new:
  assumes geo: "log_geometry head lb hb n" and k: "k < n"
  shows "upd_all (map (\<lambda>k. (hb k, V (hb k))) [0..<n]) U (hb k) = V (hb k)"
  using geo k by (intro upd_all_map) (simp_all add: log_geometry_def)

lemma crash_at_end:
  assumes tr: "transaction head lb hb h n V0 V"
  shows "disk_new head lb hb n V0 V (upd_all (commit_writes head lb hb h V n) V0)"
proof -
  note geo = transactionD(1) [OF tr] and h = transactionD(2-4) [OF tr] and len = transactionD(5) [OF tr]
    and clean = transactionD(6) [OF tr]
  let ?L = "log_writes lb hb V n @ [(head, put_header h (V head))] @ map (\<lambda>k. (hb k, V (hb k))) [0..<n]"
  let ?x = "put_header (h\<lparr>lh_n := 0\<rparr>) (put_header h (V head))"
  have W: "upd_all (commit_writes head lb hb h V n) V0 = (upd_all ?L V0)(head := ?x)"
    by (simp add: commit_writes_def)
  have "header_n ?x = 0"
    using header_roundtrip(1) [of "h\<lparr>lh_n := 0\<rparr>" "put_header h (V head)"] len by simp
  moreover have "upd_all ?L V0 x = (if x \<in> hb ` {..<n} then V x else V0 x)" if "x \<notin> log_area head lb n" for x
  proof (cases "x \<in> hb ` {..<n}")
    case True
    then show ?thesis using homes_new [OF geo] by auto
  next
    case False
    then show ?thesis using crash_after_header [OF tr, of n] that by (simp add: disk_logged_def)
  qed
  ultimately show ?thesis by (simp add: W disk_new_def log_area_def)
qed

lemma crash_states:
  assumes tr: "transaction head lb hb h n V0 V" and j: "j \<le> length (commit_writes head lb hb h V n)"
  shows "disk_old head lb n V0 (upd_all (take j (commit_writes head lb hb h V n)) V0) \<or>
    disk_logged head lb hb n V0 V (upd_all (take j (commit_writes head lb hb h V n)) V0) \<or>
    disk_new head lb hb n V0 V (upd_all (take j (commit_writes head lb hb h V n)) V0)"
  using prefix_cases [OF j]
proof (elim disjE exE conjE)
  fix i assume "i \<le> n" "take j (commit_writes head lb hb h V n) = log_writes lb hb V i"
  then show ?thesis using crash_in_log [OF tr] by simp
next
  fix i assume i: "i \<le> n" "take j (commit_writes head lb hb h V n) =
    log_writes lb hb V n @ [(head, put_header h (V head))] @ map (\<lambda>k. (hb k, V (hb k))) [0..<i]"
  show ?thesis unfolding i(2) using crash_after_header [OF tr i(1)] by blast
next
  assume "take j (commit_writes head lb hb h V n) = commit_writes head lb hb h V n"
  then show ?thesis using crash_at_end [OF tr] by simp
qed

text \<open>Recovery of each of them.\<close>

lemma recovery_none:
  "header_n (W head) = 0 \<Longrightarrow> x \<noteq> head \<Longrightarrow> upd_all (recovery_writes head lb W) W x = W x"
  by (simp add: recovery_writes_def)

lemma recovery_logged:
  assumes geo: "log_geometry head lb hb n" and W: "disk_logged head lb hb n V0 V W" and x: "x \<notin> log_area head lb n"
  shows "upd_all (recovery_writes head lb W) W x = (if x \<in> hb ` {..<n} then V x else V0 x)"
proof -
  have n: "nat (header_n (W head)) = n" using W by (simp add: disk_logged_def)
  have eq: "map (\<lambda>k. (saved_home head W k, W (lb k))) [0..<n] = map (\<lambda>k. (hb k, V (hb k))) [0..<n]"
    using W by (simp add: disk_logged_def)
  have R: "upd_all (recovery_writes head lb W) W x =
      upd_all (map (\<lambda>k. (hb k, V (hb k))) [0..<n]) W x"
    unfolding recovery_writes_def n eq using x by (simp add: log_area_def)
  show ?thesis
  proof (cases "x \<in> hb ` {..<n}")
    case True
    then show ?thesis using homes_new [OF geo] R by auto
  next
    case False
    then show ?thesis using home_writes_at [of n n x hb V W] R W x by (simp add: disk_logged_def)
  qed
qed

subsection \<open>Crash and reboot\<close>

text \<open>A kernel that has just built its block cache, with the parameters of its log set.\<close>

definition rebooted :: "u32 \<Rightarrow> 'a logs_scheme \<Rightarrow> bool" where
  "rebooted d r \<longleftrightarrow> block_ok d r \<and> unlocked r \<and> stuck d r = {} \<and> dev_of r = d \<and>
     length (lh_block (lh (logst r))) = LOGSIZE \<and> view d r = on_disk r"

lemma recovered_state:
  assumes r: "rebooted d r" and dev: "obeys_virtio D"
    and blocks: "head_block r = head" "log_block r = lb"
    and tr: "transaction head lb hb h n V0 V" "n < LOGSIZE"
    and W: "on_disk r = W" "disk_old head lb n V0 W \<or> disk_logged head lb hb n V0 V W \<or>
      disk_new head lb hb n V0 V W"
  shows "\<exists>u. recover_from_log (served_sleep D) r = Ret () u \<and>
    ((\<forall>x. x \<notin> log_area head lb n \<longrightarrow> on_disk u x = V0 x) \<or>
     (\<forall>x. x \<notin> log_area head lb n \<longrightarrow> on_disk u x = (if x \<in> hb ` {..<n} then V x else V0 x)))"
proof -
  note geo = transactionD(1) [OF tr(1)]
  have rb: "block_ok d r" "unlocked r" "stuck d r = {}" "dev_of r = d" "length (lh_block (lh (logst r))) = LOGSIZE"
    "view d r = W" using r W(1) by (simp_all add: rebooted_def)
  have n: "header_n (W head) = 0 \<or> header_n (W head) = int n"
    using W(2) by (auto simp: disk_old_def disk_logged_def disk_new_def)
  have "log_geometry head lb (saved_home head W) (nat (header_n (W head)))"
    using W(2)
  proof (elim disjE)
    assume "disk_logged head lb hb n V0 V W"
    then show ?thesis using geo by (auto simp: disk_logged_def log_geometry_def inj_on_def)
  qed (auto simp: disk_old_def disk_new_def log_geometry_def)
  moreover have "0 \<le> header_n (W head)" "header_n (W head) < int LOGSIZE"
    using n tr(2) by auto
  ultimately obtain u where u: "recover_from_log (served_sleep D) r = Ret () u"
    "disk u = write_all (recovery_writes head lb W) (disk r)"
    using recover_spec [OF rb(1) dev rb(2,4,3,5)] by (auto simp: rb(6) blocks)
  have o: "on_disk u = upd_all (recovery_writes head lb W) W"
    using on_disk_write_all [OF u(2)] W(1) by simp
  have head: "x \<noteq> head" if "x \<notin> log_area head lb n" for x using that by (auto simp: log_area_def)
  show ?thesis
    using W(2)
  proof (elim disjE)
    assume old: "disk_old head lb n V0 W"
    then have "on_disk u x = V0 x" if "x \<notin> log_area head lb n" for x
      using recovery_none [of W head x lb] head [OF that] that by (simp add: o disk_old_def)
    then show ?thesis using u(1) by blast
  next
    assume "disk_logged head lb hb n V0 V W"
    then have "on_disk u x = (if x \<in> hb ` {..<n} then V x else V0 x)" if "x \<notin> log_area head lb n" for x
      using recovery_logged [OF geo _ that] o by metis
    then show ?thesis using u(1) by blast
  next
    assume new: "disk_new head lb hb n V0 V W"
    then have "on_disk u x = (if x \<in> hb ` {..<n} then V x else V0 x)" if "x \<notin> log_area head lb n" for x
      using recovery_none [of W head x lb] head [OF that] that by (simp add: o disk_new_def)
    then show ?thesis using u(1) by blast
  qed
qed

end
