(* ===== verification/Cache_Boot.thy ===== *)
theory Cache_Boot
  imports Log_Crash Process_Boot
begin

text \<open>
  \<open>buf_cache_init\<close> on the zeroed static data establishes the cache invariant, and a concrete
  kernel with a disk, for the examples.
\<close>

subsection \<open>buf_cache_init\<close>

lemma init_buffer_sel [simp]:
  "bufs (init_buffer i s) = insert_front i (bufs s)" "vq (init_buffer i s) = vq s"
  "disk (init_buffer i s) = disk s" "mmio (init_buffer i s) = mmio s"
  "current_process (init_buffer i s) = current_process s"
  "proc_table (init_buffer i s) = proc_table s" "disks.more (init_buffer i s) = disks.more s"
  "sleep_free (init_buffer i s) k \<longleftrightarrow> k = SL_buf i \<or> sleep_free s k"
  "spinlock_held l (init_buffer i s) = (if l = inner (SL_buf i) then 0 else spinlock_held l s)"
  by (simp_all add: init_buffer_def sleeplock_init_def spinlock_init_def spinlock_held_def sleep_free_def
      set_bufs_def upd_sleep_def)

lemma init_buffers_loop:
  assumes "lru (bufs s) []" "n \<le> NBUF"
  shows "lru (bufs (fold init_buffer [0..<n] s)) (rev [0..<n]) \<and>
    (\<forall>j. payload (bufs (fold init_buffer [0..<n] s) j) = payload (bufs s j)) \<and>
    vq (fold init_buffer [0..<n] s) = vq s \<and> disk (fold init_buffer [0..<n] s) = disk s \<and>
    current_process (fold init_buffer [0..<n] s) = current_process s \<and>
    proc_table (fold init_buffer [0..<n] s) = proc_table s \<and>
    disks.more (fold init_buffer [0..<n] s) = disks.more s \<and>
    (\<forall>k. sleep_free (fold init_buffer [0..<n] s) k \<longleftrightarrow> (\<exists>i < n. k = SL_buf i) \<or> sleep_free s k) \<and>
    (\<forall>l. spinlock_held l s = 0 \<longrightarrow> spinlock_held l (fold init_buffer [0..<n] s) = 0)"
  using assms
proof (induction n)
  case (Suc n)
  have "n \<notin> set (rev [0..<n])" "n \<noteq> HEAD" using Suc.prems(2) by (auto simp: HEAD_def)
  then have "lru (insert_front n (bufs (fold init_buffer [0..<n] s))) (n # rev [0..<n])"
    using Suc by (intro lru_insert_front) auto
  then show ?case using Suc by (auto simp: less_Suc_eq)
qed simp

text \<open>Static data before the first call: zeroed buffers, no queue entry in use.\<close>

definition zeroed :: "'a disks_scheme \<Rightarrow> bool" where
  "zeroed s \<longleftrightarrow> (\<forall>i. fresh (bufs s i) \<and> length (b_data (bufs s i)) = BSIZE) \<and>
     (\<forall>n. length (sectors (disk s) n) = BSIZE) \<and> vq_idle (vq s) \<and> locks_free s \<and> on_cpu s"

lemma buf_cache_init_spec:
  assumes "zeroed s" "d \<noteq> 0"
  shows "block_ok d (buf_cache_init s)" "unlocked (buf_cache_init s)" "stuck d (buf_cache_init s) = {}"
    "view d (buf_cache_init s) = on_disk s" "on_disk (buf_cache_init s) = on_disk s"
    "disk (buf_cache_init s) = disk s" "disks.more (buf_cache_init s) = disks.more s"
    "lru (bufs (buf_cache_init s)) (rev [0..<NBUF])" "my_pid (buf_cache_init s) = my_pid s"
    "holder d (buf_cache_init s) n = None" "recyclable (bufs (buf_cache_init s) i)"
proof -
  let ?s = "upd_buf HEAD (\<lambda>b. b\<lparr>b_prev := HEAD, b_next := HEAD\<rparr>) (spinlock_init LK_bcache ''bcache'' s)"
  let ?t = "buf_cache_init s"
  have sp: "bufs (spinlock_init LK_bcache ''bcache'' s) = bufs s"
    "sleeplk (spinlock_init LK_bcache ''bcache'' s) = sleeplk s"
    "vq (spinlock_init LK_bcache ''bcache'' s) = vq s" "disk (spinlock_init LK_bcache ''bcache'' s) = disk s"
    "current_process (spinlock_init LK_bcache ''bcache'' s) = current_process s"
    "proc_table (spinlock_init LK_bcache ''bcache'' s) = proc_table s"
    "disks.more (spinlock_init LK_bcache ''bcache'' s) = disks.more s"
    by (simp_all add: spinlock_init_def)
  have "lru (bufs ?s) []" by (simp add: lru_def)
  from init_buffers_loop [OF this order_refl, folded buf_cache_init_def]
  have t: "lru (bufs ?t) (rev [0..<NBUF])" "\<And>j. payload (bufs ?t j) = payload (bufs s j)"
    "vq ?t = vq s" "disk ?t = disk s" "current_process ?t = current_process s"
    "proc_table ?t = proc_table s" "disks.more ?t = disks.more s"
    "\<And>i. i < NBUF \<Longrightarrow> sleep_free ?t (SL_buf i)"
    "\<And>l. spinlock_held l s = 0 \<Longrightarrow> spinlock_held l ?t = 0"
    by (auto simp: sp payload_def)
  note e = payload_eq [OF t(2)]
  have fr: "fresh (bufs ?t i)" "length (b_data (bufs ?t i)) = BSIZE" for i
    using assms(1) e(5,9) [of i] by (simp_all add: zeroed_def)
  have dev: "b_dev (bufs ?t i) \<noteq> d" "\<not> is_valid (bufs ?t i)" for i
    using fr(1) [of i] assms(2) by (auto simp: fresh_def is_valid_def)
  have "cache_inv d ?t"
    unfolding cache_inv_def
  proof (intro conjI allI impI)
    show "\<exists>L. lru (bufs ?t) L \<and> set L = {..<NBUF}"
      using t(1) by (intro exI [of _ "rev [0..<NBUF]"]) auto
  qed (use assms fr dev t(3,4,8) in \<open>auto simp: zeroed_def\<close>)
  moreover have "locks_free ?t" using assms(1) t(9) by (simp add: zeroed_def locks_free_def)
  moreover have "on_cpu ?t" using assms(1) t(5,6) by (simp add: zeroed_def on_cpu_def)
  ultimately show "block_ok d ?t" by (simp add: block_ok_def)
  show h: "holder d ?t n = None" for n using dev by (auto simp: holder_None is_block_def)
  show "recyclable (bufs ?t i)" using fr(1) [of i] by (simp add: fresh_def recyclable_def is_dirty_def)
  show "unlocked ?t" using t(8) by (simp add: unlocked_def)
  show "stuck d ?t = {}" by (simp add: stuck_def h)
  show "view d ?t = on_disk s" "on_disk ?t = on_disk s" "disk ?t = disk s"
    using t(4) by (auto simp: fun_eq_iff view_def h on_disk_def)
  show "disks.more ?t = disks.more s" "lru (bufs ?t) (rev [0..<NBUF])" by (rule t)+
  show "my_pid ?t = my_pid s" using t(5,6) by (simp add: my_pid_def split: option.split)
qed

lemma buf_cache_init_locks:
  "sleep_free s k \<Longrightarrow> sleep_free (buf_cache_init s) k"
  "spinlock_held l s = 0 \<Longrightarrow> spinlock_held l (buf_cache_init s) = 0"
proof -
  let ?s = "upd_buf HEAD (\<lambda>b. b\<lparr>b_prev := HEAD, b_next := HEAD\<rparr>) (spinlock_init LK_bcache ''bcache'' s)"
  have "lru (bufs ?s) []" by (simp add: lru_def)
  note l = init_buffers_loop [OF this order_refl]
  have "sleep_free ?s k = sleep_free s k" by (simp add: sleep_free_def spinlock_init_def)
  then show "sleep_free s k \<Longrightarrow> sleep_free (buf_cache_init s) k" using l by (simp add: buf_cache_init_def)
  have "spinlock_held l s = 0 \<Longrightarrow> spinlock_held l ?s = 0" by (simp add: spinlock_held_def spinlock_init_def)
  then show "spinlock_held l s = 0 \<Longrightarrow> spinlock_held l (buf_cache_init s) = 0"
    using l by (simp add: buf_cache_init_def)
qed

subsection \<open>A kernel with a disk\<close>

definition zero_buf :: buf where
  "zero_buf = \<lparr>b_flags = 0, b_dev = 0, b_blockno = 0, b_refcnt = 0, b_prev = 0, b_next = 0,
     b_data = replicate BSIZE 0\<rparr>"

definition zero_queue :: virtq where
  "zero_queue = \<lparr>desc = (\<lambda>_. \<lparr>d_addr = A_null, d_len = 0, d_flags = 0, d_next = 0\<rparr>), avail_idx = 0,
     avail_ring = (\<lambda>_. 0), used_idx = 0, used_ring = (\<lambda>_. 0), info_b = (\<lambda>_. None),
     info_status = (\<lambda>_. 0), ops = (\<lambda>_. \<lparr>r_type = 0, r_reserved = 0, r_sector = 0\<rparr>), last_used = 0, seen = 0\<rparr>"

text \<open>The blocks of this disk are told apart by their bytes; the header of a log at block 2 is
  empty.\<close>

definition example_sector :: "u64 \<Rightarrow> u8 list" where
  "example_sector n = (if n = 2 then replicate BSIZE 0 else replicate BSIZE (ucast n))"

definition one_proc :: proc where
  "one_proc = \<lparr>state = PROC_RUNNING, pid = 1, parent = None, pagetable = 0, sz = 0, kstack = 0,
     trapframe_ptr = 0,
     ctx = zero_context, exit_code = 0, pname = ''init''\<rparr>"

definition empty_log :: log where
  "empty_log = \<lparr>log_start = 2, log_size = 30, outstanding = 0, committing = 0, log_dev = 1,
     lh = \<lparr>lh_n = 0, lh_block = replicate LOGSIZE 0\<rparr>\<rparr>"

text \<open>The fields of the layers below are those of the static data, with one running process.\<close>

definition disk_kernel :: "'a \<Rightarrow> 'a logs_scheme" where
  "disk_kernel m =
     \<lparr>phys_bitmap = [], free_pages_count = 0, tables = (\<lambda>_ _. 0), kernel_pagetable = 0,
      paging_active = False, satp = 0, spin = (\<lambda>_. \<lparr>locked = 0, lk_name = []\<rparr>), sie = True,
      proc_table = [one_proc], current_process = Some 0, next_pid = 2,
      tf_heap = (\<lambda>_. zero_trapframe), sched_index = 0, cpu = zero_context, int_at = (\<lambda>_. 0),
      sleeplk = (\<lambda>_. \<lparr>sl_locked = 0, sl_name = [], sl_pid = 0\<rparr>), bufs = (\<lambda>_. zero_buf),
      vq = zero_queue, disk = \<lparr>sectors = example_sector, writes = []\<rparr>, mmio = [],
      logst = empty_log, \<dots> = m\<rparr>"

lemma disk_kernel_zeroed: "zeroed (disk_kernel m)"
  by (simp add: zeroed_def disk_kernel_def fresh_def zero_buf_def example_sector_def vq_idle_def
      zero_queue_def locks_free_def spinlock_held_def on_cpu_def)

definition cached_kernel :: "'a \<Rightarrow> 'a logs_scheme" where
  "cached_kernel m = buf_cache_init (disk_kernel m)"

lemma cached_kernel_facts:
  "block_ok 1 (cached_kernel m)" "unlocked (cached_kernel m)" "stuck 1 (cached_kernel m) = {}"
  "view 1 (cached_kernel m) = on_disk (cached_kernel m)"
  "on_disk (cached_kernel m) n = example_sector (ucast n)"
  "logst (cached_kernel m) = empty_log"
proof -
  note c = buf_cache_init_spec [OF disk_kernel_zeroed [of m], of 1, folded cached_kernel_def]
  show "block_ok 1 (cached_kernel m)" "unlocked (cached_kernel m)" "stuck 1 (cached_kernel m) = {}"
    using c by simp_all
  show "view 1 (cached_kernel m) = on_disk (cached_kernel m)" using c(4,5) by simp
  have "on_disk (cached_kernel m) = on_disk (disk_kernel m)" using c(5) by simp
  then show "on_disk (cached_kernel m) n = example_sector (ucast n)"
    by (simp add: on_disk_def disk_kernel_def)
  have "disks.more (cached_kernel m) = disks.more (disk_kernel m)" using c(7) by simp
  then show "logst (cached_kernel m) = empty_log"
    by (cases "cached_kernel m") (simp add: disk_kernel_def)
qed

end
