(* ===== verification/Disk_Props.thy ===== *)
theory Disk_Props
  imports Cache_Boot
begin

text \<open>Properties of the disk driver, the buffer cache and the block layer.\<close>

unbundle bit_operations_syntax

lemma cached_kernel_more:
  "vq_idle (vq (cached_kernel m))" "locks_free (cached_kernel m)" "on_cpu (cached_kernel m)"
  "spinlock_held LK_disk (cached_kernel m) = 0"
proof -
  show "vq_idle (vq (cached_kernel m))" "locks_free (cached_kernel m)" "on_cpu (cached_kernel m)"
    using cached_kernel_facts(1) [of m] by (simp_all add: block_ok_def cache_inv_def)
  then show "spinlock_held LK_disk (cached_kernel m) = 0" using locks_freeD(5) by blast
qed

subsection \<open>The driver\<close>

text \<open>C14: with a device that follows the VirtIO specification and a \<open>sleep\<close> that keeps its
  contract, a request on an idle queue ends: a read puts the sector of the block into the
  buffer, a write puts the buffer on the disk, the buffer is then marked valid, the queue is idle
  again with all its descriptors free, and no other buffer, sleep lock or spin lock changes.\<close>

theorem disk_request_completes:
  assumes "obeys_virtio D" "vq_idle (vq s)" "spinlock_held LK_disk s = 0" "current_process s = Some p"
  shows "\<exists>t. virtio_disk_rw (served_sleep D) b w s = Ret () t \<and> vq_idle (vq t) \<and> spin t = spin s \<and>
    sleeplk t = sleeplk s \<and> is_valid (bufs t b) \<and> (\<forall>i. i \<noteq> b \<longrightarrow> bufs t i = bufs s i) \<and>
    b_blockno (bufs t b) = b_blockno (bufs s b) \<and>
    b_data (bufs t b) = (if w then b_data (bufs s b) else on_disk s (b_blockno (bufs s b))) \<and>
    disk t = (if w then write_sector (ucast (b_blockno (bufs s b))) (b_data (bufs s b)) (disk s) else disk s)"
proof -
  obtain t where t: "virtio_disk_rw (served_sleep D) b w s = Ret () t" "quiet s t" "vq_idle (vq t)"
    "bufs t = transferred b w (block_sector (bufs s b)) s"
    "disk t = (if w then write_sector (block_sector (bufs s b)) (b_data (bufs s b)) (disk s) else disk s)"
    using rw_spec [OF assms, of b w] by blast
  have "is_valid (bufs t b)" by (simp add: t(4))
  then show ?thesis using t
    by (auto simp: quiet_def calm_def transferred_def block_sector_eq on_disk_def)
qed

theorem disk_request_completes_witness:
  "\<exists>t. virtio_disk_rw (served_sleep virtio_blk) 3 False (cached_kernel ()) = Ret () t \<and> is_valid (bufs t 3)"
proof -
  obtain p where "current_process (cached_kernel ()) = Some p"
    using cached_kernel_more(3) [of "()"] by (auto simp: on_cpu_def)
  note disk_request_completes [where b = 3 and w = False,
      OF virtio_blk_obeys cached_kernel_more(1,4) [of "()"] this]
  then show ?thesis by (elim exE conjE) (intro exI conjI)
qed

text \<open>C15: with the kernel's own \<open>sleep\<close> no request ever comes back to its caller. A running process
  is left sleeping with its request submitted to the device and the buffer invalid;
  without a current process the driver loops for ever with its spin lock held and
  interrupts off.\<close>

theorem disk_request_never_returns:
  assumes "vq_idle (vq s)" "spinlock_held LK_disk s = 0"
  shows "(\<forall>p. current_process s = Some p \<and> p < length (proc_table s) \<longrightarrow>
      (\<exists>t. virtio_disk_rw kernel_sleep b w s = Stop Rescheduled t \<and> state (proc_at t p) = PROC_SLEEPING \<and>
         \<not> is_valid (bufs t b) \<and> avail_idx (vq t) = avail_idx (vq s) + 1 \<and> disk t = disk s)) \<and>
    (current_process s = None \<longrightarrow>
      (\<exists>t. virtio_disk_rw kernel_sleep b w s = Stop SpinsForever t \<and> spinlock_held LK_disk t \<noteq> 0 \<and> \<not> sie t))"
proof -
  let ?s1 = "set_locked LK_disk 1 (intr_off s)"
  let ?q = "(vq s)\<lparr>info_b := (info_b (vq s))(0 := Some b, 1 := Some b, 2 := Some b)\<rparr>"
  let ?s3 = "set_vq (fill_request 0 1 2 b w (block_sector (bufs s b))) (?s1\<lparr>vq := ?q\<rparr>)"
  let ?s5 = "write_reg VIRTIO_MMIO_QUEUE_NOTIFY 0 (upd_buf b (b_flags_update (\<lambda>f. f AND NOT B_VALID)) ?s3)"
  let ?w = "\<lambda>s :: 'a disks_scheme. b_flags (bufs s b) AND B_VALID = 0"
  let ?rw = "virtio_disk_rw kernel_sleep b w s"
  have al: "alloc3_desc kernel_sleep b ?s1 = Ret [Some 0, Some 1, Some 2] (?s1\<lparr>vq := ?q\<rparr>)"
    using alloc3_idle [of ?s1] assms(1) by (simp add: vq_idle_def)
  have w5: "?w ?s5" by (simp add: flags_or_valid)
  have inv: "\<not> is_valid (bufs ?s5 b)" by (simp add: is_valid_def flags_or_valid)
  have rw: "?rw = bind_out (while_out ?w (kernel_sleep (CH_buf b) LK_disk) ?s5) (\<lambda>_ s6.
      spinlock_release LK_disk (finish_request 0 1 2 s6))"
    using assms(2) al
    by (simp add: virtio_disk_rw_def acquire_eq Let_def idx_at_def block_sector_def)
  have h5: "spinlock_held LK_disk ?s5 = 1" by (simp add: spinlock_held_def set_locked_def)
  have "\<exists>t. ?rw = Stop Rescheduled t \<and> state (proc_at t p) = PROC_SLEEPING \<and>
         \<not> is_valid (bufs t b) \<and> avail_idx (vq t) = avail_idx (vq s) + 1 \<and> disk t = disk s"
    if p: "current_process s = Some p \<and> p < length (proc_table s)" for p
  proof -
    let ?t = "sleep_commit p (intr_on (set_locked LK_disk 0 ?s5))"
    have "current_process ?s5 = Some p" using p by simp
    then have "kernel_sleep (CH_buf b) LK_disk ?s5 = Stop Rescheduled ?t"
      using h5 by (simp add: kernel_sleep_def sleep_def sleep_unlock_def spinlock_release_def)
    then have "?rw = Stop Rescheduled ?t"
      using rw while_out_stop [where b = ?w, OF w5] by simp
    moreover have t: "bufs ?t = bufs ?s5" "vq ?t = vq ?s5" "disk ?t = disk ?s5"
      by (simp_all add: sleep_commit_def upd_proc_def)
    have "\<not> is_valid (bufs ?t b)" using inv unfolding t(1) .
    moreover have "avail_idx (vq ?t) = avail_idx (vq s) + 1" unfolding t(2) by simp
    moreover have "disk ?t = disk s" unfolding t(3) by simp
    moreover have "state (proc_at ?t p) = PROC_SLEEPING" using p by (simp add: sleep_commit_def)
    ultimately show ?thesis by blast
  qed
  moreover have "\<exists>t. ?rw = Stop SpinsForever t \<and> spinlock_held LK_disk t \<noteq> 0 \<and> \<not> sie t"
    if "current_process s = None"
  proof -
    have "kernel_sleep (CH_buf b) LK_disk ?s5 = Ret () ?s5"
      using that by (simp add: kernel_sleep_def sleep_def)
    then have "?rw = Stop SpinsForever ?s5"
      using rw while_out_forever [where b = ?w, OF w5] by simp
    moreover have "\<not> sie ?s5" by (simp add: write_reg_def set_locked_def intr_off_def)
    ultimately show ?thesis using h5 by (intro exI [of _ ?s5]) simp
  qed
  ultimately show ?thesis by blast
qed

theorem disk_request_never_returns_witness:
  "\<exists>t. virtio_disk_rw kernel_sleep 3 False (cached_kernel ()) = Stop Rescheduled t \<and> \<not> is_valid (bufs t 3)"
proof -
  obtain p where "current_process (cached_kernel ()) = Some p" "p < length (proc_table (cached_kernel ()))"
    using cached_kernel_more(3) [of "()"] by (auto simp: on_cpu_def)
  then have "\<exists>p. current_process (cached_kernel ()) = Some p \<and> p < length (proc_table (cached_kernel ()))"
    by simp
  note this disk_request_never_returns [where b = 3 and w = False, OF cached_kernel_more(1,4) [of "()"],
      THEN conjunct1, THEN spec, THEN mp]
  then show ?thesis by (elim exE) (drule meta_spec, drule meta_mp, assumption, blast)
qed

subsection \<open>The cache\<close>

text \<open>C16: the cache replaces its least recently used free buffer. On an uncached block
  \<open>buf_get\<close> takes the last buffer of the list that is unreferenced and clean and gives it to
  the block with one reference; when every buffer is referenced or dirty it returns NULL and
  leaves the cache as it was; on a cached block it returns the buffer that holds it.\<close>

theorem buf_get_policy:
  assumes "lru (bufs s) L" "set L = {..<NBUF}" "block_ok d s" "unlocked s"
  shows "case holder d s n of
      Some i \<Rightarrow> \<exists>t. buf_get slp d n s = Ret (Some i) t \<and> bufs t = (bufs s)(i := b_refcnt_update (\<lambda>r. r + 1) (bufs s i))
    | None \<Rightarrow>
        (case find (\<lambda>i. recyclable (bufs s i)) (rev L) of
           Some b \<Rightarrow> \<exists>t. buf_get slp d n s = Ret (Some b) t \<and> bufs t = (bufs s)(b := new_holder d n (bufs s b))
         | None \<Rightarrow> buf_get slp d n s = Ret None (s\<lparr>sie := True\<rparr>))"
proof -
  have inv: "cache_inv d s" and lf: "locks_free s" using assms(3) by (simp_all add: block_ok_def)
  have h: "spinlock_held LK_bcache s = 0" using lf by (rule locks_freeD)
  let ?s1 = "set_locked LK_bcache 1 (intr_off s)"
  have acq: "spinlock_acquire LK_bcache s = Ret () ?s1" using h by (simp add: acquire_eq)
  have f1: "search b_next (is_block d n) (bufs s) (b_next (bufs s HEAD)) = Some (holder d s n)"
    using search_next [OF assms(1)] find_holder [OF inv assms(2)] by simp
  have f2: "search b_prev recyclable (bufs s) (b_prev (bufs s HEAD)) =
      Some (find (\<lambda>i. recyclable (bufs s i)) (rev L))"
    using search_prev [OF assms(1)] by simp
  have locked: "\<exists>t. lock_found slp b (upd_buf b f ?s1) = Ret (Some b) t \<and> bufs t = (bufs s)(b := f (bufs s b))"
    if "b < NBUF" for b f
  proof -
    have "calm ?s1 (upd_buf b f ?s1)" by (rule calmI) simp_all
    moreover have "sleep_free (upd_buf b f ?s1) (SL_buf b)"
      using assms(4) that by (simp add: unlocked_def sleep_free_def)
    ultimately obtain t where "lock_found slp b (upd_buf b f ?s1) = Ret (Some b) t" "same_blocks (upd_buf b f ?s1) t"
      using lock_found_spec [OF h _ lf] assms(3) unfolding block_ok_def by blast
    then show ?thesis by (auto simp: same_blocks_def)
  qed
  show ?thesis
  proof (cases "holder d s n")
    case (Some i)
    then have "i < NBUF" using holder_Some [OF inv] by blast
    then show ?thesis using locked [of i] Some acq f1 by (simp add: buf_get_def)
  next
    case None
    show ?thesis
    proof (cases "find (\<lambda>i. recyclable (bufs s i)) (rev L)")
      case r: None
      have "spinlock_release LK_bcache ?s1 = Ret () (intr_on s)"
        using h by (simp add: spinlock_release_def set_locked_same)
      then show ?thesis using None r acq f1 f2 by (simp add: buf_get_def intr_on_def)
    next
      case (Some b)
      then have "b < NBUF" using find_SomeD [of _ "rev L" b] assms(2) by auto
      then show ?thesis
        using locked [of b "new_holder d n"] None Some acq f1 f2
        by (simp add: buf_get_def new_holder_def [abs_def])
    qed
  qed
qed

theorem buf_get_policy_witness:
  "\<exists>t. buf_get kernel_sleep 1 7 (cached_kernel ()) = Ret (Some 0) t"
proof -
  note c = buf_cache_init_spec [OF disk_kernel_zeroed [of "()"], of 1, folded cached_kernel_def]
  have "rev (rev [0..<NBUF]) = 0 # [1..<NBUF]" by (simp add: NBUF_def upt_conv_Cons)
  then have "find (\<lambda>i. recyclable (bufs (cached_kernel ()) i)) (rev (rev [0..<NBUF])) = Some 0"
    using c(11) by simp
  moreover have "holder 1 (cached_kernel ()) 7 = None" using c(10) by simp
  ultimately show ?thesis
    using buf_get_policy [of "cached_kernel ()" "rev [0..<NBUF]" 1 kernel_sleep 7] c(1,2,8)
    by (auto simp: atLeast0LessThan)
qed


text \<open>C17: reading a block, replacing its bytes, writing it and giving it back changes that block and
  nothing else. Every reader then sees the new bytes, and they are on the disk; the reference counts
  are as before, every buffer is unlocked again, the cache invariant holds and no process,
  spin lock or log field changes.\<close>

theorem block_update_correct:
  assumes "block_ok d s" "obeys_virtio D" "unlocked s" "card (stuck d s) < NBUF" "refs d s n = 0"
    "length x = BSIZE"
  shows "\<exists>t. bind_out (block_read (served_sleep D) d n s) (\<lambda>r s1.
        case r of
          None \<Rightarrow> Ret () s1
        | Some b \<Rightarrow> bind_out (block_write (served_sleep D) b (upd_buf b (b_data_update (\<lambda>_. x)) s1))
                     (\<lambda>_ s2. block_release b s2)) = Ret () t \<and>
    block_ok d t \<and> unlocked t \<and> view d t = (view d s)(n := x) \<and>
    on_disk t = (on_disk s)(n := x) \<and> refs d t = refs d s \<and> calm s t \<and> disks.more t = disks.more s"
proof -
  have inv: "cache_inv d s" using assms(1) by (simp add: block_ok_def)
  obtain t b where t: "block_read (served_sleep D) d n s = Ret (Some b) t" "only_buf b s t" "block_ok d t"
    "owned_buf d t n b" "view d t = view d s" "refs d t = (refs d s)(n := refs d s n + 1)" "disk t = disk s"
    using read_spec [OF assms(1,2) unlockedD [OF assms(3) inv, of n] order_refl finite assms(4)] assms(5) by force
  let ?u = "upd_buf b (b_data_update (\<lambda>_. x)) t"
  have u: "block_ok d ?u" "only_buf b t ?u" "owned_buf d ?u n b" "view d ?u = (view d s)(n := x)"
    "refs d ?u = refs d t" "disk ?u = disk s"
    using set_data_spec [OF t(3,4) assms(6)] t(5,7) by simp_all
  obtain v where v: "block_write (served_sleep D) b ?u = Ret () v" "only_buf b ?u v" "block_ok d v"
    "owned_buf d v n b" "view d v = view d ?u" "refs d v = refs d ?u" "disk v = write_sector (ucast n) x (disk s)"
    using block_write_spec [OF u(1) assms(2) u(3)] u(4,6) by auto
  have od: "on_disk v = (on_disk s)(n := x)"
    using v(7) by (auto simp: fun_eq_iff on_disk_def write_sector_def ucast_sector)
  then have "view d v n = on_disk v n" using v(5) u(4) by simp
  from block_release_spec [OF v(3,4) this]
  obtain y where y: "block_release b v = Ret () y" "only_buf b v y" "block_ok d y" "sleep_free y (SL_buf b)"
    "view d y = view d v" "refs d y = (refs d v)(n := refs d v n - 1)" "disk y = disk v" by blast
  have ob: "only_buf b s y" using only_buf_trans [OF only_buf_trans [OF only_buf_trans [OF t(2) u(2)] v(2)] y(2)] .
  then have "unlocked y" using assms(3) y(4) by (auto simp: unlocked_def only_buf_def sleep_free_def)
  moreover have "refs d y = refs d s" using y(6) v(6) u(5) t(6) assms(5) by (auto simp: fun_eq_iff)
  moreover have "on_disk y = (on_disk s)(n := x)" using od y(7) by (simp add: on_disk_def [abs_def])
  moreover have "view d y = (view d s)(n := x)" using y(5) v(5) u(4) by simp
  ultimately show ?thesis using t(1) v(1) y(1,3) ob by (simp add: only_buf_def)
qed

theorem block_update_correct_witness:
  "\<exists>t :: logs. on_disk t 7 = replicate BSIZE 255 \<and> unlocked t \<and> calm (cached_kernel ()) t"
proof -
  note c = cached_kernel_facts [of "()"]
  have r: "refs 1 (cached_kernel ()) 7 = 0" using c(3) by (auto simp: stuck_eq)
  have f: "card (stuck 1 (cached_kernel ())) < NBUF" by (simp add: c(3) NBUF_def)
  obtain t :: logs where "unlocked t" "calm (cached_kernel ()) t"
    "on_disk t = (on_disk (cached_kernel ()))(7 := replicate BSIZE 255)"
    using block_update_correct [OF c(1) virtio_blk_obeys c(2) f r length_replicate [of BSIZE 255]]
    by blast
  then show ?thesis by (intro exI [of _ t]) simp
qed

subsection \<open>Sleep locks of a running kernel\<close>

theorem sleeplock_roundtrip_witness:
  "\<exists>t. sleeplock_acquire kernel_sleep (SL_buf 3) (cached_kernel ()) = Ret () t"
proof -
  have "sleep_free (cached_kernel ()) (SL_buf 3)"
    using cached_kernel_facts(2) [of "()"] by (simp add: unlocked_def NBUF_def)
  then show ?thesis
    using sleeplock_roundtrip [OF cached_kernel_more(2) [of "()"] _ cached_kernel_more(3) [of "()"]] by blast
qed

theorem sleeplock_contention_never_returns_witness:
  "\<exists>t. sleeplock_acquire kernel_sleep (SL_buf 3)
     (upd_sleep (SL_buf 3) (\<lambda>l. l\<lparr>sl_locked := 1\<rparr>) (cached_kernel ())) = Stop Rescheduled t"
proof -
  let ?s = "upd_sleep (SL_buf 3) (\<lambda>l. l\<lparr>sl_locked := 1\<rparr>) (cached_kernel ())"
  obtain p where p: "current_process ?s = Some p \<and> p < length (proc_table ?s)"
    using cached_kernel_more(3) [of "()"] by (auto simp: on_cpu_def)
  have "spinlock_held (inner (SL_buf 3)) ?s = 0"
    using locks_freeD(6) [OF cached_kernel_more(2) [of "()"], of "SL_buf 3"] by simp
  moreover have "\<not> sleep_free ?s (SL_buf 3)" by (simp add: sleep_free_def)
  ultimately show ?thesis
    using sleeplock_contention_never_returns [of "SL_buf 3" ?s] p by blast
qed

end
