(* ===== verification/Log_Props.thy ===== *)
theory Log_Props
  imports Disk_Props
begin

text \<open>
  The log seen by its callers: the admission of a transaction, the recording of a block, the
  end of a transaction and, for the last one, the commit, with a crash at any point of it.
\<close>

subsection \<open>Critical sections of the log\<close>

lemma upd_log_locks [simp]:
  "set_locked l v (upd_log f s) = upd_log f (set_locked l v s)"
  "intr_on (upd_log f s) = upd_log f (intr_on s)" "intr_off (upd_log f s) = upd_log f (intr_off s)"
  "upd_log g (upd_log f s) = upd_log (\<lambda>l. g (f l)) s"
  "wakeup c (upd_log f s) = upd_log f (wakeup c s)"
  by (simp_all add: upd_log_def set_locked_def intr_on_def intr_off_def wakeup_def)

lemma wakeup_locks [simp]:
  "set_locked l v (wakeup c s) = wakeup c (set_locked l v s)" "intr_on (wakeup c s) = wakeup c (intr_on s)"
  by (simp_all add: set_locked_def intr_on_def wakeup_def)

lemma intr_on_logst [simp]:
  "logst (intr_on s) = logst s" "logst (intr_off s) = logst s" "logst (set_locked l v s) = logst s"
  "logst (wakeup c s) = logst s" "logs.more (intr_on s) = logs.more s" "logs.more (wakeup c s) = logs.more s"
  "logs.more (intr_off s) = logs.more s" "logs.more (set_locked l v s) = logs.more s"
  "logst (upd_buf b g s) = logst s" "logs.more (upd_buf b g s) = logs.more s"
  by (simp_all add: intr_on_def intr_off_def set_locked_def wakeup_def upd_buf_def)

lemma intr_on_block [simp]:
  "block_ok d (intr_on s) = block_ok d s" "unlocked (intr_on s) = unlocked s"
  "view d (intr_on s) = view d s" "refs d (intr_on s) = refs d s" "dirty d (intr_on s) = dirty d s"
  "on_disk (intr_on s) = on_disk s" "holder d (intr_on s) = holder d s" "stuck d (intr_on s) = stuck d s"
proof -
  have b: "bufs (intr_on s) = bufs s" "disk (intr_on s) = disk s" by simp_all
  note c = block_layer_cong [OF b]
  show "view d (intr_on s) = view d s" "refs d (intr_on s) = refs d s" "dirty d (intr_on s) = dirty d s"
    "on_disk (intr_on s) = on_disk s" "holder d (intr_on s) = holder d s" by (rule c)+
  then show "stuck d (intr_on s) = stuck d s" by (simp add: stuck_eq)
  show "unlocked (intr_on s) = unlocked s" by (simp add: unlocked_def sleep_free_def)
  show "block_ok d (intr_on s) = block_ok d s"
    by (simp add: block_ok_def cache_inv_def c(5) sleep_free_def locks_free_def on_cpu_def)
qed

lemma upd_log_more [simp]:
  "unlocked (upd_log f s) = unlocked s" "stuck d (upd_log f s) = stuck d s"
  "calm s (upd_log f s)" "calm s (intr_on s)"
  by (simp_all add: unlocked_def sleep_free_def stuck_eq calmI)

lemma blocks_of_log:
  assumes "log_start (logst t) = log_start (logst s)" "log_dev (logst t) = log_dev (logst s)" "lh (logst t) = lh (logst s)"
  shows "head_block t = head_block s" "log_block t = log_block s" "home_block t = home_block s" "dev_of t = dev_of s"
  using assms by (simp_all add: head_block_def log_block_def home_block_def dev_of_def fun_eq_iff)

subsection \<open>Admission\<close>

definition admits :: "log \<Rightarrow> bool" where
  "admits l \<longleftrightarrow> committing l = 0 \<and> lh_n (lh l) + (outstanding l + 1) * MAXOPBLOCKS \<le> int LOGSIZE"

lemma begin_op_admitted:
  assumes "spinlock_held LK_log s = 0" "admits (logst s)"
  shows "log_begin_op slp s = Ret () (upd_log (outstanding_update (\<lambda>n. n + 1)) (intr_on s))"
proof -
  let ?s1 = "intr_off (set_locked LK_log 1 s)"
  have acq: "spinlock_acquire LK_log s = Ret () ?s1" using assms(1) by (simp add: acquire_eq)
  have "spinlock_release LK_log (upd_log (outstanding_update (\<lambda>n. n + 1)) ?s1) =
      Ret () (upd_log (outstanding_update (\<lambda>n. n + 1)) (intr_on s))"
    using assms(1) by (simp add: spinlock_release_def set_locked_same)
  then show ?thesis
    unfolding log_begin_op_def acq bind_out.simps using assms(2)
    by (intro loop_out_break) (simp add: admits_def)
qed

text \<open>C18: \<open>log_begin_op\<close> admits a transaction exactly when no commit runs and the blocks in the log
  leave room for \<open>MAXOPBLOCKS\<close> of every transaction under way, the new one included; it
  then counts it and changes nothing else but the interrupt flag, whatever \<open>sleep\<close> does.
  A transaction that is not admitted puts the running process to sleep and, with the
  kernel's own \<open>sleep\<close>, the call never returns.\<close>

theorem log_begin_op_admission:
  assumes "spinlock_held LK_log s = 0" "current_process s = Some p" "p < length (proc_table s)"
  shows "if admits (logst s)
    then log_begin_op slp s = Ret () (upd_log (outstanding_update (\<lambda>n. n + 1)) (intr_on s)) \<and>
      lh_n (lh (logst s)) + (outstanding (logst s) + 1) * MAXOPBLOCKS \<le> int LOGSIZE
    else \<exists>t. log_begin_op kernel_sleep s = Stop Rescheduled t \<and> state (proc_at t p) = PROC_SLEEPING \<and>
      logst t = logst s \<and> spinlock_held LK_log t = 0"
proof -
  let ?s1 = "intr_off (set_locked LK_log 1 s)"
  have acq: "spinlock_acquire LK_log s = Ret () ?s1" using assms(1) by (simp add: acquire_eq)
  show ?thesis
  proof (cases "admits (logst s)")
    case True
    have "log_begin_op slp s = Ret () (upd_log (outstanding_update (\<lambda>n. n + 1)) (intr_on s))"
      by (rule begin_op_admitted [OF assms(1) True])
    then show ?thesis using True by (simp add: admits_def)
  next
    case False
    let ?t = "sleep_commit p (intr_on (set_locked LK_log 0 ?s1))"
    have "kernel_sleep CH_log LK_log ?s1 = Stop Rescheduled ?t"
      using assms(2) by (simp add: kernel_sleep_def sleep_def sleep_unlock_def spinlock_release_def)
    then have "log_begin_op kernel_sleep s = Stop Rescheduled ?t"
      unfolding log_begin_op_def acq bind_out.simps using False
      by (intro loop_out_stop) (auto simp: admits_def)
    moreover have "logst ?t = logst s" by (simp add: sleep_commit_def upd_proc_def)
    moreover have "spinlock_held LK_log ?t = 0"
      by (simp add: sleep_commit_def upd_proc_def spinlock_held_def set_locked_def)
    ultimately show ?thesis using False assms by (simp add: sleep_commit_def)
  qed
qed

theorem log_begin_op_admission_witness:
  "log_begin_op kernel_sleep (cached_kernel ()) =
     Ret () (upd_log (outstanding_update (\<lambda>n. n + 1)) (intr_on (cached_kernel ())))"
proof -
  have h: "spinlock_held LK_log (cached_kernel ()) = 0"
    using locks_freeD(2) [OF cached_kernel_more(2) [of "()"]] .
  obtain p where p: "current_process (cached_kernel ()) = Some p" "p < length (proc_table (cached_kernel ()))"
    using cached_kernel_more(3) [of "()"] by (auto simp: on_cpu_def)
  have "admits (logst (cached_kernel ()))"
    by (simp add: cached_kernel_facts admits_def empty_log_def MAXOPBLOCKS_def LOGSIZE_def)
  then show ?thesis using log_begin_op_admission [OF h p, of kernel_sleep] by simp
qed

subsection \<open>Recording a block\<close>

definition logged :: "log \<Rightarrow> int list" where
  "logged l = take (nat (lh_n (lh l))) (lh_block (lh l))"

lemma log_slot_cases:
  assumes "0 \<le> lh_n (lh l)" "lh_n (lh l) \<le> int (length (lh_block (lh l)))"
  shows "(v \<in> set (logged l) \<and> log_slot l v < nat (lh_n (lh l)) \<and> lh_block (lh l) ! log_slot l v = v) \<or>
    (v \<notin> set (logged l) \<and> log_slot l v = nat (lh_n (lh l)))"
proof -
  let ?n = "nat (lh_n (lh l))" and ?p = "\<lambda>i. lh_block (lh l) ! i = v"
  have n: "?n \<le> length (lh_block (lh l))" using assms by simp
  have mem: "v \<in> set (logged l) \<longleftrightarrow> (\<exists>i < ?n. ?p i)"
    using n by (auto simp: logged_def in_set_conv_nth)
  show ?thesis
  proof (cases "scan_from ?p 0 ?n")
    case None
    then have "\<not> (\<exists>i < ?n. ?p i)" using scan_from_None_iff [of ?p 0 ?n] by auto
    then show ?thesis using None mem by (simp add: log_slot_def)
  next
    case (Some i)
    then have "i < ?n \<and> ?p i" using scan_from_SomeD by fastforce
    then show ?thesis using Some mem by (auto simp: log_slot_def)
  qed
qed

text \<open>Where the log is and whether it commits: no call of \<open>log_write\<close> changes it.\<close>

definition log_place :: "log \<Rightarrow> int \<times> int \<times> int \<times> int" where
  "log_place l = (log_start l, log_size l, log_dev l, committing l)"

lemma log_placeD:
  assumes "log_place l = log_place k"
  shows "log_start l = log_start k" "log_size l = log_size k" "log_dev l = log_dev k" "committing l = committing k"
  using assms by (simp_all add: log_place_def)

lemma log_write_cases:
  assumes "locks_free s" "distinct (logged (logst s))" "0 \<le> lh_n (lh (logst s))"
    "length (lh_block (lh (logst s))) = LOGSIZE"
  shows "\<exists>t. log_write b s = Ret () t \<and> calm s t \<and> sleeplk t = sleeplk s \<and> disk t = disk s \<and> vq t = vq s \<and>
    logs.more t = logs.more s \<and>
    (let l = logst s; n = lh_n (lh l); v = int_of_u32 (b_blockno (bufs s b)) in
      if n \<ge> int LOGSIZE \<or> n \<ge> log_size l - 1 \<or> outstanding l < 1 \<or> v \<in> set (logged l)
      then logst t = l \<and> bufs t = bufs s
      else logged (logst t) = logged l @ [v] \<and> distinct (logged (logst t)) \<and> lh_n (lh (logst t)) = n + 1 \<and>
        length (lh_block (lh (logst t))) = LOGSIZE \<and> outstanding (logst t) = outstanding l \<and>
        log_place (logst t) = log_place l \<and> bufs t = (bufs s)(b := b_refcnt_update (\<lambda>r. r + 1) (bufs s b)))"
proof -
  let ?l = "logst s" let ?n = "lh_n (lh ?l)" and ?v = "int_of_u32 (b_blockno (bufs s b))"
  let ?s1 = "intr_off (set_locked LK_log 1 s)"
  have h: "spinlock_held LK_log s = 0" "spinlock_held LK_bcache s = 0" using locks_freeD [OF assms(1)] by simp_all
  have acq: "spinlock_acquire LK_log s = Ret () ?s1" using h by (simp add: acquire_eq)
  have rel: "spinlock_release LK_log (upd_log f ?s1) = Ret () (upd_log f (intr_on s))" for f
    using h by (simp add: spinlock_release_def set_locked_same)
  have rel0: "spinlock_release LK_log ?s1 = Ret () (intr_on s)"
    using h by (simp add: spinlock_release_def set_locked_same)
  consider (no) "?n \<ge> int LOGSIZE \<or> ?n \<ge> log_size ?l - 1 \<or> outstanding ?l < 1"
    | (old) "\<not> (?n \<ge> int LOGSIZE \<or> ?n \<ge> log_size ?l - 1 \<or> outstanding ?l < 1)" "?v \<in> set (logged ?l)"
    | (new) "\<not> (?n \<ge> int LOGSIZE \<or> ?n \<ge> log_size ?l - 1 \<or> outstanding ?l < 1)" "?v \<notin> set (logged ?l)"
    by blast
  then show ?thesis
  proof cases
    case no
    then have "log_write b s = Ret () (intr_on s)" by (auto simp: log_write_def acq rel0 Let_def)
    then show ?thesis using no by (auto simp: Let_def)
  next
    case old
    then have n: "?n \<le> int (length (lh_block (lh ?l)))" using assms(4) by simp
    have i: "log_slot ?l ?v < nat ?n" "lh_block (lh ?l) ! log_slot ?l ?v = ?v"
      using log_slot_cases [OF assms(3) n, of ?v] old(2) by auto
    have eq: "set_lh_block (log_slot ?l ?v) ?v ?s1 = ?s1"
      using list_update_id [of "lh_block (lh ?l)" "log_slot ?l ?v"] i(2)
      by (simp add: set_lh_block_def upd_log_def set_locked_def intr_off_def)
    have "int (log_slot ?l ?v) \<noteq> ?n" using i(1) assms(3) by linarith
    then have "log_write b s = Ret () (intr_on s)"
      using old by (simp add: log_write_def acq rel0 Let_def eq)
    then show ?thesis using old by (auto simp: Let_def)
  next
    case new
    then have n: "?n \<le> int (length (lh_block (lh ?l)))" "nat ?n < LOGSIZE" using assms(3,4) by auto
    have i: "int (log_slot ?l ?v) = ?n" "log_slot ?l ?v = nat ?n"
      using log_slot_cases [OF assms(3) n(1), of ?v] new(2) assms(3) by auto
    let ?f = "\<lambda>l. l\<lparr>lh := (lh l)\<lparr>lh_block := (lh_block (lh l))[nat ?n := ?v]\<rparr>\<rparr>"
    let ?g = "\<lambda>l. (?f l)\<lparr>lh := (lh (?f l))\<lparr>lh_n := ?n + 1\<rparr>\<rparr>"
    let ?t1 = "upd_buf b (b_refcnt_update (\<lambda>r. r + 1)) (upd_log ?f ?s1)"
    have pin: "buf_pin b (upd_log ?f ?s1) = Ret () (intr_on ?t1)"
      using h by (simp add: buf_pin_def acquire_eq spinlock_release_def set_locked_same upd_log_def
          upd_buf_def set_locked_def intr_on_def intr_off_def spinlock_held_def fun_upd_idem_iff)
    let ?t = "set_lh_n (?n + 1) (intr_on (set_locked LK_log 0 ?t1))"
    have "spinlock_release LK_log (set_lh_n (?n + 1) (intr_on ?t1)) = Ret () ?t"
      by (simp add: spinlock_release_def set_lh_n_def)
    then have run: "log_write b s = Ret () ?t"
      using new i pin by (simp add: log_write_def acq Let_def set_lh_block_def)
    have lt: "logst ?t = ?g ?l" by (simp add: set_lh_n_def upd_buf_def)
    have "nat (?n + 1) = Suc (nat ?n)" using assms(3) by simp
    then have lg: "logged (logst ?t) = logged ?l @ [?v]"
      unfolding lt using n(2) assms(4) by (simp add: logged_def take_Suc_conv_app_nth)
    moreover have "calm s ?t"
    proof -
      have "spin ?t = spin s"
        using h by (simp add: set_lh_n_def spinlock_held_def fun_upd_idem_iff set_locked_def)
      then show ?thesis by (intro calmI) (simp_all add: set_lh_n_def)
    qed
    ultimately show ?thesis using run new assms(2,4) by (auto simp: Let_def lt set_lh_n_def log_place_def)
  qed
qed

text \<open>Three transactions under way have reserved 30 blocks, but a log of the size \<open>fs_init\<close> gives it takes 29.\<close>

lemma reserved_block_dropped:
  assumes "locks_free s" "distinct (logged (logst s))" "length (lh_block (lh (logst s))) = LOGSIZE"
    and "lh_n (lh (logst s)) = 29" "outstanding (logst s) = 3" "log_size (logst s) = int LOGSIZE"
  shows "lh_n (lh (logst s)) < outstanding (logst s) * MAXOPBLOCKS \<and>
    (\<exists>t. log_write b s = Ret () t \<and> logst t = logst s \<and> bufs t = bufs s)"
proof -
  have "0 \<le> lh_n (lh (logst s))" using assms(4) by simp
  from log_write_cases [OF assms(1,2) this assms(3), of b] show ?thesis
    using assms(4-6) by (auto simp: Let_def MAXOPBLOCKS_def LOGSIZE_def)
qed

text \<open>\<open>log_write\<close> inside a transaction with room in the log records the block of a buffer once.
  A block that is already in the header is absorbed and nothing changes; a new one is
  appended, the buffer gets one more reference so that it stays in the cache until the
  commit, and the header never lists a block twice. A full log, or a call outside
  every transaction, changes nothing at all.\<close>

theorem log_write_records:
  assumes "locks_free s" "distinct (logged (logst s))" "0 \<le> lh_n (lh (logst s))"
    "length (lh_block (lh (logst s))) = LOGSIZE"
  shows "\<exists>t. log_write b s = Ret () t \<and> calm s t \<and> sleeplk t = sleeplk s \<and> disk t = disk s \<and>
    (let l = logst s; n = lh_n (lh l); v = int_of_u32 (b_blockno (bufs s b)) in
      if n \<ge> int LOGSIZE \<or> n \<ge> log_size l - 1 \<or> outstanding l < 1 \<or> v \<in> set (logged l)
      then logst t = l \<and> bufs t = bufs s
      else logged (logst t) = logged l @ [v] \<and> distinct (logged (logst t)) \<and> lh_n (lh (logst t)) = n + 1 \<and>
        bufs t = (bufs s)(b := b_refcnt_update (\<lambda>r. r + 1) (bufs s b)))"
  using log_write_cases [OF assms, of b] by (auto simp: Let_def split: if_splits)

theorem log_write_records_witness:
  "\<exists>t. log_write 3 (upd_log (outstanding_update (\<lambda>_. 1)) (cached_kernel ())) = Ret () t \<and>
     logged (logst t) = [int_of_u32 (b_blockno (bufs (cached_kernel ()) 3))]"
proof -
  let ?s = "upd_log (outstanding_update (\<lambda>_. 1)) (cached_kernel ())"
  note l = cached_kernel_facts(6) [of "()"]
  have "locks_free ?s" using cached_kernel_more(2) [of "()"] by (simp add: locks_free_def)
  moreover have "logged (logst ?s) = []" by (simp add: l logged_def empty_log_def)
  moreover have "0 \<le> lh_n (lh (logst ?s))" "length (lh_block (lh (logst ?s))) = LOGSIZE"
    by (simp_all add: l empty_log_def)
  ultimately show ?thesis
    using log_write_records [of ?s 3] by (auto simp: l empty_log_def LOGSIZE_def Let_def)
qed


subsection \<open>The end of a transaction\<close>

lemma spinlock_init_block [simp]:
  "bufs (spinlock_init l nm s) = bufs s" "sleeplk (spinlock_init l nm s) = sleeplk s"
  "vq (spinlock_init l nm s) = vq s" "disk (spinlock_init l nm s) = disk s"
  "current_process (spinlock_init l nm s) = current_process s"
  "proc_table (spinlock_init l nm s) = proc_table s" "logst (spinlock_init l nm s) = logst s"
  "spinlock_held k (spinlock_init l nm s) = (if k = l then 0 else spinlock_held k s)"
  by (simp_all add: spinlock_init_def spinlock_held_def)

text \<open>What \<open>buf_cache_init\<close> and \<open>log_init\<close> do after a reboot on a disk left by a crash.\<close>

lemma log_init_recovers:
  assumes z: "zeroed r" "d \<noteq> 0" "length (lh_block (lh (logst r))) = LOGSIZE" and dev: "obeys_virtio D"
    and at: "d = (word_of_int dv :: u32)" "head = word_of_int start" "\<And>k. lb k = word_of_int (start + int k + 1)"
    and tr: "transaction head lb hb h n V0 V" "n < LOGSIZE"
    and W: "disk_old head lb n V0 (on_disk r) \<or> disk_logged head lb hb n V0 V (on_disk r) \<or>
      disk_new head lb hb n V0 V (on_disk r)"
  shows "\<exists>u. log_init (served_sleep D) dv start nblocks (buf_cache_init r) = Ret () u \<and>
    ((\<forall>x. x \<notin> log_area head lb n \<longrightarrow> on_disk u x = V0 x) \<or>
     (\<forall>x. x \<notin> log_area head lb n \<longrightarrow> on_disk u x = (if x \<in> hb ` {..<n} then V x else V0 x)))"
proof -
  let ?r = "buf_cache_init r"
  note c = buf_cache_init_spec [OF z(1,2)]
  have lr: "logst ?r = logst r" using c(7) by (cases r; cases ?r) simp
  let ?s = "upd_log (\<lambda>l. l\<lparr>log_start := start, log_size := nblocks, outstanding := 0,
                     committing := 0, log_dev := dv\<rparr>) (spinlock_init LK_log ''log'' ?r)"
  have ok: "block_ok d ?s" "unlocked ?s"
    using c(1,2)
    by (auto simp: block_ok_def cache_inv_def sleep_free_def locks_free_def on_cpu_def on_disk_def unlocked_def)
  have same: "view d ?s = on_disk r" "refs d ?s = refs d ?r" "dirty d ?s = dirty d ?r" "on_disk ?s = on_disk r"
    using c(4,5) block_layer_cong [of ?s ?r] by simp_all
  have at': "dev_of ?s = d" "head_block ?s = head" "log_block ?s = lb"
    by (simp_all add: dev_of_def head_block_def log_block_def at fun_eq_iff)
  have r0: "refs d ?s x = 0" "\<not> dirty d ?s x" for x using c(3) same(2,3) by (auto simp: stuck_eq)
  then have st: "stuck d ?s = {}" by (auto simp: stuck_eq)
  then have cd: "card (stuck d ?s) < NBUF" by (simp add: NBUF_def)
  have hn: "header_n (on_disk r head) \<le> int LOGSIZE"
    using W tr(2) by (auto simp: disk_old_def disk_logged_def disk_new_def)
  have hl: "length (lh_block (lh (logst ?s))) = LOGSIZE" using z(3) lr by simp
  obtain t where t: "read_head (served_sleep D) ?s = Ret () t" "block_ok d t" "unlocked t"
    "view d t = view d ?s" "refs d t = refs d ?s" "dirty d t = dirty d ?s" "disk t = disk ?s"
    "logst t = (logst ?s)\<lparr>lh := read_header (view d ?s (head_block ?s)) (lh (logst ?s))\<rparr>"
    using read_head_spec [OF ok(1) dev ok(2) at'(1) order_refl finite cd r0(1) _ hl]
    unfolding same(1) at'(2) using hn by blast
  have od: "on_disk t = on_disk r" using t(7) same(4) by (simp add: on_disk_def [abs_def])
  have "rebooted d t"
    unfolding rebooted_def
  proof (intro conjI)
    show "stuck d t = {}" using t(5,6) r0 by (auto simp: stuck_eq)
    show "dev_of t = d" using t(8) at'(1) by (simp add: dev_of_def)
    show "length (lh_block (lh (logst t))) = LOGSIZE"
      using t(8) hl hn unfolding same(1) at'(2) by (simp add: read_header_def)
    show "view d t = on_disk t" using t(4) same(1) od by simp
  qed (fact t)+
  moreover have "head_block t = head" "log_block t = lb"
    using t(8) at'(2,3) by (simp_all add: head_block_def log_block_def fun_eq_iff)
  ultimately obtain u where "recover_from_log (served_sleep D) t = Ret () u"
    "(\<forall>x. x \<notin> log_area head lb n \<longrightarrow> on_disk u x = V0 x) \<or>
     (\<forall>x. x \<notin> log_area head lb n \<longrightarrow> on_disk u x = (if x \<in> hb ` {..<n} then V x else V0 x))"
    using recovered_state [OF _ dev _ _ tr od W] by blast
  then show ?thesis using t(1) by (auto simp: log_init_def LOGSIZE_def BSIZE_def Let_def)
qed

text \<open>A transaction ready to commit: its blocks are pinned, the log area is not in use, and the cache
  has room for the log blocks and the header beside the buffers that cannot be recycled.\<close>

definition ready :: "u32 \<Rightarrow> nat \<Rightarrow> 'a logs_scheme \<Rightarrow> bool" where
  "ready d n s \<longleftrightarrow> block_ok d s \<and> unlocked s \<and> dev_of s = d \<and> 0 < n \<and> n < LOGSIZE \<and>
     transaction (head_block s) (log_block s) (home_block s) (lh (logst s)) n (on_disk s) (view d s) \<and>
     (\<forall>k < n. refs d s (log_block s k) = 0 \<and> refs d s (home_block s k) = 1) \<and>
     refs d s (head_block s) = 0 \<and>
     card (insert (head_block s) (stuck d s \<union> log_block s ` {..<n})) < NBUF"

text \<open>The log as \<open>log_end_op\<close> sees it once the commit is over.\<close>

lemma end_op_commits:
  assumes dev: "obeys_virtio D" and ready: "ready d n s" and last: "outstanding (logst s) = 1"
  shows "\<exists>t. log_end_op (served_sleep D) s = Ret () t \<and> calm s t \<and> block_ok d t \<and> unlocked t \<and>
    disk t = write_all (commit_writes (head_block s) (log_block s) (home_block s) (lh (logst s)) (view d s) n) (disk s) \<and>
    view d t = upd_all (commit_writes (head_block s) (log_block s) (home_block s) (lh (logst s)) (view d s) n) (view d s) \<and>
    logst t = (logst s)\<lparr>outstanding := 0, committing := 0, lh := (lh (logst s))\<lparr>lh_n := 0\<rparr>\<rparr> \<and>
    logs.more t = logs.more s \<and>
    (\<forall>m. dirty d t m \<longrightarrow> dirty d s m \<or> m \<in> insert (head_block s) (log_block s ` {..<n} \<union> home_block s ` {..<n})) \<and>
    (\<forall>j. sleeplk t (SL_inode j) = sleeplk s (SL_inode j)) \<and>
    refs d t = (\<lambda>m. if m \<in> home_block s ` {..<n} then 0 else refs d s m)"
proof -
  have rd: "block_ok d s" "unlocked s" "dev_of s = d" "0 < n" "n < LOGSIZE" "n \<le> LOGSIZE"
    "transaction (head_block s) (log_block s) (home_block s) (lh (logst s)) n (on_disk s) (view d s)"
    "\<And>k. k < n \<Longrightarrow> refs d s (log_block s k) = 0 \<and> refs d s (home_block s k) = 1" "refs d s (head_block s) = 0"
    "card (insert (head_block s) (stuck d s \<union> log_block s ` {..<n})) < NBUF"
    using ready by (simp_all add: ready_def)
  have h: "spinlock_held LK_log s = 0" using rd(1) by (auto simp: block_ok_def dest: locks_freeD)
  let ?s1 = "intr_off (set_locked LK_log 1 s)"
  let ?f = "\<lambda>l. l\<lparr>outstanding := 0, committing := 1\<rparr>"
  let ?s4 = "upd_log ?f (intr_on s)"
  have acq: "spinlock_acquire LK_log s = Ret () ?s1" using h by (simp add: acquire_eq)
  have s3: "upd_log (committing_update (\<lambda>_. 1)) (upd_log (outstanding_update (\<lambda>n. n - 1)) ?s1) = upd_log ?f ?s1"
    using last by (simp add: upd_log_def)
  have rel: "spinlock_release LK_log (upd_log ?f ?s1) = Ret () ?s4"
    using h by (simp add: spinlock_release_def set_locked_same)
  have b4: "head_block ?s4 = head_block s" "log_block ?s4 = log_block s" "home_block ?s4 = home_block s" "dev_of ?s4 = dev_of s"
    by (rule blocks_of_log; simp)+
  have r4: "refs d ?s4 = refs d s" by simp
  note tr = transactionD [OF rd(7)]
  have c: "block_ok d ?s4" "unlocked ?s4" "dev_of ?s4 = d" "lh_n (lh (logst ?s4)) = int n"
    "log_geometry (head_block ?s4) (log_block ?s4) (home_block ?s4) n"
    "\<And>k. k < n \<Longrightarrow> refs d ?s4 (log_block ?s4 k) = 0 \<and> refs d ?s4 (home_block ?s4 k) = 1"
    "refs d ?s4 (head_block ?s4) = 0"
    "card (insert (head_block ?s4) (stuck d ?s4 \<union> log_block ?s4 ` {..<n})) < NBUF"
    using rd tr by (simp_all only: b4) simp_all
  obtain t where t: "commit (served_sleep D) ?s4 = Ret () t" "calm ?s4 t" "block_ok d t" "unlocked t"
    "disk t = write_all (commit_writes (head_block s) (log_block s) (home_block s) (lh (logst s)) (view d s) n) (disk s)"
    "refs d t = (\<lambda>m. if m \<in> home_block s ` {..<n} then 0 else refs d s m)"
    "logst t = (logst ?s4)\<lparr>lh := (lh (logst ?s4))\<lparr>lh_n := 0\<rparr>\<rparr>"
    "view d t = upd_all (commit_writes (head_block s) (log_block s) (home_block s) (lh (logst s)) (view d s) n) (view d s)"
    "logs.more t = logs.more ?s4"
    "\<forall>m. dirty d t m \<longrightarrow> dirty d s m \<or> m \<in> insert (head_block s) (log_block s ` {..<n} \<union> home_block s ` {..<n})"
    "\<forall>j. sleeplk t (SL_inode j) = sleeplk ?s4 (SL_inode j)"
    using commit_spec [OF c(1) dev c(2,3,4) rd(4,6) c(5,6,7) finite c(8)]
    unfolding b4 r4 by (auto simp: r4)
  have ht: "spinlock_held LK_log t = 0" using t(3) by (auto simp: block_ok_def dest: locks_freeD)
  let ?u = "wakeup CH_log (upd_log (committing_update (\<lambda>_. 0)) (intr_on t))"
  have fin: "bind_out (spinlock_acquire LK_log t) (\<lambda>_ s6.
      spinlock_release LK_log (wakeup CH_log (upd_log (committing_update (\<lambda>_. 0)) s6))) = Ret () ?u"
    using ht by (simp add: acquire_eq spinlock_release_def set_locked_same)
  have run: "log_end_op (served_sleep D) s = Ret () ?u"
    using fin last t(1) rel s3 by (simp add: log_end_op_def acq Let_def)
  have cu: "calm t ?u" by (rule calm_wakeup) (rule calmI, simp_all)
  moreover have "calm s t"
    using t(2) calm_trans [of s ?s4 t] calm_trans [of s "intr_on s" ?s4] by simp
  ultimately have "calm s ?u" using calm_trans by blast
  moreover have bl: "bufs ?u = bufs t" "disk ?u = disk t" "sleeplk ?u = sleeplk t" "vq ?u = vq t" by simp_all
  moreover have "block_ok d ?u"
  proof -
    have "cache_inv d ?u"
      using t(3) bl block_layer_cong(5) [OF bl(1,2)] by (simp add: block_ok_def cache_inv_def sleep_free_def)
    then show ?thesis using block_ok_calm [OF cu t(3)] by blast
  qed
  moreover have "unlocked ?u" using t(4) by (simp add: unlocked_def sleep_free_def)
  moreover note block_layer_cong [OF bl(1,2)]
  ultimately show ?thesis using run t(5-11) by (intro exI [of _ ?u]) simp
qed


text \<open>A machine that stops during the writes of a commit, and boots again.\<close>

lemma end_op_crash:
  assumes "obeys_virtio D" "ready d n s" "d \<noteq> 0" and r: "zeroed r" "length (lh_block (lh (logst r))) = LOGSIZE"
    "sectors (disk r) = sectors (write_all (take j
       (commit_writes (head_block s) (log_block s) (home_block s) (lh (logst s)) (view d s) n)) (disk s))"
  shows "\<exists>u. log_init (served_sleep D) (log_dev (logst s)) (log_start (logst s)) nblocks (buf_cache_init r) = Ret () u \<and>
    ((\<forall>x. x \<notin> log_area (head_block s) (log_block s) n \<longrightarrow> on_disk u x = on_disk s x) \<or>
     (\<forall>x. x \<notin> log_area (head_block s) (log_block s) n \<longrightarrow>
        on_disk u x = (if x \<in> home_block s ` {..<n} then view d s x else on_disk s x)))"
proof -
  let ?hd = "head_block s" and ?lb = "log_block s" and ?hb = "home_block s" and ?V = "view d s" and ?O = "on_disk s"
  let ?ws = "commit_writes ?hd ?lb ?hb (lh (logst s)) ?V n"
  have tr: "transaction ?hd ?lb ?hb (lh (logst s)) n ?O ?V" "n < LOGSIZE" "dev_of s = d"
    using assms(2) by (simp_all add: ready_def)
  have "on_disk r = upd_all (take j ?ws) ?O"
    using r(3) sectors_write_all [of "take j ?ws" "disk s"] by (simp add: on_disk_def [abs_def])
  moreover have "take j ?ws = take (min j (length ?ws)) ?ws" by (simp add: min_def)
  ultimately have W: "disk_old ?hd ?lb n ?O (on_disk r) \<or> disk_logged ?hd ?lb ?hb n ?O ?V (on_disk r) \<or>
      disk_new ?hd ?lb ?hb n ?O ?V (on_disk r)"
    using crash_states [OF tr(1), of "min j (length ?ws)"] by simp
  have at: "d = word_of_int (log_dev (logst s))" "?hd = word_of_int (log_start (logst s))"
    "\<And>k. ?lb k = word_of_int (log_start (logst s) + int k + 1)"
    using tr(3) by (simp_all add: dev_of_def head_block_def log_block_def)
  show ?thesis by (rule log_init_recovers [OF r(1) assms(3) r(2) assms(1) at tr(1,2) W])
qed

text \<open>C19: a transaction is atomic with respect to crashes. The last \<open>log_end_op\<close> of a transaction commits:
  it returns with every logged block at its place on the disk, no block pinned and the log
  empty. It does so by a sequence of sector writes such that, if the machine stops after any
  number of them, rebooting on that disk - \<open>buf_cache_init\<close> and \<open>log_init\<close> on zeroed
  static data - returns with the disk outside the log area either as it was before
  the transaction or with all the blocks of the transaction new.\<close>

theorem log_commit_crash_safe:
  assumes "obeys_virtio D" "ready d n s" "outstanding (logst s) = 1" "d \<noteq> 0"
  shows "\<exists>t ws. log_end_op (served_sleep D) s = Ret () t \<and> disk t = write_all ws (disk s) \<and>
    lh_n (lh (logst t)) = 0 \<and> outstanding (logst t) = 0 \<and> committing (logst t) = 0 \<and>
    (\<forall>k < n. on_disk t (home_block s k) = view d s (home_block s k) \<and> refs d t (home_block s k) = 0) \<and>
    (\<forall>j r. zeroed r \<and> length (lh_block (lh (logst r))) = LOGSIZE \<and>
        sectors (disk r) = sectors (write_all (take j ws) (disk s)) \<longrightarrow>
      (\<exists>u. log_init (served_sleep D) (log_dev (logst s)) (log_start (logst s)) nblocks (buf_cache_init r) = Ret () u \<and>
        ((\<forall>x. x \<notin> log_area (head_block s) (log_block s) n \<longrightarrow> on_disk u x = on_disk s x) \<or>
         (\<forall>x. x \<notin> log_area (head_block s) (log_block s) n \<longrightarrow>
            on_disk u x = (if x \<in> home_block s ` {..<n} then view d s x else on_disk s x)))))"
proof -
  let ?hd = "head_block s" and ?lb = "log_block s" and ?hb = "home_block s" and ?V = "view d s" and ?O = "on_disk s"
  let ?ws = "commit_writes ?hd ?lb ?hb (lh (logst s)) ?V n"
  have tr: "transaction ?hd ?lb ?hb (lh (logst s)) n ?O ?V" "n < LOGSIZE" "dev_of s = d"
    using assms(2) by (simp_all add: ready_def)
  obtain t where t: "log_end_op (served_sleep D) s = Ret () t" "disk t = write_all ?ws (disk s)"
    "outstanding (logst t) = 0" "committing (logst t) = 0" "lh_n (lh (logst t)) = 0"
    "refs d t = (\<lambda>m. if m \<in> ?hb ` {..<n} then 0 else refs d s m)"
    using end_op_commits [OF assms(1-3)] by force
  have "disk_new ?hd ?lb ?hb n ?O ?V (on_disk t)"
    unfolding on_disk_write_all [OF t(2)] by (rule crash_at_end [OF tr(1)])
  moreover have "?hb k \<notin> log_area ?hd ?lb n" if "k < n" for k
    using transactionD(1) [OF tr(1)] that by (auto simp: log_geometry_def log_area_def) (metis)
  ultimately have homes: "\<forall>k < n. on_disk t (?hb k) = ?V (?hb k) \<and> refs d t (?hb k) = 0"
    using t(6) by (auto simp: disk_new_def)
  then show ?thesis
    using t(1-5) homes end_op_crash [OF assms(1,2,4)] by (intro exI [of _ t] exI [of _ ?ws]) blast
qed

text \<open>A transaction that changes block 40, ready to commit.\<close>

lemma ready_example:
  "\<exists>s :: logs. ready 1 1 s \<and> outstanding (logst s) = 1 \<and> log_dev (logst s) = 1 \<and> log_start (logst s) = 2 \<and>
     view 1 s 40 = replicate BSIZE 7"
proof -
  let ?k = "cached_kernel ()" and ?x = "replicate BSIZE 7 :: u8 list"
  note c = cached_kernel_facts [of "()"]
  have inv: "cache_inv 1 ?k" using c(1) by (simp add: block_ok_def)
  have r0: "refs 1 ?k n = 0" "\<not> dirty 1 ?k n" for n using c(3) by (auto simp: stuck_eq)
  have cd: "card (stuck 1 ?k) < NBUF" by (simp add: c(3) NBUF_def)
  obtain t b where t: "only_buf b ?k t" "block_ok 1 t" "owned_buf 1 t 40 b" "view 1 t = view 1 ?k"
    "refs 1 t = (refs 1 ?k)(40 := refs 1 ?k 40 + 1)" "dirty 1 t = dirty 1 ?k" "disk t = disk ?k"
    using read_spec [OF c(1) virtio_blk_obeys unlockedD [OF c(2) inv, of 40] order_refl finite cd] r0(1) [of 40]
    by force
  let ?u = "upd_buf b (b_data_update (\<lambda>_. ?x)) t"
  have u: "block_ok 1 ?u" "only_buf b t ?u" "owned_buf 1 ?u 40 b" "view 1 ?u = (view 1 t)(40 := ?x)"
    "refs 1 ?u = refs 1 t" "dirty 1 ?u = dirty 1 t" "disk ?u = disk t"
    using set_data_spec [OF t(2,3), of ?x] by simp_all
  have "refs 1 ?u 40 + 1 \<noteq> 0" using u(5) t(5) r0 by simp
  from buf_pin_spec [OF u(1,3) this] obtain v where v: "only_buf b ?u v" "block_ok 1 v" "owned_buf 1 v 40 b"
    "view 1 v = view 1 ?u" "refs 1 v = (refs 1 ?u)(40 := refs 1 ?u 40 + 1)" "dirty 1 v = dirty 1 ?u" "disk v = disk ?u"
    by blast
  have r2: "refs 1 v = (\<lambda>_. 0)(40 := 2)" using v(5) u(5) t(5) r0 by (auto simp: fun_eq_iff)
  then have "refs 1 v 40 = 1 \<Longrightarrow> view 1 v 40 = on_disk v 40" by simp
  from block_release_spec [OF v(2,3) this]
  obtain y where y: "only_buf b v y" "block_ok 1 y" "sleep_free y (SL_buf b)" "view 1 y = view 1 v"
    "refs 1 y = (refs 1 v)(40 := refs 1 v 40 - 1)" "dirty 1 y = dirty 1 v" "disk y = disk v" by blast
  have ob: "only_buf b ?k y" using only_buf_trans [OF only_buf_trans [OF only_buf_trans [OF t(1) u(2)] v(1)] y(1)] .
  have ly: "logst y = empty_log" using only_buf_logst [OF ob] c(6) by simp
  have ul: "unlocked y" using c(2) ob y(3) by (auto simp: unlocked_def only_buf_def sleep_free_def)
  let ?s = "upd_log (\<lambda>l. l\<lparr>outstanding := 1, lh := \<lparr>lh_n = 1, lh_block = (replicate LOGSIZE 0)[0 := 40]\<rparr>\<rparr>) y"
  have r1: "refs 1 ?s = (\<lambda>_. 0)(40 := 1)" using y(5) r2 by (auto simp: fun_eq_iff)
  have at: "head_block ?s = 2" "log_block ?s 0 = 3" "home_block ?s 0 = 40" "dev_of ?s = 1"
    by (simp_all add: head_block_def log_block_def home_block_def dev_of_def ly empty_log_def LOGSIZE_def)
  have od: "on_disk y = on_disk ?k"
    using y(7) v(7) u(7) t(7) by (simp add: on_disk_def [abs_def])
  have "view 1 ?s = (view 1 ?k)(40 := ?x)" using y(4) v(4) u(4) t(4) by simp
  moreover have len: "length (view 1 ?k 2) = BSIZE" using view_length [OF inv] .
  moreover have "header_n (on_disk ?k 2) = 0"
    using c(5) [of 2] by (simp add: header_n_def example_sector_def get32_def BSIZE_def)
  ultimately have tr: "transaction (head_block ?s) (log_block ?s) (home_block ?s) (lh (logst ?s)) 1 (on_disk ?s) (view 1 ?s)"
    using at by (simp add: transaction_def log_geometry_def od LOGSIZE_def inj_on_def) (simp add: home_block_def)
  have "stuck 1 ?s \<subseteq> {40}" using r1 y(6) v(6) u(6) t(6) r0(2) by (auto simp: stuck_eq split: if_splits)
  then have sub: "insert (head_block ?s) (stuck 1 ?s \<union> log_block ?s ` {..<1}) \<subseteq> {2, 3, 40}" using at by auto
  have "card (insert (head_block ?s) (stuck 1 ?s \<union> log_block ?s ` {..<1})) \<le> card {2, 3, 40 :: u32}"
    by (rule card_mono [OF _ sub]) simp
  then have "card (insert (head_block ?s) (stuck 1 ?s \<union> log_block ?s ` {..<1})) < NBUF"
    by (simp add: NBUF_def)
  then have "ready 1 1 ?s" using y(2) ul at r1 tr by (simp add: ready_def LOGSIZE_def)
  moreover have "view 1 ?s 40 = ?x" using y(4) v(4) u(4) by simp
  ultimately show ?thesis by (intro exI [of _ ?s]) (simp add: ly empty_log_def)
qed

theorem log_commit_crash_safe_witness:
  "\<exists>s t :: logs. ready 1 1 s \<and> log_end_op (served_sleep virtio_blk) s = Ret () t \<and> lh_n (lh (logst t)) = 0"
proof -
  obtain s :: logs where s: "ready 1 1 s" "outstanding (logst s) = 1" using ready_example by blast
  then show ?thesis
    using log_commit_crash_safe [OF virtio_blk_obeys s(1,2), of 30] by (metis one_neq_zero)
qed

end
