(* ===== verification/CString.thy ===== *)
theory CString
  imports Prelude
begin

text \<open>
  \<open>kernel/string.c\<close>: the memory functions, on a memory of bytes by 64-bit address. Address
  arithmetic wraps around; \<open>a - d < n\<close> says that \<open>a\<close> is in the \<open>n\<close> bytes from \<open>d\<close>.
\<close>

type_synonym memory = "u64 \<Rightarrow> u8"

definition move_byte :: "u64 \<Rightarrow> u64 \<Rightarrow> nat \<Rightarrow> memory \<Rightarrow> memory" where
  "move_byte d s i m = m(d + of_nat i := m (s + of_nat i))"

definition memcpy :: "u64 \<Rightarrow> u64 \<Rightarrow> u64 \<Rightarrow> memory \<Rightarrow> memory" where
  "memcpy d s n m = fold (move_byte d s) [0..<unat n] m"

definition memset :: "u64 \<Rightarrow> int \<Rightarrow> u64 \<Rightarrow> memory \<Rightarrow> memory" where
  "memset s c n m = fold (\<lambda>i m. m(s + of_nat i := word_of_int c)) [0..<unat n] m"

definition memmove :: "u64 \<Rightarrow> u64 \<Rightarrow> u64 \<Rightarrow> memory \<Rightarrow> memory" where
  "memmove d s n m =
     (if d < s then fold (move_byte d s) [0..<unat n] m
      else fold (move_byte d s) (rev [0..<unat n]) m)"

definition memcmp :: "u64 \<Rightarrow> u64 \<Rightarrow> u64 \<Rightarrow> memory \<Rightarrow> int" where
  "memcmp p1 p2 n m =
     (case scan_from (\<lambda>i. m (p1 + of_nat i) \<noteq> m (p2 + of_nat i)) 0 (unat n) of
        Some i \<Rightarrow> if m (p1 + of_nat i) < m (p2 + of_nat i) then - 1 else 1
      | None \<Rightarrow> 0)"

subsection \<open>Reference definitions\<close>

text \<open>All bytes at once.\<close>

definition moved :: "u64 \<Rightarrow> u64 \<Rightarrow> nat \<Rightarrow> memory \<Rightarrow> memory" where
  "moved d s n m = (\<lambda>a. if unat (a - d) < n then m (s + (a - d)) else m a)"

definition mem_bytes :: "u64 \<Rightarrow> nat \<Rightarrow> memory \<Rightarrow> u8 list" where
  "mem_bytes a n m = map (\<lambda>i. m (a + of_nat i)) [0..<n]"

lemma u64_nat: "unat (n :: u64) < 2 ^ 64" "of_nat (unat n) = n"
  using unsigned_less [where 'a = nat, of n] by simp_all

lemma offset_eq: "n < 2 ^ 64 \<Longrightarrow> unat (a - d) = n \<longleftrightarrow> a = d + of_nat n" for a d :: u64
  by (auto simp: unat_of_nat take_bit_nat_eq_self)

lemma offset_Suc:
  fixes a d :: u64
  assumes "n < 2 ^ 64"
  shows "unat (a - d) < Suc n \<longleftrightarrow> unat (a - d) < n \<or> a = d + of_nat n"
  using offset_eq [OF assms, of a d] by (auto simp: less_Suc_eq)

lemma copy_forward:
  assumes "n \<le> 2 ^ 64" "\<And>i j. i < j \<Longrightarrow> j < n \<Longrightarrow> d + of_nat i \<noteq> s + of_nat j"
  shows "fold (move_byte d s) [0..<n] m = moved d s n m"
  using assms
proof (induction n)
  case (Suc n)
  have ih: "fold (move_byte d s) [0..<n] m = moved d s n m" using Suc.prems by (intro Suc.IH) auto
  have "\<not> unat (s + of_nat n - d) < n"
  proof
    let ?i = "unat (s + of_nat n - d)"
    assume "?i < n"
    moreover have "d + of_nat ?i = s + of_nat n" by simp
    ultimately show False using Suc.prems(2) [of ?i n] by simp
  qed
  moreover have "fold (move_byte d s) [0..<Suc n] m = move_byte d s n (moved d s n m)" using ih by simp
  ultimately show ?case unfolding \<open>fold _ [0..<Suc n] m = _\<close>
    using offset_Suc [of n _ d] Suc.prems(1) by (auto simp: move_byte_def moved_def fun_eq_iff)
qed (simp add: moved_def)

lemma copy_backward:
  assumes "n \<le> 2 ^ 64" "\<And>i j. i < j \<Longrightarrow> j < n \<Longrightarrow> d + of_nat j \<noteq> s + of_nat i"
  shows "fold (move_byte d s) (rev [0..<n]) m = moved d s n m"
  using assms
proof (induction n arbitrary: m)
  case (Suc n)
  have ih: "fold (move_byte d s) (rev [0..<n]) m' = moved d s n m'" for m'
    using Suc.prems by (intro Suc.IH) auto
  have "s + (a - d) \<noteq> d + of_nat n" if "unat (a - d) < n" for a
    using Suc.prems(2) [OF that] by (metis lessI u64_nat(2))
  moreover have "fold (move_byte d s) (rev [0..<Suc n]) m = moved d s n (move_byte d s n m)" using ih by simp
  ultimately show ?case unfolding \<open>fold _ (rev [0..<Suc n]) m = _\<close>
    using offset_Suc [of n _ d] Suc.prems(1) by (auto simp: move_byte_def moved_def fun_eq_iff)
qed (simp add: moved_def)

text \<open>Neither block wraps around the end of the address space.\<close>

definition no_wrap :: "u64 \<Rightarrow> u64 \<Rightarrow> bool" where
  "no_wrap a n \<longleftrightarrow> unat a + unat n \<le> 2 ^ 64"

lemma unat_plus_offset: "no_wrap a n \<Longrightarrow> i < unat n \<Longrightarrow> unat (a + of_nat i) = unat a + i" for a n :: u64
  using u64_nat(1) [of n] by (simp add: no_wrap_def unat_word_ariths unat_of_nat take_bit_nat_eq_self)

text \<open>C28: \<open>memmove\<close> copies a block correctly however source and destination overlap: afterwards every
  byte of the destination is what the source held before the call, and no other byte
  of memory has changed. \<open>memcpy\<close> computes the same function as \<open>memmove\<close> when the destination
  is not inside the source block behind its start, in particular when the blocks are disjoint.\<close>

theorem memmove_correct:
  assumes "no_wrap d n" "no_wrap s n"
  shows "memmove d s n m = moved d s (unat n) m \<and>
    (\<not> (s < d \<and> d - s < n) \<longrightarrow> memcpy d s n m = memmove d s n m)"
proof -
  have le: "unat n \<le> 2 ^ 64" using u64_nat(1) [of n] by simp
  have forward: "fold (move_byte d s) [0..<unat n] m = moved d s (unat n) m" if "\<not> (s < d \<and> d - s < n)"
  proof (rule copy_forward [OF le])
    fix i j assume ij: "i < j" "j < unat n"
    show "d + of_nat i \<noteq> s + of_nat j"
    proof
      assume "d + of_nat i = s + of_nat j"
      then have e: "unat d + i = unat s + j"
        using ij assms unat_plus_offset [of d n i] unat_plus_offset [of s n j] by simp
      then have "s < d" using ij by (simp add: word_less_nat_alt)
      moreover from this have "unat (d - s) = unat d - unat s" by (simp add: unat_sub less_imp_le)
      ultimately show False using e ij that by (auto simp: word_less_nat_alt)
    qed
  qed
  moreover have "fold (move_byte d s) (rev [0..<unat n]) m = moved d s (unat n) m" if "\<not> d < s"
  proof (rule copy_backward [OF le])
    fix i j assume ij: "i < j" "j < unat n"
    then show "d + of_nat j \<noteq> s + of_nat i"
      using that assms unat_plus_offset [of d n j] unat_plus_offset [of s n i]
      by (auto simp: word_less_nat_alt dest!: arg_cong [where f = unat])
  qed
  ultimately show ?thesis
    unfolding memmove_def memcpy_def by (cases "d < s") (auto simp: less_not_sym)
qed

text \<open>The condition is needed: copying three bytes one place up with \<open>memcpy\<close> repeats the first.\<close>

definition abc_at_16 :: memory where
  "abc_at_16 = (\<lambda>_. 0)(16 := 1, 17 := 2, 18 := 3)"

theorem memmove_correct_witness:
  "mem_bytes 17 3 (memmove 17 16 3 abc_at_16) = [1, 2, 3] \<and>
   mem_bytes 17 3 (memcpy 17 16 3 abc_at_16) = [1, 1, 1]"
proof -
  have "memmove 17 16 3 abc_at_16 = moved 17 16 3 abc_at_16"
    using memmove_correct [of 17 3 16 abc_at_16] by (simp add: no_wrap_def)
  then show ?thesis
    by (simp add: mem_bytes_def moved_def abc_at_16_def memcpy_def move_byte_def upt_conv_Cons)
qed

subsection \<open>memset and memcmp\<close>

lemma store_loop:
  fixes s :: u64
  assumes "k \<le> 2 ^ 64"
  shows "fold (\<lambda>i m. m(s + of_nat i := g i)) [0..<k] m =
    (\<lambda>a. if unat (a - s) < k then g (unat (a - s)) else m a)"
  using assms
proof (induction k)
  case (Suc k)
  then show ?case using offset_Suc [of k _ s] by (auto simp: fun_eq_iff unat_of_nat take_bit_nat_eq_self)
qed simp

lemma memset_eq:
  "memset s c n m = (\<lambda>a. if unat (a - s) < unat n then word_of_int c else m a)"
  using store_loop [of "unat n" s "\<lambda>_. word_of_int c" m] u64_nat(1) [of n] by (simp add: memset_def)

text \<open>A block behind another one.\<close>

lemma shift_offset:
  fixes a d :: u64
  assumes "k + n \<le> 2 ^ 64"
  shows "unat (a - (d + of_nat k)) < n \<longleftrightarrow> k \<le> unat (a - d) \<and> unat (a - d) < k + n"
    "k \<le> unat (a - d) \<Longrightarrow> unat (a - (d + of_nat k)) = unat (a - d) - k"
proof -
  let ?x = "unat (a - d)" and ?y = "unat (a - (d + of_nat k))"
  have x: "?x < 2 ^ 64" "?y < 2 ^ 64" using u64_nat(1) by blast+
  show 1: "?y = ?x - k" if "k \<le> ?x"
  proof -
    have "a - (d + of_nat k) = of_nat (?x - k)"
      using that by (simp add: of_nat_diff u64_nat(2) del: of_nat_unat)
    then show ?thesis using x(1) by (simp add: unat_of_nat take_bit_nat_eq_self)
  qed
  have "?x = k + ?y" if "?y < n"
  proof -
    have "a = d + of_nat (k + ?y)" by (simp add: u64_nat(2) del: of_nat_unat)
    moreover have "k + ?y < 2 ^ 64" using that assms by simp
    ultimately show ?thesis using offset_eq [of "k + ?y" a d] by blast
  qed
  then show "?y < n \<longleftrightarrow> k \<le> ?x \<and> ?x < k + n" using 1 by auto
qed

text \<open>\<open>memcmp\<close> decides the order of two blocks: it returns 0 exactly when their bytes agree, and
  otherwise -1 or 1 by the first byte in which they differ. A block that \<open>memcpy\<close> or
  \<open>memset\<close> filled compares as expected, and swapping the blocks changes the sign.\<close>

theorem memcmp_correct:
  "(memcmp p q n m = 0 \<longleftrightarrow> mem_bytes p (unat n) m = mem_bytes q (unat n) m) \<and>
   (memcmp p q n m = - 1 \<longleftrightarrow> (\<exists>i < unat n. m (p + of_nat i) < m (q + of_nat i) \<and>
      (\<forall>j < i. m (p + of_nat j) = m (q + of_nat j)))) \<and>
   memcmp q p n m = - memcmp p q n m"
proof -
  let ?ne = "\<lambda>i. m (p + of_nat i) \<noteq> m (q + of_nat i)"
  have sym: "(\<lambda>i. m (q + of_nat i) \<noteq> m (p + of_nat i)) = ?ne" by auto
  show ?thesis
  proof (cases "scan_from ?ne 0 (unat n)")
    case None
    then have "\<forall>i < unat n. \<not> ?ne i" by (simp add: scan_from_None_iff)
    then show ?thesis using None by (auto simp: memcmp_def sym mem_bytes_def)
  next
    case (Some i)
    then have i: "i < unat n" "?ne i" "\<forall>j < i. \<not> ?ne j" using scan_from_SomeD by fastforce+
    then have "mem_bytes p (unat n) m \<noteq> mem_bytes q (unat n) m"
      by (auto simp: mem_bytes_def)
    moreover have "(\<exists>k < unat n. m (p + of_nat k) < m (q + of_nat k) \<and> (\<forall>j < k. \<not> ?ne j)) \<longleftrightarrow>
        m (p + of_nat i) < m (q + of_nat i)"
    proof
      assume "\<exists>k < unat n. m (p + of_nat k) < m (q + of_nat k) \<and> (\<forall>j < k. \<not> ?ne j)"
      then obtain k where k: "m (p + of_nat k) < m (q + of_nat k)" "\<forall>j < k. \<not> ?ne j" by blast
      then have "k = i" using i by (metis linorder_neqE_nat order_less_irrefl)
      then show "m (p + of_nat i) < m (q + of_nat i)" using k by simp
    qed (use i in blast)
    ultimately show ?thesis using Some i(2) by (auto simp: memcmp_def sym)
  qed
qed

end
