(* ===== verification/Inode.thy ===== *)
theory Inode
  imports Log_Props CString
begin

text \<open>
  \<open>kernel/fs/inode.c\<close>: the cache of inodes and the files behind them. A \<open>struct inode *\<close> is
  an index into \<open>icache.inode\<close>, \<open>None\<close> is NULL. A \<open>short\<close> is kept as its 16 bits. The
  caller's buffer is in \<open>mem\<close>. Messages on the console are not part of the state.
\<close>

definition NINODE :: nat where "NINODE = 50"
definition NDIRECT :: nat where "NDIRECT = 12"
definition NINDIRECT :: nat where "NINDIRECT = BSIZE div 4"
definition MAXFILE :: nat where "MAXFILE = NDIRECT + NINDIRECT"

record inode =
  i_dev :: u32
  i_inum :: u32
  i_ref :: int
  i_valid :: int
  i_type :: u16
  i_major :: u16
  i_minor :: u16
  i_nlink :: u16
  i_size :: u32
  i_addrs :: "u32 list"

record superblock =
  sb_magic :: u32
  sb_size :: u32
  sb_nblocks :: u32
  sb_ninodes :: u32
  sb_nlog :: u32
  sb_logstart :: u32
  sb_inodestart :: u32
  sb_bmapstart :: u32

record fsys = logs +
  icache :: "nat \<Rightarrow> inode"
  sb :: superblock
  mem :: memory

definition upd_inode :: "nat \<Rightarrow> (inode \<Rightarrow> inode) \<Rightarrow> 'a fsys_scheme \<Rightarrow> 'a fsys_scheme" where
  "upd_inode i f s = s\<lparr>icache := (icache s)(i := f (icache s i))\<rparr>"

definition upd_mem :: "(memory \<Rightarrow> memory) \<Rightarrow> 'a fsys_scheme \<Rightarrow> 'a fsys_scheme" where
  "upd_mem f s = s\<lparr>mem := f (mem s)\<rparr>"

subsection \<open>Inodes on the disk\<close>

text \<open>\<open>struct dinode\<close> has 64 bytes, 8 of them are in a block.\<close>

definition IPB :: u32 where "IPB = 8"

definition IBLOCK :: "u32 \<Rightarrow> superblock \<Rightarrow> u32" where
  "IBLOCK inum b = inum div IPB + sb_inodestart b"

definition dinode_at :: "u32 \<Rightarrow> nat" where
  "dinode_at inum = 64 * unat (inum mod IPB)"

definition get_dinode :: "u8 list \<Rightarrow> nat \<Rightarrow> inode \<Rightarrow> inode" where
  "get_dinode x k ip =
     ip\<lparr>i_type := get16 x k, i_major := get16 x (k + 2), i_minor := get16 x (k + 4),
        i_nlink := get16 x (k + 6), i_size := get32 x (k + 8),
        i_addrs := map (\<lambda>i. get32 x (k + 12 + 4 * i)) [0..<NDIRECT + 1]\<rparr>"

definition put_dinode :: "inode \<Rightarrow> nat \<Rightarrow> u8 list \<Rightarrow> u8 list" where
  "put_dinode ip k x =
     fold (\<lambda>i x. put32 x (k + 12 + 4 * i) (i_addrs ip ! i)) [0..<NDIRECT + 1]
       (put32 (put16 (put16 (put16 (put16 x k (i_type ip)) (k + 2) (i_major ip)) (k + 4) (i_minor ip))
          (k + 6) (i_nlink ip)) (k + 8) (i_size ip))"

definition zero_dinode :: "nat \<Rightarrow> u8 list \<Rightarrow> u8 list" where
  "zero_dinode k x = fold (\<lambda>i x. x[k + i := 0]) [0..<64] x"

definition get_superblock :: "u8 list \<Rightarrow> superblock" where
  "get_superblock x =
     \<lparr>sb_magic = get32 x 0, sb_size = get32 x 4, sb_nblocks = get32 x 8, sb_ninodes = get32 x 12,
      sb_nlog = get32 x 16, sb_logstart = get32 x 20, sb_inodestart = get32 x 24, sb_bmapstart = get32 x 28\<rparr>"

subsection \<open>The cache\<close>

definition inode_init :: "'a fsys_scheme sleeper \<Rightarrow> int \<Rightarrow> 'a fsys_scheme \<Rightarrow> (unit, 'a fsys_scheme) outcome" where
  "inode_init slp dev s =
     (let s1 = fold (\<lambda>i. sleeplock_init (SL_inode i) ''inode'') [0..<NINODE] (spinlock_init LK_icache ''icache'' s)
      in bind_out (block_read slp (word_of_int dev) 1 s1) (\<lambda>r s2.
         case r of
           None \<Rightarrow> Ret () s2
         | Some b \<Rightarrow> block_release b (s2\<lparr>sb := get_superblock (b_data (bufs s2 b))\<rparr>)))"

definition inode_get :: "u32 \<Rightarrow> u32 \<Rightarrow> 'a fsys_scheme \<Rightarrow> (nat option, 'a fsys_scheme) outcome" where
  "inode_get dev inum s =
     bind_out (spinlock_acquire LK_icache s) (\<lambda>_ s1.
     case scan_from (\<lambda>i. i_ref (icache s1 i) > 0 \<and> i_dev (icache s1 i) = dev \<and> i_inum (icache s1 i) = inum) 0 NINODE of
       Some i \<Rightarrow>
         bind_out (spinlock_release LK_icache (upd_inode i (i_ref_update (\<lambda>r. r + 1)) s1)) (\<lambda>_ s2. Ret (Some i) s2)
     | None \<Rightarrow>
         (case scan_from (\<lambda>i. i_ref (icache s1 i) = 0) 0 NINODE of
            None \<Rightarrow> bind_out (spinlock_release LK_icache s1) (\<lambda>_ s2. Ret None s2)
          | Some i \<Rightarrow>
              bind_out (spinlock_release LK_icache
                  (upd_inode i (\<lambda>p. p\<lparr>i_dev := dev, i_inum := inum, i_ref := 1, i_valid := 0\<rparr>) s1))
                (\<lambda>_ s2. Ret (Some i) s2)))"

definition inode_dup :: "nat \<Rightarrow> 'a fsys_scheme \<Rightarrow> (nat, 'a fsys_scheme) outcome" where
  "inode_dup ip s =
     bind_out (spinlock_acquire LK_icache s) (\<lambda>_ s1.
     bind_out (spinlock_release LK_icache (upd_inode ip (i_ref_update (\<lambda>r. r + 1)) s1)) (\<lambda>_ s2. Ret ip s2))"

definition inode_alloc :: "'a fsys_scheme sleeper \<Rightarrow> u32 \<Rightarrow> u16 \<Rightarrow> 'a fsys_scheme \<Rightarrow>
    (nat option, 'a fsys_scheme) outcome" where
  "inode_alloc slp dev type s =
     loop_out (\<lambda>inum s.
       if \<not> inum < sb_ninodes (sb s) then Ret (Inr None) s
       else
         bind_out (block_read slp dev (IBLOCK inum (sb s)) s) (\<lambda>r s1.
         case r of
           None \<Rightarrow> Ret (Inr None) s1
         | Some b \<Rightarrow>
             let k = dinode_at inum in
             if get16 (b_data (bufs s1 b)) k = 0 then
               let s2 = upd_buf b (b_data_update (\<lambda>x. put16 (zero_dinode k x) k type)) s1
               in bind_out (log_write b s2) (\<lambda>_ s3.
                  bind_out (block_release b s3) (\<lambda>_ s4.
                  bind_out (inode_get dev inum s4) (\<lambda>r s5. Ret (Inr r) s5)))
             else bind_out (block_release b s1) (\<lambda>_ s2. Ret (Inl (inum + 1)) s2))) 1 s"

text \<open>Reading the fields of an inode from its block, then giving the block back.\<close>

definition load_inode :: "nat \<Rightarrow> nat \<Rightarrow> 'a fsys_scheme \<Rightarrow> (unit, 'a fsys_scheme) outcome" where
  "load_inode ip b s =
     bind_out (block_release b
        (upd_inode ip (get_dinode (b_data (bufs s b)) (dinode_at (i_inum (icache s ip)))) s))
       (\<lambda>_ s1. Ret () (upd_inode ip (i_valid_update (\<lambda>_. 1)) s1))"

definition inode_lock :: "'a fsys_scheme sleeper \<Rightarrow> nat option \<Rightarrow> 'a fsys_scheme \<Rightarrow> (unit, 'a fsys_scheme) outcome" where
  "inode_lock slp ipp s =
     (case ipp of
        None \<Rightarrow> Ret () s
      | Some ip \<Rightarrow>
          if i_ref (icache s ip) < 1 then Ret () s
          else
            bind_out (sleeplock_acquire slp (SL_inode ip) s) (\<lambda>_ s1.
            if i_valid (icache s1 ip) = 0 then
              bind_out (block_read slp (i_dev (icache s1 ip)) (IBLOCK (i_inum (icache s1 ip)) (sb s1)) s1) (\<lambda>r s2.
              case r of None \<Rightarrow> Ret () s2 | Some b \<Rightarrow> load_inode ip b s2)
            else Ret () s1))"

definition inode_unlock :: "nat option \<Rightarrow> 'a fsys_scheme \<Rightarrow> (unit, 'a fsys_scheme) outcome" where
  "inode_unlock ipp s =
     (case ipp of
        None \<Rightarrow> Ret () s
      | Some ip \<Rightarrow>
          bind_out (sleeplock_held (SL_inode ip) s) (\<lambda>held s1.
          if \<not> held \<or> i_ref (icache s1 ip) < 1 then Ret () s1
          else sleeplock_release (SL_inode ip) s1))"

definition inode_update :: "'a fsys_scheme sleeper \<Rightarrow> nat \<Rightarrow> 'a fsys_scheme \<Rightarrow> (unit, 'a fsys_scheme) outcome" where
  "inode_update slp ip s =
     bind_out (block_read slp (i_dev (icache s ip)) (IBLOCK (i_inum (icache s ip)) (sb s)) s) (\<lambda>r s1.
     case r of
       None \<Rightarrow> Ret () s1
     | Some b \<Rightarrow>
         let s2 = upd_buf b (b_data_update (put_dinode (icache s1 ip) (dinode_at (i_inum (icache s1 ip))))) s1
         in bind_out (log_write b s2) (\<lambda>_ s3. block_release b s3))"

definition inode_put :: "'a fsys_scheme sleeper \<Rightarrow> nat \<Rightarrow> 'a fsys_scheme \<Rightarrow> (unit, 'a fsys_scheme) outcome" where
  "inode_put slp ip s =
     bind_out (spinlock_acquire LK_icache s) (\<lambda>_ s1.
     bind_out
       (if i_ref (icache s1 ip) = 1 \<and> i_valid (icache s1 ip) \<noteq> 0 \<and> i_nlink (icache s1 ip) = 0 then
          bind_out (spinlock_release LK_icache s1) (\<lambda>_ s2.
          bind_out (inode_lock slp (Some ip) s2) (\<lambda>_ s3.
          bind_out (inode_update slp ip (upd_inode ip (i_type_update (\<lambda>_. 0)) s3)) (\<lambda>_ s4.
          bind_out (inode_unlock (Some ip) (upd_inode ip (i_valid_update (\<lambda>_. 0)) s4)) (\<lambda>_ s5.
          spinlock_acquire LK_icache s5))))
        else Ret () s1) (\<lambda>_ s6.
     spinlock_release LK_icache (upd_inode ip (i_ref_update (\<lambda>r. r - 1)) s6)))"

definition inode_unlock_put :: "'a fsys_scheme sleeper \<Rightarrow> nat \<Rightarrow> 'a fsys_scheme \<Rightarrow> (unit, 'a fsys_scheme) outcome" where
  "inode_unlock_put slp ip s =
     bind_out (inode_unlock (Some ip) s) (\<lambda>_ s1. inode_put slp ip s1)"

text \<open>\<open>struct stat\<close> has its fields at offsets 0, 4, 8, 10 and 16.\<close>

definition store :: "u64 \<Rightarrow> u8 list \<Rightarrow> memory \<Rightarrow> memory" where
  "store a xs m = fold (\<lambda>i m. m(a + of_nat i := xs ! i)) [0..<length xs] m"

definition le_bytes :: "nat \<Rightarrow> 'a::len word \<Rightarrow> u8 list" where
  "le_bytes n x = map (\<lambda>i. le_byte i x) [0..<n]"

definition inode_stat :: "nat \<Rightarrow> u64 \<Rightarrow> 'a fsys_scheme \<Rightarrow> 'a fsys_scheme" where
  "inode_stat ip st s =
     (let p = icache s ip in
      upd_mem (\<lambda>m.
        store (st + 16) (le_bytes 8 (ucast (i_size p) :: u64))
        (store (st + 10) (le_bytes 2 (i_nlink p))
        (store (st + 8) (le_bytes 2 (i_type p))
        (store (st + 4) (le_bytes 4 (i_inum p))
        (store st (le_bytes 4 (i_dev p)) m))))) s)"

subsection \<open>Reading and writing a file\<close>

text \<open>The index is checked against the array \<open>addrs\<close>, which C does not do.\<close>

definition read_chunk :: "u32 \<Rightarrow> u32 \<Rightarrow> u32 \<Rightarrow> u32" where
  "read_chunk off n tot =
     (let m = of_nat BSIZE - off mod of_nat BSIZE in if m > n - tot then n - tot else m)"

definition read_step :: "'a fsys_scheme sleeper \<Rightarrow> nat \<Rightarrow> u32 \<Rightarrow> u32 \<times> u32 \<times> u64 \<Rightarrow> 'a fsys_scheme \<Rightarrow>
    (u32 \<times> u32 \<times> u64 + int, 'a fsys_scheme) outcome" where
  "read_step slp ip n = (\<lambda>(tot, off, dst) s.
     if \<not> tot < n then Ret (Inr (int_of_u32 tot)) s
     else if unat (off div of_nat BSIZE) \<ge> NDIRECT + 1 then Stop OutOfBounds s
     else
       let addr = i_addrs (icache s ip) ! unat (off div of_nat BSIZE) in
       if addr = 0 then Ret (Inr (int_of_u32 tot)) s
       else
         bind_out (block_read slp (i_dev (icache s ip)) addr s) (\<lambda>r s1.
         case r of
           None \<Rightarrow> Ret (Inr (int_of_u32 tot)) s1
         | Some b \<Rightarrow>
             let m = read_chunk off n tot;
                 src = drop (unat (off mod of_nat BSIZE)) (b_data (bufs s1 b));
                 s2 = upd_mem (\<lambda>mm. fold (\<lambda>i mm. mm(dst + of_nat i := src ! i)) [0..<unat m] mm) s1
             in bind_out (block_release b s2) (\<lambda>_ s3.
                Ret (Inl (tot + m, off + m, dst + ucast m)) s3)))"

definition inode_read :: "'a fsys_scheme sleeper \<Rightarrow> nat \<Rightarrow> int \<Rightarrow> u64 \<Rightarrow> u32 \<Rightarrow> u32 \<Rightarrow> 'a fsys_scheme \<Rightarrow>
    (int, 'a fsys_scheme) outcome" where
  "inode_read slp ip user_dst dst off n s =
     (if off > i_size (icache s ip) \<or> off + n < off then Ret (- 1) s
      else
        let n = (if off + n > i_size (icache s ip) then i_size (icache s ip) - off else n)
        in loop_out (read_step slp ip n) (0, off, dst) s)"

definition write_step :: "'a fsys_scheme sleeper \<Rightarrow> nat \<Rightarrow> u32 \<Rightarrow> u32 \<times> u32 \<times> u64 \<Rightarrow> 'a fsys_scheme \<Rightarrow>
    (u32 \<times> u32 \<times> u64 + u32 \<times> u32, 'a fsys_scheme) outcome" where
  "write_step slp ip n = (\<lambda>(tot, off, src) s.
     if \<not> tot < n then Ret (Inr (tot, off)) s
     else if unat (off div of_nat BSIZE) \<ge> NDIRECT + 1 then Stop OutOfBounds s
     else
       let addr = i_addrs (icache s ip) ! unat (off div of_nat BSIZE) in
       if addr = 0 then Ret (Inr (tot, off)) s
       else
         bind_out (block_read slp (i_dev (icache s ip)) addr s) (\<lambda>r s1.
         case r of
           None \<Rightarrow> Ret (Inr (tot, off)) s1
         | Some b \<Rightarrow>
             let m = read_chunk off n tot; k = unat (off mod of_nat BSIZE);
                 s2 = upd_buf b (b_data_update (\<lambda>x.
                        fold (\<lambda>i x. x[k + i := mem s1 (src + of_nat i)]) [0..<unat m] x)) s1
             in bind_out (log_write b s2) (\<lambda>_ s3.
                bind_out (block_release b s3) (\<lambda>_ s4.
                Ret (Inl (tot + m, off + m, src + ucast m)) s4))))"

definition inode_write :: "'a fsys_scheme sleeper \<Rightarrow> nat \<Rightarrow> int \<Rightarrow> u64 \<Rightarrow> u32 \<Rightarrow> u32 \<Rightarrow> 'a fsys_scheme \<Rightarrow>
    (int, 'a fsys_scheme) outcome" where
  "inode_write slp ip user_src src off n s =
     (if off > i_size (icache s ip) \<or> off + n < off then Ret (- 1) s
      else if unat (off + n) > MAXFILE * BSIZE then Ret (- 1) s
      else
        bind_out (loop_out (write_step slp ip n) (0, off, src) s) (\<lambda>(tot, off) s1.
        let s2 = (if off > i_size (icache s1 ip) then upd_inode ip (i_size_update (\<lambda>_. off)) s1 else s1)
        in bind_out (inode_update slp ip s2) (\<lambda>_ s3. Ret (int_of_u32 tot) s3)))"

end
