(* ===== verification/Inode_Specs.thy ===== *)
theory Inode_Specs
  imports Inode
begin

text \<open>
  The layers above the block layer only change what \<open>same_disks\<close> ignores between reading a
  block and giving it back, so the specifications of the block layer carry over to them.
\<close>

subsection \<open>Changes above the block layer\<close>

definition same_disks :: "'a disks_scheme \<Rightarrow> 'b disks_scheme \<Rightarrow> bool" where
  "same_disks s t \<longleftrightarrow> disks.truncate t = disks.truncate s"

lemma same_disksD:
  assumes "same_disks s t"
  shows "bufs t = bufs s" "sleeplk t = sleeplk s" "vq t = vq s" "disk t = disk s" "mmio t = mmio s"
    "spin t = spin s" "sie t = sie s" "current_process t = current_process s" "proc_table t = proc_table s"
    "spinlock_held l t = spinlock_held l s" "my_pid t = my_pid s"
proof -
  have *: "bufs t = bufs s \<and> sleeplk t = sleeplk s \<and> vq t = vq s \<and> disk t = disk s \<and> mmio t = mmio s \<and>
    spin t = spin s \<and> sie t = sie s \<and> current_process t = current_process s \<and> proc_table t = proc_table s"
    using assms unfolding same_disks_def disks.truncate_def by simp
  then show "bufs t = bufs s" "sleeplk t = sleeplk s" "vq t = vq s" "disk t = disk s" "mmio t = mmio s"
    "spin t = spin s" "sie t = sie s" "current_process t = current_process s" "proc_table t = proc_table s"
    by simp_all
  show "spinlock_held l t = spinlock_held l s" "my_pid t = my_pid s"
    using * by (simp_all add: spinlock_held_def my_pid_def split: option.split)
qed

lemma same_disks_block:
  assumes "same_disks s t"
  shows "block_ok d t = block_ok d s" "unlocked t = unlocked s" "view d t = view d s" "refs d t = refs d s"
    "dirty d t = dirty d s" "holder d t = holder d s" "stuck d t = stuck d s" "on_disk t = on_disk s"
    "owned_buf d t n b = owned_buf d s n b" "calm s t" "sleep_free t k = sleep_free s k"
    "owns_sleep t k = owns_sleep s k"
proof -
  note e = same_disksD [OF assms]
  note c = block_layer_cong [OF e(1,4)]
  show "view d t = view d s" "refs d t = refs d s" "dirty d t = dirty d s" "holder d t = holder d s"
    "on_disk t = on_disk s" by (rule c)+
  then show "stuck d t = stuck d s" by (simp add: stuck_eq)
  show sf: "sleep_free t k = sleep_free s k" for k using e(2) by (simp add: sleep_free_def)
  show ow: "owns_sleep t k = owns_sleep s k" for k using e(2,11) by (simp add: owns_sleep_def)
  show "unlocked t = unlocked s" using sf by (simp add: unlocked_def)
  show "block_ok d t = block_ok d s"
    using e sf c(5) by (simp add: block_ok_def cache_inv_def locks_free_def on_cpu_def)
  show "owned_buf d t n b = owned_buf d s n b" using c(4) e(1) ow by (simp add: owned_buf_def)
  show "calm s t" using e by (intro calmI) simp_all
qed

lemma same_disks_upd [simp]:
  "same_disks s s" "same_disks s (upd_mem f s)" "same_disks s (upd_inode i g s)" "same_disks s (upd_log h s)"
  "same_disks s (s\<lparr>sb := x\<rparr>)"
  by (simp_all add: same_disks_def upd_mem_def upd_inode_def upd_log_def disks.truncate_def)

lemma same_disks_trans: "same_disks s t \<Longrightarrow> same_disks t u \<Longrightarrow> same_disks s u"
  by (simp add: same_disks_def)

text \<open>What the block layer leaves alone of the upper layers.\<close>

lemma upper_eq:
  fixes s t :: "'a fsys_scheme"
  assumes "disks.more t = disks.more s"
  shows "logst t = logst s" "icache t = icache s" "sb t = sb s" "mem t = mem s" "fsys.more t = fsys.more s"
  using assms by (cases s; cases t; simp)+

lemma upper_eq_more:
  fixes s t :: "'a fsys_scheme"
  assumes "logs.more t = logs.more s"
  shows "icache t = icache s" "sb t = sb s" "mem t = mem s" "fsys.more t = fsys.more s"
  using assms by (cases s; cases t; simp)+

lemma upper_upd [simp]:
  "logst (upd_mem f s) = logst s" "icache (upd_mem f s) = icache s" "sb (upd_mem f s) = sb s"
  "mem (upd_mem f s) = f (mem s)" "fsys.more (upd_mem f s) = fsys.more s"
  "logst (upd_inode i g s) = logst s" "icache (upd_inode i g s) = (icache s)(i := g (icache s i))"
  "sb (upd_inode i g s) = sb s" "mem (upd_inode i g s) = mem s" "fsys.more (upd_inode i g s) = fsys.more s"
  by (simp_all add: upd_mem_def upd_inode_def)

subsection \<open>Reading one block\<close>

definition room :: "u32 \<Rightarrow> 'a disks_scheme \<Rightarrow> bool" where
  "room d s \<longleftrightarrow> card (stuck d s) < NBUF \<and> (\<forall>n. refs d s n + 1 \<noteq> 0)"

text \<open>Everything the block layer keeps when a block is read and given back.\<close>

definition block_same :: "u32 \<Rightarrow> 'a disks_scheme \<Rightarrow> 'b disks_scheme \<Rightarrow> bool" where
  "block_same d s t \<longleftrightarrow> calm s t \<and> block_ok d t \<and> unlocked t \<and> view d t = view d s \<and> refs d t = refs d s \<and>
     dirty d t = dirty d s \<and> disk t = disk s \<and> (\<forall>j. sleeplk t (SL_inode j) = sleeplk s (SL_inode j))"

lemma block_sameD:
  assumes "block_same d s t"
  shows "calm s t" "block_ok d t" "unlocked t" "view d t = view d s" "refs d t = refs d s"
    "dirty d t = dirty d s" "disk t = disk s" "\<And>j. sleeplk t (SL_inode j) = sleeplk s (SL_inode j)"
  using assms by (simp_all add: block_same_def)

lemma block_same_refl: "block_ok d s \<Longrightarrow> unlocked s \<Longrightarrow> block_same d s s"
  by (simp add: block_same_def)

lemma block_same_trans: "block_same d s t \<Longrightarrow> block_same d t u \<Longrightarrow> block_same d s u"
  unfolding block_same_def using calm_trans by metis

lemma block_same_upper: "block_same d s t \<Longrightarrow> same_disks t u \<Longrightarrow> block_same d s u"
  unfolding block_same_def
  using same_disks_block [of t u] same_disksD(2,4) [of t u] calm_trans [of s t u] by simp

lemma block_same_room: "block_same d s t \<Longrightarrow> room d t = room d s"
  by (simp add: block_same_def room_def stuck_eq)

lemma with_block:
  assumes ok: "block_ok d s" "unlocked s" "room d s" and dev: "obeys_virtio D"
    and g: "\<And>t. same_disks t (g t)"
  shows "\<exists>t b u. block_read (served_sleep D) d n s = Ret (Some b) t \<and> disks.more t = disks.more s \<and>
    b_data (bufs t b) = view d s n \<and> block_release b (g t) = Ret () u \<and> block_same d s u \<and>
    disks.more u = disks.more (g t)"
proof -
  have inv: "cache_inv d s" using ok(1) by (simp add: block_ok_def)
  have r: "card (stuck d s) < NBUF" "refs d s n + 1 \<noteq> 0" using ok(3) by (simp_all add: room_def)
  obtain t b where t: "block_read (served_sleep D) d n s = Ret (Some b) t" "only_buf b s t" "block_ok d t"
    "owned_buf d t n b" "view d t = view d s" "refs d t = (refs d s)(n := refs d s n + 1)"
    "dirty d t = dirty d s" "disk t = disk s"
    using read_spec [OF ok(1) dev unlockedD [OF ok(2) inv, of n] order_refl finite r] by blast
  note e = same_disksD [OF g [of t]] and b = same_disks_block [OF g [of t]]
  have own: "owned_buf d (g t) n b" "block_ok d (g t)" using t(3,4) b by simp_all
  have last: "view d (g t) n = on_disk (g t) n" if "refs d (g t) n = 1"
  proof -
    have "refs d s n = 0" using that b(4) t(6) by simp
    then have "view d s n = on_disk s n" by (rule unref_view [OF inv])
    then show ?thesis using b(3,8) t(5,8) by (simp add: on_disk_def)
  qed
  obtain u where u: "block_release b (g t) = Ret () u" "only_buf b (g t) u" "block_ok d u"
    "sleep_free u (SL_buf b)" "view d u = view d (g t)" "refs d u = (refs d (g t))(n := refs d (g t) n - 1)"
    "dirty d u = dirty d (g t)" "disk u = disk (g t)"
    using block_release_spec [OF own(2,1) last] by blast
  have "unlocked u"
    unfolding unlocked_def
  proof (intro allI impI)
    fix i assume "i < NBUF"
    then show "sleep_free u (SL_buf i)"
      using ok(2) t(2) u(2,4) e(2) by (cases "i = b") (auto simp: only_buf_def sleep_free_def unlocked_def)
  qed
  moreover have "calm s u"
    using t(2) u(2) b(10) calm_trans [of s t "g t"] calm_trans [of s "g t" u] by (simp add: only_buf_def)
  moreover have "refs d u = refs d s" using u(6) b(4) t(6) by (auto simp: fun_eq_iff)
  moreover have "sleeplk u (SL_inode j) = sleeplk s (SL_inode j)" for j
    using t(2) u(2) e(2) by (simp add: only_buf_def)
  ultimately have "block_same d s u"
    using u(3,5,7,8) b t(5,7,8) e by (simp add: block_same_def)
  moreover have "b_data (bufs t b) = view d s n" using owned_bufD(3) [OF t(4,3)] t(5) by simp
  ultimately show ?thesis using t(1,2) u(1,2) by (auto simp: only_buf_def)
qed

lemma upd_data_const:
  "b_data (bufs t b) = x \<Longrightarrow> upd_buf b (b_data_update f) t = upd_buf b (b_data_update (\<lambda>_. f x)) t"
  by (cases "bufs t b") (simp add: upd_buf_def)

subsection \<open>Recording a block in the log\<close>

lemma owned_buf_dev: "owned_buf d s n b \<Longrightarrow> block_ok d s \<Longrightarrow> b_blockno (bufs s b) = n"
  using owned_bufD(2) [of d s n b] by (simp add: is_block_def)

definition log_ready :: "'a logs_scheme \<Rightarrow> bool" where
  "log_ready s \<longleftrightarrow> distinct (logged (logst s)) \<and> 0 \<le> lh_n (lh (logst s)) \<and> length (lh_block (lh (logst s))) = LOGSIZE"

text \<open>The block \<open>n\<close> is in the log, or there is room for it.\<close>

definition log_accepts :: "'a logs_scheme \<Rightarrow> u32 \<Rightarrow> bool" where
  "log_accepts s n \<longleftrightarrow> lh_n (lh (logst s)) < int LOGSIZE \<and> lh_n (lh (logst s)) < log_size (logst s) - 1 \<and>
     1 \<le> outstanding (logst s)"

lemma log_write_block:
  assumes ok: "block_ok d s" and own: "owned_buf d s n b" and lr: "log_ready s" and acc: "log_accepts s n"
    and nz: "refs d s n + 1 \<noteq> 0"
  shows "\<exists>t. log_write b s = Ret () t \<and> calm s t \<and> block_ok d t \<and> owned_buf d t n b \<and> view d t = view d s \<and>
    refs d t = (if int_of_u32 n \<in> set (logged (logst s)) then refs d s else (refs d s)(n := refs d s n + 1)) \<and>
    dirty d t = dirty d s \<and> disk t = disk s \<and> sleeplk t = sleeplk s \<and> log_ready t \<and>
    set (logged (logst t)) = insert (int_of_u32 n) (set (logged (logst s))) \<and> logs.more t = logs.more s \<and>
    outstanding (logst t) = outstanding (logst s) \<and> log_place (logst t) = log_place (logst s)"
proof -
  have inv: "cache_inv d s" and lf: "locks_free s" and cpu: "on_cpu s" using ok by (simp_all add: block_ok_def)
  note o = owned_bufD [OF own ok]
  let ?l = "logst s" let ?n = "lh_n (lh ?l)"
  have lr': "distinct (logged ?l)" "0 \<le> ?n" "length (lh_block (lh ?l)) = LOGSIZE"
    using lr by (simp_all add: log_ready_def)
  obtain t where t: "log_write b s = Ret () t" "calm s t" "sleeplk t = sleeplk s" "disk t = disk s" "vq t = vq s"
    "logs.more t = logs.more s"
    "if int_of_u32 n \<in> set (logged ?l) then logst t = ?l \<and> bufs t = bufs s
      else logged (logst t) = logged ?l @ [int_of_u32 n] \<and> distinct (logged (logst t)) \<and> lh_n (lh (logst t)) = ?n + 1 \<and>
        length (lh_block (lh (logst t))) = LOGSIZE \<and> outstanding (logst t) = outstanding ?l \<and>
        log_place (logst t) = log_place ?l \<and> bufs t = (bufs s)(b := b_refcnt_update (\<lambda>r. r + 1) (bufs s b))"
    using log_write_cases [OF lf lr'(1-3), of b] acc owned_buf_dev [OF own ok]
    by (auto simp: Let_def log_accepts_def)
  have pid: "my_pid t = my_pid s" using calm_my_pid [OF t(2) cpu] .
  show ?thesis
  proof (cases "int_of_u32 n \<in> set (logged ?l)")
    case True
    then have e: "logst t = ?l" "bufs t = bufs s" using t(7) by simp_all
    note c = block_layer_cong [OF e(2) t(4)]
    have "cache_inv d t" using inv t(3,4,5) e(2) c(5) by (simp add: cache_inv_def sleep_free_def)
    then have "block_ok d t" using block_ok_calm [OF t(2) ok] by blast
    moreover have "owned_buf d t n b" using own c(4) e(2) t(3) pid by (simp add: owned_buf_def owns_sleep_def)
    ultimately show ?thesis using t(1-6) e c True lr by (auto simp: log_ready_def)
  next
    case False
    let ?y = "b_refcnt_update (\<lambda>r. r + 1) (bufs s b)"
    have e: "logged (logst t) = logged ?l @ [int_of_u32 n]" "distinct (logged (logst t))"
      "lh_n (lh (logst t)) = ?n + 1" "length (lh_block (lh (logst t))) = LOGSIZE" "bufs t = (bufs s)(b := ?y)"
      "outstanding (logst t) = outstanding ?l" "log_place (logst t) = log_place ?l"
      using t(7) False lr' by simp_all
    have ch: "changes_only d n b ?y s t"
      unfolding changes_only_def
    proof (intro conjI allI impI)
      show "\<exists>L. lru (bufs t) L \<and> set L = {..<NBUF}"
        using cache_invD(2) [OF inv] lru_cong [of "bufs t" "bufs s"] by (auto simp: e(5))
      show "holder d s n = Some b \<or> holder d s n = None \<and> recyclable (bufs s b)"
        using own by (simp add: owned_buf_def)
      show "b_refcnt ?y = 0 \<Longrightarrow> sleep_free t (SL_buf b)" "b_refcnt ?y = 0 \<Longrightarrow> b_data ?y = on_disk t n"
        using o(4) nz by auto
      show "length (b_data ?y) = BSIZE" using o(3) view_length [OF inv] by simp
      show "is_block d n ?y" "is_valid ?y" using o by (simp_all add: is_block_def is_valid_def)
      show "on_disk t m = on_disk s m" for m using t(4) by (simp add: on_disk_def)
      show "length (sectors (disk t) m) = BSIZE" for m unfolding t(4) by (rule cache_invD(8) [OF inv])
      show "vq_idle (vq t)" unfolding t(5) by (rule cache_invD(9) [OF inv])
    qed (use inv o t e in auto)
    note vt = views_t [OF ch]
    have "is_dirty ?y = dirty d s n" using o(5) by (simp add: is_dirty_def)
    then have "refs d t = (refs d s)(n := refs d s n + 1)" "dirty d t = dirty d s" "view d t = view d s"
      using vt o(3,4) by (simp_all add: fun_upd_idem)
    moreover have "owned_buf d t n b"
      using own holder_t [OF ch, of n] t(3) pid by (simp add: owned_buf_def is_valid_def owns_sleep_def e(5))
    moreover have "log_ready t" using e lr' by (simp add: log_ready_def)
    ultimately show ?thesis
      using t(1-6) e False block_ok_calm [OF t(2) ok inv_t [OF ch]] by auto
  qed
qed

end
