(* ===== verification/Inode_Props.thy ===== *)
theory Inode_Props
  imports Inode_Specs
begin

text \<open>Properties of the inode cache and of files.\<close>

subsection \<open>Reading a file\<close>

text \<open>The byte of a file at a position, through its list of blocks.\<close>

definition file_byte :: "u32 \<Rightarrow> 'a fsys_scheme \<Rightarrow> nat \<Rightarrow> nat \<Rightarrow> u8" where
  "file_byte d s ip p = view d s (i_addrs (icache s ip) ! (p div BSIZE)) ! (p mod BSIZE)"

definition clip :: "u32 \<Rightarrow> u32 \<Rightarrow> u32 \<Rightarrow> u32" where
  "clip fsize off n = (if off + n > fsize then fsize - off else n)"

lemma BSIZE_word: "of_nat BSIZE = (512 :: u32)" "BSIZE = 512"
  by (simp_all add: BSIZE_def)

lemma chunk_nat:
  assumes "tot < n"
  shows "unat (read_chunk off n tot) = min (512 - unat off mod 512) (unat n - unat tot)"
    "0 < unat (read_chunk off n tot)"
proof -
  have m: "unat off mod 512 < 512" by simp
  have a: "unat (512 - off mod 512) = 512 - unat off mod 512"
    using m by (subst unat_sub) (simp_all add: word_le_nat_alt unat_mod)
  have b: "unat (n - tot) = unat n - unat tot" using assms by (simp add: unat_sub)
  show "unat (read_chunk off n tot) = min (512 - unat off mod 512) (unat n - unat tot)"
    by (simp add: read_chunk_def BSIZE_word Let_def word_less_nat_alt a b)
  then show "0 < unat (read_chunk off n tot)" using assms by (simp add: word_less_nat_alt)
qed

text \<open>The state after \<open>k\<close> bytes have been read.\<close>

definition read_upto :: "u32 \<Rightarrow> nat \<Rightarrow> nat \<Rightarrow> u64 \<Rightarrow> nat \<Rightarrow> 'a fsys_scheme \<Rightarrow> 'a fsys_scheme \<Rightarrow> bool" where
  "read_upto d ip off dst k s t \<longleftrightarrow> block_same d s t \<and> logst t = logst s \<and> icache t = icache s \<and>
     sb t = sb s \<and> fsys.more t = fsys.more s \<and>
     mem t = (\<lambda>a. if unat (a - dst) < k then file_byte d s ip (off + unat (a - dst)) else mem s a)"

lemma within_block:
  assumes "i < 512 - o' mod (512 :: nat)"
  shows "(o' + i) div 512 = o' div 512" "(o' + i) mod 512 = o' mod 512 + i"
proof -
  obtain q r where o: "o' = q * 512 + r" "r < 512" by (metis div_mult_mod_eq mod_less_divisor zero_less_numeral)
  then have "o' mod 512 = r" "o' div 512 = q" by simp_all
  moreover from this have "r + i < 512" using assms by simp
  moreover have "o' + i = (r + i) + q * 512" using o(1) by simp
  moreover have "(r + i + q * 512) mod 512 = (r + i) mod 512" by (rule mod_mult_self1)
  moreover have "(r + i + q * 512) div 512 = q + (r + i) div 512" by (rule div_mult_self1) simp
  ultimately show "(o' + i) div 512 = o' div 512" "(o' + i) mod 512 = o' mod 512 + i"
    by (simp_all only: mod_less div_less add_0_right)
qed

lemma read_block_step:
  assumes P: "read_upto d ip off dst k s t" and b: "block_ok d s" "room d s" "obeys_virtio D"
    and m: "m \<le> 512 - (off + k) mod 512" "k + m \<le> 2 ^ 32"
    and ad: "adr = i_addrs (icache s ip) ! ((off + k) div 512)"
  shows "\<exists>u c v. block_read (served_sleep D) d adr t = Ret (Some c) u \<and>
    block_release c (upd_mem (\<lambda>mm. fold (\<lambda>i mm. mm(dst + of_nat k + of_nat i :=
        drop ((off + k) mod 512) (b_data (bufs u c)) ! i)) [0..<m] mm) u) = Ret () v \<and>
    read_upto d ip off dst (k + m) s v"
proof -
  let ?g = "\<lambda>x :: u8 list. upd_mem (\<lambda>mm. fold (\<lambda>i mm. mm(dst + of_nat k + of_nat i :=
        drop ((off + k) mod 512) x ! i)) [0..<m] mm)"
  have t: "block_same d s t" "logst t = logst s" "icache t = icache s" "sb t = sb s" "fsys.more t = fsys.more s"
    "mem t = (\<lambda>a. if unat (a - dst) < k then file_byte d s ip (off + unat (a - dst)) else mem s a)"
    using P by (simp_all add: read_upto_def)
  note bs = block_sameD [OF t(1)]
  have rm: "room d t" using block_same_room [OF t(1)] b(2) by simp
  have g: "same_disks x (?g (view d t adr) x)" for x by simp
  from with_block [OF bs(2,3) rm b(3) g, of adr] obtain u c v where u: "block_read (served_sleep D) d adr t = Ret (Some c) u" "disks.more u = disks.more t"
    "b_data (bufs u c) = view d t adr" "block_release c (?g (view d t adr) u) = Ret () v" "block_same d t v"
    "disks.more v = disks.more (?g (view d t adr) u)"
    by blast
  note eu = upper_eq [OF u(2)] and ev = upper_eq [OF u(6)]
  have len: "length (view d s adr) = 512" using view_length [of d s adr] b(1) by (simp add: block_ok_def BSIZE_def)
  have "mem v = (\<lambda>a. if unat (a - (dst + of_nat k)) < m
      then drop ((off + k) mod 512) (view d s adr) ! unat (a - (dst + of_nat k)) else mem t a)"
    using store_loop [of m "dst + of_nat k" _ "mem t"] m(2) ev(4) eu(4) bs(4) by simp
  also have "\<dots> = (\<lambda>a. if unat (a - dst) < k + m then file_byte d s ip (off + unat (a - dst)) else mem s a)"
  proof
    fix a
    have km: "k + m \<le> 2 ^ 64" using m(2) by simp
    note sh = shift_offset [OF km, of a dst]
    show "(if unat (a - (dst + of_nat k)) < m
        then drop ((off + k) mod 512) (view d s adr) ! unat (a - (dst + of_nat k)) else mem t a) =
      (if unat (a - dst) < k + m then file_byte d s ip (off + unat (a - dst)) else mem s a)"
    proof (cases "unat (a - (dst + of_nat k)) < m")
      case True
      let ?i = "unat (a - (dst + of_nat k))"
      have i: "k \<le> unat (a - dst)" "unat (a - dst) < k + m" "off + unat (a - dst) = (off + k) + ?i"
        using sh True by auto
      have "?i < 512 - (off + k) mod 512" using True m(1) by simp
      note w = within_block [OF this]
      have "file_byte d s ip (off + unat (a - dst)) = view d s adr ! ((off + k) mod 512 + ?i)"
        unfolding file_byte_def BSIZE_def i(3) w ad ..
      moreover have "(off + k) mod 512 + ?i < 512" using \<open>?i < 512 - _\<close> by simp
      ultimately show ?thesis using True i(2) len by simp
    next
      case False
      then show ?thesis using sh(1) by (auto simp: t(6))
    qed
  qed
  finally have "read_upto d ip off dst (k + m) s v"
    using block_same_trans [OF t(1) u(5)] t ev eu by (simp add: read_upto_def)
  then show ?thesis using u(1,3,4) by auto
qed

lemma int_of_u32_small: "unat w < 2 ^ 31 \<Longrightarrow> int_of_u32 w = int (unat w)"
proof -
  assume "unat w < 2 ^ 31"
  then have "uint w < 2 ^ 31" using nat_less_iff [of "uint w" "2 ^ 31"] by simp
  moreover have "0 \<le> uint w" by simp
  then have "- (2 ^ 31) \<le> uint w" by (rule order_trans [rotated]) simp
  ultimately show ?thesis using signed_take_bit_int_eq_self [of 31 "uint w"]
    by (simp add: int_of_u32_def sint_uint)
qed

lemma unat_small: "k < 2 ^ 32 \<Longrightarrow> unat (of_nat k :: u32) = k"
  by (simp add: unat_of_nat take_bit_nat_eq_self)

lemma clip_fits:
  assumes "\<not> (off > total' \<or> off + n < off)"
  shows "unat off + unat (clip total' off n) \<le> unat total'"
proof -
  have le: "unat off \<le> unat total'" using assms by (simp add: word_le_nat_alt not_less)
  show ?thesis
  proof (cases "off + n > total'")
    case True
    have "unat (total' - off) = unat total' - unat off"
      using le by (intro unat_sub) (simp add: word_le_nat_alt)
    then show ?thesis using True le by (simp add: clip_def)
  next
    case False
    have "unat (off + n) = unat off + unat n" using assms by (simp add: unat_plus_simple not_less)
    then show ?thesis using False by (simp add: clip_def word_less_nat_alt not_less)
  qed
qed

text \<open>One turn of the loop, with \<open>k\<close> bytes done.\<close>

lemma read_step_spec:
  assumes b: "block_ok d s" "room d s" "obeys_virtio D" "i_dev (icache s ip) = d"
    and k: "k < unat n" "unat off + unat n \<le> (NDIRECT + 1) * BSIZE"
    and nz: "i_addrs (icache s ip) ! ((unat off + k) div BSIZE) \<noteq> 0"
    and P: "read_upto d ip (unat off) dst k s t"
  shows "\<exists>v m. read_step (served_sleep D) ip n (of_nat k, off + of_nat k, dst + of_nat k) t =
      Ret (Inl (of_nat (k + m), off + of_nat (k + m), dst + of_nat (k + m))) v \<and>
    0 < m \<and> k + m \<le> unat n \<and> read_upto d ip (unat off) dst (k + m) s v"
proof -
  have small: "unat off + unat n \<le> 6656" using k(2) by (simp add: NDIRECT_def BSIZE_def)
  then have ku: "unat (of_nat k :: u32) = k" using k(1) by (intro unat_small) simp
  then have lt: "of_nat k < n" using k(1) by (simp add: word_less_nat_alt)
  have ou: "unat (off + of_nat k) = unat off + k"
    using k(1) small ku by (subst unat_plus_simple [THEN iffD1]) (simp_all add: unat_word_ariths word_le_nat_alt)
  let ?o = "unat off + k" let ?m = "read_chunk (off + of_nat k) n (of_nat k)"
  let ?adr = "i_addrs (icache s ip) ! (?o div 512)"
  have m: "unat ?m = min (512 - ?o mod 512) (unat n - k)" "0 < unat ?m"
    using chunk_nat [OF lt, of "off + of_nat k"] ou ku by simp_all
  have dv: "unat ((off + of_nat k) div 512) = ?o div 512" "unat ((off + of_nat k) mod 512) = ?o mod 512"
    using ou by (simp_all add: unat_div unat_mod)
  have bound: "\<not> ?o div 512 \<ge> NDIRECT + 1" using k(1) small by (simp add: NDIRECT_def)
  have le: "k + unat ?m \<le> unat n" using m(1) k(1) by simp
  then have lim: "unat ?m \<le> 512 - ?o mod 512" "k + unat ?m \<le> 2 ^ 32" using m(1) small by simp_all
  have it: "icache t = icache s" using P by (simp add: read_upto_def)
  obtain u c v where u: "block_read (served_sleep D) d ?adr t = Ret (Some c) u"
    "block_release c (upd_mem (\<lambda>mm. fold (\<lambda>i mm. mm(dst + of_nat k + of_nat i :=
      drop (?o mod 512) (b_data (bufs u c)) ! i)) [0..<unat ?m] mm) u) = Ret () v"
    "read_upto d ip (unat off) dst (k + unat ?m) s v"
    using read_block_step [OF P b(1-3) lim refl] by blast
  have "of_nat (k + unat ?m) = of_nat k + ?m" "(of_nat (k + unat ?m) :: u64) = of_nat k + ucast ?m" by simp_all
  then have "read_step (served_sleep D) ip n (of_nat k, off + of_nat k, dst + of_nat k) t =
      Ret (Inl (of_nat (k + unat ?m), off + of_nat (k + unat ?m), dst + of_nat (k + unat ?m))) v"
    using lt nz bound dv it b(4) u(1,2)
    by (simp add: read_step_def BSIZE_word Let_def algebra_simps)
  then show ?thesis using u(3) m(2) le by blast
qed

lemma inode_read_run:
  assumes "block_ok d s" "unlocked s" "room d s" "obeys_virtio D" "i_dev (icache s ip) = d"
    and "unat (i_size (icache s ip)) \<le> (NDIRECT + 1) * BSIZE"
    and "\<And>p. p < unat (i_size (icache s ip)) \<Longrightarrow> i_addrs (icache s ip) ! (p div BSIZE) \<noteq> 0"
    and ok: "\<not> (off > i_size (icache s ip) \<or> off + n < off)"
  shows "\<exists>t. inode_read (served_sleep D) ip user_dst dst off n s =
      Ret (int (unat (clip (i_size (icache s ip)) off n))) t \<and>
    read_upto d ip (unat off) dst (unat (clip (i_size (icache s ip)) off n)) s t"
proof -
  let ?n = "clip (i_size (icache s ip)) off n"
  let ?P = "\<lambda>(tot, o', dst') t. \<exists>k. k \<le> unat ?n \<and> tot = (of_nat k :: u32) \<and> o' = off + of_nat k \<and>
    dst' = dst + of_nat k \<and> read_upto d ip (unat off) dst k s t"
  note fits = clip_fits [OF ok]
  have n: "unat ?n < 2 ^ 31" using fits assms(6) by (simp add: NDIRECT_def BSIZE_def)
  have "\<exists>r t. loop_out (read_step (served_sleep D) ip ?n) (0, off, dst) s = Ret r t \<and>
      r = int (unat ?n) \<and> read_upto d ip (unat off) dst (unat ?n) s t"
  proof (rule loop_out_measure [where P = ?P and m = "\<lambda>(tot, _). unat ?n - unat tot"])
    show "?P (0, off, dst) s"
      using block_same_refl [OF assms(1,2)] by (auto simp: read_upto_def intro!: exI [of _ 0])
    fix x :: "u32 \<times> u32 \<times> u64" and t assume "?P x t"
    then obtain k where k: "k \<le> unat ?n" "x = (of_nat k, off + of_nat k, dst + of_nat k)"
      "read_upto d ip (unat off) dst k s t" by auto
    show "(\<exists>a u. read_step (served_sleep D) ip ?n x t = Ret (Inr a) u \<and> a = int (unat ?n) \<and>
        read_upto d ip (unat off) dst (unat ?n) s u) \<or>
      (\<exists>y u. read_step (served_sleep D) ip ?n x t = Ret (Inl y) u \<and> ?P y u \<and>
        (case y of (tot, _) \<Rightarrow> unat ?n - unat tot) < (case x of (tot, _) \<Rightarrow> unat ?n - unat tot))"
    proof (cases "k < unat ?n")
      case False
      then have "k = unat ?n" using k(1) by simp
      then show ?thesis using k(2,3) int_of_u32_small [OF n] by (simp add: read_step_def)
    next
      case True
      have sz: "unat off + unat ?n \<le> (NDIRECT + 1) * BSIZE" using fits assms(6) by simp
      have nz: "i_addrs (icache s ip) ! ((unat off + k) div BSIZE) \<noteq> 0"
        using assms(7) [of "unat off + k"] fits True by simp
      obtain v m where v: "read_step (served_sleep D) ip ?n x t =
          Ret (Inl (of_nat (k + m), off + of_nat (k + m), dst + of_nat (k + m))) v"
        "0 < m" "k + m \<le> unat ?n" "read_upto d ip (unat off) dst (k + m) s v"
        using read_step_spec [OF assms(1,3-5) True sz nz k(3)] k(2) by blast
      have "unat (of_nat (k + m) :: u32) = k + m" "unat (of_nat k :: u32) = k"
        using v(3) n by (intro unat_small, simp)+
      then show ?thesis using v k(2) True by (intro disjI2 exI conjI) auto
    qed
  qed
  then show ?thesis using ok by (auto simp: inode_read_def Let_def simp flip: clip_def)
qed


end
