(* ===== verification/Inode_Ops.thy ===== *)
theory Inode_Ops
  imports Inode_Props
begin

text \<open>Locking, loading and updating inodes, and the table of cached inodes.\<close>

subsection \<open>An inode as bytes of its block\<close>

lemma put_fields:
  assumes "k + 4 * n \<le> length x"
  shows "length (fold (\<lambda>i x. put32 x (k + 4 * i) (f i)) [0..<n] x) = length x"
    "i < n \<Longrightarrow> get32 (fold (\<lambda>i x. put32 x (k + 4 * i) (f i)) [0..<n] x) (k + 4 * i) = f i"
    "j + 4 \<le> k \<Longrightarrow> get32 (fold (\<lambda>i x. put32 x (k + 4 * i) (f i)) [0..<n] x) j = get32 x j"
    "j + 2 \<le> k \<Longrightarrow> get16 (fold (\<lambda>i x. put32 x (k + 4 * i) (f i)) [0..<n] x) j = get16 x j"
proof -
  let ?F = "\<lambda>n. fold (\<lambda>i x. put32 x (k + 4 * i) (f i)) [0..<n] x"
  have len: "length (?F n) = length x" for n by (induction n) simp_all
  have "(\<forall>i < n. get32 (?F n) (k + 4 * i) = f i) \<and> (j + 4 \<le> k \<longrightarrow> get32 (?F n) j = get32 x j) \<and>
      (j + 2 \<le> k \<longrightarrow> get16 (?F n) j = get16 x j)"
    using assms
  proof (induction n)
    case (Suc n)
    have "get32 (put32 (?F n) (k + 4 * n) (f n)) (k + 4 * i) = f i" if "i < Suc n" for i
    proof (cases "i = n")
      case True
      then show ?thesis using Suc.prems len [of n] by (simp only: True) (rule get_put32, simp)
    next
      case False
      then have "k + 4 * i + 4 \<le> k + 4 * n" using that by simp
      then show ?thesis using Suc False that by simp
    qed
    then show ?case using Suc by simp
  qed simp
  then show "i < n \<Longrightarrow> get32 (?F n) (k + 4 * i) = f i" "j + 4 \<le> k \<Longrightarrow> get32 (?F n) j = get32 x j"
    "j + 2 \<le> k \<Longrightarrow> get16 (?F n) j = get16 x j" by blast+
  show "length (?F n) = length x" by (rule len)
qed

text \<open>The fields an inode on the disk has.\<close>

definition same_fields :: "inode \<Rightarrow> inode \<Rightarrow> bool" where
  "same_fields p q \<longleftrightarrow> i_type p = i_type q \<and> i_major p = i_major q \<and> i_minor p = i_minor q \<and>
     i_nlink p = i_nlink q \<and> i_size p = i_size q \<and> i_addrs p = i_addrs q"

lemma put_dinode_length [simp]: "length (put_dinode ip k x) = length x"
proof -
  have "length (fold (\<lambda>i x. put32 x (k + 12 + 4 * i) (f i)) is x) = length x" for f "is" and x :: "u8 list"
    by (induction "is" arbitrary: x) simp_all
  then show ?thesis by (simp add: put_dinode_def)
qed

lemma get_put_dinode:
  assumes "k + 64 \<le> length x" "length (i_addrs ip) = NDIRECT + 1"
  shows "same_fields (get_dinode (put_dinode ip k x) k jp) ip"
proof -
  let ?h = "put32 (put16 (put16 (put16 (put16 x k (i_type ip)) (k + 2) (i_major ip)) (k + 4) (i_minor ip))
          (k + 6) (i_nlink ip)) (k + 8) (i_size ip)"
  have "(k + 12) + 4 * (NDIRECT + 1) \<le> length ?h" using assms(1) by (simp add: NDIRECT_def)
  note f = put_fields [OF this, where f = "\<lambda>i. i_addrs ip ! i", folded put_dinode_def]
  have "get16 (put_dinode ip k x) k = i_type ip" "get16 (put_dinode ip k x) (k + 2) = i_major ip"
    "get16 (put_dinode ip k x) (k + 4) = i_minor ip" "get16 (put_dinode ip k x) (k + 6) = i_nlink ip"
    "get32 (put_dinode ip k x) (k + 8) = i_size ip"
    using f(3,4) assms(1) by simp_all
  moreover have "map (\<lambda>i. get32 (put_dinode ip k x) (k + 12 + 4 * i)) [0..<NDIRECT + 1] = i_addrs ip"
    using f(2) assms(2) by (intro nth_equalityI) (simp_all only: length_map length_upt nth_map nth_upt diff_zero add_0)
  ultimately show ?thesis by (simp add: same_fields_def get_dinode_def)
qed

lemma dinode_fits: "dinode_at n + 64 \<le> BSIZE"
proof -
  have "unat (n mod IPB) < 8" by (simp add: IPB_def unat_mod)
  then show ?thesis by (simp add: dinode_at_def BSIZE_def)
qed

subsection \<open>Locking\<close>

definition block_keep :: "u32 \<Rightarrow> 'a disks_scheme \<Rightarrow> 'b disks_scheme \<Rightarrow> bool" where
  "block_keep d s t \<longleftrightarrow> calm s t \<and> block_ok d t \<and> unlocked t \<and> view d t = view d s \<and> refs d t = refs d s \<and>
     dirty d t = dirty d s \<and> disk t = disk s"

lemma block_same_keep: "block_same d s t \<Longrightarrow> block_keep d s t"
  by (simp add: block_same_def block_keep_def)

lemma block_keep_trans: "block_keep d s t \<Longrightarrow> block_keep d t u \<Longrightarrow> block_keep d s u"
  unfolding block_keep_def using calm_trans by metis

lemma keep_upper: "block_keep d s t \<Longrightarrow> same_disks t u \<Longrightarrow> block_keep d s u"
  unfolding block_keep_def
  using same_disks_block [of t u] same_disksD(4) [of t u] calm_trans [of s t u] by simp

lemma inode_lock_keeps:
  assumes "block_ok d s" "unlocked s" "calm s t" "same_blocks s t"
    "\<And>k. k \<noteq> SL_inode ip \<Longrightarrow> sleeplk t k = sleeplk s k"
  shows "block_keep d s t"
proof -
  have b: "bufs t = bufs s" "disk t = disk s" "vq t = vq s" using assms(4) by (simp_all add: same_blocks_def)
  note c = block_layer_cong [OF b(1,2)]
  have sf: "sleep_free t (SL_buf i) = sleep_free s (SL_buf i)" for i
    using assms(5) [of "SL_buf i"] by (simp add: sleep_free_def)
  then have "cache_inv d t" using assms(1) b c(5) by (simp add: block_ok_def cache_inv_def)
  then have "block_ok d t" using block_ok_calm [OF assms(3,1)] by blast
  then show ?thesis using assms(2,3) b c sf by (simp add: block_keep_def unlocked_def)
qed

text \<open>The inode cache after an inode has been read from its block.\<close>

definition loaded :: "u32 \<Rightarrow> 'a fsys_scheme \<Rightarrow> nat \<Rightarrow> inode" where
  "loaded d s ip =
     (let p = icache s ip
      in (get_dinode (view d s (IBLOCK (i_inum p) (sb s))) (dinode_at (i_inum p)) p)\<lparr>i_valid := 1\<rparr>)"

lemma inode_lock_spec:
  assumes "block_ok d s" "unlocked s" "room d s" "obeys_virtio D" "i_dev (icache s ip) = d"
    and "sleep_free s (SL_inode ip)" "1 \<le> i_ref (icache s ip)"
  shows "\<exists>t. inode_lock (served_sleep D) (Some ip) s = Ret () t \<and> block_keep d s t \<and>
    owns_sleep t (SL_inode ip) \<and> (\<forall>j. j \<noteq> ip \<longrightarrow> sleeplk t (SL_inode j) = sleeplk s (SL_inode j)) \<and>
    icache t = (if i_valid (icache s ip) = 0 then (icache s)(ip := loaded d s ip) else icache s) \<and>
    sb t = sb s \<and> mem t = mem s \<and> logst t = logst s \<and> fsys.more t = fsys.more s"
proof -
  have lf: "locks_free s" "on_cpu s" using assms(1) by (simp_all add: block_ok_def)
  obtain t where t: "sleeplock_acquire (served_sleep D) (SL_inode ip) s = Ret () t" "owns_sleep t (SL_inode ip)"
    "calm s t" "same_blocks s t" "\<forall>k. k \<noteq> SL_inode ip \<longrightarrow> sleeplk t k = sleeplk s k"
    using acquire_spec [OF lf(1) assms(6) lf(2)] by blast
  have kt: "block_keep d s t" using inode_lock_keeps [OF assms(1,2) t(3,4)] t(5) by blast
  have "disks.more t = disks.more s" using t(4) by (simp add: same_blocks_def)
  note et = upper_eq [OF this]
  show ?thesis
  proof (cases "i_valid (icache s ip) = 0")
    case False
    then have "inode_lock (served_sleep D) (Some ip) s = Ret () t"
      using t(1) et assms(7) by (simp add: inode_lock_def)
    then show ?thesis using False t et kt by auto
  next
    case True
    let ?n = "IBLOCK (i_inum (icache s ip)) (sb s)"
    have ok: "block_ok d t" "unlocked t" "room d t"
      using kt assms(3) by (simp_all add: block_keep_def room_def stuck_eq)
    let ?g = "upd_inode ip (get_dinode (view d t ?n) (dinode_at (i_inum (icache s ip))))"
    have g: "same_disks x (?g x)" for x by simp
    from with_block [OF ok assms(4) g, of ?n] obtain u b v where u:
      "block_read (served_sleep D) d ?n t = Ret (Some b) u" "disks.more u = disks.more t"
      "b_data (bufs u b) = view d t ?n" "block_release b (?g u) = Ret () v" "block_same d t v"
      "disks.more v = disks.more (?g u)" by blast
    note eu = upper_eq [OF u(2)] and ev = upper_eq [OF u(6)]
    let ?w = "upd_inode ip (i_valid_update (\<lambda>_. 1)) v"
    have run: "inode_lock (served_sleep D) (Some ip) s = Ret () ?w"
      using t(1) et assms(5,7) True u(1,3,4) eu by (simp add: inode_lock_def load_inode_def)
    have kw: "block_keep d s ?w"
      by (rule keep_upper [OF block_keep_trans [OF kt block_same_keep [OF u(5)]]]) simp
    have vt: "view d t = view d s" using kt by (simp add: block_keep_def)
    have "owns_sleep v (SL_inode ip)"
    proof -
      have "my_pid v = my_pid t"
        using block_sameD(1) [OF u(5)] ok(1) by (intro calm_my_pid) (simp_all add: block_ok_def)
      then show ?thesis using t(2) block_sameD(8) [OF u(5)] by (simp add: owns_sleep_def)
    qed
    then have "owns_sleep ?w (SL_inode ip)" using same_disks_block(12) [of v ?w] by simp
    moreover have "sleeplk ?w (SL_inode j) = sleeplk s (SL_inode j)" if "j \<noteq> ip" for j
      using that t(5) block_sameD(8) [OF u(5)] same_disksD(2) [of v ?w] by simp
    moreover have "icache ?w = (icache s)(ip := loaded d s ip)"
      using ev eu et vt by (simp add: loaded_def Let_def)
    ultimately show ?thesis using run kw True ev eu et by (intro exI [of _ ?w]) simp
  qed
qed

subsection \<open>Updating\<close>

text \<open>Every block recorded in the log is pinned.\<close>

definition log_pins :: "u32 \<Rightarrow> 'a logs_scheme \<Rightarrow> bool" where
  "log_pins d s \<longleftrightarrow> (\<forall>n. int_of_u32 n \<in> set (logged (logst s)) \<longrightarrow> refs d s n \<noteq> 0)"

text \<open>The block \<open>n\<close> gets the contents \<open>x\<close> inside a transaction: readers see it, the medium does
  not yet, and the block is recorded in the log.\<close>

definition block_changed :: "u32 \<Rightarrow> u32 \<Rightarrow> u8 list \<Rightarrow> 'a logs_scheme \<Rightarrow> 'a logs_scheme \<Rightarrow> bool" where
  "block_changed d n x s t \<longleftrightarrow> calm s t \<and> block_ok d t \<and> unlocked t \<and> view d t = (view d s)(n := x) \<and>
     dirty d t = dirty d s \<and> disk t = disk s \<and> log_ready t \<and> log_pins d t \<and>
     set (logged (logst t)) = insert (int_of_u32 n) (set (logged (logst s))) \<and>
     refs d t = (refs d s)(n := if int_of_u32 n \<in> set (logged (logst s)) then refs d s n else refs d s n + 1) \<and>
     (\<forall>j. sleeplk t (SL_inode j) = sleeplk s (SL_inode j)) \<and> outstanding (logst t) = outstanding (logst s) \<and>
     log_place (logst t) = log_place (logst s) \<and> logs.more t = logs.more s"

lemma change_logged_block:
  assumes "block_ok d s" "unlocked s" "room d s" "obeys_virtio D"
    and lg: "log_ready s" "log_pins d s" "log_accepts s n"
    and nz: "refs d s n + 2 \<noteq> 0" and lx: "length x = BSIZE"
  shows "\<exists>t b v y. block_read (served_sleep D) d n s = Ret (Some b) t \<and> disks.more t = disks.more s \<and>
    b_data (bufs t b) = view d s n \<and> log_write b (upd_buf b (b_data_update (\<lambda>_. x)) t) = Ret () v \<and>
    block_release b v = Ret () y \<and> block_changed d n x s y"
proof -
  have inv: "cache_inv d s" using assms(1) by (simp add: block_ok_def)
  have r: "card (stuck d s) < NBUF" "refs d s n + 1 \<noteq> 0" using assms(3) by (simp_all add: room_def)
  obtain t b where t: "block_read (served_sleep D) d n s = Ret (Some b) t" "only_buf b s t" "block_ok d t"
    "owned_buf d t n b" "view d t = view d s" "refs d t = (refs d s)(n := refs d s n + 1)"
    "dirty d t = dirty d s" "disk t = disk s"
    using read_spec [OF assms(1,4) unlockedD [OF assms(2) inv, of n] order_refl finite r] by blast
  have mt: "disks.more t = disks.more s" using t(2) by (simp add: only_buf_def)
  then have et: "logst t = logst s" "logs.more t = logs.more s" by (cases s; cases t; simp)+
  have old: "b_data (bufs t b) = view d s n" using owned_bufD(3) [OF t(4,3)] t(5) by simp
  let ?u = "upd_buf b (b_data_update (\<lambda>_. x)) t"
  have u: "block_ok d ?u" "only_buf b t ?u" "owned_buf d ?u n b" "view d ?u = (view d s)(n := x)"
    "refs d ?u = refs d t" "dirty d ?u = dirty d s" "disk ?u = disk s"
    using set_data_spec [OF t(3,4) lx] t(5,7,8) by simp_all
  have lu: "logst ?u = logst s" "logs.more ?u = logs.more s" using et by simp_all
  have "log_ready ?u" "log_accepts ?u n" using lg(1,3) lu by (simp_all add: log_ready_def log_accepts_def)
  moreover have "refs d ?u n + 1 \<noteq> 0" using u(5) t(6) nz by (simp add: add.assoc)
  ultimately obtain v where v: "log_write b ?u = Ret () v" "calm ?u v" "block_ok d v" "owned_buf d v n b"
    "view d v = view d ?u" "dirty d v = dirty d ?u" "disk v = disk ?u" "sleeplk v = sleeplk ?u" "log_ready v"
    "refs d v = (if int_of_u32 n \<in> set (logged (logst ?u)) then refs d ?u else (refs d ?u)(n := refs d ?u n + 1))"
    "set (logged (logst v)) = insert (int_of_u32 n) (set (logged (logst ?u)))" "logs.more v = logs.more ?u"
    "outstanding (logst v) = outstanding (logst ?u)" "log_place (logst v) = log_place (logst ?u)"
    using log_write_block [OF u(1,3)] by blast
  have rv: "refs d v n \<noteq> 1"
  proof
    assume e: "refs d v n = 1"
    show False
    proof (cases "int_of_u32 n \<in> set (logged (logst s))")
      case True
      then have "refs d s n \<noteq> 0" using lg(2) by (simp add: log_pins_def)
      then show False using e v(10) True lu u(5) t(6) by simp
    next
      case False
      then have "refs d s n + 2 = 1" using e v(10) lu u(5) t(6) by (simp add: add.assoc)
      then have "(refs d s n + 1) + 1 = 0 + 1" by (simp add: add.assoc)
      then have "refs d s n + 1 = 0" by (rule add_right_imp_eq)
      then show False using r(2) by blast
    qed
  qed
  then have last: "refs d v n = 1 \<Longrightarrow> view d v n = on_disk v n" by blast
  obtain y where y: "block_release b v = Ret () y" "only_buf b v y" "block_ok d y" "sleep_free y (SL_buf b)"
    "view d y = view d v" "refs d y = (refs d v)(n := refs d v n - 1)" "dirty d y = dirty d v" "disk y = disk v"
    using block_release_spec [OF v(3,4) last] by blast
  have "disks.more y = disks.more v" using y(2) by (simp add: only_buf_def)
  then have ey: "logst y = logst v" "logs.more y = logs.more v" by (cases v; cases y; simp)+
  have ul: "unlocked y"
    using assms(2) t(2) y(2,4) v(8) by (auto simp: unlocked_def only_buf_def sleep_free_def)
  have cs: "calm s t" "calm t ?u" "calm v y" using t(2) u(2) y(2) by (simp_all add: only_buf_def)
  have ca: "calm s y" using calm_trans [OF calm_trans [OF calm_trans [OF cs(1,2)] v(2)] cs(3)] .
  have ry: "refs d y = (refs d s)(n := if int_of_u32 n \<in> set (logged (logst s)) then refs d s n else refs d s n + 1)"
    using y(6) v(10) u(5) t(6) lu(1) by (auto split: if_splits)
  have ls: "set (logged (logst y)) = insert (int_of_u32 n) (set (logged (logst s)))" "log_ready y"
    using v(9,11) ey(1) lu by (simp_all add: log_ready_def)
  have pins: "log_pins d y"
    unfolding log_pins_def
  proof (intro allI impI)
    fix m assume m: "int_of_u32 m \<in> set (logged (logst y))"
    show "refs d y m \<noteq> 0"
    proof (cases "m = n")
      case True
      then show ?thesis using ry r(2) lg(2) by (simp add: log_pins_def)
    next
      case False
      then have "int_of_u32 m \<noteq> int_of_u32 n" using signed_word_eqI by (auto simp: int_of_u32_def)
      then have "int_of_u32 m \<in> set (logged (logst s))" using m ls by simp
      then show ?thesis using ry False lg(2) by (simp add: log_pins_def)
    qed
  qed
  have sl: "sleeplk y (SL_inode j) = sleeplk s (SL_inode j)" for j
    using t(2) y(2) v(8) by (simp add: only_buf_def)
  have "outstanding (logst y) = outstanding (logst s)" "log_place (logst y) = log_place (logst s)" "logs.more y = logs.more s"
    using v(12-14) ey lu by simp_all
  moreover have "view d y = (view d s)(n := x)" "dirty d y = dirty d s" "disk y = disk s"
    using y(5,7,8) v(5-7) u(4,6,7) by simp_all
  ultimately have "block_changed d n x s y"
    unfolding block_changed_def using ca y(3) ul ls pins ry sl by simp
  then show ?thesis using t(1) mt old v(1) y(1) by blast
qed

definition update_block :: "'a fsys_scheme \<Rightarrow> nat \<Rightarrow> u32" where
  "update_block s ip = IBLOCK (i_inum (icache s ip)) (sb s)"

lemma inode_update_spec:
  assumes "block_ok d s" "unlocked s" "room d s" "obeys_virtio D" "i_dev (icache s ip) = d"
    and lg: "log_ready s" "log_pins d s" "log_accepts s (update_block s ip)"
    and nz: "refs d s (update_block s ip) + 2 \<noteq> 0"
  shows "\<exists>t. inode_update (served_sleep D) ip s = Ret () t \<and> block_changed d (update_block s ip)
    (put_dinode (icache s ip) (dinode_at (i_inum (icache s ip))) (view d s (update_block s ip))) s t"
proof -
  let ?n = "update_block s ip"
  let ?x = "put_dinode (icache s ip) (dinode_at (i_inum (icache s ip))) (view d s ?n)"
  have "cache_inv d s" using assms(1) by (simp add: block_ok_def)
  then have lx: "length ?x = BSIZE" using view_length by simp
  obtain t b v y where t: "block_read (served_sleep D) d ?n s = Ret (Some b) t" "disks.more t = disks.more s"
    "b_data (bufs t b) = view d s ?n" "log_write b (upd_buf b (b_data_update (\<lambda>_. ?x)) t) = Ret () v"
    "block_release b v = Ret () y" "block_changed d ?n ?x s y"
    using change_logged_block [OF assms(1-4) lg nz lx] by blast
  have "inode_update (served_sleep D) ip s = Ret () y"
    using t(1,4,5) upd_data_const [OF t(3)] upper_eq [OF t(2)] assms(5)
    by (simp add: inode_update_def update_block_def Let_def)
  then show ?thesis using t(6) by blast
qed

end
