(* ===== verification/Inode_Files.thy ===== *)
theory Inode_Files
  imports Inode_Ops
begin

text \<open>Inodes through the disk: what is written to the block of an inode is what is loaded from it.\<close>

subsection \<open>A kernel with an inode\<close>

definition example_inode :: "u32 \<Rightarrow> int \<Rightarrow> int \<Rightarrow> inode" where
  "example_inode n r v =
     \<lparr>i_dev = 1, i_inum = n, i_ref = r, i_valid = v, i_type = 2, i_major = 0, i_minor = 0, i_nlink = 1,
      i_size = 1000, i_addrs = [40, 41, 42, 0, 0, 0, 0, 0, 0, 0, 0, 0, 0]\<rparr>"

text \<open>Slot 0 holds inode 9 loaded, slot 1 the same inode not yet loaded; the others are free.\<close>

definition example_icache :: "nat \<Rightarrow> inode" where
  "example_icache i =
     (if i = 0 then example_inode 9 1 1 else if i = 1 then example_inode 9 1 0 else example_inode 0 0 0)"

definition example_sb :: superblock where
  "example_sb = \<lparr>sb_magic = 0, sb_size = 1000, sb_nblocks = 900, sb_ninodes = 200, sb_nlog = 30,
     sb_logstart = 2, sb_inodestart = 32, sb_bmapstart = 58\<rparr>"

definition inode_kernel :: "'a \<Rightarrow> 'a fsys_scheme" where
  "inode_kernel m = cached_kernel (\<lparr>icache = example_icache, sb = example_sb, mem = (\<lambda>_. 0), \<dots> = m\<rparr>)"

lemma inode_kernel_upper:
  "logst (inode_kernel m) = empty_log" "icache (inode_kernel m) = example_icache"
  "sb (inode_kernel m) = example_sb" "mem (inode_kernel m) = (\<lambda>_. 0)" "fsys.more (inode_kernel m) = m"
proof -
  let ?m = "\<lparr>icache = example_icache, sb = example_sb, mem = (\<lambda>_. 0), \<dots> = m\<rparr>"
  have "disks.more (inode_kernel m) = disks.more (disk_kernel ?m :: 'a fsys_scheme)"
    unfolding inode_kernel_def cached_kernel_def
    using buf_cache_init_spec(7) [OF disk_kernel_zeroed [of ?m], of 1] by simp
  note u = upper_eq [OF this]
  show "logst (inode_kernel m) = empty_log" "icache (inode_kernel m) = example_icache"
    "sb (inode_kernel m) = example_sb" "mem (inode_kernel m) = (\<lambda>_. 0)" "fsys.more (inode_kernel m) = m"
    using u by (simp_all add: disk_kernel_def)
qed

lemma inode_kernel_block:
  "block_ok 1 (inode_kernel m)" "unlocked (inode_kernel m)" "room 1 (inode_kernel m)"
  "stuck 1 (inode_kernel m) = {}" "refs 1 (inode_kernel m) n = 0"
  "view 1 (inode_kernel m) n = example_sector (ucast n)"
proof -
  let ?m = "\<lparr>icache = example_icache, sb = example_sb, mem = (\<lambda>_. 0), \<dots> = m\<rparr>"
  note c = cached_kernel_facts [of ?m, folded inode_kernel_def]
  show "block_ok 1 (inode_kernel m)" "unlocked (inode_kernel m)" "stuck 1 (inode_kernel m) = {}" by (rule c)+
  show r: "refs 1 (inode_kernel m) n = 0" for n using c(3) by (auto simp: stuck_eq)
  show "room 1 (inode_kernel m)" using c(3) r by (simp add: room_def NBUF_def)
  show "view 1 (inode_kernel m) n = example_sector (ucast n)" using c(4,5) by simp
qed


subsection \<open>The table of cached inodes\<close>

text \<open>An inode of a device has at most one slot in use.\<close>

definition holds :: "'a fsys_scheme \<Rightarrow> u32 \<Rightarrow> u32 \<Rightarrow> nat \<Rightarrow> bool" where
  "holds s dev inum i \<longleftrightarrow> i_ref (icache s i) > 0 \<and> i_dev (icache s i) = dev \<and> i_inum (icache s i) = inum"

definition icache_ok :: "'a fsys_scheme \<Rightarrow> bool" where
  "icache_ok s \<longleftrightarrow> (\<forall>i < NINODE. 0 \<le> i_ref (icache s i)) \<and>
     (\<forall>dev inum. \<forall>i < NINODE. \<forall>j < NINODE. holds s dev inum i \<longrightarrow> holds s dev inum j \<longrightarrow> i = j)"

lemma icache_okD:
  assumes "icache_ok s" "i < NINODE"
  shows "0 \<le> i_ref (icache s i)" "j < NINODE \<Longrightarrow> holds s dev inum i \<Longrightarrow> holds s dev inum j \<Longrightarrow> i = j"
  using assms by (auto simp: icache_ok_def)

lemma icache_critical:
  assumes "spinlock_held LK_icache s = 0"
  shows "spinlock_release LK_icache (upd_inode i f (intr_off (set_locked LK_icache 1 s))) = Ret () (upd_inode i f (intr_on s))"
    "spinlock_release LK_icache (intr_off (set_locked LK_icache 1 s)) = Ret () (intr_on s)"
proof -
  have "(spin s)(LK_icache := (spin s LK_icache)\<lparr>locked := 0\<rparr>) = spin s"
    using assms by (intro ext, cases "spin s LK_icache") (simp add: spinlock_held_def)
  then show "spinlock_release LK_icache (intr_off (set_locked LK_icache 1 s)) = Ret () (intr_on s)"
    "spinlock_release LK_icache (upd_inode i f (intr_off (set_locked LK_icache 1 s))) = Ret () (upd_inode i f (intr_on s))"
    by (simp_all add: spinlock_release_def upd_inode_def intr_on_def intr_off_def set_locked_def spinlock_held_def)
qed

text \<open>C29: \<open>inode_get\<close> keeps the cache free of duplicates: an inode that has a slot in use is found there
  and gets one more reference; otherwise a free slot is named after it, with one reference and
  not loaded; \<open>NULL\<close> is the answer exactly when the inode is not cached and no slot is
  free, and then nothing changes. No other slot changes, and the lock is free again.\<close>

theorem inode_get_unique:
  assumes "spinlock_held LK_icache s = 0" "icache_ok s"
  shows "\<exists>r t. inode_get dev inum s = Ret r t \<and> icache_ok t \<and> same_disks (intr_on s) t \<and> logst t = logst s \<and>
    (case r of
       None \<Rightarrow> t = intr_on s \<and> (\<forall>i < NINODE. i_ref (icache s i) > 0 \<and> \<not> holds s dev inum i)
     | Some i \<Rightarrow> i < NINODE \<and> holds t dev inum i \<and> (\<forall>j. j \<noteq> i \<longrightarrow> icache t j = icache s j) \<and>
         (if holds s dev inum i then icache t i = i_ref_update (\<lambda>r. r + 1) (icache s i)
          else i_ref (icache s i) = 0 \<and> i_ref (icache t i) = 1 \<and> i_valid (icache t i) = 0 \<and>
            (\<forall>j < NINODE. \<not> holds s dev inum j)))"
proof -
  let ?P = "holds s dev inum" and ?s1 = "intr_off (set_locked LK_icache 1 s)"
  have acq: "spinlock_acquire LK_icache s = Ret () ?s1" using assms(1) by (simp add: acquire_eq)
  note rel = icache_critical [OF assms(1)]
  have ic: "icache ?s1 = icache s" "icache (intr_on s) = icache s" "logst (intr_on s) = logst s"
    by (simp_all add: intr_off_def intr_on_def set_locked_def)
  have run: "inode_get dev inum s = (case scan_from ?P 0 NINODE of
      Some i \<Rightarrow> Ret (Some i) (upd_inode i (i_ref_update (\<lambda>r. r + 1)) (intr_on s))
    | None \<Rightarrow> (case scan_from (\<lambda>i. i_ref (icache s i) = 0) 0 NINODE of None \<Rightarrow> Ret None (intr_on s)
        | Some i \<Rightarrow> Ret (Some i) (upd_inode i (\<lambda>p. p\<lparr>i_dev := dev, i_inum := inum, i_ref := 1, i_valid := 0\<rparr>) (intr_on s))))"
    using rel by (simp add: inode_get_def acq ic holds_def [abs_def] split: option.split)
  show ?thesis
  proof (cases "scan_from ?P 0 NINODE")
    case (Some i)
    note i = scan_from_SomeD [OF Some]
    let ?t = "upd_inode i (i_ref_update (\<lambda>r. r + 1)) (intr_on s)"
    have h: "holds ?t d n j = holds s d n j" if "j < NINODE" for d n j
      using i that icache_okD(1) [OF assms(2), of j] by (auto simp: holds_def ic)
    have "icache_ok ?t"
      using assms(2) h i unfolding icache_ok_def by (auto simp: ic)
    then show ?thesis using run Some i h [of i] by (auto simp: ic)
  next
    case None
    then have no: "\<forall>j < NINODE. \<not> ?P j" using scan_from_None_iff [of ?P 0 NINODE] by simp
    show ?thesis
    proof (cases "scan_from (\<lambda>i. i_ref (icache s i) = 0) 0 NINODE")
      case N: None
      then have "\<forall>j < NINODE. i_ref (icache s j) \<noteq> 0"
        using scan_from_None_iff [of "\<lambda>i. i_ref (icache s i) = 0" 0 NINODE] by simp
      then have "\<forall>j < NINODE. i_ref (icache s j) > 0" using icache_okD(1) [OF assms(2)] by (simp add: order_less_le)
      moreover have "icache_ok (intr_on s)" using assms(2) by (simp add: icache_ok_def holds_def ic)
      ultimately show ?thesis using run None N no by (auto simp: ic)
    next
      case (Some i)
      note i = scan_from_SomeD [OF Some]
      let ?t = "upd_inode i (\<lambda>p. p\<lparr>i_dev := dev, i_inum := inum, i_ref := 1, i_valid := 0\<rparr>) (intr_on s)"
      have h: "holds ?t d n j \<longleftrightarrow> j = i \<and> d = dev \<and> n = inum \<or> j \<noteq> i \<and> holds s d n j" for d n j
        by (auto simp: holds_def ic)
      have "icache_ok ?t"
        unfolding icache_ok_def h using no icache_okD [OF assms(2)] by (auto simp: ic)
      then show ?thesis using run None Some i no h [of dev inum i] by (auto simp: ic)
    qed
  qed
qed

theorem inode_get_unique_witness:
  "\<exists>(i :: nat) (u :: fsys). inode_get 1 9 ((inode_kernel ())\<lparr>icache := \<lambda>_. example_inode 0 0 0\<rparr>) = Ret (Some i) u \<and>
     holds u 1 9 i \<and> i_ref (icache u i) = 1"
proof -
  let ?s = "(inode_kernel ())\<lparr>icache := \<lambda>_. example_inode 0 0 0\<rparr>"
  have "spinlock_held LK_icache (inode_kernel ()) = 0"
    using inode_kernel_block(1) [of "()"] by (auto simp: block_ok_def dest: locks_freeD)
  then have h: "spinlock_held LK_icache ?s = 0" by (simp add: spinlock_held_def)
  have "icache_ok ?s" by (simp add: icache_ok_def holds_def example_inode_def)
  note g = inode_get_unique [OF h this, of 1 9]
  have z: "\<not> (\<forall>i < NINODE. i_ref (icache ?s i) > 0 \<and> \<not> holds ?s 1 9 i)" "\<not> holds ?s 1 9 i" for i
    by (auto simp: example_inode_def NINODE_def holds_def intro: exI [of _ 0])
  from g show ?thesis
  proof (elim exE conjE)
    fix r t
    assume t: "inode_get 1 9 ?s = Ret r t"
      and r: "case r of None \<Rightarrow> t = intr_on ?s \<and> (\<forall>i < NINODE. i_ref (icache ?s i) > 0 \<and> \<not> holds ?s 1 9 i)
        | Some i \<Rightarrow> i < NINODE \<and> holds t 1 9 i \<and> (\<forall>j. j \<noteq> i \<longrightarrow> icache t j = icache ?s j) \<and>
           (if holds ?s 1 9 i then icache t i = i_ref_update (\<lambda>r. r + 1) (icache ?s i)
            else i_ref (icache ?s i) = 0 \<and> i_ref (icache t i) = 1 \<and> i_valid (icache t i) = 0 \<and>
              (\<forall>j < NINODE. \<not> holds ?s 1 9 j))"
    obtain i where i: "r = Some i" using r z(1) by (cases r) simp_all
    then have "holds t 1 9 i" "i_ref (icache t i) = 1" using r z(2) [of i] by simp_all
    then show ?thesis using t unfolding i by (intro exI [of _ i] exI [of _ t] conjI)
  qed
qed

subsection \<open>Writing and loading an inode\<close>

text \<open>\<open>put_dinode\<close> changes the 64 bytes of one inode only.\<close>

lemma put_dinode_other:
  assumes "j < k \<or> k + 64 \<le> j"
  shows "put_dinode ip k x ! j = x ! j"
proof -
  have "fold (\<lambda>i x. put32 x (k + 12 + 4 * i) (f i)) [0..<n] x ! j = x ! j" if "n \<le> 13" for f n and x :: "u8 list"
    using that
  proof (induction n)
    case (Suc n)
    then have "j \<notin> {k + 12 + 4 * n, k + 12 + 4 * n + 1, k + 12 + 4 * n + 2, k + 12 + 4 * n + 3}"
      using assms by auto
    then show ?case using Suc by (simp add: put32_def)
  qed simp
  from this [of "NDIRECT + 1" "(!) (i_addrs ip)"] show ?thesis
    using assms by (auto simp: put_dinode_def NDIRECT_def put16_def put32_def)
qed

lemma get_dinode_cong:
  assumes "\<And>j. k \<le> j \<Longrightarrow> j < k + 64 \<Longrightarrow> x ! j = y ! j"
  shows "get_dinode x k p = get_dinode y k p"
  unfolding get_dinode_def get16_def get32_def using assms by (simp add: NDIRECT_def)

lemma dinode_at_apart:
  assumes "m mod IPB \<noteq> n mod IPB"
  shows "dinode_at m + 64 \<le> dinode_at n \<or> dinode_at n + 64 \<le> dinode_at m"
proof -
  have "unat (m mod IPB) \<noteq> unat (n mod IPB)" using assms unsigned_word_eqI by blast
  then show ?thesis unfolding dinode_at_def by linarith
qed

lemma same_fields_upd [simp]:
  "same_fields (p\<lparr>i_valid := v\<rparr>) q = same_fields p q" "same_fields p p"
  by (simp_all add: same_fields_def)

text \<open>C32: What \<open>inode_update\<close> writes for an inode is what \<open>inode_lock\<close> loads: after the update of a
  cached inode, locking another slot of the cache that stands for the same inode and is not
  loaded yet gives it exactly the type, the device numbers, the link count, the size and
  the block list of the first. The update records the block of the inode in the log, and every
  other inode of that block, and every other block of the disk, reads as before.\<close>

theorem inode_update_lock_roundtrip:
  assumes "block_ok d s" "unlocked s" "room d s" "obeys_virtio D" "i_dev (icache s ip) = d"
    and "log_ready s" "log_pins d s" "log_accepts s (update_block s ip)"
    and "refs d s (update_block s ip) + 2 \<noteq> 0" "card (insert (update_block s ip) (stuck d s)) < NBUF"
    and "length (i_addrs (icache s ip)) = NDIRECT + 1"
    and "i_dev (icache s jp) = d" "i_inum (icache s jp) = i_inum (icache s ip)" "i_valid (icache s jp) = 0"
      "1 \<le> i_ref (icache s jp)" "sleep_free s (SL_inode jp)"
  shows "\<exists>t u. inode_update (served_sleep D) ip s = Ret () t \<and>
    int_of_u32 (update_block s ip) \<in> set (logged (logst t)) \<and>
    inode_lock (served_sleep D) (Some jp) t = Ret () u \<and> owns_sleep u (SL_inode jp) \<and>
    same_fields (icache u jp) (icache s ip) \<and> i_valid (icache u jp) = 1 \<and>
    (\<forall>n. n \<noteq> update_block s ip \<longrightarrow> view d u n = view d s n) \<and>
    (\<forall>m p. IBLOCK m (sb s) = update_block s ip \<longrightarrow> m mod IPB \<noteq> i_inum (icache s ip) mod IPB \<longrightarrow>
      get_dinode (view d u (IBLOCK m (sb s))) (dinode_at m) p = get_dinode (view d s (IBLOCK m (sb s))) (dinode_at m) p)"
proof -
  let ?n = "update_block s ip" and ?k = "dinode_at (i_inum (icache s ip))"
  let ?x = "put_dinode (icache s ip) ?k (view d s ?n)"
  have inv: "cache_inv d s" using assms(1) by (simp add: block_ok_def)
  obtain t where run: "inode_update (served_sleep D) ip s = Ret () t" and ch: "block_changed d ?n ?x s t"
    using inode_update_spec [OF assms(1-9)] by blast
  have t: "block_ok d t" "unlocked t" "view d t = (view d s)(?n := ?x)" "dirty d t = dirty d s"
    "set (logged (logst t)) = insert (int_of_u32 ?n) (set (logged (logst s)))"
    "refs d t = (refs d s)(?n := if int_of_u32 ?n \<in> set (logged (logst s)) then refs d s ?n else refs d s ?n + 1)"
    "\<forall>j. sleeplk t (SL_inode j) = sleeplk s (SL_inode j)" "logs.more t = logs.more s"
    using ch by (simp_all add: block_changed_def)
  note up = upper_eq_more [OF t(8)]
  have "stuck d t \<subseteq> insert ?n (stuck d s)" using t(4,6) by (auto simp: stuck_eq split: if_splits)
  then have "card (stuck d t) \<le> card (insert ?n (stuck d s))" by (intro card_mono) simp_all
  moreover have "refs d t n + 1 \<noteq> 0" for n
    using t(6) assms(3,9) by (cases "n = ?n") (simp_all add: room_def add.assoc)
  ultimately have rt: "room d t" using assms(10) by (simp add: room_def)
  have jt: "i_dev (icache t jp) = d" "sleep_free t (SL_inode jp)" "1 \<le> i_ref (icache t jp)"
    using assms(12,15,16) t(7) up(1) by (simp_all add: sleep_free_def)
  obtain u where u: "inode_lock (served_sleep D) (Some jp) t = Ret () u" "block_keep d t u"
    "owns_sleep u (SL_inode jp)"
    "icache u = (if i_valid (icache t jp) = 0 then (icache t)(jp := loaded d t jp) else icache t)"
    using inode_lock_spec [OF t(1,2) rt assms(4) jt] by blast
  have vu: "view d u = view d t" using u(2) by (simp add: block_keep_def)
  have at: "IBLOCK (i_inum (icache t jp)) (sb t) = ?n" "dinode_at (i_inum (icache t jp)) = ?k"
    using assms(13) up(1,2) by (simp_all add: update_block_def)
  have "?k + 64 \<le> length (view d s ?n)" using dinode_fits view_length [OF inv] by simp
  note g = get_put_dinode [OF this assms(11)]
  have "icache u jp = (get_dinode ?x ?k (icache s jp))\<lparr>i_valid := 1\<rparr>"
    using u(4) assms(14) at t(3) up(1) by (simp add: loaded_def Let_def)
  then have "same_fields (icache u jp) (icache s ip)" "i_valid (icache u jp) = 1" using g by simp_all
  moreover have "get_dinode (view d u ?n) (dinode_at m) p = get_dinode (view d s ?n) (dinode_at m) p"
    if "m mod IPB \<noteq> i_inum (icache s ip) mod IPB" for m p
    using dinode_at_apart [OF that] vu t(3) by (intro get_dinode_cong) (auto simp: put_dinode_other)
  ultimately show ?thesis using run t(3,5) u(1,3) vu by (intro exI [of _ t] exI [of _ u]) auto
qed

theorem inode_update_lock_roundtrip_witness:
  "\<exists>s t u :: fsys. inode_update (served_sleep virtio_blk) 0 s = Ret () t \<and>
     inode_lock (served_sleep virtio_blk) (Some 1) t = Ret () u \<and>
     i_size (icache s 1) = 77 \<and> i_size (icache u 1) = 1000"
proof -
  let ?k = "inode_kernel ()"
  let ?s = "upd_inode 1 (i_size_update (\<lambda>_. 77)) (upd_log (outstanding_update (\<lambda>_. 1)) ?k)"
  note u = inode_kernel_upper [of "()"] and b = inode_kernel_block [of "()"]
  have sd: "same_disks ?k ?s" by (rule same_disks_trans [of _ "upd_log (outstanding_update (\<lambda>_. 1)) ?k"]) simp_all
  note e = same_disks_block [OF sd]
  have ic: "icache ?s = example_icache(1 := example_inode 9 1 0\<lparr>i_size := 77\<rparr>)"
    by (simp add: u upd_log_def example_icache_def)
  have lg: "logst ?s = empty_log\<lparr>outstanding := 1\<rparr>" "sb ?s = example_sb" by (simp_all add: u upd_log_def)
  have r: "refs 1 ?s n = 0" "stuck 1 ?s = {}" for n using b(4,5) e(4,7) by simp_all
  have lr: "log_ready ?s" "log_pins 1 ?s" "log_accepts ?s (update_block ?s 0)"
    by (simp_all add: lg u upd_log_def log_ready_def log_pins_def log_accepts_def logged_def empty_log_def LOGSIZE_def)
  have rm: "room 1 ?s" using r by (simp add: room_def NBUF_def)
  have st: "refs 1 ?s (update_block ?s 0) + 2 \<noteq> 0" "card (insert (update_block ?s 0) (stuck 1 ?s)) < NBUF"
    unfolding r by (simp_all add: NBUF_def)
  have "sleep_free ?k (SL_inode 1)"
    unfolding inode_kernel_def cached_kernel_def
    by (rule buf_cache_init_locks) (simp add: sleep_free_def disk_kernel_def)
  then have sl: "sleep_free ?s (SL_inode 1)" using e(11) by blast
  have f: "i_dev (icache ?s 0) = 1" "length (i_addrs (icache ?s 0)) = NDIRECT + 1" "i_dev (icache ?s 1) = 1"
    "i_inum (icache ?s 1) = i_inum (icache ?s 0)" "i_valid (icache ?s 1) = 0" "1 \<le> i_ref (icache ?s 1)"
    unfolding ic by (simp_all add: example_icache_def example_inode_def NDIRECT_def)
  have ok: "block_ok 1 ?s" "unlocked ?s" using b(1,2) e(1,2) by blast+
  obtain t u where t: "inode_update (served_sleep virtio_blk) 0 ?s = Ret () t"
    "inode_lock (served_sleep virtio_blk) (Some 1) t = Ret () u" "same_fields (icache u 1) (icache ?s 0)"
    using inode_update_lock_roundtrip [OF ok rm virtio_blk_obeys f(1) lr st f(2-6) sl] by blast
  moreover have "i_size (icache ?s 0) = 1000" "i_size (icache ?s 1) = 77"
    unfolding ic by (simp_all add: example_icache_def example_inode_def)
  ultimately show ?thesis using t(3) by (intro exI [of _ ?s] exI [of _ t] exI [of _ u]) (simp only: same_fields_def)
qed

end
