(* ===== verification/Pipe.thy ===== *)
theory Pipe
  imports Byte_Queue Inode_Files
begin

text \<open>
  \<open>kernel/fs/pipe.c\<close> and the data of \<open>kernel/fs/file.h\<close>. A \<open>struct pipe *\<close> is the virtual
  address of the page that holds the pipe, \<open>pipe_at\<close> the pipes by address; a
  \<open>struct file *\<close> is an index into \<open>ftable.file\<close>, \<open>None\<close> is NULL. The C \<open>char\<close> of a
  buffer is its byte. The caller's buffer is in \<open>mem\<close>, apart from the pages of pipes.
\<close>

definition PIPESIZE :: nat where "PIPESIZE = 512"
definition NFILE :: nat where "NFILE = 100"

record pipe =
  p_data :: "u8 list"
  nread :: u32
  nwrite :: u32
  readopen :: int
  writeopen :: int

definition FD_NONE :: int where "FD_NONE = 0"
definition FD_PIPE :: int where "FD_PIPE = 1"
definition FD_INODE :: int where "FD_INODE = 2"
definition FD_DEVICE :: int where "FD_DEVICE = 3"

record ofile =
  f_type :: int
  f_ref :: int
  readable :: bool
  writable :: bool
  f_pipe :: u64
  f_ip :: "nat option"
  f_off :: u32
  f_major :: u16

record files = fsys +
  ftable :: "nat \<Rightarrow> ofile"
  pipe_at :: "u64 \<Rightarrow> pipe"

definition upd_pipe :: "u64 \<Rightarrow> (pipe \<Rightarrow> pipe) \<Rightarrow> 'a files_scheme \<Rightarrow> 'a files_scheme" where
  "upd_pipe a f s = s\<lparr>pipe_at := (pipe_at s)(a := f (pipe_at s a))\<rparr>"

definition upd_file :: "nat \<Rightarrow> (ofile \<Rightarrow> ofile) \<Rightarrow> 'a files_scheme \<Rightarrow> 'a files_scheme" where
  "upd_file i f s = s\<lparr>ftable := (ftable s)(i := f (ftable s i))\<rparr>"

subsection \<open>One byte\<close>

text \<open>\<open>data[nwrite++ % PIPESIZE] = x\<close> and \<open>x = data[nread++ % PIPESIZE]\<close>.\<close>

definition pipe_put :: "u8 \<Rightarrow> pipe \<Rightarrow> pipe" where
  "pipe_put x p = p\<lparr>p_data := (p_data p)[unat (nwrite p mod of_nat PIPESIZE) := x], nwrite := nwrite p + 1\<rparr>"

definition pipe_get :: "pipe \<Rightarrow> u8 \<times> pipe" where
  "pipe_get p = (p_data p ! unat (nread p mod of_nat PIPESIZE), p\<lparr>nread := nread p + 1\<rparr>)"

subsection \<open>The operations\<close>

definition pipe_close :: "u64 \<Rightarrow> bool \<Rightarrow> 'a files_scheme \<Rightarrow> (unit, 'a files_scheme) outcome" where
  "pipe_close a w s =
     bind_out (spinlock_acquire (LK_pipe a) s) (\<lambda>_ s1.
     let s2 = (if w then wakeup (CH_nread a) (upd_pipe a (writeopen_update (\<lambda>_. 0)) s1)
               else wakeup (CH_nwrite a) (upd_pipe a (readopen_update (\<lambda>_. 0)) s1))
     in if readopen (pipe_at s2 a) = 0 \<and> writeopen (pipe_at s2 a) = 0 then
          bind_out (spinlock_release (LK_pipe a) s2) (\<lambda>_ s3.
          Ret () (free_physical_page (virt_to_phys a) s3))
        else spinlock_release (LK_pipe a) s2)"

text \<open>The inner loop of \<open>pipe_write\<close>: \<open>True\<close> when there is room, \<open>False\<close> (with the lock given
  back) when nobody can read any more.\<close>

definition wait_for_room :: "'a files_scheme sleeper \<Rightarrow> u64 \<Rightarrow> 'a files_scheme \<Rightarrow> (bool, 'a files_scheme) outcome" where
  "wait_for_room slp a s =
     loop_out (\<lambda>_ s.
       if nwrite (pipe_at s a) \<noteq> nread (pipe_at s a) + of_nat PIPESIZE then Ret (Inr True) s
       else if readopen (pipe_at s a) = 0 then
         bind_out (spinlock_release (LK_pipe a) s) (\<lambda>_ s1. Ret (Inr False) s1)
       else bind_out (slp (CH_nwrite a) (LK_pipe a) (wakeup (CH_nread a) s)) (\<lambda>_ s1. Ret (Inl ()) s1)) () s"

definition pipe_write :: "'a files_scheme sleeper \<Rightarrow> u64 \<Rightarrow> u64 \<Rightarrow> int \<Rightarrow> 'a files_scheme \<Rightarrow>
    (int, 'a files_scheme) outcome" where
  "pipe_write slp a addr n s =
     bind_out (spinlock_acquire (LK_pipe a) s) (\<lambda>_ s1.
     bind_out (loop_out (\<lambda>i s.
         if \<not> i < n then Ret (Inr True) s
         else
           bind_out (wait_for_room slp a s) (\<lambda>room s1.
           if \<not> room then Ret (Inr False) s1
           else Ret (Inl (i + 1)) (upd_pipe a (pipe_put (mem s1 (addr + word_of_int i))) s1))) 0 s1) (\<lambda>done_all s2.
     if \<not> done_all then Ret (- 1) s2
     else bind_out (spinlock_release (LK_pipe a) (wakeup (CH_nread a) s2)) (\<lambda>_ s3. Ret n s3)))"

definition pipe_read :: "'a files_scheme sleeper \<Rightarrow> u64 \<Rightarrow> u64 \<Rightarrow> int \<Rightarrow> 'a files_scheme \<Rightarrow>
    (int, 'a files_scheme) outcome" where
  "pipe_read slp a addr n s =
     bind_out (spinlock_acquire (LK_pipe a) s) (\<lambda>_ s1.
     bind_out (while_out (\<lambda>s. nread (pipe_at s a) = nwrite (pipe_at s a) \<and> writeopen (pipe_at s a) \<noteq> 0)
        (slp (CH_nread a) (LK_pipe a)) s1) (\<lambda>_ s2.
     bind_out (loop_out (\<lambda>i s.
         if \<not> (i < n \<and> nread (pipe_at s a) < nwrite (pipe_at s a)) then Ret (Inr i) s
         else (case pipe_get (pipe_at s a) of (x, p) \<Rightarrow>
           Ret (Inl (i + 1)) (upd_mem (\<lambda>m. m(addr + word_of_int i := x)) (upd_pipe a (\<lambda>_. p) s)))) 0 s2) (\<lambda>i s3.
     bind_out (spinlock_release (LK_pipe a) (wakeup (CH_nwrite a) s3)) (\<lambda>_ s4. Ret i s4))))"

end
