(* ===== verification/Pipe_Props.thy ===== *)
theory Pipe_Props
  imports Pipe
begin

text \<open>A pipe is a queue of bytes: the ring buffer refines \<open>byte_queue\<close>, and the calls of a writer
  and of a reader are its runs.\<close>

subsection \<open>The ring buffer\<close>

definition contents :: "pipe \<Rightarrow> u8 list" where
  "contents p = map (\<lambda>k. p_data p ! ((unat (nread p) + k) mod PIPESIZE)) [0..<unat (nwrite p - nread p)]"

definition pipe_ok :: "pipe \<Rightarrow> bool" where
  "pipe_ok p \<longleftrightarrow> length (p_data p) = PIPESIZE \<and> unat (nwrite p - nread p) \<le> PIPESIZE"

lemma ring_index: "unat ((w + of_nat k) mod of_nat PIPESIZE :: u32) = (unat w + k) mod PIPESIZE"
proof -
  have "unat (w + of_nat k) mod 512 = (unat w + k) mod 512"
    by (simp add: unat_word_ariths unat_of_nat mod_mod_cancel take_bit_eq_mod mod_add_right_eq)
  then show ?thesis by (simp add: PIPESIZE_def unat_mod)
qed

lemma ring_apart: "k < l \<Longrightarrow> l < PIPESIZE \<Longrightarrow> (r + k) mod PIPESIZE \<noteq> (r + l) mod PIPESIZE"
proof
  assume "k < l" "l < PIPESIZE" "(r + k) mod PIPESIZE = (r + l) mod PIPESIZE"
  then have "PIPESIZE dvd (r + l) - (r + k)" by (metis mod_eq_dvd_iff_nat nat_add_left_cancel_le less_imp_le)
  then show False using \<open>k < l\<close> \<open>l < PIPESIZE\<close> by (auto dest: dvd_imp_le)
qed

lemma contents_length [simp]: "length (contents p) = unat (nwrite p - nread p)"
  by (simp add: contents_def)

lemma put_spec:
  assumes "pipe_ok p" "length (contents p) < PIPESIZE"
  shows "contents (pipe_put x p) = contents p @ [x] \<and> pipe_ok (pipe_put x p)"
proof -
  let ?l = "unat (nwrite p - nread p)"
  have l: "?l < PIPESIZE" using assms(2) by simp
  have "nwrite p + 1 - nread p = (nwrite p - nread p) + 1" by simp
  moreover have "unat ((nwrite p - nread p) + 1) = Suc ?l"
    using l by (simp add: unat_word_ariths PIPESIZE_def)
  ultimately have n: "unat (nwrite p + 1 - nread p) = Suc ?l" by metis
  have i: "unat (nwrite p mod of_nat PIPESIZE) = (unat (nread p) + ?l) mod PIPESIZE"
    using ring_index [of "nread p" ?l] by simp
  have "(unat (nread p) + ?l) mod PIPESIZE < length (p_data p)"
    using assms(1) by (simp add: pipe_ok_def PIPESIZE_def)
  moreover have "(p_data p)[(unat (nread p) + ?l) mod PIPESIZE := x] ! ((unat (nread p) + k) mod PIPESIZE) =
      p_data p ! ((unat (nread p) + k) mod PIPESIZE)" if "k < ?l" for k
    using ring_apart [OF that l, of "unat (nread p)"] by simp
  ultimately show ?thesis
    using assms(1) l n by (auto simp: contents_def pipe_put_def pipe_ok_def i intro!: map_cong)
qed

lemma get_spec:
  assumes "pipe_ok p" "contents p = x # xs"
  shows "fst (pipe_get p) = x \<and> contents (snd (pipe_get p)) = xs \<and> pipe_ok (snd (pipe_get p))"
proof -
  let ?l = "unat (nwrite p - nread p)"
  have l: "?l \<noteq> 0" using arg_cong [OF assms(2), of length] by simp
  have "unat ((nwrite p - nread p) - 1) = ?l - 1" using l by (intro unat_minus_one) auto
  then have n: "unat (nwrite p - (nread p + 1)) = ?l - 1" by (simp add: diff_diff_eq)
  have "unat (nread p mod of_nat PIPESIZE) = unat (nread p) mod PIPESIZE"
    using ring_index [of "nread p" 0] by simp
  moreover have x: "x = p_data p ! (unat (nread p) mod PIPESIZE)"
    using l arg_cong [OF assms(2), of hd] by (simp add: contents_def hd_map)
  moreover have "(unat (nread p + 1) + k) mod PIPESIZE = (unat (nread p) + Suc k) mod PIPESIZE" for k
    using ring_index [of "nread p + 1" k] ring_index [of "nread p" "Suc k"] by (simp add: add.assoc)
  moreover have "xs = map (\<lambda>k. p_data p ! ((unat (nread p) + Suc k) mod PIPESIZE)) [0..<?l - 1]"
  proof (rule nth_equalityI)
    have "xs = tl (contents p)" using assms(2) by simp
    then show "length xs = length (map (\<lambda>k. p_data p ! ((unat (nread p) + Suc k) mod PIPESIZE)) [0..<?l - 1])"
      "i < length xs \<Longrightarrow> xs ! i = map (\<lambda>k. p_data p ! ((unat (nread p) + Suc k) mod PIPESIZE)) [0..<?l - 1] ! i" for i
      by (simp_all add: nth_tl contents_def less_diff_conv)
  qed
  ultimately show ?thesis
    using assms(1) n by (simp add: contents_def pipe_get_def pipe_ok_def le_diff_conv)
qed

interpretation pq: byte_queue contents PIPESIZE pipe_put pipe_get pipe_ok
  by unfold_locales (simp_all add: put_spec get_spec, simp add: pipe_ok_def)

subsection \<open>The calls\<close>

lemma upd_pipe_sel [simp]:
  "pipe_at (upd_pipe a f s) = (pipe_at s)(a := f (pipe_at s a))" "ftable (upd_pipe a f s) = ftable s"
  "mem (upd_pipe a f s) = mem s" "icache (upd_pipe a f s) = icache s" "sb (upd_pipe a f s) = sb s"
  "logst (upd_pipe a f s) = logst s" "spin (upd_pipe a f s) = spin s" "proc_table (upd_pipe a f s) = proc_table s"
  "current_process (upd_pipe a f s) = current_process s" "spinlock_held l (upd_pipe a f s) = spinlock_held l s"
  "files.more (upd_pipe a f s) = files.more s" "same_disks s (upd_pipe a f s)"
  by (simp_all add: upd_pipe_def spinlock_held_def same_disks_def disks.truncate_def)

lemma upd_pipe_twice [simp]: "upd_pipe a g (upd_pipe a f s) = upd_pipe a (g \<circ> f) s"
  by (simp add: upd_pipe_def)

lemma critical_files [simp]:
  "pipe_at (set_locked l v s) = pipe_at s" "ftable (set_locked l v s) = ftable s" "mem (set_locked l v s) = mem s"
  "pipe_at (intr_off s) = pipe_at s" "ftable (intr_off s) = ftable s" "mem (intr_off s) = mem s"
  "pipe_at (intr_on s) = pipe_at s" "ftable (intr_on s) = ftable s" "mem (intr_on s) = mem s"
  "pipe_at (wakeup c s) = pipe_at s" "ftable (wakeup c s) = ftable s" "mem (wakeup c s) = mem s"
  by (simp_all add: set_locked_def intr_off_def intr_on_def wakeup_def)

definition pipe_bytes :: "'a files_scheme \<Rightarrow> u64 \<Rightarrow> nat \<Rightarrow> u8 list" where
  "pipe_bytes s addr n = map (\<lambda>i. mem s (addr + of_nat i)) [0..<n]"

lemma pipe_bytes_Suc: "pipe_bytes s addr (Suc k) = pipe_bytes s addr k @ [mem s (addr + of_nat k)]"
  by (simp add: pipe_bytes_def)

lemma pipe_bytes_length [simp]: "length (pipe_bytes s addr n) = n"
  by (simp add: pipe_bytes_def)

text \<open>A pipe with free room is not full for the code, and a full one is.\<close>

lemma full_iff:
  assumes "pipe_ok p"
  shows "nwrite p = nread p + of_nat PIPESIZE \<longleftrightarrow> length (contents p) = PIPESIZE"
proof
  assume "length (contents p) = PIPESIZE"
  then have "of_nat (unat (nwrite p - nread p)) = (of_nat PIPESIZE :: u32)" by simp
  then have "nwrite p - nread p = of_nat PIPESIZE" by simp
  then show "nwrite p = nread p + of_nat PIPESIZE" by (simp add: diff_eq_eq add.commute)
qed (simp add: PIPESIZE_def)

lemma empty_iff: "nread p = nwrite p \<longleftrightarrow> contents p = []"
  by (auto simp: contents_def unat_eq_zero)

lemma put_ends [simp]:
  "readopen (fold pipe_put xs p) = readopen p" "writeopen (fold pipe_put xs p) = writeopen p"
  "nread (fold pipe_put xs p) = nread p"
  by (induction xs arbitrary: p) (simp_all add: pipe_put_def)

text \<open>One round of the loop of \<open>pipe_write\<close> while there is room.\<close>

definition write_loop :: "'a files_scheme sleeper \<Rightarrow> u64 \<Rightarrow> u64 \<Rightarrow> int \<Rightarrow> int \<Rightarrow> 'a files_scheme \<Rightarrow>
    (int + bool, 'a files_scheme) outcome" where
  "write_loop slp a addr n i s =
     (if \<not> i < n then Ret (Inr True) s
      else
        bind_out (wait_for_room slp a s) (\<lambda>room s1.
        if \<not> room then Ret (Inr False) s1
        else Ret (Inl (i + 1)) (upd_pipe a (pipe_put (mem s1 (addr + word_of_int i))) s1)))"

definition written :: "u64 \<Rightarrow> u64 \<Rightarrow> nat \<Rightarrow> 'a files_scheme \<Rightarrow> 'a files_scheme" where
  "written a addr k s = upd_pipe a (fold pipe_put (pipe_bytes s addr k)) s"

lemma written_0 [simp]: "written a addr 0 s = s"
  by (simp add: written_def pipe_bytes_def upd_pipe_def)

lemma written_ok:
  assumes "pipe_ok (pipe_at s a)" "length (contents (pipe_at s a)) + k \<le> PIPESIZE"
  shows "pipe_ok (pipe_at (written a addr k s) a)"
    "contents (pipe_at (written a addr k s) a) = contents (pipe_at s a) @ pipe_bytes s addr k"
  using pq.enq_all [OF assms(1), of "pipe_bytes s addr k"] assms(2) by (simp_all add: written_def)

lemma write_round:
  assumes "pipe_ok (pipe_at s a)" "length (contents (pipe_at s a)) + k < PIPESIZE" "int k < n"
  shows "write_loop slp a addr n (int k) (written a addr k s) = Ret (Inl (int (Suc k))) (written a addr (Suc k) s)"
proof -
  let ?w = "written a addr k s"
  note w = written_ok [OF assms(1) order.strict_implies_order [OF assms(2)], of addr]
  have "nwrite (pipe_at ?w a) \<noteq> nread (pipe_at ?w a) + of_nat PIPESIZE"
    using full_iff [OF w(1)] w(2) assms(2) by (simp del: contents_length)
  then have "wait_for_room slp a ?w = Ret True ?w"
    by (simp add: wait_for_room_def loop_out_break)
  then show ?thesis
    using assms(3) by (simp add: write_loop_def written_def pipe_bytes_Suc comp_def add.commute)
qed

text \<open>One round of the loop of \<open>pipe_read\<close>.\<close>

definition read_loop :: "u64 \<Rightarrow> u64 \<Rightarrow> int \<Rightarrow> int \<Rightarrow> 'a files_scheme \<Rightarrow> (int + int, 'a files_scheme) outcome" where
  "read_loop a addr n i s =
     (if \<not> (i < n \<and> nread (pipe_at s a) < nwrite (pipe_at s a)) then Ret (Inr i) s
      else (case pipe_get (pipe_at s a) of (x, p) \<Rightarrow>
        Ret (Inl (i + 1)) (upd_mem (\<lambda>m. m(addr + word_of_int i := x)) (upd_pipe a (\<lambda>_. p) s))))"

definition taken :: "u64 \<Rightarrow> u64 \<Rightarrow> nat \<Rightarrow> 'a files_scheme \<Rightarrow> 'a files_scheme" where
  "taken a addr k s =
     (case deq_run pipe_get k (pipe_at s a) of (xs, p) \<Rightarrow>
       upd_mem (\<lambda>m. fold (\<lambda>i m. m(addr + of_nat i := xs ! i)) [0..<k] m) (upd_pipe a (\<lambda>_. p) s))"

lemma get_ends [simp]:
  "nread (snd (deq_run pipe_get k p)) = nread p + of_nat k" "nwrite (snd (deq_run pipe_get k p)) = nwrite p"
  "readopen (snd (deq_run pipe_get k p)) = readopen p" "writeopen (snd (deq_run pipe_get k p)) = writeopen p"
  by (induction k arbitrary: p) (simp_all add: pipe_get_def deq_run_proj add.assoc del: deq_run.simps(2))

lemma get_run_length [simp]: "length (fst (deq_run pipe_get k p)) = k"
  by (induction k arbitrary: p) (simp_all add: deq_run_proj del: deq_run.simps(2))

lemma upd_mem_files [simp]:
  "pipe_at (upd_mem f s) = pipe_at s" "ftable (upd_mem f s) = ftable s" "spin (upd_mem f s) = spin s"
  "files.more (upd_mem f s) = files.more s" "proc_table (upd_mem f s) = proc_table s"
  "current_process (upd_mem f s) = current_process s"
  by (simp_all add: upd_mem_def)

lemma taken_sel [simp]:
  "pipe_at (taken a addr k s) = (pipe_at s)(a := snd (deq_run pipe_get k (pipe_at s a)))"
  "mem (taken a addr k s) =
     fold (\<lambda>i m. m(addr + of_nat i := fst (deq_run pipe_get k (pipe_at s a)) ! i)) [0..<k] (mem s)"
  "spin (taken a addr k s) = spin s" "proc_table (taken a addr k s) = proc_table s"
  "current_process (taken a addr k s) = current_process s" "ftable (taken a addr k s) = ftable s"
  "icache (taken a addr k s) = icache s" "logst (taken a addr k s) = logst s"
  "spinlock_held l (taken a addr k s) = spinlock_held l s"
  by (simp_all add: taken_def spinlock_held_def split: prod.split)

lemma taken_0 [simp]: "taken a addr 0 s = s"
  by (simp add: taken_def upd_pipe_def upd_mem_def)

lemma taken_Suc:
  "taken a addr (Suc k) s =
     (case pipe_get (pipe_at (taken a addr k s) a) of (x, p) \<Rightarrow>
       upd_mem (\<lambda>m. m(addr + of_nat k := x)) (upd_pipe a (\<lambda>_. p) (taken a addr k s)))"
proof -
  obtain xs p where r: "deq_run pipe_get k (pipe_at s a) = (xs, p)" by (cases "deq_run pipe_get k (pipe_at s a)")
  obtain x q where x: "pipe_get p = (x, q)" by (cases "pipe_get p")
  have l: "length xs = k" using get_run_length [of k "pipe_at s a"] r by simp
  have "fold (\<lambda>i m. m(addr + of_nat i := (xs @ [x]) ! i)) [0..<k] m =
      fold (\<lambda>i m. m(addr + of_nat i := xs ! i)) [0..<k] m" for m
    by (rule fold_cong) (simp_all add: nth_append l)
  moreover have "deq_run pipe_get (Suc k) (pipe_at s a) = (xs @ [x], q)"
    using r x deq_run_Suc [of pipe_get k "pipe_at s a"] by (simp del: deq_run.simps)
  ultimately show ?thesis
    using r x l by (simp add: taken_def upd_mem_def upd_pipe_def nth_append del: deq_run.simps)
qed

lemma read_round:
  assumes "nread (pipe_at s a) \<le> nwrite (pipe_at s a)" "k < length (contents (pipe_at s a))" "int k < n"
  shows "read_loop a addr n (int k) (taken a addr k s) = Ret (Inl (int (Suc k))) (taken a addr (Suc k) s)"
proof -
  let ?p = "pipe_at s a"
  have d: "unat (nwrite ?p - nread ?p) = unat (nwrite ?p) - unat (nread ?p)" using assms(1) by (simp add: unat_sub)
  then have "unat (nread ?p) + k < 2 ^ 32" using assms(2) unsigned_less [where ?'a = nat, of "nwrite ?p"] by simp
  then have "unat (nread ?p + of_nat k) = unat (nread ?p) + k"
    by (simp add: unat_word_ariths unat_of_nat take_bit_eq_mod mod_add_right_eq)
  then have "nread ?p + of_nat k < nwrite ?p" using d assms(2) by (simp add: word_less_nat_alt)
  then show ?thesis
    using assms(3) taken_Suc [of a addr k s] by (simp add: read_loop_def split: prod.splits)
qed

text \<open>What a call of the pipe layer leaves alone.\<close>

definition pipe_frame :: "u64 \<Rightarrow> 'a files_scheme \<Rightarrow> 'a files_scheme \<Rightarrow> bool" where
  "pipe_frame a s t \<longleftrightarrow> calm s t \<and> (\<forall>b. b \<noteq> a \<longrightarrow> pipe_at t b = pipe_at s b) \<and> ftable t = ftable s \<and>
     readopen (pipe_at t a) = readopen (pipe_at s a) \<and> writeopen (pipe_at t a) = writeopen (pipe_at s a)"

lemma pipe_write_spec:
  assumes "spinlock_held (LK_pipe a) s = 0" "pipe_ok (pipe_at s a)"
    and "length (contents (pipe_at s a)) + nat n \<le> PIPESIZE" "0 \<le> n"
  shows "\<exists>t. pipe_write slp a addr n s = Ret n t \<and> pipe_frame a s t \<and> mem t = mem s \<and> pipe_ok (pipe_at t a) \<and>
    contents (pipe_at t a) = contents (pipe_at s a) @ pipe_bytes s addr (nat n) \<and> nread (pipe_at t a) = nread (pipe_at s a)"
proof -
  let ?s1 = "set_locked (LK_pipe a) 1 (intr_off s)"
  let ?u = "wakeup (CH_nread a) (written a addr (nat n) ?s1)" let ?t = "intr_on (set_locked (LK_pipe a) 0 ?u)"
  have b: "pipe_bytes ?s1 addr k = pipe_bytes s addr k" for k by (simp add: pipe_bytes_def)
  have "write_loop slp a addr n (int k) (written a addr k ?s1) = Ret (Inl (int (Suc k))) (written a addr (Suc k) ?s1)"
    if "k < nat n" for k
    using that assms(2,3) by (intro write_round) auto
  note run = loop_out_run(1) [where x = int and u = "\<lambda>k. written a addr k ?s1" and n = "nat n", OF this]
  have "write_loop slp a addr n (int (nat n)) (written a addr (nat n) ?s1) = Ret (Inr True) (written a addr (nat n) ?s1)"
    using assms(4) by (simp add: write_loop_def)
  from run [OF _ this] have "loop_out (write_loop slp a addr n) 0 ?s1 = Ret True (written a addr (nat n) ?s1)" by simp
  moreover have "spinlock_release (LK_pipe a) ?u = Ret () ?t"
    by (simp add: spinlock_release_def written_def)
  ultimately have run: "pipe_write slp a addr n s = Ret n ?t"
    using assms(1) by (simp add: pipe_write_def acquire_eq write_loop_def [abs_def])
  have "calm ?s1 ?u" by (rule calm_wakeup, rule calmI) (simp_all add: written_def)
  then have "calm s ?t" by (rule calm_critical [OF assms(1)])
  then have "pipe_frame a s ?t" by (simp add: pipe_frame_def written_def)
  then show ?thesis
    using run written_ok [of ?s1 a "nat n" addr] assms(2,3) b [of "nat n"]
    by (intro exI [of _ ?t]) (simp add: written_def del: contents_length)
qed

lemma pipe_read_spec:
  assumes "spinlock_held (LK_pipe a) s = 0" "pipe_ok (pipe_at s a)" "0 \<le> n"
    and "contents (pipe_at s a) \<noteq> [] \<or> writeopen (pipe_at s a) = 0" "nread (pipe_at s a) \<le> nwrite (pipe_at s a)"
  defines "k \<equiv> min (nat n) (length (contents (pipe_at s a)))"
  shows "\<exists>t. pipe_read slp a addr n s = Ret (int k) t \<and> pipe_frame a s t \<and> pipe_ok (pipe_at t a) \<and>
    contents (pipe_at t a) = drop k (contents (pipe_at s a)) \<and>
    mem t = fold (\<lambda>i m. m(addr + of_nat i := contents (pipe_at s a) ! i)) [0..<k] (mem s)"
proof -
  let ?p = "pipe_at s a" let ?s1 = "set_locked (LK_pipe a) 1 (intr_off s)"
  let ?u = "wakeup (CH_nwrite a) (taken a addr k ?s1)" let ?t = "intr_on (set_locked (LK_pipe a) 0 ?u)"
  have d: "fst (deq_run pipe_get k ?p) = take k (contents ?p)"
    "contents (snd (deq_run pipe_get k ?p)) = drop k (contents ?p)" "pipe_ok (snd (deq_run pipe_get k ?p))"
    using pq.deq_all [OF assms(2), of k] by (simp_all add: k_def)
  have w: "while_out (\<lambda>s. nread (pipe_at s a) = nwrite (pipe_at s a) \<and> writeopen (pipe_at s a) \<noteq> 0)
      (slp (CH_nread a) (LK_pipe a)) ?s1 = Ret () ?s1"
    using assms(4) empty_iff [of ?p] by (intro while_out_done) auto
  have r: "read_loop a addr n (int i) (taken a addr i ?s1) = Ret (Inl (int (Suc i))) (taken a addr (Suc i) ?s1)"
    if "i < k" for i
    using that assms(5) by (intro read_round) (auto simp: k_def)
  have fin: "\<not> (int k < n \<and> nread (pipe_at (taken a addr k ?s1) a) < nwrite (pipe_at (taken a addr k ?s1) a))"
  proof
    assume h: "int k < n \<and> nread (pipe_at (taken a addr k ?s1) a) < nwrite (pipe_at (taken a addr k ?s1) a)"
    then have "k = length (contents ?p)" by (auto simp: k_def)
    then have "contents (snd (deq_run pipe_get k ?p)) = []" using d(2) by simp
    then have "nread (snd (deq_run pipe_get k ?p)) = nwrite (snd (deq_run pipe_get k ?p))" by (simp only: empty_iff)
    then show False using h by simp
  qed
  have "read_loop a addr n (int k) (taken a addr k ?s1) = Ret (Inr (int k)) (taken a addr k ?s1)"
    using fin unfolding read_loop_def by (simp only: not_False_eq_True if_True)
  from loop_out_run(1) [where x = int and u = "\<lambda>k. taken a addr k ?s1" and n = k, OF r this]
  have "loop_out (read_loop a addr n) 0 ?s1 = Ret (int k) (taken a addr k ?s1)" by simp
  moreover have "spinlock_release (LK_pipe a) ?u = Ret () ?t" by (simp add: spinlock_release_def)
  ultimately have run: "pipe_read slp a addr n s = Ret (int k) ?t"
    using assms(1) w by (simp add: pipe_read_def acquire_eq read_loop_def [abs_def])
  have "calm ?s1 ?u" by (rule calm_wakeup, rule calmI) simp_all
  then have "calm s ?t" by (rule calm_critical [OF assms(1)])
  then have "pipe_frame a s ?t" by (simp add: pipe_frame_def)
  moreover have "fold (\<lambda>i m. m(addr + of_nat i := take k (contents ?p) ! i)) [0..<k] (mem s) =
      fold (\<lambda>i m. m(addr + of_nat i := contents ?p ! i)) [0..<k] (mem s)"
    by (rule fold_cong) simp_all
  ultimately show ?thesis using run d by (intro exI [of _ ?t]) simp
qed

text \<open>C33: A pipe is a first-in-first-out queue of at most 512 bytes. \<open>pipe_write\<close> of as many bytes as
  there is room for does not sleep, returns their number and appends exactly the
  caller's bytes; \<open>pipe_read\<close> on a pipe that is not empty, or whose writer is gone, does not
  sleep, returns the smaller of the request and the length of the queue (0 at the
  end of the stream), puts exactly the first bytes of the queue into the caller's buffer and removes
  them. The counters may have wrapped for the writer; the reader is only right while
  \<open>nread\<close> is not above \<open>nwrite\<close>.\<close>

theorem pipe_refines_queue:
  assumes "spinlock_held (LK_pipe a) s = 0" "pipe_ok (pipe_at s a)" "0 \<le> n"
  shows "(length (contents (pipe_at s a)) + nat n \<le> PIPESIZE \<longrightarrow>
      (\<exists>t. pipe_write slp a addr n s = Ret n t \<and> pipe_frame a s t \<and> mem t = mem s \<and> pipe_ok (pipe_at t a) \<and>
        contents (pipe_at t a) = contents (pipe_at s a) @ pipe_bytes s addr (nat n))) \<and>
    ((contents (pipe_at s a) \<noteq> [] \<or> writeopen (pipe_at s a) = 0) \<and> nread (pipe_at s a) \<le> nwrite (pipe_at s a) \<longrightarrow>
      (\<exists>t. let k = min (nat n) (length (contents (pipe_at s a))) in
        pipe_read slp a addr n s = Ret (int k) t \<and> pipe_frame a s t \<and> pipe_ok (pipe_at t a) \<and>
        contents (pipe_at t a) = drop k (contents (pipe_at s a)) \<and>
        mem t = fold (\<lambda>i m. m(addr + of_nat i := contents (pipe_at s a) ! i)) [0..<k] (mem s)))"
proof (intro conjI impI)
  assume "length (contents (pipe_at s a)) + nat n \<le> PIPESIZE"
  then show "\<exists>t. pipe_write slp a addr n s = Ret n t \<and> pipe_frame a s t \<and> mem t = mem s \<and> pipe_ok (pipe_at t a) \<and>
        contents (pipe_at t a) = contents (pipe_at s a) @ pipe_bytes s addr (nat n)"
    using pipe_write_spec [OF assms(1,2) _ assms(3), of slp addr] by blast
next
  assume "(contents (pipe_at s a) \<noteq> [] \<or> writeopen (pipe_at s a) = 0) \<and> nread (pipe_at s a) \<le> nwrite (pipe_at s a)"
  then show "\<exists>t. let k = min (nat n) (length (contents (pipe_at s a))) in
        pipe_read slp a addr n s = Ret (int k) t \<and> pipe_frame a s t \<and> pipe_ok (pipe_at t a) \<and>
        contents (pipe_at t a) = drop k (contents (pipe_at s a)) \<and>
        mem t = fold (\<lambda>i m. m(addr + of_nat i := contents (pipe_at s a) ! i)) [0..<k] (mem s)"
    unfolding Let_def using pipe_read_spec [OF assms, of slp addr] by blast
qed

subsection \<open>Full, empty and wrapped pipes\<close>

text \<open>A writer to a full pipe gets -1 when the reader is gone, after the bytes there was room for; with
  a reader it goes to sleep, and with the kernel's own \<open>sleep\<close> the call never comes back.\<close>

theorem pipe_write_full:
  assumes "spinlock_held (LK_pipe a) s = 0" "pipe_ok (pipe_at s a)" "current_process s = Some p"
    and "PIPESIZE < length (contents (pipe_at s a)) + nat n"
  defines "k \<equiv> PIPESIZE - length (contents (pipe_at s a))"
  shows "readopen (pipe_at s a) = 0 \<Longrightarrow> \<exists>t. pipe_write slp a addr n s = Ret (- 1) t \<and> mem t = mem s \<and>
      contents (pipe_at t a) = contents (pipe_at s a) @ pipe_bytes s addr k"
    "readopen (pipe_at s a) \<noteq> 0 \<Longrightarrow> \<exists>u. pipe_write kernel_sleep a addr n s = Stop Rescheduled (sleep_commit p u)"
proof -
  let ?s1 = "set_locked (LK_pipe a) 1 (intr_off s)" let ?w = "written a addr k ?s1"
  have acq: "spinlock_acquire (LK_pipe a) s = Ret () ?s1" using assms(1) by (simp add: acquire_eq)
  have "length (contents (pipe_at s a)) \<le> PIPESIZE" using assms(2) by (simp add: pipe_ok_def)
  then have "length (contents (pipe_at s a)) + k = PIPESIZE" "k < nat n"
    using assms(4) unfolding k_def by linarith+
  then have k: "length (contents (pipe_at s a)) + k = PIPESIZE" "int k < n" by (simp_all add: zless_nat_eq_int_zless)
  have w: "pipe_ok (pipe_at ?w a)" "contents (pipe_at ?w a) = contents (pipe_at s a) @ pipe_bytes s addr k"
    using written_ok [of ?s1 a k addr] assms(2) k(1) by (simp_all add: pipe_bytes_def del: contents_length)
  then have full: "nwrite (pipe_at ?w a) = nread (pipe_at ?w a) + of_nat PIPESIZE"
    using full_iff [OF w(1)] k(1) by (simp del: contents_length)
  have r: "write_loop slp a addr n (int i) (written a addr i ?s1) = Ret (Inl (int (Suc i))) (written a addr (Suc i) ?s1)"
    if "i < k" for slp i
    using that assms(2) k by (intro write_round) (auto simp del: contents_length)
  note run = loop_out_run [where x = int and u = "\<lambda>k. written a addr k ?s1" and n = k, OF r]
  have lk: "spinlock_held (LK_pipe a) ?w = 1" by (simp add: written_def)
  {
    assume "readopen (pipe_at s a) = 0"
    then have "wait_for_room slp a ?w = Ret False (intr_on (set_locked (LK_pipe a) 0 ?w))"
      using full lk by (simp add: wait_for_room_def loop_out_break spinlock_release_def written_def)
    then have "write_loop slp a addr n (int k) ?w = Ret (Inr False) (intr_on (set_locked (LK_pipe a) 0 ?w))"
      using k(2) by (simp add: write_loop_def)
    from run(1) [OF _ this] have "pipe_write slp a addr n s = Ret (- 1) (intr_on (set_locked (LK_pipe a) 0 ?w))"
      using acq by (simp add: pipe_write_def write_loop_def [abs_def])
    then show "\<exists>t. pipe_write slp a addr n s = Ret (- 1) t \<and> mem t = mem s \<and>
      contents (pipe_at t a) = contents (pipe_at s a) @ pipe_bytes s addr k"
      using w(2) by (simp add: written_def del: contents_length)
  next
    assume "readopen (pipe_at s a) \<noteq> 0"
    let ?u = "intr_on (set_locked (LK_pipe a) 0 (wakeup (CH_nread a) ?w))"
    have "current_process ?w = Some p" using assms(3) by (simp add: written_def)
    then have "wait_for_room kernel_sleep a ?w = Stop Rescheduled (sleep_commit p ?u)"
      using full lk \<open>readopen (pipe_at s a) \<noteq> 0\<close>
      by (simp add: wait_for_room_def loop_out_stop kernel_sleep_def sleep_def sleep_unlock_def
          spinlock_release_def written_def)
    then have "write_loop kernel_sleep a addr n (int k) ?w = Stop Rescheduled (sleep_commit p ?u)"
      using k(2) by (simp add: write_loop_def)
    from run(2) [OF _ this] have "pipe_write kernel_sleep a addr n s = Stop Rescheduled (sleep_commit p ?u)"
      using acq by (simp add: pipe_write_def write_loop_def [abs_def])
    then show "\<exists>u. pipe_write kernel_sleep a addr n s = Stop Rescheduled (sleep_commit p u)" by blast
  }
qed

text \<open>After \<open>nwrite\<close> has wrapped around and \<open>nread\<close> has not, the reader's comparison is wrong: the
  pipe has bytes, and \<open>pipe_read\<close> returns 0 and leaves them there, as if the stream had ended.\<close>

theorem pipe_read_wrapped:
  assumes "spinlock_held (LK_pipe a) s = 0" "nwrite (pipe_at s a) < nread (pipe_at s a)"
  shows "\<exists>t. pipe_read slp a addr n s = Ret 0 t \<and> pipe_at t = pipe_at s \<and> mem t = mem s \<and>
    contents (pipe_at t a) \<noteq> []"
proof -
  let ?s1 = "set_locked (LK_pipe a) 1 (intr_off s)"
  have "while_out (\<lambda>s. nread (pipe_at s a) = nwrite (pipe_at s a) \<and> writeopen (pipe_at s a) \<noteq> 0)
      (slp (CH_nread a) (LK_pipe a)) ?s1 = Ret () ?s1"
    using assms(2) by (intro while_out_done) auto
  moreover have "loop_out (read_loop a addr n) 0 ?s1 = Ret 0 ?s1"
    using less_not_sym [OF assms(2)] by (intro loop_out_break) (simp add: read_loop_def)
  ultimately have "pipe_read slp a addr n s = Ret 0 (intr_on (set_locked (LK_pipe a) 0 (wakeup (CH_nwrite a) ?s1)))"
    using assms(1) by (simp add: pipe_read_def acquire_eq read_loop_def [abs_def] spinlock_release_def)
  moreover have "contents (pipe_at s a) \<noteq> []" using assms(2) empty_iff [of "pipe_at s a"] by auto
  ultimately show ?thesis by simp
qed

subsection \<open>An example\<close>

definition file_kernel :: "(nat \<Rightarrow> ofile) \<Rightarrow> (u64 \<Rightarrow> pipe) \<Rightarrow> files" where
  "file_kernel F P = inode_kernel \<lparr>ftable = F, pipe_at = P\<rparr>"

text \<open>The three bytes 5, 6, 7 at the end of the ring buffer and at its start.\<close>

definition example_pipe :: pipe where
  "example_pipe = \<lparr>p_data = (replicate PIPESIZE 0)[510 := 5, 511 := 6, 0 := 7], nread = 510, nwrite = 513,
     readopen = 1, writeopen = 1\<rparr>"

lemma example_contents: "contents example_pipe = [5, 6, 7]" "pipe_ok example_pipe"
  by (simp_all add: contents_def example_pipe_def PIPESIZE_def upt_rec pipe_ok_def nth_list_update)

lemma file_kernel_sel:
  "pipe_at (file_kernel F P) = P" "ftable (file_kernel F P) = F" "mem (file_kernel F P) = (\<lambda>_. 0)"
proof -
  have "fsys.more (file_kernel F P) = \<lparr>ftable = F, pipe_at = P\<rparr>"
    unfolding file_kernel_def by (rule inode_kernel_upper)
  then show "pipe_at (file_kernel F P) = P" "ftable (file_kernel F P) = F"
    by (cases "file_kernel F P"; simp)+
  show "mem (file_kernel F P) = (\<lambda>_. 0)" unfolding file_kernel_def by (rule inode_kernel_upper)
qed

lemma file_kernel_locks: "spinlock_held l (file_kernel F P) = 0"
  unfolding file_kernel_def inode_kernel_def cached_kernel_def
  by (rule buf_cache_init_locks) (simp add: disk_kernel_def spinlock_held_def)

definition no_file :: ofile where
  "no_file = \<lparr>f_type = FD_NONE, f_ref = 0, readable = False, writable = False, f_pipe = 0, f_ip = None, f_off = 0, f_major = 0\<rparr>"

theorem pipe_refines_queue_witness:
  "\<exists>t. pipe_read kernel_sleep 4096 8192 2 (file_kernel (\<lambda>_. no_file) (\<lambda>_. example_pipe)) = Ret 2 t \<and>
     contents (pipe_at t 4096) = [7] \<and> mem t 8192 = 5 \<and> mem t 8193 = 6"
proof -
  let ?s = "file_kernel (\<lambda>_. no_file) (\<lambda>_. example_pipe)"
  have s: "pipe_at ?s 4096 = example_pipe" by (simp add: file_kernel_sel)
  have "pipe_ok (pipe_at ?s 4096)" "(0 :: int) \<le> 2" using s example_contents by simp_all
  note r = pipe_refines_queue [OF file_kernel_locks this, THEN conjunct2, rule_format, of kernel_sleep 8192]
  have "nread example_pipe \<le> nwrite example_pipe" by (simp add: example_pipe_def)
  then obtain t where t: "pipe_read kernel_sleep 4096 8192 2 ?s = Ret 2 t" "contents (pipe_at t 4096) = [7]"
    "mem t = (mem ?s)(8192 := 5, 8193 := 6)"
    using r s example_contents by (auto simp: Let_def upt_rec [of _ 2] upt_rec [of _ "Suc 1"] numeral_2_eq_2)
  have "mem t 8192 = 5" "mem t 8193 = 6" unfolding t(3) by simp_all
  then show ?thesis using t by (intro exI [of _ t]) simp
qed

end
