(* ===== verification/File.thy ===== *)
theory File
  imports Pipe_Props
begin

text \<open>
  \<open>kernel/fs/file.c\<close>, \<open>pipe_alloc\<close> of \<open>kernel/fs/pipe.c\<close> and \<open>kernel/fs/file_system.c\<close>: the table
  of open files over pipes and inodes. Messages on the console are not part of the state.
\<close>

subsection \<open>The table\<close>

definition file_init :: "'a files_scheme \<Rightarrow> 'a files_scheme" where
  "file_init s = spinlock_init LK_ftable ''ftable'' s"

definition file_alloc :: "'a files_scheme \<Rightarrow> (nat option, 'a files_scheme) outcome" where
  "file_alloc s =
     bind_out (spinlock_acquire LK_ftable s) (\<lambda>_ s1.
     case scan_from (\<lambda>i. f_ref (ftable s1 i) = 0) 0 NFILE of
       Some i \<Rightarrow>
         bind_out (spinlock_release LK_ftable (upd_file i (f_ref_update (\<lambda>_. 1)) s1)) (\<lambda>_ s2. Ret (Some i) s2)
     | None \<Rightarrow> bind_out (spinlock_release LK_ftable s1) (\<lambda>_ s2. Ret None s2))"

definition file_dup :: "nat \<Rightarrow> 'a files_scheme \<Rightarrow> (nat option, 'a files_scheme) outcome" where
  "file_dup f s =
     bind_out (spinlock_acquire LK_ftable s) (\<lambda>_ s1.
     if f_ref (ftable s1 f) < 1 then
       bind_out (spinlock_release LK_ftable s1) (\<lambda>_ s2. Ret None s2)
     else
       bind_out (spinlock_release LK_ftable (upd_file f (f_ref_update (\<lambda>r. r + 1)) s1)) (\<lambda>_ s2. Ret (Some f) s2))"

text \<open>What the last \<open>file_close\<close> does to the object behind a file.\<close>

definition close_object :: "'a files_scheme sleeper \<Rightarrow> ofile \<Rightarrow> 'a files_scheme \<Rightarrow> (unit, 'a files_scheme) outcome" where
  "close_object slp ff s =
     (if f_type ff = FD_PIPE then pipe_close (f_pipe ff) (writable ff) s
      else if f_type ff = FD_INODE \<or> f_type ff = FD_DEVICE then
        bind_out (log_begin_op slp s) (\<lambda>_ s1.
        case f_ip ff of
          None \<Rightarrow> bind_out (spinlock_acquire LK_icache s1) (\<lambda>_ s2. Stop NullDeref s2)
        | Some ip \<Rightarrow> bind_out (inode_put slp ip s1) (\<lambda>_ s2. log_end_op slp s2))
      else Ret () s)"

definition file_close :: "'a files_scheme sleeper \<Rightarrow> nat \<Rightarrow> 'a files_scheme \<Rightarrow> (unit, 'a files_scheme) outcome" where
  "file_close slp f s =
     bind_out (spinlock_acquire LK_ftable s) (\<lambda>_ s1.
     if f_ref (ftable s1 f) < 1 then spinlock_release LK_ftable s1
     else
       let s2 = upd_file f (f_ref_update (\<lambda>r. r - 1)) s1 in
       if f_ref (ftable s2 f) > 0 then spinlock_release LK_ftable s2
       else
         let ff = ftable s2 f in
         bind_out (spinlock_release LK_ftable (upd_file f (\<lambda>p. p\<lparr>f_ref := 0, f_type := FD_NONE\<rparr>) s2)) (\<lambda>_ s3.
         close_object slp ff s3))"

subsection \<open>Reading and writing\<close>

definition file_read :: "'a files_scheme sleeper \<Rightarrow> nat \<Rightarrow> u64 \<Rightarrow> int \<Rightarrow> 'a files_scheme \<Rightarrow>
    (int, 'a files_scheme) outcome" where
  "file_read slp f addr n s =
     (if \<not> readable (ftable s f) then Ret (- 1) s
      else if f_type (ftable s f) = FD_PIPE then pipe_read slp (f_pipe (ftable s f)) addr n s
      else if f_type (ftable s f) = FD_INODE \<or> f_type (ftable s f) = FD_DEVICE then
        (case f_ip (ftable s f) of
           None \<Rightarrow> Stop NullDeref s
         | Some ip \<Rightarrow>
             bind_out (inode_lock slp (Some ip) s) (\<lambda>_ s1.
             bind_out (inode_read slp ip 1 addr (f_off (ftable s1 f)) (word_of_int n) s1) (\<lambda>r s2.
             let s3 = (if r > 0 then upd_file f (f_off_update (\<lambda>x. x + word_of_int r)) s2 else s2)
             in bind_out (inode_unlock (Some ip) s3) (\<lambda>_ s4. Ret r s4))))
      else Ret (- 1) s)"

text \<open>The size of the transactions \<open>file_write\<close> splits a request into.\<close>

definition max_write :: int where
  "max_write = ((MAXOPBLOCKS - 1 - 1 - 2) div 2) * int BSIZE"

definition file_write_step :: "'a files_scheme sleeper \<Rightarrow> nat \<Rightarrow> nat \<Rightarrow> u64 \<Rightarrow> int \<Rightarrow> int \<Rightarrow> 'a files_scheme \<Rightarrow>
    (int + int, 'a files_scheme) outcome" where
  "file_write_step slp f ip addr n i s =
     (if \<not> i < n then Ret (Inr i) s
      else
        let n1 = (if n - i > max_write then max_write else n - i) in
        bind_out (log_begin_op slp s) (\<lambda>_ s1.
        bind_out (inode_lock slp (Some ip) s1) (\<lambda>_ s2.
        bind_out (inode_write slp ip 1 (addr + ucast (word_of_int i :: u32)) (f_off (ftable s2 f)) (word_of_int n1) s2)
          (\<lambda>r s3.
        let s4 = (if r > 0 then upd_file f (f_off_update (\<lambda>x. x + word_of_int r)) s3 else s3) in
        bind_out (inode_unlock (Some ip) s4) (\<lambda>_ s5.
        bind_out (log_end_op slp s5) (\<lambda>_ s6.
        if r \<noteq> n1 then Ret (Inr i) s6 else Ret (Inl (i + r)) s6))))))"

definition file_write :: "'a files_scheme sleeper \<Rightarrow> nat \<Rightarrow> u64 \<Rightarrow> int \<Rightarrow> 'a files_scheme \<Rightarrow>
    (int, 'a files_scheme) outcome" where
  "file_write slp f addr n s =
     (if \<not> writable (ftable s f) then Ret (- 1) s
      else if f_type (ftable s f) = FD_PIPE then pipe_write slp (f_pipe (ftable s f)) addr n s
      else if f_type (ftable s f) = FD_INODE then
        (case f_ip (ftable s f) of
           None \<Rightarrow>
             if 0 < n then bind_out (log_begin_op slp s) (\<lambda>_ s1. Stop NullDeref s1)
             else Ret (if n = 0 then n else - 1) s
         | Some ip \<Rightarrow>
             bind_out (loop_out (file_write_step slp f ip addr n) 0 s) (\<lambda>i s1.
             Ret (if i = n then n else - 1) s1))
      else Ret (- 1) s)"

definition file_stat :: "'a files_scheme sleeper \<Rightarrow> nat \<Rightarrow> u64 \<Rightarrow> 'a files_scheme \<Rightarrow> (int, 'a files_scheme) outcome" where
  "file_stat slp f addr s =
     (if f_type (ftable s f) = FD_INODE \<or> f_type (ftable s f) = FD_DEVICE then
        (case f_ip (ftable s f) of
           None \<Rightarrow> Stop NullDeref s
         | Some ip \<Rightarrow>
             bind_out (inode_lock slp (Some ip) s) (\<lambda>_ s1.
             bind_out (inode_unlock (Some ip) (inode_stat ip addr s1)) (\<lambda>_ s2. Ret 0 s2)))
      else Ret (- 1) s)"

subsection \<open>Pipes\<close>

definition close_opt :: "'a files_scheme sleeper \<Rightarrow> nat option \<Rightarrow> 'a files_scheme \<Rightarrow> (unit, 'a files_scheme) outcome" where
  "close_opt slp f s = (case f of None \<Rightarrow> Ret () s | Some f \<Rightarrow> file_close slp f s)"

definition pipe_bad :: "'a files_scheme sleeper \<Rightarrow> u64 option \<Rightarrow> nat option \<Rightarrow> nat option \<Rightarrow> 'a files_scheme \<Rightarrow>
    (int \<times> nat option \<times> nat option, 'a files_scheme) outcome" where
  "pipe_bad slp pi f0 f1 s =
     (let s1 = (case pi of None \<Rightarrow> s | Some a \<Rightarrow> free_physical_page (virt_to_phys a) s)
      in bind_out (close_opt slp f0 s1) (\<lambda>_ s2.
         bind_out (close_opt slp f1 s2) (\<lambda>_ s3. Ret (- 1, f0, f1) s3)))"

text \<open>\<open>pipe_alloc\<close> returns its result with the values of \<open>*f0\<close> and \<open>*f1\<close>.\<close>

definition pipe_alloc :: "'a files_scheme sleeper \<Rightarrow> 'a files_scheme \<Rightarrow>
    (int \<times> nat option \<times> nat option, 'a files_scheme) outcome" where
  "pipe_alloc slp s =
     (case physmem_alloc_page s of (page, s0) \<Rightarrow>
      if page = 0 then pipe_bad slp None None None s0
      else
        let a = phys_to_virt page in
        bind_out (file_alloc s0) (\<lambda>f0 s1.
        case f0 of
          None \<Rightarrow> pipe_bad slp (Some a) None None s1
        | Some i0 \<Rightarrow>
            bind_out (file_alloc s1) (\<lambda>f1 s2.
            case f1 of
              None \<Rightarrow> pipe_bad slp (Some a) f0 None s2
            | Some i1 \<Rightarrow>
                let s3 = upd_pipe a (\<lambda>p. p\<lparr>readopen := 1, writeopen := 1, nread := 0, nwrite := 0\<rparr>)
                           (spinlock_init (LK_pipe a) ''pipe'' s2);
                    s4 = upd_file i0 (\<lambda>f. f\<lparr>f_type := FD_PIPE, readable := True, writable := False, f_pipe := a\<rparr>) s3;
                    s5 = upd_file i1 (\<lambda>f. f\<lparr>f_type := FD_PIPE, readable := False, writable := True, f_pipe := a\<rparr>) s4
                in Ret (0, f0, f1) s5)))"

subsection \<open>Starting the file system\<close>

definition fs_init :: "'a files_scheme sleeper \<Rightarrow> int \<Rightarrow> 'a files_scheme \<Rightarrow> (unit, 'a files_scheme) outcome" where
  "fs_init slp dev s =
     bind_out (log_init slp dev 2 (int LOGSIZE) (buf_cache_init s)) (\<lambda>_ s1.
     bind_out (inode_init slp dev s1) (\<lambda>_ s2. Ret () (file_init s2)))"

end
