(* ===== verification/File_Props.thy ===== *)
theory File_Props
  imports File
begin

text \<open>The table of open files, and pipes as pairs of open files.\<close>

subsection \<open>Frames\<close>

lemma upd_file_sel [simp]:
  "ftable (upd_file i f s) = (ftable s)(i := f (ftable s i))" "pipe_at (upd_file i f s) = pipe_at s"
  "mem (upd_file i f s) = mem s" "spinlock_held l (upd_file i f s) = spinlock_held l s" "sie (upd_file i f s) = sie s"
  "phys_bitmap (upd_file i f s) = phys_bitmap s" "free_pages_count (upd_file i f s) = free_pages_count s"
  by (simp_all add: upd_file_def spinlock_held_def)

lemma upd_file_twice [simp]: "upd_file i g (upd_file i f s) = upd_file i (g \<circ> f) s"
  by (simp add: upd_file_def)

lemma bitmap_sel [simp]:
  "phys_bitmap (intr_on s) = phys_bitmap s" "free_pages_count (intr_on s) = free_pages_count s"
  "phys_bitmap (upd_pipe a g s) = phys_bitmap s" "free_pages_count (upd_pipe a g s) = free_pages_count s"
  "phys_bitmap (spinlock_init l n s) = phys_bitmap s" "free_pages_count (spinlock_init l n s) = free_pages_count s"
  by (simp_all add: intr_on_def upd_pipe_def spinlock_init_def)

lemma mark_page_files [simp]:
  "ftable (mark_page_allocated i s) = ftable s" "ftable (mark_page_free i s) = ftable s"
  "pipe_at (mark_page_allocated i s) = pipe_at s" "pipe_at (mark_page_free i s) = pipe_at s"
  "spin (mark_page_allocated i s) = spin s" "spin (mark_page_free i s) = spin s"
  "sie (mark_page_allocated i s) = sie s" "sie (mark_page_free i s) = sie s"
  by (simp_all add: mark_page_allocated_def mark_page_free_def Let_def)

lemma alloc_page_files:
  assumes "physmem_alloc_page s = (p, t)"
  shows "ftable t = ftable s" "pipe_at t = pipe_at s" "spin t = spin s" "sie t = sie s"
  using assms by (auto simp: physmem_alloc_page_def split: option.splits)

lemma free_page_files [simp]:
  "ftable (free_physical_page p s) = ftable s" "pipe_at (free_physical_page p s) = pipe_at s"
  "spinlock_held l (free_physical_page p s) = spinlock_held l s"
  by (simp_all add: free_physical_page_def Let_def spinlock_held_def)

subsection \<open>The table\<close>

definition free_files :: "'a files_scheme \<Rightarrow> nat set" where
  "free_files s = {i. i < NFILE \<and> f_ref (ftable s i) = 0}"

text \<open>A file that is not open has no type.\<close>

definition ftable_ok :: "'a files_scheme \<Rightarrow> bool" where
  "ftable_ok s \<longleftrightarrow> (\<forall>i < NFILE. 0 \<le> f_ref (ftable s i) \<and> (f_ref (ftable s i) = 0 \<longrightarrow> f_type (ftable s i) = FD_NONE))"

lemma ftable_critical:
  assumes "spinlock_held LK_ftable s = 0"
  shows "spinlock_release LK_ftable (upd_file i f (intr_off (set_locked LK_ftable 1 s))) = Ret () (upd_file i f (intr_on s))"
    "spinlock_release LK_ftable (intr_off (set_locked LK_ftable 1 s)) = Ret () (intr_on s)"
proof -
  have "(spin s)(LK_ftable := (spin s LK_ftable)\<lparr>locked := 0\<rparr>) = spin s"
    using assms by (simp add: spinlock_held_def fun_upd_idem_iff)
  then show "spinlock_release LK_ftable (intr_off (set_locked LK_ftable 1 s)) = Ret () (intr_on s)"
    "spinlock_release LK_ftable (upd_file i f (intr_off (set_locked LK_ftable 1 s))) = Ret () (upd_file i f (intr_on s))"
    by (simp_all add: spinlock_release_def upd_file_def intr_on_def intr_off_def set_locked_def spinlock_held_def)
qed

lemma ftable_acquire: "spinlock_held LK_ftable s = 0 \<Longrightarrow>
    spinlock_acquire LK_ftable s = Ret () (intr_off (set_locked LK_ftable 1 s))"
  by (simp add: acquire_eq)

lemma file_alloc_eq:
  assumes "spinlock_held LK_ftable s = 0"
  shows "file_alloc s = (case scan_from (\<lambda>i. f_ref (ftable s i) = 0) 0 NFILE of
      Some i \<Rightarrow> Ret (Some i) (upd_file i (f_ref_update (\<lambda>_. 1)) (intr_on s)) | None \<Rightarrow> Ret None (intr_on s))"
  using ftable_critical [OF assms] by (simp add: file_alloc_def ftable_acquire [OF assms] split: option.split)

lemma file_alloc_cases:
  assumes "spinlock_held LK_ftable s = 0"
  obtains (none) "file_alloc s = Ret None (intr_on s)" "free_files s = {}"
  | (some) i where "file_alloc s = Ret (Some i) (upd_file i (f_ref_update (\<lambda>_. 1)) (intr_on s))" "i \<in> free_files s"
      "\<And>j. j < i \<Longrightarrow> j \<notin> free_files s"
proof (cases "scan_from (\<lambda>i. f_ref (ftable s i) = 0) 0 NFILE")
  case None
  then have "free_files s = {}" unfolding scan_from_None_iff by (auto simp: free_files_def)
  then show ?thesis using None none file_alloc_eq [OF assms] by simp
next
  case (Some i)
  from scan_from_SomeD [OF this] show ?thesis
    using Some some [of i] file_alloc_eq [OF assms] by (auto simp: free_files_def)
qed

text \<open>The table of files keeps the contract of a slot table.\<close>

definition alloc_result :: "('r option, 's) outcome \<Rightarrow> 'r option \<times> 's" where
  "alloc_result m = (case m of Ret r t \<Rightarrow> (r, t) | Stop _ t \<Rightarrow> (None, t))"

interpretation ft: slot_table "\<lambda>s. {..<NFILE} - free_files s" NFILE "\<lambda>s. alloc_result (file_alloc s)"
  "\<lambda>s :: 'a files_scheme. spinlock_held LK_ftable s = 0 \<and> sie s"
proof
  fix s t :: "'a files_scheme" and i
  assume s: "spinlock_held LK_ftable s = 0 \<and> sie s"
  then have on: "intr_on s = s" by (simp add: intr_on_def)
  show "{..<NFILE} - free_files s \<subseteq> {..<NFILE}" by blast
  show "i < NFILE \<and> i \<notin> {..<NFILE} - free_files s \<and> {..<i} \<subseteq> {..<NFILE} - free_files s \<and>
      {..<NFILE} - free_files t = insert i ({..<NFILE} - free_files s) \<and> spinlock_held LK_ftable t = 0 \<and> sie t"
    if "alloc_result (file_alloc s) = (Some i, t)"
    using that s by (cases rule: file_alloc_cases [OF conjunct1 [OF s]])
      (auto simp: alloc_result_def on free_files_def split: if_splits)
  show "t = s \<and> {..<NFILE} - free_files s = {..<NFILE}" if "alloc_result (file_alloc s) = (None, t)"
    using that by (cases rule: file_alloc_cases [OF conjunct1 [OF s]]) (auto simp: alloc_result_def on)
qed

subsection \<open>References\<close>

text \<open>\<open>file_dup\<close> adds a reference to an open file and \<open>file_close\<close> takes one away; the last one frees
  the entry and then, with the lock of the table given back, closes what is behind it.\<close>

theorem file_references:
  assumes "spinlock_held LK_ftable s = 0"
  shows "file_dup f s =
      (if f_ref (ftable s f) < 1 then Ret None (intr_on s)
       else Ret (Some f) (upd_file f (f_ref_update (\<lambda>r. r + 1)) (intr_on s)))"
    "file_close slp f s =
      (if f_ref (ftable s f) < 1 then Ret () (intr_on s)
       else if f_ref (ftable s f) > 1 then Ret () (upd_file f (f_ref_update (\<lambda>r. r - 1)) (intr_on s))
       else close_object slp (f_ref_update (\<lambda>_. 0) (ftable s f))
         (upd_file f (\<lambda>p. p\<lparr>f_ref := 0, f_type := FD_NONE\<rparr>) (intr_on s)))"
proof -
  note c = ftable_critical [OF assms] and a = ftable_acquire [OF assms]
  show "file_dup f s =
      (if f_ref (ftable s f) < 1 then Ret None (intr_on s)
       else Ret (Some f) (upd_file f (f_ref_update (\<lambda>r. r + 1)) (intr_on s)))"
    by (simp add: file_dup_def a c)
  have r1: "f_ref (ftable s f) = 1 \<Longrightarrow> f_ref_update (\<lambda>r. r - 1) (ftable s f) = f_ref_update (\<lambda>_. 0) (ftable s f)"
    by (cases "ftable s f") simp
  have u1: "upd_file f ((\<lambda>p. p\<lparr>f_ref := 0, f_type := FD_NONE\<rparr>) \<circ> f_ref_update (\<lambda>r. r - 1)) x =
      upd_file f (\<lambda>p. p\<lparr>f_ref := 0, f_type := FD_NONE\<rparr>) x" for x :: "'a files_scheme"
    by (simp add: upd_file_def)
  show "file_close slp f s =
      (if f_ref (ftable s f) < 1 then Ret () (intr_on s)
       else if f_ref (ftable s f) > 1 then Ret () (upd_file f (f_ref_update (\<lambda>r. r - 1)) (intr_on s))
       else close_object slp (f_ref_update (\<lambda>_. 0) (ftable s f))
         (upd_file f (\<lambda>p. p\<lparr>f_ref := 0, f_type := FD_NONE\<rparr>) (intr_on s)))"
    by (cases "f_ref (ftable s f) = 1") (simp_all add: file_close_def a c u1 r1 Let_def)
qed

text \<open>Closing a file that was allocated and never used puts its entry back.\<close>

lemma alloc_then_close:
  assumes "spinlock_held LK_ftable s = 0" "f_type (ftable s i) = FD_NONE" "f_ref (ftable s i) = 0" "ftable t = (ftable s)(i := (ftable s i)\<lparr>f_ref := 1\<rparr>)"
    "spinlock_held LK_ftable t = 0"
  shows "file_close slp i t = Ret () (upd_file i (\<lambda>p. p\<lparr>f_ref := 0, f_type := FD_NONE\<rparr>) (intr_on t))"
    "ftable (upd_file i (\<lambda>p. p\<lparr>f_ref := 0, f_type := FD_NONE\<rparr>) (intr_on t)) = ftable s"
  using assms file_references(2) [OF assms(5), of slp i]
  by (simp_all add: close_object_def FD_NONE_def FD_PIPE_def FD_INODE_def FD_DEVICE_def)
    (simp add: fun_upd_idem_iff)

subsection \<open>Creating a pipe\<close>

text \<open>C34: \<open>pipe_alloc\<close> gives both ends or nothing. With a free page and two free entries of the table of
  files it takes exactly one page and two distinct entries, one for reading only and one for
  writing only, with one reference each, on the same empty open pipe. Otherwise it returns -1
  and the free pages and the table of files are what they were before the call.\<close>

theorem pipe_alloc_all_or_nothing:
  assumes "physmem_inv s" "spinlock_held LK_ftable s = 0" "ftable_ok s" "\<And>a. length (p_data (pipe_at s a)) = PIPESIZE"
  shows "if avail_pages s \<noteq> {} \<and> 2 \<le> card (free_files s) then
      \<exists>i j a t. pipe_alloc slp s = Ret (0, Some i, Some j) t \<and> i \<in> free_files s \<and> j \<in> free_files s \<and> i \<noteq> j \<and>
        virt_to_phys a \<in> avail_pages s \<and> avail_pages t = avail_pages s - {virt_to_phys a} \<and> physmem_inv t \<and> ftable_ok t \<and>
        ftable t = (ftable s)
          (i := (ftable s i)\<lparr>f_ref := 1, f_type := FD_PIPE, readable := True, writable := False, f_pipe := a\<rparr>,
           j := (ftable s j)\<lparr>f_ref := 1, f_type := FD_PIPE, readable := False, writable := True, f_pipe := a\<rparr>) \<and>
        pipe_ok (pipe_at t a) \<and> contents (pipe_at t a) = [] \<and> readopen (pipe_at t a) = 1 \<and> writeopen (pipe_at t a) = 1 \<and>
        (\<forall>b. b \<noteq> a \<longrightarrow> pipe_at t b = pipe_at s b)
    else
      \<exists>f0 f1 t. pipe_alloc slp s = Ret (- 1, f0, f1) t \<and> avail_pages t = avail_pages s \<and> physmem_inv t \<and>
        ftable t = ftable s \<and> pipe_at t = pipe_at s"
proof -
  obtain page s0 where p: "physmem_alloc_page s = (page, s0)" by (cases "physmem_alloc_page s")
  note f0 = alloc_page_files [OF p]
  have h0: "spinlock_held LK_ftable s0 = 0" using assms(2) f0(3) by (simp add: spinlock_held_def)
  have ff: "free_files s0 = free_files s" using f0(1) by (simp add: free_files_def)
  let ?g = "\<lambda>i. upd_file i (f_ref_update (\<lambda>_. 1)) :: 'a files_scheme \<Rightarrow> _"
  show ?thesis
  proof (cases "page = 0")
    case True
    then have "s0 = s" "avail_pages s = {}" using pm.alloc_zeroD [OF assms(1)] p by simp_all
    then show ?thesis using p True assms(1) by (simp add: pipe_alloc_def pipe_bad_def close_opt_def)
  next
    case False
    note al = pm.alloc_nonzeroD [OF assms(1) p False]
    have bk: "avail_pages (free_physical_page page u) = avail_pages s \<and> physmem_inv (free_physical_page page u)"
      if "phys_bitmap u = phys_bitmap s0" "free_pages_count u = free_pages_count s0" for u :: "'a files_scheme"
    proof -
      note c = physmem_cong [OF that]
      have "physmem_inv u" using al c by simp
      from pm.free_avail [OF this] show ?thesis using al c by auto
    qed
    show ?thesis
      using h0
    proof (cases rule: file_alloc_cases)
      case none
      then show ?thesis using p False ff bk [of "intr_on s0"] f0
        by (simp add: pipe_alloc_def pipe_bad_def close_opt_def)
    next
      case (some i)
      let ?s1 = "?g i (intr_on s0)"
      have h1: "spinlock_held LK_ftable ?s1 = 0" using h0 by simp
      have ff1: "free_files ?s1 = free_files s - {i}" using ff by (auto simp: free_files_def split: if_splits)
      have fi: "f_ref (ftable s i) = 0" "f_type (ftable s i) = FD_NONE"
        using some(2) assms(3) ff by (auto simp: free_files_def ftable_ok_def)
      show ?thesis
        using h1
      proof (cases rule: file_alloc_cases)
        case none
        have "free_files s = {i}" using none(2) ff1 some(2) ff by auto
        then have few: "\<not> 2 \<le> card (free_files s)" by simp
        let ?u = "free_physical_page page (intr_on ?s1)"
        have t: "ftable ?u = (ftable s)(i := (ftable s i)\<lparr>f_ref := 1\<rparr>)" "spinlock_held LK_ftable ?u = 0"
          using f0 h0 by simp_all
        note c = alloc_then_close(1) [OF assms(2) fi(2,1) t, of slp] alloc_then_close(2) [OF assms(2) fi(2,1) t]
        let ?v = "upd_file i (\<lambda>p. p\<lparr>f_ref := 0, f_type := FD_NONE\<rparr>) (intr_on ?u)"
        have "pipe_alloc slp s = Ret (- 1, Some i, None) ?v"
          using p False some(1) none(1) c(1) by (simp add: pipe_alloc_def pipe_bad_def close_opt_def)
        moreover have "avail_pages ?v = avail_pages s" "physmem_inv ?v"
          using bk [of "intr_on ?s1"] physmem_cong [of ?v ?u] by simp_all
        ultimately show ?thesis using few c(2) f0(2) by auto
      next
        case some1: (some j)
        let ?s2 = "?g j (intr_on ?s1)" and ?a = "phys_to_virt page"
        have j: "j \<in> free_files s" "i \<in> free_files s" "j \<noteq> i" using some1(2) ff1 some(2) ff by auto
        then have "card {i, j} \<le> card (free_files s)" by (intro card_mono) (auto simp: free_files_def)
        then have two: "avail_pages s \<noteq> {} \<and> 2 \<le> card (free_files s)" using j al by auto
        let ?s3 = "upd_pipe ?a (\<lambda>p. p\<lparr>readopen := 1, writeopen := 1, nread := 0, nwrite := 0\<rparr>)
          (spinlock_init (LK_pipe ?a) ''pipe'' ?s2)"
        let ?t = "upd_file j (\<lambda>f. f\<lparr>f_type := FD_PIPE, readable := False, writable := True, f_pipe := ?a\<rparr>)
          (upd_file i (\<lambda>f. f\<lparr>f_type := FD_PIPE, readable := True, writable := False, f_pipe := ?a\<rparr>) ?s3)"
        have run: "pipe_alloc slp s = Ret (0, Some i, Some j) ?t"
          using p False some(1) some1(1) by (simp add: pipe_alloc_def Let_def)
        have av: "avail_pages ?t = avail_pages s - {page}" "physmem_inv ?t"
          using physmem_cong [of ?t s0] al by simp_all
        have F: "ftable ?t = (ftable s)
          (i := (ftable s i)\<lparr>f_ref := 1, f_type := FD_PIPE, readable := True, writable := False, f_pipe := ?a\<rparr>,
           j := (ftable s j)\<lparr>f_ref := 1, f_type := FD_PIPE, readable := False, writable := True, f_pipe := ?a\<rparr>)"
          using j(3) f0(1) by (auto simp: fun_eq_iff spinlock_init_def)
        have P: "pipe_at ?t = (pipe_at s)(?a := (pipe_at s ?a)\<lparr>readopen := 1, writeopen := 1, nread := 0, nwrite := 0\<rparr>)"
          using f0(2) by (simp add: spinlock_init_def)
        have ok: "ftable_ok ?t" using assms(3) unfolding ftable_ok_def F by simp
        have "pipe_ok (pipe_at ?t ?a)" "contents (pipe_at ?t ?a) = []" "readopen (pipe_at ?t ?a) = 1"
          "writeopen (pipe_at ?t ?a) = 1" "\<forall>b. b \<noteq> ?a \<longrightarrow> pipe_at ?t b = pipe_at s b"
          unfolding P using assms(4) [of ?a] by (simp_all add: pipe_ok_def contents_def)
        then show ?thesis
          unfolding if_P [OF two] using run av al j F ok
          by (intro exI [of _ i] exI [of _ j] exI [of _ ?a] exI [of _ ?t] conjI) simp_all
      qed
    qed
  qed
qed

theorem pipe_alloc_all_or_nothing_witness:
  "\<exists>(s :: files) i j t. pipe_alloc kernel_sleep s = Ret (0, Some i, Some j) t \<and> i \<noteq> j \<and>
     card (free_files s) = NFILE \<and> f_type (ftable t i) = FD_PIPE \<and> readable (ftable t i)"
proof -
  let ?k = "file_kernel (\<lambda>_. no_file) (\<lambda>_. example_pipe)" let ?b = "physmem_init 0x80010000 ?k"
  let ?s = "?k\<lparr>phys_bitmap := phys_bitmap ?b, free_pages_count := free_pages_count ?b\<rparr>"
  note b = physmem_init_spec [of "0x80010000" ?k]
  have "phys_bitmap ?s = phys_bitmap ?b" "free_pages_count ?s = free_pages_count ?b" by simp_all
  note c = physmem_cong [OF this]
  have inv: "physmem_inv ?s" using b c(1) by simp
  have "first_free_page 0x80010000 = 16" by (simp add: first_free_page_def Let_def layout_defs)
  then have "card (avail_pages ?s) \<noteq> 0" using b c(2) by (simp add: card_avail_pages NUM_PAGES_def)
  then have av: "avail_pages ?s \<noteq> {}" by auto
  have F: "ftable ?s = (\<lambda>_. no_file)" "pipe_at ?s = (\<lambda>_. example_pipe)" by (simp_all add: file_kernel_sel)
  have ff: "free_files ?s = {..<NFILE}" unfolding free_files_def F by (auto simp: no_file_def)
  have ok: "ftable_ok ?s" unfolding ftable_ok_def F by (simp add: no_file_def)
  have h: "spinlock_held LK_ftable ?s = 0"
    using file_kernel_locks [of LK_ftable "\<lambda>_. no_file" "\<lambda>_. example_pipe"] by (simp add: spinlock_held_def)
  have "length (p_data (pipe_at ?s a)) = PIPESIZE" for a unfolding F by (simp add: example_pipe_def)
  from pipe_alloc_all_or_nothing [OF inv h ok this, of kernel_sleep]
  have "\<exists>i j a t. pipe_alloc kernel_sleep ?s = Ret (0, Some i, Some j) t \<and> i \<noteq> j \<and>
      ftable t = (ftable ?s)
          (i := (ftable ?s i)\<lparr>f_ref := 1, f_type := FD_PIPE, readable := True, writable := False, f_pipe := a\<rparr>,
           j := (ftable ?s j)\<lparr>f_ref := 1, f_type := FD_PIPE, readable := False, writable := True, f_pipe := a\<rparr>)"
    using av ff by (simp add: NFILE_def) blast
  then obtain i j a t where t: "pipe_alloc kernel_sleep ?s = Ret (0, Some i, Some j) t" "i \<noteq> j"
      "ftable t = (ftable ?s)
          (i := (ftable ?s i)\<lparr>f_ref := 1, f_type := FD_PIPE, readable := True, writable := False, f_pipe := a\<rparr>,
           j := (ftable ?s j)\<lparr>f_ref := 1, f_type := FD_PIPE, readable := False, writable := True, f_pipe := a\<rparr>)"
    by blast
  then have "f_type (ftable t i) = FD_PIPE" "readable (ftable t i)" by simp_all
  then show ?thesis using t(1,2) ff by (intro exI [of _ ?s] exI [of _ i] exI [of _ j] exI [of _ t]) simp
qed

end
