(* ===== verification/Ulibc.thy ===== *)
theory Ulibc
  imports CString Numerals
begin

text \<open>
  \<open>user/ulibc/ulibc.c\<close>: the library of user programs. Strings in memory end at the first zero
  byte; a loop over a memory without one is \<open>None\<close>. A text that a function builds is the
  list of its characters before the terminator. \<open>None\<close> is also an \<open>int\<close> that overflows, and a read
  behind the end of a string.
\<close>

subsection \<open>Strings and memory\<close>

partial_function (option) strlen_from :: "u64 \<Rightarrow> int \<Rightarrow> memory \<Rightarrow> int option" where
  "strlen_from s n m = (if m (s + word_of_int n) = 0 then Some n else strlen_from s (n + 1) m)"

definition u_strlen :: "u64 \<Rightarrow> memory \<Rightarrow> int option" where
  "u_strlen s m = strlen_from s 0 m"

text \<open>\<open>while ((*d++ = *src++));\<close>\<close>

partial_function (option) strcpy_loop :: "u64 \<Rightarrow> u64 \<Rightarrow> memory \<Rightarrow> memory option" where
  "strcpy_loop d s m =
     (let c = m s; m' = m(d := c) in if c = 0 then Some m' else strcpy_loop (d + 1) (s + 1) m')"

definition u_strcpy :: "u64 \<Rightarrow> u64 \<Rightarrow> memory \<Rightarrow> (u64 \<times> memory) option" where
  "u_strcpy dst src m = map_option (\<lambda>m'. (dst, m')) (strcpy_loop dst src m)"

partial_function (option) u_strcmp :: "u64 \<Rightarrow> u64 \<Rightarrow> memory \<Rightarrow> int option" where
  "u_strcmp a b m =
     (if m a \<noteq> 0 \<and> m a = m b then u_strcmp (a + 1) (b + 1) m
      else Some (int (unat (m a)) - int (unat (m b))))"

definition u_memset :: "u64 \<Rightarrow> int \<Rightarrow> u32 \<Rightarrow> memory \<Rightarrow> memory" where
  "u_memset d c n m = fold (\<lambda>i m. m(d + of_nat i := word_of_int c)) [0..<unat n] m"

definition u_memcpy :: "u64 \<Rightarrow> u64 \<Rightarrow> u32 \<Rightarrow> memory \<Rightarrow> memory" where
  "u_memcpy d s n m = fold (move_byte d s) [0..<unat n] m"

subsection \<open>Numbers\<close>

text \<open>\<open>while (n > 0) { tmp[i++] = '0' + n % 10; n /= 10; }\<close>\<close>

function itoa_digits :: "int \<Rightarrow> string" where
  "itoa_digits n = (if n > 0 then char_of (48 + nat (c_mod n 10)) # itoa_digits (c_div n 10) else [])"
  by auto
termination
  by (relation "measure nat") (auto simp: c_div_def sgn_if)

declare itoa_digits.simps [simp del]

definition u_itoa :: "int \<Rightarrow> string option" where
  "u_itoa n =
     (if n = int_min then None
      else
        let minus = (if n < 0 then ''-'' else []); n = (if n < 0 then - n else n)
        in if n = 0 then Some (minus @ ''0'') else Some (minus @ rev (itoa_digits n)))"

text \<open>\<open>while (*s >= '0' && *s <= '9') n = n * 10 + (*s++ - '0');\<close>\<close>

fun atoi_digits :: "int \<Rightarrow> string \<Rightarrow> int option" where
  "atoi_digits n [] = Some n"
| "atoi_digits n (c # s) =
     (if is_digit c then
        let n' = n * 10 + (int (of_char c) - 48) in if is_int n' then atoi_digits n' s else None
      else Some n)"

definition u_atoi :: "string \<Rightarrow> int option" where
  "u_atoi s =
     (case s of
        c # t \<Rightarrow> if c = CHR ''-'' then map_option uminus (atoi_digits 0 t) else atoi_digits 0 s
      | [] \<Rightarrow> atoi_digits 0 s)"

subsection \<open>Output\<close>

text \<open>
  What is sent to \<open>u_write\<close> on descriptor 1, one character per call. \<open>args i\<close> is the word
  at \<open>(uint64 *)&fmt + 1 + i\<close>, whatever it holds: the code takes it for the variable
  arguments. \<open>str_at p\<close> is the string at the address \<open>p\<close>.
\<close>

definition u_puts :: "string \<Rightarrow> string" where
  "u_puts s = s @ [CHR 0x0A]"

text \<open>The digits of the conversion \<open>%x\<close>, from the least.\<close>

function hex_digits :: "u64 \<Rightarrow> string" where
  "hex_digits n =
     (if n > 0 then
        (let d = unat (n AND 0xF) in if d < 10 then char_of (48 + d) else char_of (97 + d - 10)) #
          hex_digits (drop_bit 4 n)
      else [])"
  by auto
termination
  by (relation "measure unat") (auto simp: drop_bit_eq_div unat_div word_less_nat_alt unat_gt_0)

declare hex_digits.simps [simp del]

fun u_printf :: "string \<Rightarrow> nat \<Rightarrow> (nat \<Rightarrow> u64) \<Rightarrow> (u64 \<Rightarrow> string) \<Rightarrow> string option" where
  "u_printf [] k args str_at = Some []"
| "u_printf (c # p) k args str_at =
     (if c \<noteq> CHR ''%'' then map_option ((#) c) (u_printf p k args str_at)
      else
        (case p of
           [] \<Rightarrow> None
         | d # q \<Rightarrow>
             if d = CHR ''d'' then
               (case u_itoa (int_of_u64 (args k)) of
                  None \<Rightarrow> None
                | Some t \<Rightarrow> map_option ((@) t) (u_printf q (k + 1) args str_at))
             else if d = CHR ''s'' then
               map_option ((@) (if args k = 0 then ''(null)'' else str_at (args k))) (u_printf q (k + 1) args str_at)
             else if d = CHR ''c'' then
               map_option ((#) (char_of (unat (args k)))) (u_printf q (k + 1) args str_at)
             else if d = CHR ''x'' then
               map_option ((@) (if args k = 0 then ''0'' else rev (hex_digits (args k)))) (u_printf q (k + 1) args str_at)
             else if d = CHR ''%'' then map_option ((#) CHR ''%'') (u_printf q k args str_at)
             else map_option (\<lambda>r. CHR ''%'' # d # r) (u_printf q k args str_at)))"

subsection \<open>Numbers round trip\<close>

lemma itoa_digits_dec: "0 < n \<Longrightarrow> rev (itoa_digits n) = dec (nat n)"
proof (induction n rule: itoa_digits.induct)
  case (1 n)
  have d: "char_of (48 + nat (n mod 10)) = digit_char (nat n mod 10)"
    using 1(2) by (simp add: digit_char_def nat_mod_distrib)
  show ?case
  proof (cases "n < 10")
    case True
    then have "n mod 10 = n" "n div 10 = 0" using 1(2) by simp_all
    then show ?thesis
      using 1(2) True d by (simp add: itoa_digits.simps [of n] itoa_digits.simps [of 0] dec_small nat_mod_distrib)
  next
    case False
    then have "rev (itoa_digits (c_div n 10)) = dec (nat (c_div n 10))" using 1 by auto
    then show ?thesis using False d by (subst itoa_digits.simps) (simp add: dec_step nat_div_distrib)
  qed
qed

definition decimal_text :: "int \<Rightarrow> string" where
  "decimal_text n = (if n < 0 then ''-'' @ dec (nat (- n)) else dec (nat n))"

lemma u_itoa_text: "n \<noteq> int_min \<Longrightarrow> u_itoa n = Some (decimal_text n)"
  using itoa_digits_dec [of n] itoa_digits_dec [of "- n"]
  by (auto simp: u_itoa_def decimal_text_def Let_def)

lemma atoi_run:
  assumes "\<forall>c \<in> set t. is_digit c" "\<And>k. is_int (int (digs_val 10 (ds @ take k (map digit_val t))))"
  shows "atoi_digits (int (digs_val 10 ds)) (t @ rest) = atoi_digits (int (digs_val 10 (ds @ map digit_val t))) rest"
  using assms
proof (induction t arbitrary: ds)
  case (Cons c t)
  have c: "is_digit c" using Cons.prems(1) by simp
  have v: "int (digs_val 10 ds) * 10 + (int (of_char c) - 48) = int (digs_val 10 (ds @ [digit_val c]))"
    using c by (simp add: digit_val_def is_digit_def of_nat_diff)
  have "is_int (int (digs_val 10 (ds @ [digit_val c])))" using Cons.prems(2) [of 1] by simp
  moreover have "is_int (int (digs_val 10 ((ds @ [digit_val c]) @ take k (map digit_val t))))" for k
    using Cons.prems(2) [of "Suc k"] by simp
  ultimately show ?case using Cons.IH [of "ds @ [digit_val c]"] Cons.prems(1) c v by simp
qed simp

lemma digs_val_append_le: "digs_val 10 xs \<le> digs_val 10 (xs @ ys)"
proof (induction ys rule: rev_induct)
  case (snoc y ys)
  have "digs_val 10 (xs @ ys @ [y]) = digs_val 10 (xs @ ys) * 10 + y"
    using digs_val_snoc [of 10 "xs @ ys" y] by simp
  then show ?case using snoc by simp
qed simp

lemma atoi_dec:
  assumes "is_int (int n)" "rest = [] \<or> \<not> is_digit (hd rest)"
  shows "atoi_digits 0 (dec n @ rest) = Some (int n)"
proof -
  have "is_int (int (digs_val 10 ([] @ take k (map digit_val (dec n)))))" for k
  proof -
    have "digs_val 10 (take k (map digit_val (dec n))) \<le> digs_val 10 (map digit_val (dec n))"
      using digs_val_append_le [of "take k (map digit_val (dec n))" "drop k (map digit_val (dec n))"] by simp
    then show ?thesis using assms(1) by (simp add: dec_val is_int_def)
  qed
  then have "atoi_digits 0 (dec n @ rest) = atoi_digits (int n) rest"
    using atoi_run [of "dec n" "[]" rest] dec_digits by (simp add: dec_val digs_val_def [of 10 "[]"])
  then show ?thesis using assms(2) by (cases rest) simp_all
qed

lemma dec_hd: "hd (dec n @ rest) \<noteq> CHR ''-''"
  using is_digit_not [OF dec_digits [of "hd (dec n)" n]] dec_nonempty(1) [of n] by (simp add: hd_append)

text \<open>C40: \<open>u_atoi\<close> reads back what \<open>u_itoa\<close> wrote. For every \<open>int\<close> but the least, whose negation overflows,
  \<open>u_itoa\<close> writes the decimal digits of the number without leading zeros after a sign for a
  negative one, at most 11 characters, which fits the buffers of its callers; \<open>u_atoi\<close> on
  that text, followed by anything that does not begin with a digit, gives the number.\<close>

theorem itoa_atoi_roundtrip:
  assumes "is_int n" "n \<noteq> int_min" "rest = [] \<or> \<not> is_digit (hd rest)"
  shows "\<exists>b. u_itoa n = Some b \<and> b = decimal_text n \<and> length b \<le> 11 \<and> u_atoi (b @ rest) = Some n"
proof -
  have i: "is_int (int (nat n))" "is_int (int (nat (- n)))" using assms(1,2) by (auto simp: is_int_def)
  have "nat n < 10 ^ 10" "nat (- n) < 10 ^ 10" using assms(1) by (auto simp: is_int_def)
  from this [THEN length_dec] have l: "length (decimal_text n) \<le> 11" by (auto simp: decimal_text_def)
  have "u_atoi (decimal_text n @ rest) = Some n"
  proof (cases "n < 0")
    case True
    then show ?thesis using atoi_dec [OF i(2) assms(3)] by (simp add: decimal_text_def u_atoi_def)
  next
    case False
    obtain c t where c: "dec (nat n) @ rest = c # t" by (cases "dec (nat n) @ rest") simp_all
    then have "c \<noteq> CHR ''-''" using dec_hd [of "nat n" rest] by simp
    then have "u_atoi (dec (nat n) @ rest) = atoi_digits 0 (dec (nat n) @ rest)" by (simp add: u_atoi_def c)
    then show ?thesis using False atoi_dec [OF i(1) assms(3)] by (simp add: decimal_text_def)
  qed
  then show ?thesis using u_itoa_text [OF assms(2)] l by simp
qed

theorem itoa_atoi_roundtrip_witness: "\<exists>b. u_itoa (- 2147483647) = Some b \<and> u_atoi (b @ '' ticks'') = Some (- 2147483647)"
  using itoa_atoi_roundtrip [of "- 2147483647" "'' ticks''"] by (auto simp: is_int_def is_digit_def)

subsection \<open>Strings\<close>

text \<open>The string \<open>xs\<close> at the address \<open>a\<close>.\<close>

definition c_string :: "memory \<Rightarrow> u64 \<Rightarrow> u8 list \<Rightarrow> bool" where
  "c_string m a xs \<longleftrightarrow> mem_bytes a (length xs) m = xs \<and> 0 \<notin> set xs \<and> m (a + of_nat (length xs)) = 0"

lemma c_string_Cons:
  "c_string m a (x # xs) \<longleftrightarrow> m a = x \<and> x \<noteq> 0 \<and> c_string m (a + 1) xs"
proof -
  have "mem_bytes a (Suc n) m = m a # mem_bytes (a + 1) n m" for n
    by (simp add: mem_bytes_def map_upt_Suc add.assoc del: upt_Suc)
  then show ?thesis by (auto simp: c_string_def add.assoc)
qed

lemma c_string_Nil [simp]: "c_string m a [] \<longleftrightarrow> m a = 0"
  by (simp add: c_string_def mem_bytes_def)

lemma u_strlen_string: "c_string m s xs \<Longrightarrow> u_strlen s m = Some (int (length xs))"
proof -
  have "c_string m (s + word_of_int n) xs \<Longrightarrow> strlen_from s n m = Some (n + int (length xs))" for n
  proof (induction xs arbitrary: n)
    case (Cons x xs)
    then have "strlen_from s (n + 1) m = Some (n + 1 + int (length xs))"
      by (intro Cons.IH) (simp add: c_string_Cons add.assoc)
    then show ?case using Cons.prems by (subst strlen_from.simps) (simp add: c_string_Cons)
  qed (subst strlen_from.simps, simp)
  from this [of 0] show "c_string m s xs \<Longrightarrow> u_strlen s m = Some (int (length xs))" by (simp add: u_strlen_def)
qed

lemma u_strcmp_strings:
  assumes "c_string m a xs" "c_string m b ys"
  shows "\<exists>r. u_strcmp a b m = Some r \<and> (r = 0 \<longleftrightarrow> xs = ys)"
  using assms
proof (induction xs arbitrary: a b ys)
  case Nil
  then show ?case by (cases ys; subst u_strcmp.simps) (auto simp: c_string_Cons unsigned_eq_0_iff)
next
  case (Cons x xs)
  show ?case
  proof (cases "m b = x")
    case True
    then obtain zs where "ys = x # zs" "c_string m (b + 1) zs"
      using Cons.prems by (cases ys) (auto simp: c_string_Cons)
    then show ?thesis
      using Cons.IH [of "a + 1" "b + 1" zs] Cons.prems True by (subst u_strcmp.simps) (auto simp: c_string_Cons)
  next
    case False
    then have "ys \<noteq> x # xs" using Cons.prems by (auto simp: c_string_Cons)
    moreover have "uint (m a) \<noteq> uint (m b)" using False Cons.prems by (auto simp: c_string_Cons dest: unsigned_word_eqI)
    ultimately show ?thesis using False Cons.prems by (subst u_strcmp.simps) (auto simp: c_string_Cons)
  qed
qed

lemma c_string_eq:
  assumes "c_string m a xs" "\<And>i. i \<le> length xs \<Longrightarrow> m' (a + of_nat i) = m (a + of_nat i)"
  shows "c_string m' a xs"
  using assms
proof (induction xs arbitrary: a)
  case Nil
  then show ?case using Nil.prems(2) [of 0] by simp
next
  case (Cons x xs)
  have "m' (a + 1 + of_nat i) = m (a + 1 + of_nat i)" if "i \<le> length xs" for i
    using Cons.prems(2) [of "Suc i"] that by (simp add: add.assoc)
  then have "c_string m' (a + 1) xs" using Cons.IH [of "a + 1"] Cons.prems(1) by (simp add: c_string_Cons)
  then show ?case using Cons.prems(1) Cons.prems(2) [of 0] by (simp add: c_string_Cons)
qed

lemma strcpy_string:
  assumes "c_string m s xs" "length xs + 1 < 2 ^ 64"
    and "\<And>i j. i \<le> length xs \<Longrightarrow> j \<le> length xs \<Longrightarrow> d + of_nat i \<noteq> s + of_nat j"
  shows "\<exists>m'. strcpy_loop d s m = Some m' \<and> c_string m' d xs \<and> (\<forall>a. (\<forall>i \<le> length xs. a \<noteq> d + of_nat i) \<longrightarrow> m' a = m a)"
  using assms
proof (induction xs arbitrary: d s m)
  case Nil
  then show ?case by (subst strcpy_loop.simps) (auto simp: Let_def)
next
  case (Cons x xs)
  let ?m = "m(d := x)"
  have x: "m s = x" "x \<noteq> 0" "c_string m (s + 1) xs" using Cons.prems(1) by (simp_all add: c_string_Cons)
  have "s + 1 + of_nat j \<noteq> d" if "j \<le> length xs" for j
    using Cons.prems(3) [of 0 "Suc j"] that by (simp add: add.assoc)
  then have c: "c_string ?m (s + 1) xs" by (intro c_string_eq [OF x(3)]) simp
  have l: "length xs + 1 < 2 ^ 64" using Cons.prems(2) by simp
  have "d + 1 + of_nat i \<noteq> s + 1 + of_nat j" if "i \<le> length xs" "j \<le> length xs" for i j
    using Cons.prems(3) [of "Suc i" "Suc j"] that by (simp add: add.assoc)
  from Cons.IH [OF c l this] obtain m' where m': "strcpy_loop (d + 1) (s + 1) ?m = Some m'" "c_string m' (d + 1) xs"
    "\<forall>a. (\<forall>i \<le> length xs. a \<noteq> d + 1 + of_nat i) \<longrightarrow> m' a = ?m a"
    by blast
  have "d \<noteq> d + 1 + of_nat i" if "i \<le> length xs" for i
  proof
    assume "d = d + 1 + of_nat i"
    then have "of_nat (Suc i) = (0 :: u64)" by (simp add: add.assoc)
    then show False using that Cons.prems(2) by (simp add: word_of_nat_eq_0_iff del: of_nat_Suc) (auto dest: dvd_imp_le)
  qed
  then have "m' d = x" using m'(3) by simp
  moreover have "m' a = m a" if "\<forall>i \<le> Suc (length xs). a \<noteq> d + of_nat i" for a
  proof -
    have "a \<noteq> d + 1 + of_nat i" if "i \<le> length xs" for i
      using \<open>\<forall>i \<le> Suc (length xs). a \<noteq> d + of_nat i\<close> [rule_format, of "Suc i"] that by (simp add: add.assoc)
    moreover have "a \<noteq> d" using that [rule_format, of 0] by simp
    ultimately show ?thesis using m'(3) by simp
  qed
  ultimately show ?case
    using x m' by (subst strcpy_loop.simps) (simp add: Let_def c_string_Cons)
qed

text \<open>Copying a string to memory that does not overlap it: the copy compares equal to the original, has
  its length, and nothing else of the memory changes.\<close>

theorem strcpy_copies:
  assumes "c_string m s xs" "length xs + 1 < 2 ^ 64"
    and "\<And>i j. i \<le> length xs \<Longrightarrow> j \<le> length xs \<Longrightarrow> d + of_nat i \<noteq> s + of_nat j"
  shows "\<exists>m'. u_strcpy d s m = Some (d, m') \<and> u_strcmp d s m' = Some 0 \<and> u_strlen d m' = u_strlen s m \<and>
    (\<forall>a. (\<forall>i \<le> length xs. a \<noteq> d + of_nat i) \<longrightarrow> m' a = m a)"
proof -
  obtain m' where m': "strcpy_loop d s m = Some m'" "c_string m' d xs"
    "\<forall>a. (\<forall>i \<le> length xs. a \<noteq> d + of_nat i) \<longrightarrow> m' a = m a"
    using strcpy_string [OF assms] by blast
  have "c_string m' s xs" using m'(3) assms(3) by (intro c_string_eq [OF assms(1)]) metis
  from u_strcmp_strings [OF m'(2) this] have "u_strcmp d s m' = Some 0" by auto
  then show ?thesis using m' u_strlen_string [OF m'(2)] u_strlen_string [OF assms(1)] by (simp add: u_strcpy_def)
qed

subsection \<open>Output\<close>

lemma hex_digits_hexa: "0 < n \<Longrightarrow> rev (hex_digits n) = hexa (unat n)"
proof (induction n rule: hex_digits.induct)
  case (1 n)
  let ?d = "unat (n AND 0xF)"
  have "n AND 0xF = take_bit 4 n" by (simp add: take_bit_eq_mask mask_eq_exp_minus_1)
  then have d: "?d = unat n mod 16" by (simp add: unsigned_take_bit_eq take_bit_eq_mod unat_mod)
  have q: "unat (drop_bit 4 n) = unat n div 16" by (simp add: drop_bit_eq_div unat_div)
  have c: "(if ?d < 10 then char_of (48 + ?d) else char_of (97 + ?d - 10)) = digit_char ?d"
    by (simp add: digit_char_def)
  show ?case
  proof (cases "unat n < 16")
    case True
    then have "\<not> drop_bit 4 n > 0" using q by (simp add: word_less_nat_alt)
    then show ?thesis using True 1(2) d c
      by (subst hex_digits.simps) (simp add: hex_digits.simps [of "drop_bit 4 n"] dec_small digit_char_def Let_def)
  next
    case False
    then have "drop_bit 4 n > 0" using q by (simp add: word_less_nat_alt)
    then show ?thesis using 1 False d q c by (subst hex_digits.simps) (simp add: hexa_step digit_char_def Let_def)
  qed
qed

text \<open>Each conversion of \<open>u_printf\<close>, in front of any format.\<close>

theorem u_printf_conversions:
  fixes q :: string and args :: "nat \<Rightarrow> u64" and str_at :: "u64 \<Rightarrow> string"
  defines "rest k \<equiv> u_printf q k args str_at"
  shows "c \<noteq> CHR ''%'' \<Longrightarrow> u_printf (c # q) k args str_at = map_option ((#) c) (rest k)"
    "u_printf (''%d'' @ q) k args str_at = (if int_of_u64 (args k) = int_min then None
       else map_option ((@) (decimal_text (int_of_u64 (args k)))) (rest (k + 1)))"
    "u_printf (''%x'' @ q) k args str_at = map_option ((@) (hexa (unat (args k)))) (rest (k + 1))"
    "u_printf (''%s'' @ q) k args str_at =
       map_option ((@) (if args k = 0 then ''(null)'' else str_at (args k))) (rest (k + 1))"
    "u_printf ''%'' k args str_at = None"
proof -
  have "u_itoa int_min = None" by (simp add: u_itoa_def)
  then show "u_printf (''%d'' @ q) k args str_at = (if int_of_u64 (args k) = int_min then None
       else map_option ((@) (decimal_text (int_of_u64 (args k)))) (rest (k + 1)))"
    using u_itoa_text [of "int_of_u64 (args k)"] by (auto simp: rest_def)
  show "u_printf (''%x'' @ q) k args str_at = map_option ((@) (hexa (unat (args k)))) (rest (k + 1))"
    using hex_digits_hexa [of "args k"] by (auto simp: rest_def word_gt_0)
qed (simp_all add: rest_def)

end
