(* ===== verification/Syscall.thy ===== *)
theory Syscall
  imports Scheduler Console CString
begin

text \<open>
  \<open>kernel/sys/syscall.c\<close>. The state of the machine adds to the process layer the serial port
  (\<open>dev\<close>), the memory the arguments point into (\<open>ram\<close>), the trap registers and the
  interrupt controller, whose claim register answers \<open>plic_answer\<close> to its successive reads;
  \<open>plic_out\<close> are the writes to its registers, in order.
\<close>

unbundle bit_operations_syntax

record machine = procs +
  dev :: uart
  ram :: memory
  stvec :: u64
  sie_reg :: u64
  scause :: u64
  sepc :: u64
  stval :: u64
  plic_answer :: "nat \<Rightarrow> u32"
  plic_count :: nat
  plic_out :: "(u64 \<times> u32) list"

subsection \<open>The console\<close>

definition send_text :: "string \<Rightarrow> 'a machine_scheme \<Rightarrow> (unit, 'a machine_scheme) outcome" where
  "send_text t s = (case uart_puts t (dev s) of None \<Rightarrow> Stop SpinsForever s | Some u \<Rightarrow> Ret () (s\<lparr>dev := u\<rparr>))"

text \<open>\<open>printf\<close>; a conversion whose behaviour C leaves undefined stops the model.\<close>

definition say :: "string \<Rightarrow> arg list \<Rightarrow> 'a machine_scheme \<Rightarrow> (unit, 'a machine_scheme) outcome" where
  "say fmt as s = (case printf fmt as of None \<Rightarrow> Stop OutOfBounds s | Some t \<Rightarrow> send_text t s)"

subsection \<open>Arguments\<close>

definition SYS_fork :: int where "SYS_fork = 1"
definition SYS_exit :: int where "SYS_exit = 2"
definition SYS_wait :: int where "SYS_wait = 3"
definition SYS_read :: int where "SYS_read = 4"
definition SYS_write :: int where "SYS_write = 5"
definition SYS_getpid :: int where "SYS_getpid = 6"
definition SYS_sleep :: int where "SYS_sleep = 7"
definition SYS_yield :: int where "SYS_yield = 8"
definition NSYSCALLS :: int where "NSYSCALLS = 9"

lemmas syscall_numbers = SYS_fork_def SYS_exit_def SYS_wait_def SYS_read_def SYS_write_def SYS_getpid_def
  SYS_sleep_def SYS_yield_def NSYSCALLS_def

definition argraw :: "int \<Rightarrow> 'a machine_scheme \<Rightarrow> u64" where
  "argraw n s =
     (case current_process s of
        None \<Rightarrow> 0
      | Some p \<Rightarrow>
          if trapframe_ptr (proc_at s p) = 0 then 0
          else
            let tf = tf_heap s (trapframe_ptr (proc_at s p))
            in if n = 0 then tf_a0 tf else if n = 1 then tf_a1 tf else if n = 2 then tf_a2 tf
               else if n = 3 then tf_a3 tf else if n = 4 then tf_a4 tf else if n = 5 then tf_a5 tf else 0)"

definition argint :: "int \<Rightarrow> 'a machine_scheme \<Rightarrow> int" where
  "argint n s = int_of_u64 (argraw n s)"

definition arguint :: "int \<Rightarrow> 'a machine_scheme \<Rightarrow> u64" where
  "arguint n s = argraw n s"

subsection \<open>The handlers\<close>

definition sys_fork :: "'a machine_scheme \<Rightarrow> (int, 'a machine_scheme) outcome" where
  "sys_fork s = (case fork s of (r, t) \<Rightarrow> Ret r t)"

definition sys_exit :: "'a machine_scheme \<Rightarrow> (int, 'a machine_scheme) outcome" where
  "sys_exit s = bind_out (exit (argint 0 s) s) (\<lambda>_ t. Ret 0 t)"

definition sys_wait :: "'a machine_scheme \<Rightarrow> (int, 'a machine_scheme) outcome" where
  "sys_wait s = wait 0 s"

definition sys_write :: "'a machine_scheme \<Rightarrow> (int, 'a machine_scheme) outcome" where
  "sys_write s =
     (let fd = argint 0 s; buf = arguint 1 s; n = argint 2 s
      in if (fd = 1 \<or> fd = 2) \<and> buf \<noteq> 0 \<and> n > 0 then
           bind_out (send_text (map (\<lambda>i. char_of_u8 (ram s (buf + of_nat i))) [0..<nat n]) s) (\<lambda>_ t. Ret n t)
         else Ret (- 1) s)"

definition sys_read :: "'a machine_scheme \<Rightarrow> (int, 'a machine_scheme) outcome" where
  "sys_read s = Ret (- 1) s"

definition sys_getpid :: "'a machine_scheme \<Rightarrow> (int, 'a machine_scheme) outcome" where
  "sys_getpid s = Ret (case current_process s of None \<Rightarrow> - 1 | Some p \<Rightarrow> pid (proc_at s p)) s"

definition sys_sleep :: "'a machine_scheme \<Rightarrow> (int, 'a machine_scheme) outcome" where
  "sys_sleep s = bind_out (sleep (u64_of_int (argint 0 s)) None s) (\<lambda>_ t. Ret 0 t)"

definition sys_yield :: "'a machine_scheme \<Rightarrow> (int, 'a machine_scheme) outcome" where
  "sys_yield s = bind_out (yield s) (\<lambda>_ t. Ret 0 t)"

text \<open>The table: entry 0 is NULL.\<close>

definition syscall_table :: "int \<Rightarrow> ('a machine_scheme \<Rightarrow> (int, 'a machine_scheme) outcome) option" where
  "syscall_table num =
     (if num = SYS_fork then Some sys_fork
      else if num = SYS_exit then Some sys_exit
      else if num = SYS_wait then Some sys_wait
      else if num = SYS_read then Some sys_read
      else if num = SYS_write then Some sys_write
      else if num = SYS_getpid then Some sys_getpid
      else if num = SYS_sleep then Some sys_sleep
      else if num = SYS_yield then Some sys_yield
      else None)"

definition set_a0 :: "nat \<Rightarrow> u64 \<Rightarrow> 'a machine_scheme \<Rightarrow> 'a machine_scheme" where
  "set_a0 p x s =
     (let a = trapframe_ptr (proc_at s p) in s\<lparr>tf_heap := (tf_heap s)(a := (tf_heap s a)\<lparr>tf_a0 := x\<rparr>)\<rparr>)"

text \<open>\<open>inconnu_text\<close> is the format of the message, with its accented letter in UTF-8.\<close>

definition inconnu_text :: string where
  "inconnu_text = ''syscall: num'' @ [CHR 0xC3, CHR 0xA9] @ ''ro inconnu %d (pid=%d)'' @ [CHR 0x0A]"

definition syscall :: "'a machine_scheme \<Rightarrow> (unit, 'a machine_scheme) outcome" where
  "syscall s =
     (case current_process s of
        None \<Rightarrow> Ret () s
      | Some p \<Rightarrow>
          if trapframe_ptr (proc_at s p) = 0 then Ret () s
          else
            let num = int_of_u64 (tf_a7 (tf_heap s (trapframe_ptr (proc_at s p))))
            in case (if num > 0 \<and> num < NSYSCALLS then syscall_table num else None) of
                 Some handler \<Rightarrow> bind_out (handler s) (\<lambda>r t. Ret () (set_a0 p (u64_of_int r) t))
               | None \<Rightarrow>
                   bind_out (say inconnu_text [AInt num, AInt (pid (proc_at s p))] s) (\<lambda>_ t.
                   Ret () (set_a0 p (- 1) t)))"

end
