(* ===== verification/Trap.thy ===== *)
theory Trap
  imports Syscall
begin

text \<open>
  \<open>kernel/trap/plic.c\<close> and \<open>kernel/trap/trap.c\<close>. The trap registers are fields of the machine;
  \<open>handler\<close> is the address of \<open>kerneltrap\<close>, which the linker chooses.
\<close>

subsection \<open>The interrupt controller\<close>

definition PLIC_PRIORITY :: u64 where "PLIC_PRIORITY = 0x0C000000"
definition PLIC_SENABLE :: u64 where "PLIC_SENABLE = 0x0C000000 + 0x2080"
definition PLIC_SPRIORITY :: u64 where "PLIC_SPRIORITY = 0x0C000000 + 0x201000"
definition PLIC_SCLAIM :: u64 where "PLIC_SCLAIM = 0x0C000000 + 0x201004"
definition UART0_IRQ :: nat where "UART0_IRQ = 10"
definition VIRTIO0_IRQ :: nat where "VIRTIO0_IRQ = 1"

definition plic_write :: "u64 \<Rightarrow> u32 \<Rightarrow> 'a machine_scheme \<Rightarrow> 'a machine_scheme" where
  "plic_write r x s = s\<lparr>plic_out := plic_out s @ [(r, x)]\<rparr>"

definition plic_init :: "'a machine_scheme \<Rightarrow> (unit, 'a machine_scheme) outcome" where
  "plic_init s =
     (let s1 = plic_write (PLIC_PRIORITY + of_nat UART0_IRQ * 4) 1 s;
          s2 = plic_write (PLIC_PRIORITY + of_nat VIRTIO0_IRQ * 4) 1 s1;
          s3 = plic_write PLIC_SENABLE (push_bit UART0_IRQ 1 OR push_bit VIRTIO0_IRQ 1) s2;
          s4 = plic_write PLIC_SPRIORITY 0 s3
      in say (''plic_init: UART IRQ=%d et VirtIO IRQ=%d activ'' @ [CHR 0xC3, CHR 0xA9] @ ''s'' @ [CHR 0x0A])
           [AInt (int UART0_IRQ), AInt (int VIRTIO0_IRQ)] s4)"

definition plic_claim :: "'a machine_scheme \<Rightarrow> int \<times> 'a machine_scheme" where
  "plic_claim s = (int_of_u32 (plic_answer s (plic_count s)), s\<lparr>plic_count := plic_count s + 1\<rparr>)"

definition plic_complete :: "int \<Rightarrow> 'a machine_scheme \<Rightarrow> 'a machine_scheme" where
  "plic_complete irq s = plic_write PLIC_SCLAIM (word_of_int irq) s"

subsection \<open>The trap registers\<close>

text \<open>The accessors of \<open>include/riscv/intrinsics.h\<close>, each one instruction on the register it names.\<close>

definition r_scause :: "'a machine_scheme \<Rightarrow> u64" where "r_scause s = scause s"
definition r_sepc :: "'a machine_scheme \<Rightarrow> u64" where "r_sepc s = sepc s"
definition w_sepc :: "u64 \<Rightarrow> 'a machine_scheme \<Rightarrow> 'a machine_scheme" where "w_sepc v s = s\<lparr>sepc := v\<rparr>"
definition r_stval :: "'a machine_scheme \<Rightarrow> u64" where "r_stval s = stval s"
definition r_sie :: "'a machine_scheme \<Rightarrow> u64" where "r_sie s = sie_reg s"
definition w_sie :: "u64 \<Rightarrow> 'a machine_scheme \<Rightarrow> 'a machine_scheme" where "w_sie v s = s\<lparr>sie_reg := v\<rparr>"
definition w_stvec :: "u64 \<Rightarrow> 'a machine_scheme \<Rightarrow> 'a machine_scheme" where "w_stvec v s = s\<lparr>stvec := v\<rparr>"

lemmas trap_registers [simp] =
  r_scause_def r_sepc_def w_sepc_def r_stval_def r_sie_def w_sie_def w_stvec_def

subsection \<open>Traps\<close>

definition SIE_SEIE :: u64 where "SIE_SEIE = push_bit 9 1"
definition SIE_STIE :: u64 where "SIE_STIE = push_bit 5 1"
definition SCAUSE_INTERRUPT_BIT :: u64 where "SCAUSE_INTERRUPT_BIT = push_bit 63 1"
definition SCAUSE_ECALL_USER :: u64 where "SCAUSE_ECALL_USER = 8"
definition SCAUSE_ECALL_SUPERVISOR :: u64 where "SCAUSE_ECALL_SUPERVISOR = 9"

definition trap_init :: "u64 \<Rightarrow> 'a machine_scheme \<Rightarrow> (unit, 'a machine_scheme) outcome" where
  "trap_init handler s =
     (let s1 = w_stvec (handler AND NOT 3) s;
          s2 = w_sie (r_sie s1 OR SIE_SEIE OR SIE_STIE) s1
      in say (''trap_init: stvec configur'' @ [CHR 0xC3, CHR 0xA9] @ '' sur kerneltrap'' @ [CHR 0x0A]) [] s2)"

definition exception_names :: "string list" where
  "exception_names =
     [''instruction misaligned'', ''instruction fault'', ''illegal instruction'', ''breakpoint'',
      ''load misaligned'', ''load fault'', ''store misaligned'', ''store fault'', ''ecall from user'',
      ''ecall from supervisor'', ''reserved'', ''reserved'', ''instruction page fault'',
      ''load page fault'', ''reserved'', ''store page fault'']"

text \<open>An interrupt: the timer, a device behind the controller, or an unknown cause.\<close>

definition interrupt_text :: "string \<Rightarrow> string" where
  "interrupt_text d = ''[trap] interruption '' @ d @ '' re'' @ [CHR 0xC3, CHR 0xA7] @ ''ue'' @ [CHR 0x0A]"

definition external_interrupt :: "'a machine_scheme \<Rightarrow> (unit, 'a machine_scheme) outcome" where
  "external_interrupt s =
     (case plic_claim s of (irq, s1) \<Rightarrow>
      bind_out
        (if irq = int UART0_IRQ then say (interrupt_text ''UART'') [] s1
         else if irq = int VIRTIO0_IRQ then say (interrupt_text ''VirtIO'') [] s1
         else Ret () s1)
        (\<lambda>_ s2. Ret () (if irq > 0 then plic_complete irq s2 else s2)))"

text \<open>The end of an exception that is not a system call: a report, then \<open>while (1)\<close>.\<close>

definition fatal_exception :: "u64 \<Rightarrow> u64 \<Rightarrow> u64 \<Rightarrow> 'a machine_scheme \<Rightarrow> (unit, 'a machine_scheme) outcome" where
  "fatal_exception cause pc tval s =
     bind_out (say (''kerneltrap: exception '' @ [CHR 0x27] @ ''%s'' @ [CHR 0x27] @ '' (scause=%lu)'' @ [CHR 0x0A])
        [AStr (if cause < 16 then exception_names ! unat cause else ''inconnue''), ALong cause] s) (\<lambda>_ s1.
     bind_out (say (''  sepc=%lx  stval=%lx'' @ [CHR 0x0A]) [ALong pc, ALong tval] s1) (\<lambda>_ s2.
     bind_out
       (case current_process s2 of
          None \<Rightarrow> Ret () s2
        | Some p \<Rightarrow> say (''  processus: pid=%d nom=%s'' @ [CHR 0x0A])
            [AInt (pid (proc_at s2 p)), AStr (takeWhile (\<lambda>c. c \<noteq> CHR 0x00) (pname (proc_at s2 p)))] s2) (\<lambda>_ s3.
     bind_out (say (''kernel panic: exception non g'' @ [CHR 0xC3, CHR 0xA9] @ ''r'' @ [CHR 0xC3, CHR 0xA9] @
        ''e, arr'' @ [CHR 0xC3, CHR 0xAA] @ ''t.'' @ [CHR 0x0A]) [] s3) (\<lambda>_ s4.
     Stop Halted s4))))"

definition kerneltrap :: "'a machine_scheme \<Rightarrow> (unit, 'a machine_scheme) outcome" where
  "kerneltrap s =
     (let cause = r_scause s; pc = r_sepc s; tval = r_stval s in
      if cause AND SCAUSE_INTERRUPT_BIT \<noteq> 0 then
        let cause = cause AND NOT SCAUSE_INTERRUPT_BIT
        in if cause = 5 then yield s
           else if cause = 9 then external_interrupt s
           else say (''kerneltrap: interruption inconnue cause=%lu sepc=%lx'' @ [CHR 0x0A]) [ALong cause, ALong pc] s
      else if cause = SCAUSE_ECALL_USER \<or> cause = SCAUSE_ECALL_SUPERVISOR then
        syscall (w_sepc (pc + 4) s)
      else fatal_exception cause pc tval s)"

definition stub_text :: "string \<Rightarrow> string" where
  "stub_text f = f @ '': non encore impl'' @ [CHR 0xC3, CHR 0xA9] @ ''ment'' @ [CHR 0xC3, CHR 0xA9] @ [CHR 0x0A]"

definition usertrap :: "'a machine_scheme \<Rightarrow> (unit, 'a machine_scheme) outcome" where
  "usertrap s = bind_out (say (stub_text ''usertrap'') [] s) (\<lambda>_ t. Stop Halted t)"

definition usertrapret :: "'a machine_scheme \<Rightarrow> (unit, 'a machine_scheme) outcome" where
  "usertrapret s = bind_out (say (stub_text ''usertrapret'') [] s) (\<lambda>_ t. Stop Halted t)"

end
