(* ===== verification/Trap_Props.thy ===== *)
theory Trap_Props
  imports Trap
begin

text \<open>What a system call does to the caller's registers, and what a trap does.\<close>

subsection \<open>Frames\<close>

lemma set_a0_sel [simp]:
  "current_process (set_a0 p x s) = current_process s" "proc_table (set_a0 p x s) = proc_table s"
  "dev (set_a0 p x s) = dev s" "ram (set_a0 p x s) = ram s" "plic_out (set_a0 p x s) = plic_out s"
  "sepc (set_a0 p x s) = sepc s"
  "tf_heap (set_a0 p x s) = (tf_heap s)(trapframe_ptr (proc_at s p) := (tf_heap s (trapframe_ptr (proc_at s p)))\<lparr>tf_a0 := x\<rparr>)"
  by (simp_all add: set_a0_def Let_def)

text \<open>The process that makes the call, with its trapframe.\<close>

definition caller :: "'a machine_scheme \<Rightarrow> nat \<Rightarrow> bool" where
  "caller s p \<longleftrightarrow> current_process s = Some p \<and> p < length (proc_table s) \<and> trapframe_ptr (proc_at s p) \<noteq> 0"

abbreviation regs :: "'a machine_scheme \<Rightarrow> nat \<Rightarrow> trapframe" where
  "regs s p \<equiv> tf_heap s (trapframe_ptr (proc_at s p))"

lemma syscall_runs:
  assumes "caller s p" "syscall_table (int_of_u64 (tf_a7 (regs s p))) = Some h"
  shows "syscall s = bind_out (h s) (\<lambda>r t. Ret () (set_a0 p (u64_of_int r) t))"
proof -
  let ?n = "int_of_u64 (tf_a7 (regs s p))"
  have "?n > 0 \<and> ?n < NSYSCALLS"
    using assms(2) by (auto simp: syscall_table_def syscall_numbers split: if_splits)
  then show ?thesis using assms by (simp add: syscall_def caller_def Let_def)
qed

lemma caller_args:
  assumes "caller s p"
  shows "argint 0 s = int_of_u64 (tf_a0 (regs s p))" "arguint 1 s = tf_a1 (regs s p)"
    "argint 2 s = int_of_u64 (tf_a2 (regs s p))"
  using assms by (simp_all add: caller_def argint_def arguint_def argraw_def Let_def)

lemma send_text_live:
  assumes "live_tx (dev s)"
  shows "\<exists>u. send_text t s = Ret () (s\<lparr>dev := u\<rparr>) \<and> tx u = tx (dev s) @ t \<and> live_tx u"
  using uart_puts_live [OF assms, of t] by (auto simp: send_text_def)

lemma printf_literal: "CHR ''%'' \<notin> set t \<Longrightarrow> printf t as = Some t"
  by (induction t) (auto simp: cons_out_def)

lemma say_live:
  assumes "live_tx (dev s)" "printf fmt as = Some t"
  shows "\<exists>u. say fmt as s = Ret () (s\<lparr>dev := u\<rparr>) \<and> tx u = tx (dev s) @ t \<and> live_tx u"
  using send_text_live [OF assms(1)] assms(2) by (simp add: say_def)

subsection \<open>System calls\<close>

definition written_bytes :: "'a machine_scheme \<Rightarrow> u64 \<Rightarrow> nat \<Rightarrow> string" where
  "written_bytes s buf n = map (\<lambda>i. char_of_u8 (ram s (buf + of_nat i))) [0..<n]"

text \<open>C35: The dispatcher runs the handler that the low 32 bits of \<open>a7\<close> name and puts its result into \<open>a0\<close> of
  the caller. \<open>getpid\<close> gives the pid; \<open>read\<close> always gives -1; \<open>write\<close> to descriptor 1 or 2 sends exactly
  the bytes of the buffer and gives their number, and -1 without output on any other
  descriptor, a null buffer or a count that is not positive; \<open>wait\<close> without a finished child gives -1;
  \<open>sleep\<close> and \<open>yield\<close> do not come back. A number without handler gives -1 after a message.
  Registers other than \<open>a0\<close>, and the other processes, stay as they are.\<close>

theorem syscall_correct:
  assumes "caller s p" "live_tx (dev s)"
  defines "num \<equiv> int_of_u64 (tf_a7 (regs s p))" and "fd \<equiv> int_of_u64 (tf_a0 (regs s p))"
    and "buf \<equiv> tf_a1 (regs s p)" and "n \<equiv> int_of_u64 (tf_a2 (regs s p))"
  shows "(num = SYS_getpid \<longrightarrow> syscall s = Ret () (set_a0 p (u64_of_int (pid (proc_at s p))) s)) \<and>
    (num = SYS_read \<longrightarrow> syscall s = Ret () (set_a0 p (- 1) s)) \<and>
    (num = SYS_write \<longrightarrow> (if fd \<in> {1, 2} \<and> buf \<noteq> 0 \<and> n > 0
      then \<exists>u. syscall s = Ret () (set_a0 p (u64_of_int n) (s\<lparr>dev := u\<rparr>)) \<and>
        tx u = tx (dev s) @ written_bytes s buf (nat n)
      else syscall s = Ret () (set_a0 p (- 1) s))) \<and>
    (num = SYS_wait \<longrightarrow> (if \<forall>i < NPROC. \<not> is_zombie_child s i then syscall s = Ret () (set_a0 p (- 1) s)
      else syscall s = Stop NullDeref s)) \<and>
    (num = SYS_exit \<longrightarrow> (\<exists>t. syscall s = Stop Halted t \<and> state (proc_at t p) = PROC_ZOMBIE \<and> exit_code (proc_at t p) = fd)) \<and>
    (num \<in> {SYS_sleep, SYS_yield} \<longrightarrow> (\<exists>t. syscall s = Stop Rescheduled t)) \<and>
    (num \<notin> {SYS_fork..SYS_yield} \<and> num \<noteq> int_min \<and> is_int (pid (proc_at s p)) \<and> pid (proc_at s p) \<noteq> int_min \<longrightarrow>
      (\<exists>u. syscall s = Ret () (set_a0 p (- 1) (s\<lparr>dev := u\<rparr>))))"
proof -
  note run = syscall_runs [OF assms(1), folded num_def]
  note args = caller_args [OF assms(1), folded fd_def buf_def n_def]
  have cur: "current_process s = Some p" "p < length (proc_table s)" using assms(1) by (simp_all add: caller_def)
  have m1: "u64_of_int (- 1) = - 1" by (simp add: u64_of_int_def)
  have "num = SYS_getpid \<longrightarrow> syscall s = Ret () (set_a0 p (u64_of_int (pid (proc_at s p))) s)"
    using run [of sys_getpid] cur by (simp add: syscall_table_def syscall_numbers sys_getpid_def)
  moreover have "num = SYS_read \<longrightarrow> syscall s = Ret () (set_a0 p (- 1) s)"
    using run [of sys_read] m1 by (simp add: syscall_table_def syscall_numbers sys_read_def)
  moreover have "num = SYS_write \<longrightarrow> (if fd \<in> {1, 2} \<and> buf \<noteq> 0 \<and> n > 0
      then \<exists>u. syscall s = Ret () (set_a0 p (u64_of_int n) (s\<lparr>dev := u\<rparr>)) \<and>
        tx u = tx (dev s) @ written_bytes s buf (nat n)
      else syscall s = Ret () (set_a0 p (- 1) s))"
  proof
    assume "num = SYS_write"
    then have r: "syscall s = bind_out (sys_write s) (\<lambda>r t. Ret () (set_a0 p (u64_of_int r) t))"
      by (intro run) (simp add: syscall_table_def syscall_numbers)
    obtain u where u: "send_text (written_bytes s buf (nat n)) s = Ret () (s\<lparr>dev := u\<rparr>)"
      "tx u = tx (dev s) @ written_bytes s buf (nat n)"
      using send_text_live [OF assms(2)] by blast
    have w: "sys_write s = (if fd \<in> {1, 2} \<and> buf \<noteq> 0 \<and> n > 0 then Ret n (s\<lparr>dev := u\<rparr>) else Ret (- 1) s)"
      using u(1) by (simp add: sys_write_def args Let_def written_bytes_def)
    show "if fd \<in> {1, 2} \<and> buf \<noteq> 0 \<and> n > 0
      then \<exists>u. syscall s = Ret () (set_a0 p (u64_of_int n) (s\<lparr>dev := u\<rparr>)) \<and>
        tx u = tx (dev s) @ written_bytes s buf (nat n)
      else syscall s = Ret () (set_a0 p (- 1) s)"
    proof (cases "fd \<in> {1, 2} \<and> buf \<noteq> 0 \<and> n > 0")
      case True
      show ?thesis unfolding if_P [OF True] using r w u(2) True by (intro exI [of _ u]) simp
    next
      case False
      show ?thesis unfolding if_not_P [OF False] using r w m1 unfolding if_not_P [OF False] by simp
    qed
  qed
  moreover have "num = SYS_wait \<longrightarrow> (if \<forall>i < NPROC. \<not> is_zombie_child s i then syscall s = Ret () (set_a0 p (- 1) s)
      else syscall s = Stop NullDeref s)"
    using run [of sys_wait] m1 scan_from_None_iff [of "is_zombie_child s" 0 NPROC]
    by (auto simp: syscall_table_def syscall_numbers sys_wait_def wait_def split: option.split)
  moreover have "num = SYS_exit \<longrightarrow>
      (\<exists>t. syscall s = Stop Halted t \<and> state (proc_at t p) = PROC_ZOMBIE \<and> exit_code (proc_at t p) = fd)"
    using run [of sys_exit] cur args(1)
    by (auto simp: syscall_table_def syscall_numbers sys_exit_def exit_def wakeup_def upd_proc_def Let_def split: option.split)
  moreover have "num \<in> {SYS_sleep, SYS_yield} \<longrightarrow> (\<exists>t. syscall s = Stop Rescheduled t)"
    using run [of sys_sleep] run [of sys_yield] cur
    by (auto simp: syscall_table_def syscall_numbers sys_sleep_def sys_yield_def yield_def sleep_def sleep_unlock_def)
  moreover have "num \<notin> {SYS_fork..SYS_yield} \<and> num \<noteq> int_min \<and> is_int (pid (proc_at s p)) \<and> pid (proc_at s p) \<noteq> int_min \<longrightarrow>
      (\<exists>u. syscall s = Ret () (set_a0 p (- 1) (s\<lparr>dev := u\<rparr>)))"
  proof (intro impI)
    assume h: "num \<notin> {SYS_fork..SYS_yield} \<and> num \<noteq> int_min \<and> is_int (pid (proc_at s p)) \<and> pid (proc_at s p) \<noteq> int_min"
    then have none: "(if num > 0 \<and> num < NSYSCALLS then syscall_table num else None) = (None :: ('a machine_scheme \<Rightarrow> _) option)"
      by (auto simp: syscall_numbers)
    have "is_int num" by (simp add: num_def)
    then obtain t where "printf inconnu_text [AInt num, AInt (pid (proc_at s p))] = Some t"
      using h print_int_eq [of num] print_int_eq [of "pid (proc_at s p)"] by (auto simp: inconnu_text_def cons_out_def)
    from say_live [OF assms(2) this] obtain u
      where "say inconnu_text [AInt num, AInt (pid (proc_at s p))] s = Ret () (s\<lparr>dev := u\<rparr>)" by blast
    then show "\<exists>u. syscall s = Ret () (set_a0 p (- 1) (s\<lparr>dev := u\<rparr>))"
      using none assms(1) by (intro exI [of _ u]) (simp add: syscall_def caller_def Let_def num_def [symmetric])
  qed
  ultimately show ?thesis by blast
qed

text \<open>C36: \<open>fork\<close> through the dispatcher returns twice. With a free slot and three free pages the caller's
  \<open>a0\<close> holds the pid of the child and the child's trapframe is the caller's with 0 in \<open>a0\<close>; all
  other registers of both are those of the call. Otherwise the caller's \<open>a0\<close> is -1 and no
  process has come to be.\<close>

theorem syscall_fork_returns_twice:
  assumes "procs_inv s" "caller s p" "live s p" "int_of_u64 (tf_a7 (regs s p)) = SYS_fork"
  shows "if (\<exists>i < NPROC. \<not> live s i) \<and> 3 \<le> card (avail_pages s)
    then \<exists>c t. syscall s = Ret () t \<and> c \<noteq> p \<and> live t = (live s)(c := True) \<and> pid (proc_at t c) = next_pid s \<and>
      state (proc_at t c) = PROC_RUNNABLE \<and>
      regs t p = (regs s p)\<lparr>tf_a0 := u64_of_int (next_pid s)\<rparr> \<and> regs t c = (regs s p)\<lparr>tf_a0 := 0\<rparr>
    else \<exists>t. syscall s = Ret () t \<and> regs t p = (regs s p)\<lparr>tf_a0 := - 1\<rparr> \<and> live t = live s"
proof -
  obtain r u where f: "fork s = (r, u)" by (cases "fork s")
  have cur: "current_process s = Some p" using assms(2) by (simp add: caller_def)
  have "syscall_table (int_of_u64 (tf_a7 (regs s p))) = Some (sys_fork :: 'a machine_scheme \<Rightarrow> _)"
    using assms(4) by (simp add: syscall_table_def)
  from syscall_runs [OF assms(2) this] f have run: "syscall s = Ret () (set_a0 p (u64_of_int r) u)"
    by (simp add: sys_fork_def)
  note fs = fork_spec [OF assms(1) cur assms(3) f]
  show ?thesis
  proof (cases "(\<exists>i < NPROC. \<not> live s i) \<and> 3 \<le> card (avail_pages s)")
    case True
    then obtain c where c: "r = next_pid s" "forked p c s u" using fs by auto
    then have F: "c \<noteq> p" "live u = (live s)(c := True)" "pid (proc_at u c) = next_pid s" "state (proc_at u c) = PROC_RUNNABLE"
      "proc_at u p = proc_at s p" "trapframe_ptr (proc_at u c) \<noteq> 0" "set (slot_pages (proc_at u c)) \<subseteq> avail_pages s"
      "tf_heap u (trapframe_ptr (proc_at u c)) = (regs s p)\<lparr>tf_a0 := 0\<rparr>"
      "\<And>q. q \<noteq> trapframe_ptr (proc_at u c) \<Longrightarrow> tf_heap u q = tf_heap s q"
      using assms(2,3) unfolding forked_def caller_def by auto
    have "virt_to_phys (trapframe_ptr (proc_at s p)) \<in> owned s"
      using assms(2,3) by (auto simp: owned_def owns_def slot_pages_def caller_def live_def intro!: exI [of _ p])
    moreover have "virt_to_phys (trapframe_ptr (proc_at u c)) \<in> avail_pages s"
      using F(6,7) by (auto simp: slot_pages_def)
    ultimately have ne: "trapframe_ptr (proc_at s p) \<noteq> trapframe_ptr (proc_at u c)"
      using assms(1) by (auto simp: procs_inv_def)
    let ?t = "set_a0 p (u64_of_int r) u"
    have "live ?t = live u" by (simp add: live_def fun_eq_iff)
    then show ?thesis
      unfolding if_P [OF True] using run c(1) F ne
      by (intro exI [of _ c] exI [of _ ?t]) simp
  next
    case False
    then have "r = - 1" "fork_failed s u" using fs by auto
    then have F: "live u = live s" "proc_at u p = proc_at s p" "regs u p = regs s p"
      using assms(3) by (auto simp: fork_failed_def)
    let ?t = "set_a0 p (u64_of_int r) u"
    have "live ?t = live u" by (simp add: live_def fun_eq_iff)
    then show ?thesis
      unfolding if_not_P [OF False] using run F \<open>r = - 1\<close>
      by (intro exI [of _ ?t]) (simp add: u64_of_int_def)
  qed
qed

subsection \<open>Traps\<close>

text \<open>C37: \<open>kerneltrap\<close> by cause. A timer interrupt gives the CPU away; an external interrupt is claimed once
  and completed with the number that was claimed, or not at all when nothing was pending, and no
  process is woken, whatever the device; a system call steps over the instruction and is
  dispatched; any other exception never returns.\<close>

theorem kerneltrap_correct:
  assumes "live_tx (dev s)"
  defines "cause \<equiv> scause s AND NOT SCAUSE_INTERRUPT_BIT"
  shows "(scause s AND SCAUSE_INTERRUPT_BIT \<noteq> 0 \<longrightarrow>
      (cause = 5 \<longrightarrow> (\<exists>t. kerneltrap s = Stop Rescheduled t)) \<and>
      (cause = 9 \<longrightarrow> (\<exists>t. kerneltrap s = Ret () t \<and> plic_count t = plic_count s + 1 \<and> proc_table t = proc_table s \<and>
        plic_out t = plic_out s @ (if 0 < int_of_u32 (plic_answer s (plic_count s))
          then [(PLIC_SCLAIM, plic_answer s (plic_count s))] else []))) \<and>
      (cause \<noteq> 5 \<and> cause \<noteq> 9 \<longrightarrow> (\<exists>u. kerneltrap s = Ret () (s\<lparr>dev := u\<rparr>)))) \<and>
    (scause s = SCAUSE_ECALL_USER \<or> scause s = SCAUSE_ECALL_SUPERVISOR \<longrightarrow>
      kerneltrap s = syscall (s\<lparr>sepc := sepc s + 4\<rparr>)) \<and>
    (scause s AND SCAUSE_INTERRUPT_BIT = 0 \<and> scause s \<notin> {SCAUSE_ECALL_USER, SCAUSE_ECALL_SUPERVISOR} \<longrightarrow>
      (\<exists>r t. kerneltrap s = Stop r t))"
proof -
  let ?i = "scause s AND SCAUSE_INTERRUPT_BIT \<noteq> 0"
  have "?i \<Longrightarrow> cause = 5 \<Longrightarrow> \<exists>t. kerneltrap s = Stop Rescheduled t"
    by (simp add: kerneltrap_def cause_def yield_def)
  moreover have "\<exists>t. kerneltrap s = Ret () t \<and> plic_count t = plic_count s + 1 \<and> proc_table t = proc_table s \<and>
      plic_out t = plic_out s @ (if 0 < int_of_u32 (plic_answer s (plic_count s))
        then [(PLIC_SCLAIM, plic_answer s (plic_count s))] else [])" if "?i" "cause = 9"
  proof -
    let ?irq = "int_of_u32 (plic_answer s (plic_count s))" and ?s1 = "s\<lparr>plic_count := plic_count s + 1\<rparr>"
    have lit: "printf (interrupt_text d) [] = Some (interrupt_text d)" if "CHR ''%'' \<notin> set d" for d
      using that by (intro printf_literal) (simp add: interrupt_text_def)
    have live: "live_tx (dev ?s1)" using assms(1) by simp
    obtain u v where u: "say (interrupt_text ''UART'') [] ?s1 = Ret () (?s1\<lparr>dev := u\<rparr>)"
      "say (interrupt_text ''VirtIO'') [] ?s1 = Ret () (?s1\<lparr>dev := v\<rparr>)"
      using say_live [OF live lit, of "''UART''"] say_live [OF live lit, of "''VirtIO''"] by auto
    let ?m = "if ?irq = int UART0_IRQ then say (interrupt_text ''UART'') [] ?s1
      else if ?irq = int VIRTIO0_IRQ then say (interrupt_text ''VirtIO'') [] ?s1 else Ret () ?s1"
    have "\<exists>w. ?m = Ret () (?s1\<lparr>dev := w\<rparr>)" using u by (auto intro: exI [of _ "dev s"])
    then obtain w where w: "?m = Ret () (?s1\<lparr>dev := w\<rparr>)" by blast
    have "kerneltrap s = external_interrupt s" using that by (simp add: kerneltrap_def cause_def)
    also have "\<dots> = Ret () (if ?irq > 0 then plic_complete ?irq (?s1\<lparr>dev := w\<rparr>) else ?s1\<lparr>dev := w\<rparr>)"
      unfolding external_interrupt_def plic_claim_def prod.case w bind_out.simps by (rule refl)
    finally have run: "kerneltrap s = Ret () (if ?irq > 0 then plic_complete ?irq (?s1\<lparr>dev := w\<rparr>) else ?s1\<lparr>dev := w\<rparr>)" .
    have "word_of_int ?irq = plic_answer s (plic_count s)" by (simp add: int_of_u32_def)
    then show ?thesis unfolding run by (simp add: plic_complete_def plic_write_def)
  qed
  moreover have "\<exists>u. kerneltrap s = Ret () (s\<lparr>dev := u\<rparr>)" if "?i" "cause \<noteq> 5" "cause \<noteq> 9"
  proof -
    let ?f = "''kerneltrap: interruption inconnue cause=%lu sepc=%lx'' @ [CHR 0x0A]"
    obtain t where "printf ?f [ALong cause, ALong (sepc s)] = Some t" by (simp add: cons_out_def)
    from say_live [OF assms(1) this] show ?thesis
      using that by (auto simp: kerneltrap_def cause_def)
  qed
  moreover have "kerneltrap s = syscall (s\<lparr>sepc := sepc s + 4\<rparr>)"
    if "scause s = SCAUSE_ECALL_USER \<or> scause s = SCAUSE_ECALL_SUPERVISOR"
    using that by (auto simp: kerneltrap_def SCAUSE_ECALL_USER_def SCAUSE_ECALL_SUPERVISOR_def SCAUSE_INTERRUPT_BIT_def)
  moreover have "\<exists>r t. kerneltrap s = Stop r t"
    if "\<not> ?i" "scause s \<notin> {SCAUSE_ECALL_USER, SCAUSE_ECALL_SUPERVISOR}"
  proof -
    have "bind_out m (\<lambda>a t. Stop r (f a t)) \<noteq> Ret b u" for m :: "('b, 'c) outcome" and r f and b :: 'd and u by (cases m) simp_all
    then have "fatal_exception (scause s) (sepc s) (stval s) s \<noteq> Ret () u" for u
      by (auto simp: fatal_exception_def bind_out_Ret_iff)
    then show ?thesis using that by (cases "fatal_exception (scause s) (sepc s) (stval s) s") (auto simp: kerneltrap_def)
  qed
  ultimately show ?thesis by blast
qed

subsection \<open>Examples\<close>

text \<open>The machine after boot, with a system call in the registers of the first process, and the text
  \<open>Ok\<close> at address 4096.\<close>

definition call_machine :: "u64 \<Rightarrow> u64 \<Rightarrow> u64 \<Rightarrow> u64 \<Rightarrow> u64 \<Rightarrow> machine" where
  "call_machine cause a7 a0 a1 a2 =
     procs.extend (boot_kernel\<lparr>tf_heap := (\<lambda>_. zero_trapframe\<lparr>tf_a7 := a7, tf_a0 := a0, tf_a1 := a1, tf_a2 := a2\<rparr>)\<rparr>)
       \<lparr>dev = slow_uart, ram = (\<lambda>_. 0)(4096 := 79, 4097 := 107), stvec = 0, sie_reg = 0, scause = cause, sepc = 64,
        stval = 0, plic_answer = (\<lambda>_. 1), plic_count = 0, plic_out = []\<rparr>"

lemma call_machine_sel:
  "proc_table (call_machine c a7 a0 a1 a2) = proc_table boot_kernel"
  "current_process (call_machine c a7 a0 a1 a2) = Some 0" "next_pid (call_machine c a7 a0 a1 a2) = 2"
  "tf_heap (call_machine c a7 a0 a1 a2) = (\<lambda>_. zero_trapframe\<lparr>tf_a7 := a7, tf_a0 := a0, tf_a1 := a1, tf_a2 := a2\<rparr>)"
  "dev (call_machine c a7 a0 a1 a2) = slow_uart" "ram (call_machine c a7 a0 a1 a2) = (\<lambda>_. 0)(4096 := 79, 4097 := 107)"
  "scause (call_machine c a7 a0 a1 a2) = c" "sepc (call_machine c a7 a0 a1 a2) = 64"
  "plic_answer (call_machine c a7 a0 a1 a2) = (\<lambda>_. 1)" "plic_count (call_machine c a7 a0 a1 a2) = 0"
  "plic_out (call_machine c a7 a0 a1 a2) = []"
  by (simp_all add: call_machine_def procs.extend_def boot_kernel_facts)

lemma call_machine_ok:
  "procs_inv (call_machine c a7 a0 a1 a2)" "live (call_machine c a7 a0 a1 a2) = live boot_kernel"
  "avail_pages (call_machine c a7 a0 a1 a2) = avail_pages boot_kernel" "caller (call_machine c a7 a0 a1 a2) 0"
proof -
  let ?s = "call_machine c a7 a0 a1 a2"
  have e: "proc_table ?s = proc_table boot_kernel" "phys_bitmap ?s = phys_bitmap boot_kernel"
    "free_pages_count ?s = free_pages_count boot_kernel" "paging_active ?s = paging_active boot_kernel"
    "next_pid ?s = next_pid boot_kernel"
    by (simp_all add: call_machine_def procs.extend_def)
  show "procs_inv ?s" "live ?s = live boot_kernel"
    using procs_inv_cong(1,4) [OF e] boot_kernel_facts(1) by simp_all
  show "avail_pages ?s = avail_pages boot_kernel" by (rule physmem_cong(2) [OF e(2,3)])
  show "caller ?s 0"
    using boot_kernel_facts(9) procs_invD(1) [OF boot_kernel_facts(1)]
    by (simp add: caller_def call_machine_sel NPROC_def)
qed

theorem syscall_correct_witness:
  "\<exists>u. syscall (call_machine 8 0x100000005 1 4096 2) = Ret () (set_a0 0 2 ((call_machine 8 0x100000005 1 4096 2)\<lparr>dev := u\<rparr>)) \<and>
     tx u = ''Ok''"
proof -
  let ?s = "call_machine 8 0x100000005 1 4096 2"
  have n: "int_of_u64 (tf_a7 (regs ?s 0)) = SYS_write" "int_of_u64 (tf_a0 (regs ?s 0)) = 1"
    "tf_a1 (regs ?s 0) = 4096" "int_of_u64 (tf_a2 (regs ?s 0)) = 2"
    by (simp_all add: call_machine_sel syscall_numbers int_of_u64_def)
  have "char_of (79 :: nat) = CHR ''O''" "char_of (107 :: nat) = CHR ''k''" by code_simp+
  then have "written_bytes ?s 4096 (nat 2) = ''Ok''"
    by (simp add: written_bytes_def call_machine_sel upt_rec char_of_u8_def)
  moreover have "live_tx (dev ?s)" "tx (dev ?s) = []" by (simp_all add: call_machine_sel slow_uart_live, simp add: slow_uart_def)
  ultimately show ?thesis
    using syscall_correct [OF call_machine_ok(4) \<open>live_tx (dev ?s)\<close>] n by (simp add: syscall_numbers u64_of_int_def)
qed

theorem syscall_fork_returns_twice_witness:
  "\<exists>c t. syscall (call_machine 8 1 0 0 0) = Ret () t \<and> c \<noteq> 0 \<and> tf_a0 (regs t 0) = 2 \<and> tf_a0 (regs t c) = 0"
proof -
  let ?s = "call_machine 8 1 0 0 0"
  have n: "int_of_u64 (tf_a7 (regs ?s 0)) = SYS_fork" by (simp add: call_machine_sel syscall_numbers int_of_u64_def)
  have "live ?s 0" using call_machine_ok(2) boot_kernel_facts(2) by simp
  note f = syscall_fork_returns_twice [OF call_machine_ok(1,4) this n]
  have room: "(\<exists>i < NPROC. \<not> live ?s i) \<and> 3 \<le> card (avail_pages ?s)" using boot_room by (simp add: call_machine_ok)
  obtain c t where t: "syscall ?s = Ret () t" "c \<noteq> 0" "regs t 0 = (regs ?s 0)\<lparr>tf_a0 := u64_of_int (next_pid ?s)\<rparr>"
    "regs t c = (regs ?s 0)\<lparr>tf_a0 := 0\<rparr>"
    using f unfolding if_P [OF room] by blast
  have "tf_a0 (regs t 0) = 2" "tf_a0 (regs t c) = 0"
    unfolding t(3,4) by (simp_all add: call_machine_sel u64_of_int_def)
  then show ?thesis using t(1,2) by blast
qed

theorem kerneltrap_correct_witness:
  "\<exists>t. kerneltrap (call_machine (push_bit 63 1 OR 9) 0 0 0 0) = Ret () t \<and> plic_out t = [(PLIC_SCLAIM, 1)]"
proof -
  let ?s = "call_machine (push_bit 63 1 OR 9) 0 0 0 0"
  have l: "live_tx (dev ?s)" by (simp add: call_machine_sel slow_uart_live)
  have "scause ?s AND SCAUSE_INTERRUPT_BIT \<noteq> 0" "scause ?s AND NOT SCAUSE_INTERRUPT_BIT = 9"
    by (simp_all add: call_machine_sel SCAUSE_INTERRUPT_BIT_def)
  then show ?thesis
    using kerneltrap_correct [OF l] by (auto simp: call_machine_sel int_of_u32_def)
qed

end
