(* ===== verification/Virtio_Init.thy ===== *)
theory Virtio_Init
  imports Virtio_Props
begin

text \<open>
  \<open>virtio_disk_init\<close> of \<open>kernel/fs/virtio_disk.c\<close>: the registers are read through \<open>reg\<close>, each of
  them once, and the writes are appended to \<open>mmio\<close>. The addresses of the three parts of the queue
  are parameters, since the linker chooses them.
\<close>

definition VIRTIO_MMIO_MAGIC_VALUE :: u64 where "VIRTIO_MMIO_MAGIC_VALUE = 0x000"
definition VIRTIO_MMIO_VERSION :: u64 where "VIRTIO_MMIO_VERSION = 0x004"
definition VIRTIO_MMIO_DEVICE_ID :: u64 where "VIRTIO_MMIO_DEVICE_ID = 0x008"
definition VIRTIO_MMIO_VENDOR_ID :: u64 where "VIRTIO_MMIO_VENDOR_ID = 0x00c"
definition VIRTIO_MMIO_DEVICE_FEATURES :: u64 where "VIRTIO_MMIO_DEVICE_FEATURES = 0x010"
definition VIRTIO_MMIO_DRIVER_FEATURES :: u64 where "VIRTIO_MMIO_DRIVER_FEATURES = 0x020"
definition VIRTIO_MMIO_QUEUE_SEL :: u64 where "VIRTIO_MMIO_QUEUE_SEL = 0x030"
definition VIRTIO_MMIO_QUEUE_NUM_MAX :: u64 where "VIRTIO_MMIO_QUEUE_NUM_MAX = 0x034"
definition VIRTIO_MMIO_QUEUE_NUM :: u64 where "VIRTIO_MMIO_QUEUE_NUM = 0x038"
definition VIRTIO_MMIO_QUEUE_READY :: u64 where "VIRTIO_MMIO_QUEUE_READY = 0x044"
definition VIRTIO_MMIO_STATUS :: u64 where "VIRTIO_MMIO_STATUS = 0x070"
definition VIRTIO_MMIO_QUEUE_DESC_LOW :: u64 where "VIRTIO_MMIO_QUEUE_DESC_LOW = 0x080"
definition VIRTIO_MMIO_QUEUE_DESC_HIGH :: u64 where "VIRTIO_MMIO_QUEUE_DESC_HIGH = 0x084"
definition VIRTIO_MMIO_DRIVER_DESC_LOW :: u64 where "VIRTIO_MMIO_DRIVER_DESC_LOW = 0x090"
definition VIRTIO_MMIO_DRIVER_DESC_HIGH :: u64 where "VIRTIO_MMIO_DRIVER_DESC_HIGH = 0x094"
definition VIRTIO_MMIO_DEVICE_DESC_LOW :: u64 where "VIRTIO_MMIO_DEVICE_DESC_LOW = 0x0a0"
definition VIRTIO_MMIO_DEVICE_DESC_HIGH :: u64 where "VIRTIO_MMIO_DEVICE_DESC_HIGH = 0x0a4"

definition VIRTIO_CONFIG_S_ACKNOWLEDGE :: u32 where "VIRTIO_CONFIG_S_ACKNOWLEDGE = 1"
definition VIRTIO_CONFIG_S_DRIVER :: u32 where "VIRTIO_CONFIG_S_DRIVER = 2"
definition VIRTIO_CONFIG_S_DRIVER_OK :: u32 where "VIRTIO_CONFIG_S_DRIVER_OK = 4"
definition VIRTIO_CONFIG_S_FEATURES_OK :: u32 where "VIRTIO_CONFIG_S_FEATURES_OK = 8"

definition VIRTIO_BLK_F_RO :: nat where "VIRTIO_BLK_F_RO = 5"
definition VIRTIO_BLK_F_SCSI :: nat where "VIRTIO_BLK_F_SCSI = 7"
definition VIRTIO_RING_F_INDIRECT_DESC :: nat where "VIRTIO_RING_F_INDIRECT_DESC = 28"
definition VIRTIO_RING_F_EVENT_IDX :: nat where "VIRTIO_RING_F_EVENT_IDX = 29"

lemmas virtio_registers = VIRTIO_MMIO_MAGIC_VALUE_def VIRTIO_MMIO_VERSION_def VIRTIO_MMIO_DEVICE_ID_def
  VIRTIO_MMIO_VENDOR_ID_def VIRTIO_MMIO_DEVICE_FEATURES_def VIRTIO_MMIO_DRIVER_FEATURES_def VIRTIO_MMIO_QUEUE_SEL_def
  VIRTIO_MMIO_QUEUE_NUM_MAX_def VIRTIO_MMIO_QUEUE_NUM_def VIRTIO_MMIO_QUEUE_READY_def VIRTIO_MMIO_STATUS_def
  VIRTIO_MMIO_QUEUE_DESC_LOW_def VIRTIO_MMIO_QUEUE_DESC_HIGH_def VIRTIO_MMIO_DRIVER_DESC_LOW_def
  VIRTIO_MMIO_DRIVER_DESC_HIGH_def VIRTIO_MMIO_DEVICE_DESC_LOW_def VIRTIO_MMIO_DEVICE_DESC_HIGH_def
  VIRTIO_CONFIG_S_ACKNOWLEDGE_def VIRTIO_CONFIG_S_DRIVER_def VIRTIO_CONFIG_S_DRIVER_OK_def VIRTIO_CONFIG_S_FEATURES_OK_def

text \<open>The features the driver keeps of those the device offers.\<close>

definition driver_features :: "u32 \<Rightarrow> u32" where
  "driver_features offered =
     (let f = ucast offered :: u64;
          f = f AND NOT (push_bit VIRTIO_BLK_F_RO 1);
          f = f AND NOT (push_bit VIRTIO_BLK_F_SCSI 1);
          f = f AND NOT (push_bit VIRTIO_RING_F_EVENT_IDX 1);
          f = f AND NOT (push_bit VIRTIO_RING_F_INDIRECT_DESC 1)
      in ucast f)"

text \<open>The six registers that hold the addresses of the queue, the low halves before the high ones.\<close>

definition queue_addresses :: "u64 \<Rightarrow> u64 \<Rightarrow> u64 \<Rightarrow> 'a disks_scheme \<Rightarrow> 'a disks_scheme" where
  "queue_addresses dsc avl usd s =
     write_reg VIRTIO_MMIO_DEVICE_DESC_HIGH (ucast (drop_bit 32 usd))
     (write_reg VIRTIO_MMIO_DEVICE_DESC_LOW (ucast usd)
     (write_reg VIRTIO_MMIO_DRIVER_DESC_HIGH (ucast (drop_bit 32 avl))
     (write_reg VIRTIO_MMIO_DRIVER_DESC_LOW (ucast avl)
     (write_reg VIRTIO_MMIO_QUEUE_DESC_HIGH (ucast (drop_bit 32 dsc))
     (write_reg VIRTIO_MMIO_QUEUE_DESC_LOW (ucast dsc) s)))))"

definition virtio_disk_init :: "(u64 \<Rightarrow> u32) \<Rightarrow> u64 \<Rightarrow> u64 \<Rightarrow> u64 \<Rightarrow> 'a disks_scheme \<Rightarrow> 'a disks_scheme" where
  "virtio_disk_init reg dsc avl usd s =
     (let s0 = spinlock_init LK_disk ''virtio_disk'' s in
      if reg VIRTIO_MMIO_MAGIC_VALUE \<noteq> 0x74726976 \<or> reg VIRTIO_MMIO_VERSION \<noteq> 2 \<or>
         reg VIRTIO_MMIO_DEVICE_ID \<noteq> 2 \<or> reg VIRTIO_MMIO_VENDOR_ID \<noteq> 0x554d4551
      then s0
      else
        let status = 0;
            s1 = write_reg VIRTIO_MMIO_STATUS status s0;
            status = status OR VIRTIO_CONFIG_S_ACKNOWLEDGE;
            s2 = write_reg VIRTIO_MMIO_STATUS status s1;
            status = status OR VIRTIO_CONFIG_S_DRIVER;
            s3 = write_reg VIRTIO_MMIO_STATUS status s2;
            s4 = write_reg VIRTIO_MMIO_DRIVER_FEATURES (driver_features (reg VIRTIO_MMIO_DEVICE_FEATURES)) s3;
            status = status OR VIRTIO_CONFIG_S_FEATURES_OK;
            s5 = write_reg VIRTIO_MMIO_STATUS status s4;
            status = status OR VIRTIO_CONFIG_S_DRIVER_OK;
            s6 = write_reg VIRTIO_MMIO_STATUS status s5;
            s7 = write_reg VIRTIO_MMIO_QUEUE_SEL 0 s6;
            max_size = reg VIRTIO_MMIO_QUEUE_NUM_MAX
        in if max_size = 0 \<or> max_size < of_nat VIRTIO_RING_SIZE then s7
           else write_reg VIRTIO_MMIO_QUEUE_READY 1
             (queue_addresses dsc avl usd (write_reg VIRTIO_MMIO_QUEUE_NUM (of_nat VIRTIO_RING_SIZE) s7)))"

subsection \<open>The handshake\<close>

text \<open>The driver never accepts the features it cannot handle, and changes no other one.\<close>

lemma driver_features_bit:
  "bit (driver_features x) n \<longleftrightarrow> bit x n \<and> n \<notin> {VIRTIO_BLK_F_RO, VIRTIO_BLK_F_SCSI,
     VIRTIO_RING_F_EVENT_IDX, VIRTIO_RING_F_INDIRECT_DESC}"
  by (cases "n < 32")
    (auto simp: driver_features_def Let_def bit_simps dest: bit_imp_le_length)

definition vendor_ok :: "(u64 \<Rightarrow> u32) \<Rightarrow> bool" where
  "vendor_ok reg \<longleftrightarrow> reg VIRTIO_MMIO_MAGIC_VALUE = 0x74726976 \<and> reg VIRTIO_MMIO_VERSION = 2 \<and>
     reg VIRTIO_MMIO_DEVICE_ID = 2 \<and> reg VIRTIO_MMIO_VENDOR_ID = 0x554d4551"

text \<open>A device that is not a disk is left alone. On a disk the status goes through acknowledge, driver,
  features and driver-ok in this order; \<open>DRIVER_OK\<close> comes before the queue is configured,
  and stays set when the queue is too small and the driver gives up.\<close>

theorem virtio_disk_init_handshake:
  shows "\<not> vendor_ok reg \<Longrightarrow> mmio (virtio_disk_init reg dsc avl usd s) = mmio s"
    "vendor_ok reg \<Longrightarrow> \<exists>rest. mmio (virtio_disk_init reg dsc avl usd s) = mmio s @
      [(VIRTIO0 + 0x70, 0), (VIRTIO0 + 0x70, 1), (VIRTIO0 + 0x70, 3),
       (VIRTIO0 + 0x20, driver_features (reg VIRTIO_MMIO_DEVICE_FEATURES)), (VIRTIO0 + 0x70, 11), (VIRTIO0 + 0x70, 15),
       (VIRTIO0 + 0x30, 0)] @ rest \<and>
      (rest = [] \<longleftrightarrow> reg VIRTIO_MMIO_QUEUE_NUM_MAX < 8) \<and>
      (rest \<noteq> [] \<longrightarrow> last rest = (VIRTIO0 + 0x44, 1) \<and> hd rest = (VIRTIO0 + 0x38, 8) \<and> length rest = 8)"
proof -
  have m: "mmio (spinlock_init LK_disk ''virtio_disk'' s) = mmio s" by (simp add: spinlock_init_def)
  show "\<not> vendor_ok reg \<Longrightarrow> mmio (virtio_disk_init reg dsc avl usd s) = mmio s"
    using m by (auto simp: virtio_disk_init_def vendor_ok_def)
  assume v: "vendor_ok reg"
  then have nz: "reg VIRTIO_MMIO_QUEUE_NUM_MAX = 0 \<or> reg VIRTIO_MMIO_QUEUE_NUM_MAX < of_nat VIRTIO_RING_SIZE \<longleftrightarrow>
      reg VIRTIO_MMIO_QUEUE_NUM_MAX < 8"
    by (auto simp: VIRTIO_RING_SIZE_def)
  show "\<exists>rest. mmio (virtio_disk_init reg dsc avl usd s) = mmio s @
      [(VIRTIO0 + 0x70, 0), (VIRTIO0 + 0x70, 1), (VIRTIO0 + 0x70, 3),
       (VIRTIO0 + 0x20, driver_features (reg VIRTIO_MMIO_DEVICE_FEATURES)), (VIRTIO0 + 0x70, 11), (VIRTIO0 + 0x70, 15),
       (VIRTIO0 + 0x30, 0)] @ rest \<and>
      (rest = [] \<longleftrightarrow> reg VIRTIO_MMIO_QUEUE_NUM_MAX < 8) \<and>
      (rest \<noteq> [] \<longrightarrow> last rest = (VIRTIO0 + 0x44, 1) \<and> hd rest = (VIRTIO0 + 0x38, 8) \<and> length rest = 8)"
    using v m nz
    by (cases "reg VIRTIO_MMIO_QUEUE_NUM_MAX < 8")
      (simp_all add: virtio_disk_init_def vendor_ok_def write_reg_def queue_addresses_def Let_def virtio_registers
        VIRTIO_RING_SIZE_def)
qed

end
