(* ===== verification/Block_Invariant.thy ===== *)
theory Block_Invariant
  imports Log_Props
begin

text \<open>
  The block layer as its clients drive it: a client reads blocks, changes the data of the buffers it holds,
  writes, pins and releases them, in any order, with the boot as the first step.
\<close>

subsection \<open>Runs of a client\<close>

text \<open>A client reads a block whose buffer is not locked while a buffer can be recycled, and otherwise only uses buffers it
  holds; it changes a buffer within its size, and gives the last reference to a block back once its contents are on the
  disk. No count of references wraps.\<close>

inductive block_run :: "device \<Rightarrow> u32 \<Rightarrow> 'a disks_scheme \<Rightarrow> 'a disks_scheme \<Rightarrow> bool"
  for D :: device and d :: u32 and s :: "'a disks_scheme" where
  boot: "block_run D d s (buf_cache_init s)"
| reads: "block_run D d s t \<Longrightarrow> (\<And>i. holder d t n = Some i \<Longrightarrow> sleep_free t (SL_buf i)) \<Longrightarrow>
    \<exists>i < NBUF. recyclable (bufs t i) \<Longrightarrow> refs d t n + 1 \<noteq> 0 \<Longrightarrow>
    block_read (served_sleep D) d n t = Ret (Some b) u \<Longrightarrow> block_run D d s u"
| changes: "block_run D d s t \<Longrightarrow> owned_buf d t n b \<Longrightarrow> length x = BSIZE \<Longrightarrow>
    block_run D d s (upd_buf b (b_data_update (\<lambda>_. x)) t)"
| writes: "block_run D d s t \<Longrightarrow> owned_buf d t n b \<Longrightarrow> block_write (served_sleep D) b t = Ret () u \<Longrightarrow> block_run D d s u"
| releases: "block_run D d s t \<Longrightarrow> owned_buf d t n b \<Longrightarrow> (refs d t n = 1 \<Longrightarrow> view d t n = on_disk t n) \<Longrightarrow>
    block_release b t = Ret () u \<Longrightarrow> block_run D d s u"
| pins: "block_run D d s t \<Longrightarrow> owned_buf d t n b \<Longrightarrow> refs d t n + 1 \<noteq> 0 \<Longrightarrow> block_pin b t = Ret () u \<Longrightarrow> block_run D d s u"
| unpins: "block_run D d s t \<Longrightarrow> owned_buf d t n b \<Longrightarrow> refs d t n - 1 \<noteq> 0 \<Longrightarrow> block_unpin b t = Ret () u \<Longrightarrow>
    block_run D d s u"

lemma block_run_block_ok:
  assumes "block_run D d s t" "zeroed s" "d \<noteq> 0" "obeys_virtio D"
  shows "block_ok d t"
  using assms(1)
proof (induction rule: block_run.induct)
  case boot
  show ?case by (rule buf_cache_init_spec(1) [OF assms(2,3)])
next
  case (reads t n b u)
  then show ?case using block_read_spec [OF reads.IH assms(4) reads.hyps(2) _ reads.hyps(4)] by force
next
  case (changes t n b x)
  then show ?case using set_data_spec by blast
next
  case (writes t n b u)
  then show ?case using block_write_spec [OF writes.IH assms(4) writes.hyps(2)] by force
next
  case (releases t n b u)
  then show ?case using block_release_spec [OF releases.IH releases.hyps(2,3)] by force
next
  case (pins t n b u)
  then show ?case using buf_pin_spec [OF pins.IH pins.hyps(2,3)] by (force simp: block_pin_def)
next
  case (unpins t n b u)
  then show ?case using buf_unpin_spec [OF unpins.IH unpins.hyps(2,3)] by (force simp: block_unpin_def)
qed



end
