(* ===== verification/Inode_Write.thy ===== *)
theory Inode_Write
  imports Inode_Files
begin

text \<open>
  \<open>inode_write\<close> as an update of the bytes of a file, inside a transaction of the log.
\<close>

subsection \<open>What a write needs\<close>

text \<open>The blocks of the file that hold the \<open>k\<close> bytes from \<open>off\<close>.\<close>

definition touched :: "'a fsys_scheme \<Rightarrow> nat \<Rightarrow> nat \<Rightarrow> nat \<Rightarrow> u32 set" where
  "touched s ip off k = (\<lambda>p. i_addrs (icache s ip) ! (p div BSIZE)) ` {off..<off + k}"

definition capacity :: nat where
  "capacity = (NDIRECT + 1) * BSIZE"

text \<open>No block occurs twice in a file.\<close>

definition own_blocks :: "'a fsys_scheme \<Rightarrow> nat \<Rightarrow> bool" where
  "own_blocks s ip \<longleftrightarrow> (\<forall>i \<le> NDIRECT. \<forall>j \<le> NDIRECT.
     i_addrs (icache s ip) ! i = i_addrs (icache s ip) ! j \<longrightarrow> i_addrs (icache s ip) ! i \<noteq> 0 \<longrightarrow> i = j)"

definition log_fits :: "'a logs_scheme \<Rightarrow> u32 set \<Rightarrow> bool" where
  "log_fits s B \<longleftrightarrow> 1 \<le> outstanding (logst s) \<and>
     int (card (set (logged (logst s)) \<union> int_of_u32 ` B)) < min (int LOGSIZE) (log_size (logst s) - 1)"

definition few_refs :: "u32 \<Rightarrow> 'a disks_scheme \<Rightarrow> bool" where
  "few_refs d s \<longleftrightarrow> (\<forall>n. unat (refs d s n) + 3 < 2 ^ 32)"

lemma few_refs_add:
  assumes "unat (r :: u32) + 3 < 2 ^ 32"
  shows "r + 1 \<noteq> 0" "r + 2 \<noteq> 0" "r + 1 + 1 \<noteq> 0" "r + 1 + 2 \<noteq> 0"
proof -
  have "unat (r + w) = unat r + unat w" if "unat w \<le> 3" for w :: u32
    using assms that by (simp add: unat_word_ariths)
  from this [of 1] this [of 2] this [of 3] have "r + 1 \<noteq> 0" "r + 2 \<noteq> 0" "r + 3 \<noteq> 0"
    by (auto dest: arg_cong [where f = unat])
  then show "r + 1 \<noteq> 0" "r + 2 \<noteq> 0" "r + 1 + 1 \<noteq> 0" "r + 1 + 2 \<noteq> 0" by (simp_all add: add.assoc)
qed

lemma log_fits_accepts:
  assumes "log_ready t" "log_fits s B" "set (logged (logst t)) \<subseteq> set (logged (logst s)) \<union> int_of_u32 ` B"
    "outstanding (logst t) = outstanding (logst s)" "log_place (logst t) = log_place (logst s)"
  shows "log_accepts t n"
proof -
  let ?l = "logged (logst t)" and ?n = "lh_n (lh (logst t))"
  have "card (set ?l) \<le> card (set (logged (logst s)) \<union> int_of_u32 ` B)"
    using assms(3) by (intro card_mono) simp_all
  moreover have "card (set ?l) = min LOGSIZE (nat ?n)"
    using assms(1) by (simp add: log_ready_def distinct_card) (simp add: logged_def)
  ultimately have "int (min LOGSIZE (nat ?n)) < min (int LOGSIZE) (log_size (logst s) - 1)"
    using assms(2) by (simp add: log_fits_def)
  then show ?thesis using assms(1,2,4) log_placeD(2) [OF assms(5)] by (auto simp: log_accepts_def log_fits_def log_ready_def)
qed

subsection \<open>The invariant of the loop\<close>

definition data_byte :: "'a fsys_scheme \<Rightarrow> nat \<Rightarrow> u64 \<Rightarrow> nat \<Rightarrow> (nat \<Rightarrow> u8) \<Rightarrow> nat \<Rightarrow> u8" where
  "data_byte s off src k old p = (if off \<le> p \<and> p < off + k then mem s (src + of_nat (p - off)) else old p)"

text \<open>After \<open>k\<close> bytes have been written.\<close>

definition bytes_written :: "u32 \<Rightarrow> nat \<Rightarrow> nat \<Rightarrow> u64 \<Rightarrow> nat \<Rightarrow> 'a fsys_scheme \<Rightarrow> 'a fsys_scheme \<Rightarrow> bool" where
  "bytes_written d ip off src k s t \<longleftrightarrow> calm s t \<and> block_ok d t \<and> unlocked t \<and> dirty d t = dirty d s \<and> disk t = disk s \<and>
     log_ready t \<and> log_pins d t \<and>
     set (logged (logst t)) = set (logged (logst s)) \<union> int_of_u32 ` touched s ip off k \<and>
     refs d t = (\<lambda>n. if n \<in> touched s ip off k \<and> int_of_u32 n \<notin> set (logged (logst s))
       then refs d s n + 1 else refs d s n) \<and>
     (\<forall>j. sleeplk t (SL_inode j) = sleeplk s (SL_inode j)) \<and> outstanding (logst t) = outstanding (logst s) \<and>
     log_place (logst t) = log_place (logst s) \<and> logs.more t = logs.more s \<and>
     (\<forall>n. n \<notin> touched s ip off k \<longrightarrow> view d t n = view d s n) \<and>
     (\<forall>p < capacity. file_byte d t ip p = data_byte s off src k (file_byte d s ip) p)"

lemma written_refl:
  assumes "block_ok d s" "unlocked s" "log_ready s" "log_pins d s"
  shows "bytes_written d ip off src 0 s s"
  using assms by (auto simp: bytes_written_def touched_def data_byte_def)

lemma int_of_u32_inj: "int_of_u32 m = int_of_u32 n \<longleftrightarrow> m = n"
  using signed_word_eqI by (auto simp: int_of_u32_def)

lemma written_room:
  assumes w: "bytes_written d ip off src k s t" and "touched s ip off k \<subseteq> B" "few_refs d s"
    and c: "card (stuck d s \<union> B) < NBUF"
  shows "room d t" "refs d t n + 2 \<noteq> 0"
proof -
  have r: "refs d t = (\<lambda>n. if n \<in> touched s ip off k \<and> int_of_u32 n \<notin> set (logged (logst s))
       then refs d s n + 1 else refs d s n)" "dirty d t = dirty d s" using w by (simp_all add: bytes_written_def)
  have f: "unat (refs d s m) + 3 < 2 ^ 32" for m using assms(3) by (simp add: few_refs_def)
  have "stuck d t \<subseteq> stuck d s \<union> B" using r assms(2) by (auto simp: stuck_eq split: if_splits)
  then have "card (stuck d t) \<le> card (stuck d s \<union> B)" by (intro card_mono) simp_all
  then show "room d t" using c r(1) few_refs_add [OF f] by (simp add: room_def)
  show "refs d t n + 2 \<noteq> 0" using r(1) few_refs_add [OF f] by simp
qed

lemma set_bytes:
  fixes x :: "u8 list"
  assumes "k + m \<le> length x"
  shows "length (fold (\<lambda>i x. x[k + i := f i]) [0..<m] x) = length x"
    "q < length x \<Longrightarrow> fold (\<lambda>i x. x[k + i := f i]) [0..<m] x ! q = (if k \<le> q \<and> q < k + m then f (q - k) else x ! q)"
proof -
  have "length (fold (\<lambda>i x. x[k + i := f i]) [0..<m] x) = length x \<and>
    (\<forall>q < length x. fold (\<lambda>i x. x[k + i := f i]) [0..<m] x ! q = (if k \<le> q \<and> q < k + m then f (q - k) else x ! q))"
    using assms
  proof (induction m)
    case (Suc m)
    then show ?case by (auto simp: nth_list_update)
  qed auto
  then show "length (fold (\<lambda>i x. x[k + i := f i]) [0..<m] x) = length x"
    "q < length x \<Longrightarrow> fold (\<lambda>i x. x[k + i := f i]) [0..<m] x ! q = (if k \<le> q \<and> q < k + m then f (q - k) else x ! q)"
    by blast+
qed

subsection \<open>One turn\<close>

lemma touched_add:
  assumes "0 < m" "m \<le> BSIZE - (off + k) mod BSIZE"
  shows "touched s ip off (k + m) = insert (i_addrs (icache s ip) ! ((off + k) div BSIZE)) (touched s ip off k)"
proof -
  have "{off..<off + (k + m)} = {off..<off + k} \<union> (\<lambda>i. off + k + i) ` {..<m}"
  proof (intro set_eqI iffI)
    fix p assume "p \<in> {off..<off + (k + m)}"
    then show "p \<in> {off..<off + k} \<union> (\<lambda>i. off + k + i) ` {..<m}"
      by (cases "p < off + k") (auto intro!: image_eqI [of _ _ "p - (off + k)"])
  qed auto
  moreover have "(\<lambda>i. i_addrs (icache s ip) ! ((off + k + i) div BSIZE)) ` {..<m} =
      (\<lambda>_. i_addrs (icache s ip) ! ((off + k) div BSIZE)) ` {..<m}"
  proof (intro image_cong refl)
    fix i assume "i \<in> {..<m}"
    then have "i < 512 - (off + k) mod 512" using assms(2) by (simp add: BSIZE_def)
    then show "i_addrs (icache s ip) ! ((off + k + i) div BSIZE) = i_addrs (icache s ip) ! ((off + k) div BSIZE)"
      using within_block(1) [of i "off + k"] by (simp add: BSIZE_def)
  qed
  moreover have "{..<m} \<noteq> {}" using assms(1) by auto
  ultimately show ?thesis
    by (simp add: touched_def image_Un image_image image_constant_conv)
qed

lemma written_step:
  assumes w: "bytes_written d ip off src k s t" and ch: "block_changed d a x t u"
    and a: "a = i_addrs (icache s ip) ! ((off + k) div BSIZE)" "a \<noteq> 0"
    and m: "0 < m" "m \<le> BSIZE - (off + k) mod BSIZE" and cap: "off + (k + m) \<le> capacity"
    and own: "own_blocks s ip"
    and x: "x = fold (\<lambda>i x. x[(off + k) mod BSIZE + i := mem s (src + of_nat k + of_nat i)]) [0..<m] (view d t a)"
  shows "bytes_written d ip off src (k + m) s u"
proof -
  have W: "calm s t" "block_ok d t" "dirty d t = dirty d s" "disk t = disk s"
    "set (logged (logst t)) = set (logged (logst s)) \<union> int_of_u32 ` touched s ip off k"
    "refs d t = (\<lambda>n. if n \<in> touched s ip off k \<and> int_of_u32 n \<notin> set (logged (logst s))
       then refs d s n + 1 else refs d s n)"
    "\<forall>j. sleeplk t (SL_inode j) = sleeplk s (SL_inode j)" "outstanding (logst t) = outstanding (logst s)"
    "log_place (logst t) = log_place (logst s)" "logs.more t = logs.more s"
    "\<forall>n. n \<notin> touched s ip off k \<longrightarrow> view d t n = view d s n"
    "\<forall>p < capacity. file_byte d t ip p = data_byte s off src k (file_byte d s ip) p"
    using w by (simp_all add: bytes_written_def)
  have C: "calm t u" "block_ok d u" "unlocked u" "view d u = (view d t)(a := x)" "dirty d u = dirty d t" "disk u = disk t"
    "log_ready u" "log_pins d u" "set (logged (logst u)) = insert (int_of_u32 a) (set (logged (logst t)))"
    "refs d u = (refs d t)(a := if int_of_u32 a \<in> set (logged (logst t)) then refs d t a else refs d t a + 1)"
    "\<forall>j. sleeplk u (SL_inode j) = sleeplk t (SL_inode j)" "outstanding (logst u) = outstanding (logst t)"
    "log_place (logst u) = log_place (logst t)" "logs.more u = logs.more t"
    using ch by (simp_all add: block_changed_def)
  note T = touched_add [OF m, of s ip, folded a(1)]
  note ct = upper_eq_more [OF W(10)] and cu = upper_eq_more [OF C(14)]
  have "cache_inv d t" using W(2) by (simp add: block_ok_def)
  then have len: "length (view d t a) = BSIZE" by (rule view_length)
  have fit: "(off + k) mod BSIZE + m \<le> length (view d t a)" using m len by (simp add: BSIZE_def)
  have byte: "file_byte d u ip p = data_byte s off src (k + m) (file_byte d s ip) p" if p: "p < capacity" for p
  proof -
    have ic: "i_addrs (icache u ip) = i_addrs (icache s ip)" "i_addrs (icache t ip) = i_addrs (icache s ip)"
      using ct(1) cu(1) by simp_all
    have old: "file_byte d t ip p = data_byte s off src k (file_byte d s ip) p" using W(12) p by blast
    have q: "p mod BSIZE < length (view d t a)" unfolding len by (simp add: BSIZE_def)
    have dv: "p div BSIZE \<le> NDIRECT" "(off + k) div BSIZE \<le> NDIRECT"
      using p cap m(1) by (simp_all add: capacity_def BSIZE_def NDIRECT_def)
    show ?thesis
    proof (cases "p div BSIZE = (off + k) div BSIZE")
      case True
      have u: "file_byte d u ip p = x ! (p mod BSIZE)" and t: "file_byte d t ip p = view d t a ! (p mod BSIZE)"
        using True C(4) by (simp_all add: file_byte_def ic a(1))
      have p': "p = (off + k) div BSIZE * BSIZE + p mod BSIZE" unfolding True [symmetric] by (rule div_mult_mod_eq [symmetric])
      have o': "off + k = (off + k) div BSIZE * BSIZE + (off + k) mod BSIZE" by (rule div_mult_mod_eq [symmetric])
      have iff: "(off + k) mod BSIZE \<le> p mod BSIZE \<longleftrightarrow> off + k \<le> p"
        "p mod BSIZE < (off + k) mod BSIZE + m \<longleftrightarrow> p < off + k + m"
        "off + k \<le> p \<Longrightarrow> p mod BSIZE - (off + k) mod BSIZE = p - (off + k)"
        using p' o' by linarith+
      have "x ! (p mod BSIZE) = (if off + k \<le> p \<and> p < off + k + m
          then mem s (src + of_nat k + of_nat (p - (off + k))) else view d t a ! (p mod BSIZE))"
        unfolding x using set_bytes(2) [OF fit q, of "\<lambda>i. mem s (src + of_nat k + of_nat i)"] iff by simp
      moreover have "src + of_nat k + of_nat (p - (off + k)) = src + of_nat (p - off)" if "off + k \<le> p"
        using that by (simp add: of_nat_diff)
      ultimately show ?thesis using u t old by (auto simp: data_byte_def)
    next
      case False
      have "i_addrs (icache s ip) ! (p div BSIZE) \<noteq> a"
        using own dv a False by (metis own_blocks_def)
      then have "file_byte d u ip p = file_byte d t ip p"
        using C(4) by (simp add: file_byte_def ic)
      moreover have "\<not> (off + k \<le> p \<and> p < off + (k + m))"
      proof
        assume h: "off + k \<le> p \<and> p < off + (k + m)"
        then have "p - (off + k) < m" by linarith
        then have "p - (off + k) < 512 - (off + k) mod 512"
          by (rule less_le_trans) (use m(2) in \<open>simp add: BSIZE_def\<close>)
        from within_block(1) [OF this] h False show False by (simp add: BSIZE_def)
      qed
      ultimately show ?thesis using old by (auto simp: data_byte_def)
    qed
  qed
  have "refs d u = (\<lambda>n. if n \<in> touched s ip off (k + m) \<and> int_of_u32 n \<notin> set (logged (logst s))
       then refs d s n + 1 else refs d s n)"
    unfolding C(10) T using W(5,6) by (auto simp: fun_eq_iff int_of_u32_inj)
  moreover have "calm s u" using calm_trans [OF W(1) C(1)] .
  ultimately show ?thesis
    unfolding bytes_written_def using C W T byte by auto
qed

subsection \<open>The loop\<close>

text \<open>What a write of \<open>n\<close> bytes at \<open>off\<close> relies on: the data blocks exist, the cache and the log have
  room for them and for the block of the inode, and that block is not part of the file.\<close>

definition write_ready :: "u32 \<Rightarrow> nat \<Rightarrow> nat \<Rightarrow> nat \<Rightarrow> 'a fsys_scheme \<Rightarrow> bool" where
  "write_ready d ip off n s \<longleftrightarrow> block_ok d s \<and> unlocked s \<and> log_ready s \<and> log_pins d s \<and> i_dev (icache s ip) = d \<and>
     own_blocks s ip \<and> few_refs d s \<and> off + n \<le> capacity \<and> 0 \<notin> touched s ip off n \<and>
     (\<forall>i \<le> NDIRECT. i_addrs (icache s ip) ! i \<noteq> update_block s ip) \<and>
     card (stuck d s \<union> insert (update_block s ip) (touched s ip off n)) < NBUF \<and>
     log_fits s (insert (update_block s ip) (touched s ip off n))"

lemma touched_mono: "k \<le> n \<Longrightarrow> touched s ip off k \<subseteq> touched s ip off n"
  by (auto simp: touched_def)

lemma written_ready:
  assumes "write_ready d ip off n s" "bytes_written d ip off src k s t" "k \<le> n"
  shows "room d t" "refs d t a + 2 \<noteq> 0" "log_accepts t a" "block_ok d t" "unlocked t" "log_ready t" "log_pins d t"
proof -
  let ?B = "insert (update_block s ip) (touched s ip off n)"
  have sub: "touched s ip off k \<subseteq> ?B" using touched_mono [OF assms(3)] by blast
  show "room d t" "refs d t a + 2 \<noteq> 0"
    using written_room [OF assms(2) sub] assms(1) by (simp_all add: write_ready_def)
  have w: "set (logged (logst t)) \<subseteq> set (logged (logst s)) \<union> int_of_u32 ` ?B" "log_ready t"
    "outstanding (logst t) = outstanding (logst s)" "log_place (logst t) = log_place (logst s)"
    using assms(2) sub by (auto simp: bytes_written_def)
  have "log_fits s ?B" using assms(1) by (simp add: write_ready_def)
  then show "log_accepts t a" by (rule log_fits_accepts [OF w(2) _ w(1,3,4)])
  show "block_ok d t" "unlocked t" "log_ready t" "log_pins d t" using assms(2) by (simp_all add: bytes_written_def)
qed

lemma write_step_spec:
  assumes R: "write_ready d ip (unat off) (unat n) s" and D: "obeys_virtio D"
    and k: "k < unat n" and w: "bytes_written d ip (unat off) src k s t"
  shows "\<exists>v m. write_step (served_sleep D) ip n (of_nat k, off + of_nat k, src + of_nat k) t =
      Ret (Inl (of_nat (k + m), off + of_nat (k + m), src + of_nat (k + m))) v \<and>
    0 < m \<and> k + m \<le> unat n \<and> bytes_written d ip (unat off) src (k + m) s v"
proof -
  have r: "i_dev (icache s ip) = d" "own_blocks s ip" "unat off + unat n \<le> capacity" "0 \<notin> touched s ip (unat off) (unat n)"
    using R by (simp_all add: write_ready_def)
  have small: "unat off + unat n \<le> 6656" using r(3) by (simp add: capacity_def NDIRECT_def BSIZE_def)
  then have ku: "unat (of_nat k :: u32) = k" using k by (intro unat_small) simp
  then have lt: "of_nat k < n" using k by (simp add: word_less_nat_alt)
  have ou: "unat (off + of_nat k) = unat off + k"
    using k small ku by (subst unat_plus_simple [THEN iffD1]) (simp_all add: unat_word_ariths word_le_nat_alt)
  let ?o = "unat off + k" let ?m = "read_chunk (off + of_nat k) n (of_nat k)"
  let ?a = "i_addrs (icache s ip) ! (?o div 512)"
  have m: "unat ?m = min (512 - ?o mod 512) (unat n - k)" "0 < unat ?m"
    using chunk_nat [OF lt, of "off + of_nat k"] ou ku by simp_all
  have dv: "unat ((off + of_nat k) div 512) = ?o div 512" "unat ((off + of_nat k) mod 512) = ?o mod 512"
    using ou by (simp_all add: unat_div unat_mod)
  have bound: "\<not> ?o div 512 \<ge> NDIRECT + 1" using k small by (simp add: NDIRECT_def)
  have le: "k + unat ?m \<le> unat n" using m(1) k by simp
  have lim: "unat ?m \<le> 512 - ?o mod 512" using m(1) by simp
  have a: "?a \<noteq> 0" using r(4) k by (force simp: touched_def BSIZE_def)
  note up = upper_eq_more [of t s]
  have it: "icache t = icache s" "mem t = mem s" using w upper_eq_more [of t s] by (simp_all add: bytes_written_def)
  note wr = written_ready [OF R w less_imp_le [OF k]]
  have "cache_inv d t" using wr(4) by (simp add: block_ok_def)
  then have len: "length (view d t ?a) = BSIZE" by (rule view_length)
  let ?x = "fold (\<lambda>i x. x[?o mod 512 + i := mem s (src + of_nat k + of_nat i)]) [0..<unat ?m] (view d t ?a)"
  have "?o mod 512 + unat ?m \<le> length (view d t ?a)" using lim len by (simp add: BSIZE_def)
  then have lx: "length ?x = BSIZE" using set_bytes(1) len by simp
  obtain u b v y where u: "block_read (served_sleep D) d ?a t = Ret (Some b) u" "disks.more u = disks.more t"
    "b_data (bufs u b) = view d t ?a" "log_write b (upd_buf b (b_data_update (\<lambda>_. ?x)) u) = Ret () v"
    "block_release b v = Ret () y" "block_changed d ?a ?x t y"
    using change_logged_block [OF wr(4,5,1) D wr(6,7,3,2) lx] by blast
  have mu: "mem u = mem s" using upper_eq(4) [OF u(2)] it by simp
  have e: "upd_buf b (b_data_update (fold (\<lambda>i x. x[?o mod 512 + i := mem u (src + of_nat k + of_nat i)])
      [0..<unat ?m])) u = upd_buf b (b_data_update (\<lambda>_. ?x)) u"
    using upd_data_const [OF u(3)] mu by simp
  have "of_nat (k + unat ?m) = of_nat k + ?m" "(of_nat (k + unat ?m) :: u64) = of_nat k + ucast ?m" by simp_all
  then have run: "write_step (served_sleep D) ip n (of_nat k, off + of_nat k, src + of_nat k) t =
      Ret (Inl (of_nat (k + unat ?m), off + of_nat (k + unat ?m), src + of_nat (k + unat ?m))) y"
    using lt a bound dv it r(1) u(1,4,5) e
    by (simp add: write_step_def BSIZE_word Let_def algebra_simps)
  have "bytes_written d ip (unat off) src (k + unat ?m) s y"
    using r(3) le lim m(2)
    by (intro written_step [OF w u(6) _ a _ _ _ r(2)]) (simp_all add: BSIZE_def)
  then show ?thesis using run m(2) le by blast
qed

lemma write_loop_spec:
  assumes R: "write_ready d ip (unat off) (unat n) s" and D: "obeys_virtio D"
  shows "\<exists>t. loop_out (write_step (served_sleep D) ip n) (0, off, src) s = Ret (n, off + n) t \<and>
    bytes_written d ip (unat off) src (unat n) s t"
proof -
  let ?P = "\<lambda>(tot, o', src') t. \<exists>k. k \<le> unat n \<and> tot = (of_nat k :: u32) \<and> o' = off + of_nat k \<and>
    src' = src + of_nat k \<and> bytes_written d ip (unat off) src k s t"
  have r: "block_ok d s" "unlocked s" "log_ready s" "log_pins d s" "unat off + unat n \<le> capacity"
    using R by (simp_all add: write_ready_def)
  have n: "unat n < 2 ^ 32" using r(5) by (simp add: capacity_def NDIRECT_def BSIZE_def)
  have "\<exists>r t. loop_out (write_step (served_sleep D) ip n) (0, off, src) s = Ret r t \<and>
      r = (n, off + n) \<and> bytes_written d ip (unat off) src (unat n) s t"
  proof (rule loop_out_measure [where P = ?P and m = "\<lambda>(tot, _). unat n - unat tot"])
    show "?P (0, off, src) s" using written_refl [OF r(1-4)] by (auto intro!: exI [of _ 0])
    fix x :: "u32 \<times> u32 \<times> u64" and t assume "?P x t"
    then obtain k where k: "k \<le> unat n" "x = (of_nat k, off + of_nat k, src + of_nat k)"
      "bytes_written d ip (unat off) src k s t" by auto
    show "(\<exists>a u. write_step (served_sleep D) ip n x t = Ret (Inr a) u \<and> a = (n, off + n) \<and>
        bytes_written d ip (unat off) src (unat n) s u) \<or>
      (\<exists>y u. write_step (served_sleep D) ip n x t = Ret (Inl y) u \<and> ?P y u \<and>
        (case y of (tot, _) \<Rightarrow> unat n - unat tot) < (case x of (tot, _) \<Rightarrow> unat n - unat tot))"
    proof (cases "k < unat n")
      case False
      then have "k = unat n" using k(1) by simp
      then show ?thesis using k(2,3) by (simp add: write_step_def)
    next
      case True
      obtain v m where v: "write_step (served_sleep D) ip n x t =
          Ret (Inl (of_nat (k + m), off + of_nat (k + m), src + of_nat (k + m))) v"
        "0 < m" "k + m \<le> unat n" "bytes_written d ip (unat off) src (k + m) s v"
        using write_step_spec [OF R D True k(3)] k(2) by blast
      have "unat (of_nat (k + m) :: u32) = k + m" "unat (of_nat k :: u32) = k"
        using v(3) n by (intro unat_small, linarith)+
      then show ?thesis using v k(2) True by (intro disjI2 exI conjI) auto
    qed
  qed
  then show ?thesis by simp
qed

text \<open>The inode as it is after the write.\<close>

definition grown :: "inode \<Rightarrow> u32 \<Rightarrow> inode" where
  "grown p fsize = (if fsize > i_size p then p\<lparr>i_size := fsize\<rparr> else p)"

text \<open>Everything a write leaves.\<close>

definition write_done :: "u32 \<Rightarrow> nat \<Rightarrow> u32 \<Rightarrow> u64 \<Rightarrow> u32 \<Rightarrow> 'a fsys_scheme \<Rightarrow> 'a fsys_scheme \<Rightarrow> bool" where
  "write_done d ip off src n s t \<longleftrightarrow>
     (let B = insert (update_block s ip) (touched s ip (unat off) (unat n)) in
      calm s t \<and> block_ok d t \<and> unlocked t \<and> dirty d t = dirty d s \<and> disk t = disk s \<and> log_ready t \<and>
      set (logged (logst t)) = set (logged (logst s)) \<union> int_of_u32 ` B \<and>
      refs d t = (\<lambda>m. if m \<in> B \<and> int_of_u32 m \<notin> set (logged (logst s)) then refs d s m + 1 else refs d s m) \<and>
      (\<forall>j. sleeplk t (SL_inode j) = sleeplk s (SL_inode j)) \<and> outstanding (logst t) = outstanding (logst s) \<and>
      log_place (logst t) = log_place (logst s) \<and>
      icache t = (icache s)(ip := grown (icache s ip) (off + n)) \<and> mem t = mem s \<and> sb t = sb s \<and>
      fsys.more t = fsys.more s \<and>
      (\<forall>p < capacity. file_byte d t ip p = data_byte s (unat off) src (unat n) (file_byte d s ip) p) \<and>
      (\<forall>m. m \<notin> B \<longrightarrow> view d t m = view d s m) \<and>
      view d t (update_block s ip) =
        put_dinode (icache t ip) (dinode_at (i_inum (icache s ip))) (view d s (update_block s ip)))"

lemma inode_write_run:
  fixes s :: "'a fsys_scheme"
  assumes "write_ready d ip (unat off) (unat n) s" "obeys_virtio D" and ok: "\<not> off > i_size (icache s ip)"
  shows "\<exists>t. inode_write (served_sleep D) ip user_src src off n s = Ret (int (unat n)) t \<and>
    write_done d ip off src n s t"
proof -
  let ?B = "insert (update_block s ip) (touched s ip (unat off) (unat n))"
  note R = assms(1)
  have r: "i_dev (icache s ip) = d" "unat off + unat n \<le> capacity" "\<forall>i \<le> NDIRECT. i_addrs (icache s ip) ! i \<noteq> update_block s ip"
    using R by (simp_all add: write_ready_def)
  have un: "unat (off + n) = unat off + unat n"
    using r(2) by (simp add: unat_word_ariths capacity_def NDIRECT_def BSIZE_def)
  then have fits: "\<not> off + n < off" "\<not> unat (off + n) > MAXFILE * BSIZE"
    using r(2) by (simp_all add: word_less_nat_alt capacity_def MAXFILE_def NDIRECT_def NINDIRECT_def BSIZE_def)
  obtain t where t: "loop_out (write_step (served_sleep D) ip n) (0, off, src) s = Ret (n, off + n) t"
    "bytes_written d ip (unat off) src (unat n) s t"
    using write_loop_spec [OF R assms(2)] by blast
  have W: "disk t = disk s" "set (logged (logst t)) = set (logged (logst s)) \<union> int_of_u32 ` touched s ip (unat off) (unat n)"
    "logs.more t = logs.more s" "\<forall>m. m \<notin> touched s ip (unat off) (unat n) \<longrightarrow> view d t m = view d s m"
    "\<forall>p < capacity. file_byte d t ip p = data_byte s (unat off) src (unat n) (file_byte d s ip) p"
    using t(2) by (simp_all add: bytes_written_def)
  have X: "calm s t" "dirty d t = dirty d s" "\<forall>j. sleeplk t (SL_inode j) = sleeplk s (SL_inode j)"
    "outstanding (logst t) = outstanding (logst s)" "log_place (logst t) = log_place (logst s)"
    "refs d t = (\<lambda>m. if m \<in> touched s ip (unat off) (unat n) \<and> int_of_u32 m \<notin> set (logged (logst s))
       then refs d s m + 1 else refs d s m)"
    using t(2) by (simp_all add: bytes_written_def)
  note up = upper_eq_more [OF W(3)]
  let ?u = "if off + n > i_size (icache t ip) then upd_inode ip (i_size_update (\<lambda>_. off + n)) t else t"
  have sd: "same_disks t ?u" and lu: "logst ?u = logst t" "mem ?u = mem s" "sb ?u = sb s"
    using up by simp_all
  have iu: "icache ?u = (icache s)(ip := grown (icache s ip) (off + n))"
    using up(1) by (auto simp: grown_def fun_eq_iff)
  have ub: "update_block ?u ip = update_block s ip" and du: "i_dev (icache ?u ip) = d"
    "i_inum (icache ?u ip) = i_inum (icache s ip)"
    using iu lu(3) r(1) by (simp_all add: update_block_def grown_def)
  note e = same_disks_block [OF sd]
  note wr = written_ready [OF R t(2) order_refl]
  have "room d ?u" "refs d ?u (update_block ?u ip) + 2 \<noteq> 0" using wr(1,2) e(4,7) by (simp_all add: room_def)
  moreover have "log_ready ?u" "log_pins d ?u" "log_accepts ?u (update_block ?u ip)"
    using wr(3,6,7) e(4) lu(1) by (simp_all add: log_ready_def log_pins_def log_accepts_def)
  moreover have "block_ok d ?u" "unlocked ?u" using wr(4,5) e(1,2) by simp_all
  ultimately obtain v where v: "inode_update (served_sleep D) ip ?u = Ret () v"
    "block_changed d (update_block s ip) (put_dinode (icache ?u ip) (dinode_at (i_inum (icache ?u ip)))
      (view d ?u (update_block s ip))) ?u v"
    using inode_update_spec [where d = d and s = ?u and D = D and ip = ip] assms(2) du(1) unfolding ub by blast
  have C: "block_ok d v" "unlocked v" "disk v = disk ?u" "logs.more v = logs.more ?u"
    "set (logged (logst v)) = insert (int_of_u32 (update_block s ip)) (set (logged (logst ?u)))"
    "view d v = (view d ?u)(update_block s ip :=
      put_dinode (icache ?u ip) (dinode_at (i_inum (icache ?u ip))) (view d ?u (update_block s ip)))"
    using v(2) by (simp_all add: block_changed_def)
  have Y: "calm ?u v" "dirty d v = dirty d ?u" "\<forall>j. sleeplk v (SL_inode j) = sleeplk ?u (SL_inode j)" "log_ready v"
    "outstanding (logst v) = outstanding (logst ?u)" "log_place (logst v) = log_place (logst ?u)"
    "refs d v = (refs d ?u)(update_block s ip := if int_of_u32 (update_block s ip) \<in> set (logged (logst ?u))
      then refs d ?u (update_block s ip) else refs d ?u (update_block s ip) + 1)"
    using v(2) by (simp_all add: block_changed_def)
  note cv = upper_eq_more [OF C(4)]
  have not_data: "update_block s ip \<notin> touched s ip (unat off) (unat n)"
  proof
    assume "update_block s ip \<in> touched s ip (unat off) (unat n)"
    then obtain p where "unat off \<le> p" "p < unat off + unat n" "update_block s ip = i_addrs (icache s ip) ! (p div BSIZE)"
      by (auto simp: touched_def)
    moreover from this have "p div BSIZE \<le> NDIRECT" using r(2) by (simp add: capacity_def NDIRECT_def BSIZE_def)
    ultimately show False using r(3) by metis
  qed
  have run: "inode_write (served_sleep D) ip user_src src off n s = Ret (int_of_u32 n) v"
    using ok fits t(1) v(1) by (simp add: inode_write_def Let_def)
  have "unat n < 2 ^ 31" using r(2) by (simp add: capacity_def NDIRECT_def BSIZE_def)
  then have n: "int_of_u32 n = int (unat n)" by (rule int_of_u32_small)
  have addrs: "i_addrs (icache v ip) = i_addrs (icache t ip)" using cv(1) iu up(1) by (simp add: grown_def)
  have "file_byte d v ip p = file_byte d t ip p" if p: "p < capacity" for p
  proof -
    have "p div BSIZE \<le> NDIRECT" using p by (simp add: capacity_def NDIRECT_def BSIZE_def)
    then have "i_addrs (icache t ip) ! (p div BSIZE) \<noteq> update_block s ip" using r(3) up(1) by simp
    then show ?thesis using C(6) e(3) by (simp add: file_byte_def addrs)
  qed
  then have "\<forall>p < capacity. file_byte d v ip p = data_byte s (unat off) src (unat n) (file_byte d s ip) p"
    using W(5) by simp
  moreover have "view d v m = view d s m" if "m \<notin> ?B" for m
    using that C(6) e(3) W(4) by simp
  moreover have "view d v (update_block s ip) =
      put_dinode (icache v ip) (dinode_at (i_inum (icache s ip))) (view d s (update_block s ip))"
    using C(6) e(3) W(4) not_data cv(1) du(2) by simp
  moreover have "set (logged (logst v)) = set (logged (logst s)) \<union> int_of_u32 ` ?B"
    using C(5) lu(1) W(2) by simp
  moreover have "refs d v = (\<lambda>m. if m \<in> ?B \<and> int_of_u32 m \<notin> set (logged (logst s)) then refs d s m + 1 else refs d s m)"
    unfolding Y(7) e(4) lu(1) X(6) W(2) using not_data by (auto simp: fun_eq_iff int_of_u32_inj)
  moreover have "calm s v" using calm_trans [OF calm_trans [OF X(1) e(10)] Y(1)] .
  moreover have "\<forall>j. sleeplk v (SL_inode j) = sleeplk s (SL_inode j)" using Y(3) X(3) same_disksD(2) [OF sd] by simp
  moreover have "outstanding (logst v) = outstanding (logst s)" "log_place (logst v) = log_place (logst s)"
    using Y(5,6) X(4,5) lu(1) by simp_all
  moreover have "dirty d v = dirty d s" using Y(2) X(2) e(5) by simp
  ultimately have "write_done d ip off src n s v"
    unfolding write_done_def Let_def using cv iu lu C(1-3) Y(4) same_disksD(4) [OF sd] W(1) up(4) by simp
  then show ?thesis using run n by auto
qed


text \<open>600 bytes at offset 900 of a file of 1000 bytes, across two of its blocks.\<close>

definition writing_kernel :: fsys where
  "writing_kernel = upd_mem (\<lambda>_ _. 7) (upd_log (outstanding_update (\<lambda>_. 1)) (inode_kernel ()))"

lemma writing_kernel_facts:
  "icache writing_kernel = example_icache" "sb writing_kernel = example_sb" "mem writing_kernel = (\<lambda>_. 7)"
  "write_ready 1 0 900 600 writing_kernel" "view 1 writing_kernel = view 1 (inode_kernel ())"
proof -
  let ?k = "inode_kernel ()" and ?s = writing_kernel
  note u = inode_kernel_upper [of "()"] and b = inode_kernel_block [of "()"]
  have sd: "same_disks ?k ?s"
    unfolding writing_kernel_def by (rule same_disks_trans [of _ "upd_log (outstanding_update (\<lambda>_. 1)) ?k"]) simp_all
  note e = same_disks_block [OF sd]
  show ic: "icache ?s = example_icache" and sbs: "sb ?s = example_sb" and "mem ?s = (\<lambda>_. 7)"
    by (simp_all add: writing_kernel_def u upd_log_def)
  show "view 1 ?s = view 1 ?k" by (rule e(3))
  have lg: "logst ?s = empty_log\<lparr>outstanding := 1\<rparr>" by (simp add: writing_kernel_def u)
  have r: "refs 1 ?s n = 0" "stuck 1 ?s = {}" for n using b(4,5) e(4,7) by simp_all
  have t: "touched ?s 0 900 600 \<subseteq> {41, 42}"
  proof
    fix x assume "x \<in> touched ?s 0 900 600"
    then obtain p where p: "900 \<le> p" "p < 1500" "x = i_addrs (icache ?s 0) ! (p div 512)"
      by (auto simp: touched_def BSIZE_def)
    from p(1,2) have "p div 512 = 1 \<or> p div 512 = 2" by linarith
    then show "x \<in> {41, 42}" using p(3) by (auto simp: ic example_icache_def example_inode_def)
  qed
  have nb: "update_block ?s 0 = 33"
    by (simp add: update_block_def ic sbs example_icache_def example_inode_def IBLOCK_def example_sb_def IPB_def)
  let ?B = "insert (update_block ?s 0) (touched ?s 0 900 600)"
  have sub: "?B \<subseteq> {33, 41, 42}" using t nb by auto
  have c: "card ?B \<le> 3" using card_mono [OF _ sub] by simp
  have "card (int_of_u32 ` ?B) \<le> 3" using card_image_le [of ?B int_of_u32] c by simp
  then have fits: "log_fits ?s ?B"
    by (simp add: log_fits_def lg logged_def empty_log_def LOGSIZE_def)
  have nth: "i_addrs (icache ?s 0) = [40, 41, 42, 0, 0, 0, 0, 0, 0, 0, 0, 0, 0]"
    by (simp add: ic example_icache_def example_inode_def)
  have ix: "i \<le> NDIRECT \<Longrightarrow> i \<in> {0, 1, 2, 3, 4, 5, 6, 7, 8, 9, 10, 11, 12}" for i
    by (simp add: NDIRECT_def) presburger
  have own: "own_blocks ?s 0"
    unfolding own_blocks_def nth using ix by (auto dest!: ix)
  have apart: "\<forall>i \<le> NDIRECT. i_addrs (icache ?s 0) ! i \<noteq> update_block ?s 0"
    unfolding nth nb by (auto dest!: ix)
  have "log_ready ?s" "log_pins 1 ?s"
    by (simp_all add: lg log_ready_def log_pins_def logged_def empty_log_def LOGSIZE_def)
  moreover have "i_dev (icache ?s 0) = 1" by (simp add: ic example_icache_def example_inode_def)
  moreover have "few_refs 1 ?s" by (simp add: few_refs_def r)
  moreover have "0 \<notin> touched ?s 0 900 600" using t by auto
  ultimately show "write_ready 1 0 900 600 ?s"
    unfolding write_ready_def using b(1,2) e(1,2) own apart fits c r(2)
    by (simp add: capacity_def NDIRECT_def BSIZE_def NBUF_def)
qed


end
