(* ===== verification/File_Writes.thy ===== *)
theory File_Writes
  imports Inode_Write File_Props
begin

text \<open>
  Writing through a file: each turn of \<open>file_write\<close> is one transaction of the log, which is on the
  disk when the turn is over.
\<close>

subsection \<open>The size of a transaction\<close>

lemma touched_card:
  assumes "k \<le> 3 * BSIZE"
  shows "card (touched s ip off k) \<le> 4"
proof -
  have "touched s ip off k \<subseteq> (\<lambda>i. i_addrs (icache s ip) ! i) ` {off div BSIZE..off div BSIZE + 3}"
  proof
    fix x assume "x \<in> touched s ip off k"
    then obtain p where p: "off \<le> p" "p < off + k" "x = i_addrs (icache s ip) ! (p div BSIZE)"
      by (auto simp: touched_def)
    have "off div 512 \<le> p div 512" using p(1) by (rule div_le_mono)
    moreover have "p div 512 \<le> (off + 3 * 512) div 512" using p(2) assms by (intro div_le_mono) (simp add: BSIZE_def)
    ultimately show "x \<in> (\<lambda>i. i_addrs (icache s ip) ! i) ` {off div BSIZE..off div BSIZE + 3}"
      using p(3) by (auto simp: BSIZE_def)
  qed
  then have "card (touched s ip off k) \<le> card ((\<lambda>i. i_addrs (icache s ip) ! i) ` {off div BSIZE..off div BSIZE + 3})"
    by (intro card_mono) simp_all
  also have "\<dots> \<le> 4" using card_image_le [of "{off div BSIZE..off div BSIZE + 3}"] by (simp add: order_trans)
  finally show ?thesis .
qed

definition changed_blocks :: "'a fsys_scheme \<Rightarrow> nat \<Rightarrow> nat \<Rightarrow> nat \<Rightarrow> u32 set" where
  "changed_blocks s ip off k = insert (update_block s ip) (touched s ip off k)"

lemma changed_card: "k \<le> 3 * BSIZE \<Longrightarrow> card (changed_blocks s ip off k) \<le> 5"
  using touched_card [of k s ip off] card_insert_le_m1 [of 5 "touched s ip off k" "update_block s ip"]
  by (simp add: changed_blocks_def)

lemma touched_finite [simp]: "finite (touched s ip off k)" "finite (changed_blocks s ip off k)"
  by (simp_all add: touched_def changed_blocks_def)

lemma max_write_eq: "max_write = 3 * int BSIZE"
  by (simp add: max_write_def MAXOPBLOCKS_def)

lemma write_fits:
  assumes "admits (logst s)" "log_ready s" "0 \<le> outstanding (logst s)" "log_size (logst s) = int LOGSIZE"
    and "k \<le> 3 * BSIZE"
  shows "log_fits (upd_log (outstanding_update (\<lambda>n. n + 1)) s) (changed_blocks s ip off k)"
proof -
  let ?L = "set (logged (logst s))" and ?B = "changed_blocks s ip off k"
  have "lh_n (lh (logst s)) \<le> 20"
    using assms(1,3) by (simp add: admits_def MAXOPBLOCKS_def LOGSIZE_def)
  then have "length (logged (logst s)) \<le> 20" by (simp add: logged_def)
  then have "card ?L \<le> 20" using card_length [of "logged (logst s)"] by linarith
  moreover have "card (int_of_u32 ` ?B) \<le> 5"
    using card_image_le [of ?B int_of_u32] changed_card [OF assms(5), of s ip off] by simp
  ultimately have "card (?L \<union> int_of_u32 ` ?B) \<le> 25"
    using card_Un_le [of ?L "int_of_u32 ` ?B"] by linarith
  then show ?thesis using assms(3,4) by (simp add: log_fits_def logged_def LOGSIZE_def)
qed



subsection \<open>The blocks in the log\<close>

lemma word_of_int_of_u32 [simp]: "word_of_int (int_of_u32 n) = n"
  by (simp add: int_of_u32_def)

lemma pending_homes:
  assumes "log_ready s" "set (logged (logst s)) = int_of_u32 ` B" "finite B" "card B < LOGSIZE"
  shows "lh_n (lh (logst s)) = int (card B)" "home_block s ` {..<card B} = B" "inj_on (home_block s) {..<card B}"
proof -
  let ?l = "logged (logst s)" and ?n = "lh_n (lh (logst s))"
  have lr: "distinct ?l" "0 \<le> ?n" "length (lh_block (lh (logst s))) = LOGSIZE"
    using assms(1) by (simp_all add: log_ready_def)
  have "inj_on int_of_u32 B" by (simp add: inj_on_def int_of_u32_inj)
  then have len: "length ?l = card B" using distinct_card [OF lr(1)] assms(2) by (simp add: card_image)
  moreover have "length ?l = min LOGSIZE (nat ?n)" using lr(3) by (simp add: logged_def)
  ultimately show n: "?n = int (card B)" using lr(2) assms(4) by auto
  have hb: "home_block s k = word_of_int (?l ! k)" if "k < card B" for k
    using that by (simp add: home_block_def logged_def n)
  have "home_block s ` {..<card B} = word_of_int ` ((!) ?l ` {..<length ?l})"
    using hb len by (auto simp: image_image)
  also have "(!) ?l ` {..<length ?l} = set ?l" by (auto simp: set_conv_nth)
  finally show im: "home_block s ` {..<card B} = B" using assms(2) by (simp add: image_image)
  show "inj_on (home_block s) {..<card B}" using im by (intro eq_card_imp_inj_on) simp_all
qed

definition log_blocks :: "'a logs_scheme \<Rightarrow> u32 set" where
  "log_blocks s = log_area (head_block s) (log_block s) (LOGSIZE - 1)"

lemma log_block_inj:
  assumes "j < LOGSIZE" "k < LOGSIZE"
  shows "log_block s j = log_block s k \<longleftrightarrow> j = k" "log_block s k \<noteq> head_block s"
proof -
  have *: "(word_of_int (a + int i) :: u32) = word_of_int (a + int m) \<longleftrightarrow> i = m" if "i \<le> LOGSIZE" "m \<le> LOGSIZE" for a i m
  proof -
    have "(word_of_int (a + int j) :: u32) = word_of_int a + of_nat j" for j
      by (simp add: wi_hom_add [symmetric])
    then have "(word_of_int (a + int i) :: u32) = word_of_int (a + int m) \<longleftrightarrow> (of_nat i :: u32) = of_nat m" by simp
    also have "\<dots> \<longleftrightarrow> i = m" using that by (auto simp: LOGSIZE_def dest!: arg_cong [where f = unat] simp: unat_small)
    finally show ?thesis .
  qed
  show "log_block s j = log_block s k \<longleftrightarrow> j = k"
    using * [of "Suc j" "Suc k" "log_start (logst s)"] assms by (simp add: log_block_def algebra_simps)
  show "log_block s k \<noteq> head_block s"
    using * [of "Suc k" 0 "log_start (logst s)"] assms by (simp add: log_block_def head_block_def algebra_simps)
qed

lemma commit_geometry:
  assumes "home_block s ` {..<n} \<inter> log_blocks s = {}" "inj_on (home_block s) {..<n}" "n < LOGSIZE"
  shows "log_geometry (head_block s) (log_block s) (home_block s) n"
proof -
  have "inj_on (log_block s) {..<n}"
  proof (rule inj_onI)
    fix j k assume "j \<in> {..<n}" "k \<in> {..<n}" "log_block s j = log_block s k"
    then show "j = k" using log_block_inj(1) [of j k s] assms(3) by simp
  qed
  moreover have "log_block s j \<noteq> home_block s k" "home_block s k \<noteq> head_block s" if "j < n" "k < n" for j k
  proof -
    have "home_block s k \<in> home_block s ` {..<n}" using that by simp
    then have "home_block s k \<notin> log_blocks s" using assms(1) by blast
    moreover have "log_block s j \<in> log_blocks s" "head_block s \<in> log_blocks s"
      using that assms(3) by (simp_all add: log_blocks_def log_area_def)
    ultimately show "log_block s j \<noteq> home_block s k" "home_block s k \<noteq> head_block s" by metis+
  qed
  moreover have "log_block s k \<noteq> head_block s" if "k < n" for k
    using log_block_inj(2) [of k k s] assms(3) that by simp
  ultimately show ?thesis using assms(2) by (auto simp: log_geometry_def)
qed

subsection \<open>An idle log\<close>

text \<open>No transaction runs, nothing is pinned, and outside the log area the medium holds what readers see.\<close>

definition log_idle :: "u32 \<Rightarrow> 'a logs_scheme \<Rightarrow> bool" where
  "log_idle d s \<longleftrightarrow> block_ok d s \<and> unlocked s \<and> dev_of s = d \<and> log_ready s \<and> lh_n (lh (logst s)) = 0 \<and>
     outstanding (logst s) = 0 \<and> committing (logst s) = 0 \<and> log_size (logst s) = int LOGSIZE \<and>
     (\<forall>m. refs d s m = 0) \<and> header_n (on_disk s (head_block s)) = 0 \<and>
     (\<forall>m. m \<notin> log_blocks s \<longrightarrow> view d s m = on_disk s m)"

lemma log_idleD:
  assumes "log_idle d s"
  shows "block_ok d s" "unlocked s" "dev_of s = d" "log_ready s" "lh_n (lh (logst s)) = 0"
    "outstanding (logst s) = 0" "committing (logst s) = 0" "log_size (logst s) = int LOGSIZE"
    "\<And>m. refs d s m = 0" "header_n (on_disk s (head_block s)) = 0"
    "\<And>m. m \<notin> log_blocks s \<Longrightarrow> view d s m = on_disk s m" "logged (logst s) = []" "admits (logst s)"
    "spinlock_held LK_log s = 0"
  using assms by (auto simp: log_idle_def logged_def admits_def MAXOPBLOCKS_def LOGSIZE_def block_ok_def dest: locks_freeD)

lemma log_place_blocks:
  assumes "log_place (logst t) = log_place (logst s)"
  shows "head_block t = head_block s" "log_block t = log_block s" "dev_of t = dev_of s" "log_blocks t = log_blocks s"
proof -
  note p = log_placeD [OF assms]
  show h: "head_block t = head_block s" "log_block t = log_block s" "dev_of t = dev_of s"
    using p by (simp_all add: head_block_def log_block_def dev_of_def fun_eq_iff)
  show "log_blocks t = log_blocks s" using h by (simp add: log_blocks_def)
qed

text \<open>A commit changes what readers see in the log area only.\<close>

lemma commit_view:
  assumes "x \<notin> log_area hb0 lb n"
  shows "upd_all (commit_writes hb0 lb hb h V n) V x = V x"
proof -
  have a: "x \<noteq> hb0" "x \<notin> lb ` {..<n}" using assms by (simp_all add: log_area_def)
  have l: "upd_all (log_writes lb hb V n) V x = V x"
    using a(2) by (intro upd_all_other) (simp add: fst_writes)
  have "upd_all (map (\<lambda>k. (hb k, V (hb k))) [0..<m]) W x = V x" if "W x = V x" for m W
    using that by (induction m) simp_all
  then show ?thesis using a(1) l by (simp add: commit_writes_def)
qed

text \<open>\<open>reboots_to D s m P\<close>: a machine that boots on the medium \<open>m\<close> with the log where \<open>s\<close> has it, \<open>buf_cache_init\<close>
  and \<open>log_init\<close> on zeroed static data, comes up with disk contents that satisfy \<open>P\<close>.\<close>

definition reboots_to :: "device \<Rightarrow> 'a logs_scheme \<Rightarrow> medium \<Rightarrow> ((u32 \<Rightarrow> u8 list) \<Rightarrow> bool) \<Rightarrow> bool" where
  "reboots_to D s m P \<longleftrightarrow> (\<forall>r :: logs. zeroed r \<and> length (lh_block (lh (logst r))) = LOGSIZE \<and> sectors (disk r) = sectors m \<longrightarrow>
     (\<exists>u. log_init (served_sleep D) (log_dev (logst s)) (log_start (logst s)) (log_size (logst s)) (buf_cache_init r) =
        Ret () u \<and> P (on_disk u)))"

lemma reboots_mono: "reboots_to D s m P \<Longrightarrow> (\<And>V. P V \<Longrightarrow> Q V) \<Longrightarrow> reboots_to D s m Q"
  unfolding reboots_to_def by meson

lemma reboots_place:
  assumes "log_place (logst t) = log_place (logst s)"
  shows "reboots_to D t = reboots_to D s"
  using log_placeD [OF assms] by (simp add: reboots_to_def fun_eq_iff)

text \<open>The way from \<open>s\<close> to \<open>t\<close> on the medium is a sequence of sector writes such that a machine that stops after any
  number of them and boots again comes up with disk contents that satisfy \<open>P\<close>.\<close>

definition crash_steps :: "device \<Rightarrow> 'a logs_scheme \<Rightarrow> ((u32 \<Rightarrow> u8 list) \<Rightarrow> bool) \<Rightarrow> 'a logs_scheme \<Rightarrow> bool" where
  "crash_steps D s P t \<longleftrightarrow> (\<exists>ws. disk t = write_all ws (disk s) \<and>
     (\<forall>j. reboots_to D s (write_all (take j ws) (disk s)) P))"

lemma crash_steps_mono: "crash_steps D s P t \<Longrightarrow> (\<And>V. P V \<Longrightarrow> Q V) \<Longrightarrow> crash_steps D s Q t"
  unfolding crash_steps_def using reboots_mono by blast

lemma crash_steps_trans:
  assumes "crash_steps D s P t" "crash_steps D t P u" "log_place (logst t) = log_place (logst s)"
  shows "crash_steps D s P u"
proof -
  obtain ws where ws: "disk t = write_all ws (disk s)" "\<And>j. reboots_to D s (write_all (take j ws) (disk s)) P"
    using assms(1) by (auto simp: crash_steps_def)
  obtain vs where vs: "disk u = write_all vs (disk t)" "\<And>j. reboots_to D s (write_all (take j vs) (disk t)) P"
    using assms(2) reboots_place [OF assms(3)] by (auto simp: crash_steps_def)
  have "reboots_to D s (write_all (take j (ws @ vs)) (disk s)) P" for j
  proof (cases "j \<le> length ws")
    case True
    then show ?thesis using ws(2) by simp
  next
    case False
    then show ?thesis using vs(2) [of "j - length ws"] ws(1) by simp
  qed
  then show ?thesis using ws(1) vs(1) by (auto simp: crash_steps_def intro!: exI [of _ "ws @ vs"])
qed

definition agrees :: "u32 set \<Rightarrow> (u32 \<Rightarrow> u8 list) \<Rightarrow> (u32 \<Rightarrow> u8 list) \<Rightarrow> bool" where
  "agrees L V W \<longleftrightarrow> (\<forall>x. x \<notin> L \<longrightarrow> V x = W x)"

text \<open>The last operation of a transaction that has logged the blocks \<open>B\<close> makes the log idle, with \<open>B\<close> on the disk.\<close>

lemma end_op_idle:
  assumes D: "obeys_virtio D" and ok: "block_ok d s" "unlocked s" "dev_of s = d" "log_ready s"
    and log: "outstanding (logst s) = 1" "log_size (logst s) = int LOGSIZE" "set (logged (logst s)) = int_of_u32 ` B"
    and B: "finite B" "B \<noteq> {}" "card B \<le> 5" "B \<inter> log_blocks s = {}"
    and refs: "refs d s = (\<lambda>m. if m \<in> B then 1 else 0)" and clean: "header_n (on_disk s (head_block s)) = 0"
    and sync: "\<And>m. m \<notin> log_blocks s \<Longrightarrow> m \<notin> B \<Longrightarrow> view d s m = on_disk s m"
    and K: "finite K" "card K < NBUF" "stuck d s \<subseteq> K" "log_area (head_block s) (log_block s) 5 \<subseteq> K"
  shows "\<exists>t. log_end_op (served_sleep D) s = Ret () t \<and> log_idle d t \<and> stuck d t \<subseteq> K \<and>
    (\<forall>m. m \<notin> log_blocks s \<longrightarrow> view d t m = view d s m) \<and> logs.more t = logs.more s \<and>
    log_start (logst t) = log_start (logst s) \<and> log_dev (logst t) = log_dev (logst s) \<and>
    (d \<noteq> 0 \<longrightarrow> crash_steps D s (\<lambda>V. agrees (log_blocks s) V (on_disk s) \<or> agrees (log_blocks s) V (on_disk t)) t) \<and>
    (\<forall>j. sleeplk t (SL_inode j) = sleeplk s (SL_inode j))"
proof -
  let ?n = "card B" and ?hd = "head_block s" and ?lb = "log_block s" and ?hb = "home_block s" and ?h = "lh (logst s)"
  let ?V = "view d s" and ?O = "on_disk s"
  let ?ws = "commit_writes ?hd ?lb ?hb ?h ?V ?n"
  have n: "0 < ?n" "?n < LOGSIZE" "?n \<le> LOGSIZE" using B(1-3) by (simp_all add: card_gt_0_iff LOGSIZE_def)
  note h = pending_homes [OF ok(4) log(3) B(1) n(2)]
  have geo: "log_geometry ?hd ?lb ?hb ?n" using commit_geometry [of s ?n] h(2,3) B(4) n(2) by simp
  have inv: "cache_inv d s" using ok(1) by (simp add: block_ok_def)
  have tr: "transaction ?hd ?lb ?hb ?h ?n ?O ?V"
    using geo h(1) n(3) clean view_length [OF inv] by (simp add: transaction_def home_block_def)
  have area: "log_area ?hd ?lb ?n \<subseteq> log_blocks s" "log_area ?hd ?lb ?n \<subseteq> K"
    using n(2) B(3) K(4) by (auto simp: log_blocks_def log_area_def)
  have out: "refs d s m = 0" if "m \<in> log_blocks s" for m using that B(4) refs by auto
  have "insert ?hd (stuck d s \<union> ?lb ` {..<?n}) \<subseteq> K" using area(2) K(3) by (simp add: log_area_def)
  then have "card (insert ?hd (stuck d s \<union> ?lb ` {..<?n})) < NBUF" using card_mono [OF K(1)] K(2) le_less_trans by blast
  moreover have "refs d s (?lb k) = 0 \<and> refs d s (?hb k) = 1" if "k < ?n" for k
    using out [of "?lb k"] n(2) that h(2) refs by (auto simp: log_blocks_def log_area_def)
  moreover have "refs d s ?hd = 0" by (rule out) (simp add: log_blocks_def log_area_def)
  ultimately have rdy: "ready d ?n s" using ok n tr by (simp add: ready_def)
  then obtain t where t: "log_end_op (served_sleep D) s = Ret () t" "block_ok d t" "unlocked t"
    "disk t = write_all ?ws (disk s)" "view d t = upd_all ?ws ?V"
    "logst t = (logst s)\<lparr>outstanding := 0, committing := 0, lh := ?h\<lparr>lh_n := 0\<rparr>\<rparr>" "logs.more t = logs.more s"
    "\<forall>m. dirty d t m \<longrightarrow> dirty d s m \<or> m \<in> insert ?hd (?lb ` {..<?n} \<union> ?hb ` {..<?n})"
    "\<forall>j. sleeplk t (SL_inode j) = sleeplk s (SL_inode j)" "refs d t = (\<lambda>m. if m \<in> ?hb ` {..<?n} then 0 else refs d s m)"
    using end_op_commits [OF D _ log(1), of d ?n] by blast
  have bl: "head_block t = ?hd" "log_block t = ?lb" "dev_of t = dev_of s" "log_blocks t = log_blocks s"
  proof -
    show h: "head_block t = ?hd" "log_block t = ?lb" "dev_of t = dev_of s"
      using t(6) by (simp_all add: head_block_def log_block_def dev_of_def fun_eq_iff)
    show "log_blocks t = log_blocks s" using h by (simp add: log_blocks_def)
  qed
  have new: "disk_new ?hd ?lb ?hb ?n ?O ?V (on_disk t)"
    unfolding on_disk_write_all [OF t(4)] by (rule crash_at_end [OF tr])
  have v: "view d t m = ?V m" if "m \<notin> log_blocks s" for m
    unfolding t(5) using that area(1) by (intro commit_view) blast
  have r: "refs d t = (\<lambda>_. 0)" unfolding t(10) h(2) refs by auto
  have "view d t m = on_disk t m" if "m \<notin> log_blocks t" for m
  proof -
    have m: "m \<notin> log_blocks s" "m \<notin> log_area ?hd ?lb ?n" using that bl(4) area(1) by auto
    then show ?thesis using new v [OF m(1)] sync [OF m(1)] h(2) by (auto simp: disk_new_def)
  qed
  moreover have "log_ready t" using ok(4) t(6) by (simp add: log_ready_def logged_def)
  ultimately have "log_idle d t"
    using t(2,3,6) bl ok(3) log(2) r new by (simp add: log_idle_def disk_new_def)
  moreover have "stuck d t \<subseteq> K"
  proof
    fix m assume "m \<in> stuck d t"
    then have "dirty d s m \<or> m \<in> log_area ?hd ?lb ?n \<or> m \<in> B"
      using r t(8) h(2) by (auto simp: stuck_eq log_area_def)
    then show "m \<in> K" using K(3) area(2) refs by (auto simp: stuck_eq)
  qed
  moreover have "reboots_to D s (write_all (take j ?ws) (disk s))
      (\<lambda>V. agrees (log_blocks s) V (on_disk s) \<or> agrees (log_blocks s) V (on_disk t))" if nz: "d \<noteq> 0" for j
    unfolding reboots_to_def
  proof (intro allI impI)
    fix r :: logs
    assume r: "zeroed r \<and> length (lh_block (lh (logst r))) = LOGSIZE \<and>
      sectors (disk r) = sectors (write_all (take j ?ws) (disk s))"
    obtain u where u: "log_init (served_sleep D) (log_dev (logst s)) (log_start (logst s)) (log_size (logst s))
        (buf_cache_init r) = Ret () u"
      "(\<forall>x. x \<notin> log_area ?hd ?lb ?n \<longrightarrow> on_disk u x = ?O x) \<or>
       (\<forall>x. x \<notin> log_area ?hd ?lb ?n \<longrightarrow> on_disk u x = (if x \<in> ?hb ` {..<?n} then ?V x else ?O x))"
      using end_op_crash [OF D rdy nz] r by blast
    have sub: "x \<notin> log_area ?hd ?lb ?n" if "x \<notin> log_blocks s" for x using area(1) that by blast
    have "agrees (log_blocks s) (on_disk u) ?O \<or> agrees (log_blocks s) (on_disk u) (on_disk t)"
      using u(2)
    proof
      assume "\<forall>x. x \<notin> log_area ?hd ?lb ?n \<longrightarrow> on_disk u x = ?O x"
      then show ?thesis using sub by (simp add: agrees_def)
    next
      assume "\<forall>x. x \<notin> log_area ?hd ?lb ?n \<longrightarrow> on_disk u x = (if x \<in> ?hb ` {..<?n} then ?V x else ?O x)"
      then show ?thesis using sub new by (simp add: agrees_def disk_new_def)
    qed
    then show "\<exists>u. log_init (served_sleep D) (log_dev (logst s)) (log_start (logst s)) (log_size (logst s))
        (buf_cache_init r) = Ret () u \<and> (agrees (log_blocks s) (on_disk u) ?O \<or>
          agrees (log_blocks s) (on_disk u) (on_disk t))"
      using u(1) by blast
  qed
  moreover have "log_start (logst t) = log_start (logst s)" "log_dev (logst t) = log_dev (logst s)"
    using t(6) by simp_all
  ultimately show ?thesis using t(1,4,7,9) v unfolding crash_steps_def by (intro exI [of _ t]) blast
qed

subsection \<open>Unlocking an inode\<close>

lemma inode_unlock_spec:
  assumes "block_ok d s" "unlocked s" "owns_sleep s (SL_inode ip)" "1 \<le> i_ref (icache s ip)"
  shows "\<exists>t. inode_unlock (Some ip) s = Ret () t \<and> block_keep d s t \<and> disks.more t = disks.more s \<and>
    sleep_free t (SL_inode ip)"
proof -
  have lf: "locks_free s" using assms(1) by (simp add: block_ok_def)
  obtain t where t: "sleeplock_held (SL_inode ip) s = Ret True t" "calm s t" "same_blocks s t" "sleeplk t = sleeplk s"
    using held_spec [OF lf, of "SL_inode ip"] assms(3) by auto
  have "locks_free t" using calm_locks_free [OF t(2)] lf by simp
  then obtain u where u: "sleeplock_release (SL_inode ip) t = Ret () u" "sleep_free u (SL_inode ip)" "calm t u"
    "same_blocks t u" "\<forall>k. k \<noteq> SL_inode ip \<longrightarrow> sleeplk u k = sleeplk t k"
    using release_spec by blast
  have su: "same_blocks s u" using t(3) u(4) by (simp add: same_blocks_def)
  have "block_keep d s u"
    using inode_lock_keeps [OF assms(1,2) calm_trans [OF t(2) u(3)] su, of ip] u(5) t(4) by simp
  moreover have "icache t = icache s" using t(3) upper_eq(2) [of t s] by (simp add: same_blocks_def)
  ultimately show ?thesis using t(1) u(1,2) su assms(4) by (auto simp: inode_unlock_def same_blocks_def)
qed

subsection \<open>One turn of file_write\<close>

text \<open>What the turns rely on: the inode \<open>ip\<close> is loaded and free, the blocks from \<open>off\<close> on exist and lie outside
  the log, and \<open>K\<close> is a set of blocks, smaller than the cache, that the buffers which cannot be recycled
  stay in.\<close>

definition file_ready :: "u32 \<Rightarrow> u32 set \<Rightarrow> nat \<Rightarrow> nat \<Rightarrow> nat \<Rightarrow> 'a fsys_scheme \<Rightarrow> bool" where
  "file_ready d K ip off n s \<longleftrightarrow> i_dev (icache s ip) = d \<and> 1 \<le> i_ref (icache s ip) \<and> i_valid (icache s ip) \<noteq> 0 \<and>
     sleep_free s (SL_inode ip) \<and> own_blocks s ip \<and> off + n \<le> capacity \<and> 0 \<notin> touched s ip off n \<and>
     (\<forall>i \<le> NDIRECT. i_addrs (icache s ip) ! i \<noteq> update_block s ip \<and> i_addrs (icache s ip) ! i \<notin> log_blocks s) \<and>
     update_block s ip \<notin> log_blocks s \<and> finite K \<and> card K < NBUF \<and> stuck d s \<subseteq> K \<and>
     log_area (head_block s) (log_block s) 5 \<subseteq> K \<and> changed_blocks s ip off n \<subseteq> K \<and>
     length (i_addrs (icache s ip)) = NDIRECT + 1"

lemma file_readyD:
  assumes "file_ready d K ip off n s"
  shows "i_dev (icache s ip) = d" "1 \<le> i_ref (icache s ip)" "i_valid (icache s ip) \<noteq> 0"
    "sleep_free s (SL_inode ip)" "own_blocks s ip" "off + n \<le> capacity" "0 \<notin> touched s ip off n"
    "\<forall>i \<le> NDIRECT. i_addrs (icache s ip) ! i \<noteq> update_block s ip" "finite K" "card K < NBUF" "stuck d s \<subseteq> K"
    "changed_blocks s ip off n \<subseteq> K" "log_area (head_block s) (log_block s) 5 \<subseteq> K"
    "\<And>i. i \<le> NDIRECT \<Longrightarrow> i_addrs (icache s ip) ! i \<notin> log_blocks s" "changed_blocks s ip off n \<inter> log_blocks s = {}"
    "length (i_addrs (icache s ip)) = NDIRECT + 1"
proof -
  note f = assms [unfolded file_ready_def]
  show "i_dev (icache s ip) = d" "1 \<le> i_ref (icache s ip)" "i_valid (icache s ip) \<noteq> 0"
    "sleep_free s (SL_inode ip)" "own_blocks s ip" "off + n \<le> capacity" "0 \<notin> touched s ip off n"
    "\<forall>i \<le> NDIRECT. i_addrs (icache s ip) ! i \<noteq> update_block s ip" "finite K" "card K < NBUF" "stuck d s \<subseteq> K"
    "changed_blocks s ip off n \<subseteq> K" "log_area (head_block s) (log_block s) 5 \<subseteq> K"
    "length (i_addrs (icache s ip)) = NDIRECT + 1"
    and a: "\<And>i. i \<le> NDIRECT \<Longrightarrow> i_addrs (icache s ip) ! i \<notin> log_blocks s"
    using f by simp_all
  have "p div BSIZE \<le> NDIRECT" if "p < off + n" for p
  proof -
    have "off + n \<le> 6656" using f by (simp add: capacity_def NDIRECT_def BSIZE_def)
    then have "p < 6656" using that by linarith
    then show ?thesis by (simp add: NDIRECT_def BSIZE_def)
  qed
  then show "changed_blocks s ip off n \<inter> log_blocks s = {}"
    using a f by (auto simp: changed_blocks_def touched_def)
qed

text \<open>The block of an inode holds what the cache has of it.\<close>

definition stored :: "u32 \<Rightarrow> nat \<Rightarrow> 'a fsys_scheme \<Rightarrow> bool" where
  "stored d ip t \<longleftrightarrow> same_fields
     (get_dinode (view d t (update_block t ip)) (dinode_at (i_inum (icache t ip))) (icache t ip)) (icache t ip)"

text \<open>The state after \<open>k\<close> bytes have been written by whole turns.\<close>

definition turns_done :: "u32 \<Rightarrow> nat \<Rightarrow> nat \<Rightarrow> u32 \<Rightarrow> u64 \<Rightarrow> nat \<Rightarrow> 'a files_scheme \<Rightarrow> 'a files_scheme \<Rightarrow> bool" where
  "turns_done d f ip off addr k s t \<longleftrightarrow> log_idle d t \<and>
     icache t = (icache s)(ip := grown (icache s ip) (off + of_nat k)) \<and> sb t = sb s \<and> mem t = mem s \<and>
     ftable t = (ftable s)(f := (ftable s f)\<lparr>f_off := off + of_nat k\<rparr>) \<and> pipe_at t = pipe_at s \<and>
     log_place (logst t) = log_place (logst s) \<and> (0 < k \<longrightarrow> stored d ip t) \<and>
     (\<forall>p < capacity. file_byte d t ip p = data_byte s (unat off) addr k (file_byte d s ip) p) \<and>
     (\<forall>m. m \<notin> changed_blocks s ip (unat off) k \<longrightarrow> m \<notin> log_blocks s \<longrightarrow> view d t m = view d s m)"

lemma data_byte_more:
  assumes "mem t = mem s" "old = data_byte s off addr k o' p"
  shows "data_byte t (off + k) (addr + of_nat k) m (\<lambda>_. old) p = data_byte s off addr (k + m) o' p"
proof -
  have "addr + of_nat k + of_nat (p - (off + k)) = addr + of_nat (p - off)" if "off + k \<le> p"
    using that by (simp add: of_nat_diff)
  then show ?thesis using assms by (auto simp: data_byte_def)
qed

lemma grown_simps [simp]:
  "i_dev (grown p x) = i_dev p" "i_inum (grown p x) = i_inum p" "i_ref (grown p x) = i_ref p"
  "i_valid (grown p x) = i_valid p" "i_addrs (grown p x) = i_addrs p"
  by (simp_all add: grown_def)

lemma grown_more: "x \<le> y \<Longrightarrow> grown (grown p x) y = grown p y"
  by (auto simp: grown_def)

lemma same_file:
  assumes "icache t = (icache s)(ip := grown (icache s ip) x)" "sb t = sb s"
  shows "update_block t ip = update_block s ip" "touched t ip = touched s ip" "own_blocks t ip = own_blocks s ip"
    "changed_blocks t ip = changed_blocks s ip"
  using assms by (simp_all add: update_block_def touched_def own_blocks_def changed_blocks_def fun_eq_iff)

lemma changed_mono: "off \<le> o' \<Longrightarrow> o' + k \<le> off + n \<Longrightarrow> changed_blocks s ip o' k \<subseteq> changed_blocks s ip off n"
  by (auto simp: changed_blocks_def touched_def)

lemma off_add:
  assumes "unat (off :: u32) + k \<le> capacity"
  shows "unat (off + of_nat k) = unat off + k" "unat (of_nat k :: u32) = k"
proof -
  have c: "unat off + k \<le> 6656" using assms by (simp add: capacity_def NDIRECT_def BSIZE_def)
  then show u: "unat (of_nat k :: u32) = k" by (intro unat_small) simp
  then show "unat (off + of_nat k) = unat off + k" using c by (simp add: unat_word_ariths)
qed

lemma turns_trans:
  assumes a: "turns_done d f ip off addr k s t" and b: "turns_done d f ip (off + of_nat k) (addr + of_nat k) m t u"
    and lim: "unat off + (k + m) \<le> capacity" and m: "0 < m"
  shows "turns_done d f ip off addr (k + m) s u"
proof -
  note o1 = off_add [of off k] and o2 = off_add [of off "k + m"]
  have ok: "unat (off + of_nat k) = unat off + k" "unat (off + of_nat (k + m)) = unat off + (k + m)"
    using o1 o2 lim by simp_all
  have A: "icache t = (icache s)(ip := grown (icache s ip) (off + of_nat k))" "sb t = sb s" "mem t = mem s"
    "ftable t = (ftable s)(f := (ftable s f)\<lparr>f_off := off + of_nat k\<rparr>)" "log_place (logst t) = log_place (logst s)"
    "\<forall>p < capacity. file_byte d t ip p = data_byte s (unat off) addr k (file_byte d s ip) p"
    "\<forall>m. m \<notin> changed_blocks s ip (unat off) k \<longrightarrow> m \<notin> log_blocks s \<longrightarrow> view d t m = view d s m"
    using a by (simp_all add: turns_done_def)
  note lb = log_place_blocks [OF A(5)]
  note S = same_file [OF A(1,2)]
  have le: "off + of_nat k \<le> off + of_nat k + of_nat m" using ok by (simp add: word_le_nat_alt add.assoc)
  have "file_byte d u ip p = data_byte s (unat off) addr (k + m) (file_byte d s ip) p" if "p < capacity" for p
  proof -
    have "file_byte d u ip p = data_byte t (unat off + k) (addr + of_nat k) m (\<lambda>_. file_byte d t ip p) p"
      using b that ok(1) by (simp add: turns_done_def data_byte_def)
    then show ?thesis using data_byte_more [OF A(3)] A(6) that by simp
  qed
  moreover have "view d u x = view d s x" if "x \<notin> changed_blocks s ip (unat off) (k + m)" "x \<notin> log_blocks s" for x
  proof -
    have "x \<notin> changed_blocks s ip (unat off) k" "x \<notin> changed_blocks t ip (unat off + k) m"
      using that(1) changed_mono [of "unat off" "unat off" k "k + m" s ip]
        changed_mono [of "unat off" "unat off + k" m "k + m" s ip] by (auto simp: S(4))
    then show ?thesis using b that(2) lb(4) A(7) ok(1) by (simp add: turns_done_def)
  qed
  ultimately show ?thesis
    using a b A le m unfolding turns_done_def by (simp add: grown_more add.assoc)
qed

lemma intr_on_upper [simp]:
  "icache (intr_on s) = icache s" "sb (intr_on s) = sb s" "mem (intr_on s) = mem s" "fsys.more (intr_on s) = fsys.more s"
  "icache (upd_log g t) = icache t" "sb (upd_log g t) = sb t" "mem (upd_log g t) = mem t"
  "fsys.more (upd_log g t) = fsys.more t"
  by (simp_all add: intr_on_def upd_log_def)

lemma upd_file_upper [simp]:
  "same_disks s (upd_file f g s)" "logst (upd_file f g s) = logst s" "icache (upd_file f g s) = icache s"
  "sb (upd_file f g s) = sb s"
  by (simp_all add: upd_file_def same_disks_def disks.truncate_def)

lemma files_of_more:
  fixes s t :: "'a files_scheme"
  assumes "fsys.more t = fsys.more s"
  shows "ftable t = ftable s" "pipe_at t = pipe_at s"
  using assms by (cases s; cases t; simp)+

lemma files_of_logs:
  fixes s t :: "'a files_scheme"
  assumes "logs.more t = logs.more s"
  shows "ftable t = ftable s" "pipe_at t = pipe_at s" "icache t = icache s" "sb t = sb s" "mem t = mem s"
  using files_of_more [OF upper_eq_more(4) [OF assms]] upper_eq_more [OF assms] by simp_all

text \<open>The transaction has begun and the inode is locked.\<close>

lemma turn_begin:
  assumes D: "obeys_virtio D" and I: "log_idle d s" and R: "file_ready d K ip (unat off) (unat m) s"
    and m: "unat m \<le> 3 * BSIZE"
  shows "\<exists>u t. log_begin_op (served_sleep D) s = Ret () u \<and> inode_lock (served_sleep D) (Some ip) u = Ret () t \<and>
    calm s t \<and> owns_sleep t (SL_inode ip) \<and> on_cpu t \<and> write_ready d ip (unat off) (unat m) t \<and>
    view d t = view d s \<and> refs d t = refs d s \<and> dirty d t = dirty d s \<and> disk t = disk s \<and> icache t = icache s \<and>
    sb t = sb s \<and> mem t = mem s \<and> fsys.more t = fsys.more s \<and> log_place (logst t) = log_place (logst s) \<and>
    outstanding (logst t) = 1 \<and> logged (logst t) = []"
proof -
  note i = log_idleD [OF I]
  note r = file_readyD [OF R]
  let ?u = "upd_log (outstanding_update (\<lambda>n. n + 1)) (intr_on s)"
  have b: "log_begin_op (served_sleep D) s = Ret () ?u" by (rule begin_op_admitted [OF i(14,13)])
  have sd: "same_disks (intr_on s) ?u" by simp
  note e = same_disks_block [OF sd]
  have U: "block_ok d ?u" "unlocked ?u" "view d ?u = view d s" "refs d ?u = refs d s" "dirty d ?u = dirty d s"
    "stuck d ?u = stuck d s" "disk ?u = disk s" "icache ?u = icache s" "sb ?u = sb s" "mem ?u = mem s"
    "fsys.more ?u = fsys.more s" "logst ?u = (logst s)\<lparr>outstanding := 1\<rparr>"
    using e i(1,2,6) by simp_all
  have cs: "calm s ?u" using calm_trans [of s "intr_on s" ?u] e(10) by simp
  have "card (stuck d ?u) < NBUF" using U(6) r(9-11) card_mono le_less_trans by metis
  then have rm: "room d ?u" using U(4) i(9) by (simp add: room_def)
  have sf: "sleep_free ?u (SL_inode ip)" using r(4) e(11) by (simp add: sleep_free_def)
  obtain t where t: "inode_lock (served_sleep D) (Some ip) ?u = Ret () t" "block_keep d ?u t" "owns_sleep t (SL_inode ip)"
    "icache t = icache s" "sb t = sb s" "mem t = mem s" "logst t = logst ?u" "fsys.more t = fsys.more s"
    using inode_lock_spec [OF U(1,2) rm D _ sf] U(8-11) r(1-3) by auto
  have T: "calm ?u t" "block_ok d t" "unlocked t" "view d t = view d s" "refs d t = refs d s" "dirty d t = dirty d s"
    "disk t = disk s" using t(2) U by (simp_all add: block_keep_def)
  have st: "stuck d t = stuck d s" using T(5,6) by (simp add: stuck_eq)
  have lt: "logst t = (logst s)\<lparr>outstanding := 1\<rparr>" using t(7) U(12) by simp
  have same: "touched t ip = touched s ip" "own_blocks t ip = own_blocks s ip" "update_block t ip = update_block s ip"
    "changed_blocks t ip = changed_blocks s ip"
    using t(4,5) by (simp_all add: touched_def own_blocks_def update_block_def changed_blocks_def fun_eq_iff)
  have "card (stuck d t \<union> changed_blocks s ip (unat off) (unat m)) < NBUF"
    using st r(9-12) card_mono [of K] le_less_trans by (metis Un_subset_iff)
  moreover have "log_fits t (changed_blocks s ip (unat off) (unat m))"
    using write_fits [OF i(13,4) _ i(8) m, of ip "unat off"] i(6) lt by (simp add: log_fits_def logged_def)
  moreover have "log_ready t" "log_pins d t" "few_refs d t"
    using i(4,5,9) lt T(5) by (simp_all add: log_ready_def log_pins_def few_refs_def logged_def)
  ultimately have "write_ready d ip (unat off) (unat m) t"
    using T(2,3) r(1,5-8) t(4) same(1-3)
    by (simp add: write_ready_def changed_blocks_def [symmetric])
  moreover have "on_cpu t" using T(2) by (simp add: block_ok_def)
  moreover have "log_place (logst t) = log_place (logst s)" "outstanding (logst t) = 1" "logged (logst t) = []"
    using lt i(5) by (simp_all add: log_place_def logged_def)
  ultimately show ?thesis using b t T calm_trans [OF cs T(1)] by blast
qed

text \<open>The inode is unlocked and the transaction ends, after the write of \<open>m\<close> bytes.\<close>

lemma turn_end:
  fixes s t u :: "'a files_scheme"
  assumes D: "obeys_virtio D" and I: "log_idle d s" and R: "file_ready d K ip (unat off) (unat m) s"
    and m: "unat m \<le> 3 * BSIZE"
    and T: "view d t = view d s" "refs d t = refs d s" "dirty d t = dirty d s" "disk t = disk s" "icache t = icache s"
      "sb t = sb s" "mem t = mem s" "fsys.more t = fsys.more s" "log_place (logst t) = log_place (logst s)"
      "outstanding (logst t) = 1" "logged (logst t) = []" "owns_sleep t (SL_inode ip)" "on_cpu t"
    and W: "write_done d ip off addr m t u" and f: "f_off (ftable s f) = off"
  defines "w \<equiv> upd_file f (f_off_update (\<lambda>x. x + m)) u"
  shows "\<exists>x y. inode_unlock (Some ip) w = Ret () x \<and> log_end_op (served_sleep D) x = Ret () y \<and>
    turns_done d f ip off addr (unat m) s y \<and> stuck d y \<subseteq> K \<and> sleep_free y (SL_inode ip) \<and>
    (d \<noteq> 0 \<longrightarrow> crash_steps D s (\<lambda>V. agrees (log_blocks s) V (on_disk s) \<or> agrees (log_blocks s) V (on_disk y)) y)"
proof -
  note i = log_idleD [OF I]
  let ?B = "changed_blocks s ip (unat off) (unat m)"
  note r = file_readyD [OF R]
  have tb: "changed_blocks t ip (unat off) (unat m) = ?B"
    using T(5,6) by (simp add: changed_blocks_def touched_def update_block_def)
  have rz: "refs d t = (\<lambda>_. 0)" using T(2) i(9) by (simp add: fun_eq_iff)
  have w: "calm t u" "block_ok d u" "unlocked u" "dirty d u = dirty d s" "disk u = disk s" "log_ready u"
    "set (logged (logst u)) = int_of_u32 ` ?B" "refs d u = (\<lambda>m. if m \<in> ?B then 1 else 0)"
    "\<forall>j. sleeplk u (SL_inode j) = sleeplk t (SL_inode j)" "outstanding (logst u) = 1"
    "log_place (logst u) = log_place (logst s)" "icache u = (icache s)(ip := grown (icache s ip) (off + m))"
    "mem u = mem s" "sb u = sb s" "fsys.more u = fsys.more s" "\<forall>x. x \<notin> ?B \<longrightarrow> view d u x = view d s x"
    using W [unfolded write_done_def Let_def changed_blocks_def [symmetric] tb] by (simp_all add: T(1,3-13) rz cong: if_cong)
  have bytes: "\<forall>p < capacity. file_byte d u ip p = data_byte s (unat off) addr (unat m) (file_byte d s ip) p"
  proof -
    have "file_byte d t ip p = file_byte d s ip p" for p by (simp add: file_byte_def T(1,5))
    moreover have "\<forall>p < capacity. file_byte d u ip p = data_byte t (unat off) addr (unat m) (file_byte d t ip) p"
      using W by (simp add: write_done_def Let_def)
    ultimately show ?thesis by (simp add: data_byte_def T(7))
  qed
  have sd: "same_disks u w" and lw: "logst w = logst u" "icache w = icache u" "sb w = sb u" "mem w = mem u"
    and fw: "ftable w = (ftable s)(f := (ftable s f)\<lparr>f_off := off + m\<rparr>)" "pipe_at w = pipe_at s"
  proof -
    have g: "f_off_update (\<lambda>x. x + m) (ftable s f) = (ftable s f)\<lparr>f_off := off + m\<rparr>"
      using f by (cases "ftable s f") simp
    have "ftable w = (ftable s)(f := f_off_update (\<lambda>x. x + m) (ftable s f))"
      using files_of_more [OF w(15)] by (simp add: w_def)
    then show "ftable w = (ftable s)(f := (ftable s f)\<lparr>f_off := off + m\<rparr>)" unfolding g .
  qed (use files_of_more [OF w(15)] in \<open>simp_all add: w_def\<close>)
  note e = same_disks_block [OF sd]
  have "my_pid u = my_pid t" using calm_my_pid [OF w(1) T(13)] .
  then have own: "owns_sleep w (SL_inode ip)" using T(12) w(9) e(12) by (simp add: owns_sleep_def)
  obtain x where x: "inode_unlock (Some ip) w = Ret () x" "block_keep d w x" "disks.more x = disks.more w"
    "sleep_free x (SL_inode ip)"
    using inode_unlock_spec [of d w ip] w(2,3) e(1,2) own lw(2) w(12) r(2) by auto
  note up = upper_eq [OF x(3)]
  have X: "block_ok d x" "unlocked x" "view d x = view d u" "refs d x = refs d u" "dirty d x = dirty d s" "disk x = disk s"
    using x(2) e(3-5) w(4,5) same_disksD(4) [OF sd] by (simp_all add: block_keep_def)
  have lx: "logst x = logst u" using up(1) lw(1) by simp
  note pl = log_place_blocks [of x s, unfolded lx, OF w(11)]
  have od: "on_disk x = on_disk s" by (rule ext) (simp add: on_disk_def X(6))
  have stx: "stuck d x \<subseteq> K"
  proof
    fix n assume "n \<in> stuck d x"
    then have "n \<in> ?B \<or> dirty d s n" using X(4,5) w(8) by (auto simp: stuck_eq split: if_splits)
    then show "n \<in> K" using r(11,12) by (auto simp: stuck_eq)
  qed
  have A: "dev_of x = d" "log_ready x" "outstanding (logst x) = 1" "log_size (logst x) = int LOGSIZE"
    "set (logged (logst x)) = int_of_u32 ` ?B" "?B \<inter> log_blocks x = {}"
    "refs d x = (\<lambda>m. if m \<in> ?B then 1 else 0)" "header_n (on_disk x (head_block x)) = 0"
    "log_area (head_block x) (log_block x) 5 \<subseteq> K"
    using pl i(3,8,10) w(6-8,10) lx log_placeD(2) [OF w(11)] X(4) od r(13,15) by (simp_all add: log_ready_def)
  have B: "finite ?B" "?B \<noteq> {}" "card ?B \<le> 5" using changed_card [OF m] by (simp_all add: changed_blocks_def)
  have sync: "view d x n = on_disk x n" if "n \<notin> log_blocks x" "n \<notin> ?B" for n
    using that w(16) X(3) od i(11) pl(4) by simp
  obtain y where y: "log_end_op (served_sleep D) x = Ret () y" "log_idle d y" "stuck d y \<subseteq> K"
    "\<forall>m. m \<notin> log_blocks x \<longrightarrow> view d y m = view d x m" "logs.more y = logs.more x"
    "log_start (logst y) = log_start (logst x)" "log_dev (logst y) = log_dev (logst x)"
    "d \<noteq> 0 \<longrightarrow> crash_steps D x (\<lambda>V. agrees (log_blocks x) V (on_disk x) \<or> agrees (log_blocks x) V (on_disk y)) y"
    "\<forall>j. sleeplk y (SL_inode j) = sleeplk x (SL_inode j)"
    using end_op_idle [OF D X(1,2) A(1-5) B A(6-8) sync r(9,10) stx A(9)] by blast
  note fy = files_of_logs [OF y(5)]
  have fx: "ftable x = ftable w" "pipe_at x = pipe_at w" using files_of_more [OF up(5)] by simp_all
  have "file_byte d y ip p = file_byte d u ip p" if p: "p < capacity" for p
  proof -
    have "p div BSIZE \<le> NDIRECT" using p by (simp add: capacity_def NDIRECT_def BSIZE_def)
    then have "i_addrs (icache s ip) ! (p div BSIZE) \<notin> log_blocks x" using r(14) pl(4) by simp
    then show ?thesis using y(4) X(3) fy(3) up(2) lw(2) w(12) by (simp add: file_byte_def)
  qed
  then have "\<forall>p < capacity. file_byte d y ip p = data_byte s (unat off) addr (unat m) (file_byte d s ip) p"
    using bytes by simp
  moreover have "\<forall>n. n \<notin> ?B \<longrightarrow> n \<notin> log_blocks s \<longrightarrow> view d y n = view d s n"
    using y(4) pl(4) X(3) w(16) by simp
  moreover have "ftable y = (ftable s)(f := (ftable s f)\<lparr>f_off := off + m\<rparr>)" "pipe_at y = pipe_at s"
    using fy(1,2) fx fw by simp_all
  moreover have "icache y = (icache s)(ip := grown (icache s ip) (off + m))" "sb y = sb s" "mem y = mem s"
    using fy(3-5) up(2-4) lw(2-4) w(12-14) by simp_all
  moreover have "sleep_free y (SL_inode ip)" using x(4) y(9) by (simp add: sleep_free_def)
  moreover have "stored d ip y"
  proof -
    have ub: "update_block t ip = update_block s ip" using T(5,6) by (simp add: update_block_def)
    have uy: "update_block y ip = update_block s ip" "i_inum (icache y ip) = i_inum (icache s ip)"
      using fy(3,4) up(2,3) lw(2,3) w(12,14) by (simp_all add: update_block_def)
    have "update_block s ip \<notin> log_blocks x" using r(15) pl(4) by (auto simp: changed_blocks_def)
    then have v: "view d y (update_block s ip) = put_dinode (icache u ip) (dinode_at (i_inum (icache s ip)))
        (view d s (update_block s ip))"
      using y(4) X(3) W T(1,5) ub by (simp add: write_done_def Let_def)
    have "cache_inv d s" using i(1) by (simp add: block_ok_def)
    then have "length (view d s (update_block s ip)) = BSIZE" by (rule view_length)
    then have "same_fields (get_dinode (view d y (update_block s ip)) (dinode_at (i_inum (icache s ip))) (icache y ip)) (icache u ip)"
      unfolding v using get_put_dinode dinode_fits r(16) w(12) by simp
    then show ?thesis using uy fy(3) up(2) lw(2) by (simp add: stored_def)
  qed
  moreover have "log_place (logst y) = log_place (logst s)"
    using y(6,7) lx log_placeD [OF w(11)] log_idleD(7,8) [OF y(2)] i(7,8) by (simp add: log_place_def)
  moreover have "d \<noteq> 0 \<longrightarrow> crash_steps D s (\<lambda>V. agrees (log_blocks s) V (on_disk s) \<or> agrees (log_blocks s) V (on_disk y)) y"
    using y(8) pl(4) od X(6) reboots_place [of x s] lx w(11) by (simp add: crash_steps_def)
  ultimately show ?thesis
    using x(1) y(1-3) by (intro exI [of _ x] exI [of _ y]) (simp add: turns_done_def)
qed

lemma file_write_turn:
  assumes D: "obeys_virtio D" and I: "log_idle d s" and R: "file_ready d K ip (unat off) k s"
    and f: "f_off (ftable s f) = off" and k: "0 < k" "k \<le> 3 * BSIZE" and fits: "off \<le> i_size (icache s ip)"
    and i: "i < n" "(if n - i > max_write then max_write else n - i) = int k"
  shows "\<exists>t. file_write_step (served_sleep D) f ip addr n i s = Ret (Inl (i + int k)) t \<and>
    turns_done d f ip off (addr + ucast (word_of_int i :: u32)) k s t \<and> stuck d t \<subseteq> K \<and> sleep_free t (SL_inode ip) \<and>
    (d \<noteq> 0 \<longrightarrow> crash_steps D s (\<lambda>V. agrees (log_blocks s) V (on_disk s) \<or> agrees (log_blocks s) V (on_disk t)) t)"
proof -
  let ?m = "of_nat k :: u32" and ?a = "addr + ucast (word_of_int i :: u32)"
  have um: "unat ?m = k" using k(2) by (intro unat_small) (simp add: BSIZE_def)
  have R': "file_ready d K ip (unat off) (unat ?m) s" and m: "unat ?m \<le> 3 * BSIZE" using R k(2) um by simp_all
  obtain u t where t: "log_begin_op (served_sleep D) s = Ret () u" "inode_lock (served_sleep D) (Some ip) u = Ret () t"
    "write_ready d ip (unat off) (unat ?m) t" "owns_sleep t (SL_inode ip)" "on_cpu t"
    "view d t = view d s" "refs d t = refs d s" "dirty d t = dirty d s" "disk t = disk s" "icache t = icache s"
    "sb t = sb s" "mem t = mem s" "fsys.more t = fsys.more s" "log_place (logst t) = log_place (logst s)"
    "outstanding (logst t) = 1" "logged (logst t) = []"
    using turn_begin [OF D I R' m] by blast
  have "\<not> off > i_size (icache t ip)" using fits t(10) by simp
  then obtain v where v: "inode_write (served_sleep D) ip 1 ?a off ?m t = Ret (int (unat ?m)) v"
    "write_done d ip off ?a ?m t v"
    using inode_write_run [OF t(3) D] by blast
  obtain x y where y: "inode_unlock (Some ip) (upd_file f (f_off_update (\<lambda>x. x + ?m)) v) = Ret () x"
    "log_end_op (served_sleep D) x = Ret () y" "turns_done d f ip off ?a (unat ?m) s y" "stuck d y \<subseteq> K"
    "sleep_free y (SL_inode ip)"
    "d \<noteq> 0 \<longrightarrow> crash_steps D s (\<lambda>V. agrees (log_blocks s) V (on_disk s) \<or> agrees (log_blocks s) V (on_disk y)) y"
    using turn_end [OF D I R' m t(6-16,4,5) v(2) f] by blast
  have "ftable t = ftable s" using files_of_more [OF t(13)] by simp
  then have "file_write_step (served_sleep D) f ip addr n i s = Ret (Inl (i + int k)) y"
    using i t(1,2) v(1) y(1,2) f k(1) um by (simp add: file_write_step_def Let_def)
  then show ?thesis using y(3-6) um by auto
qed

end
