(* ===== verification/File_Durable.thy ===== *)
theory File_Durable
  imports File_Writes
begin

text \<open>
  \<open>file_write\<close> as a whole: its turns one after the other, what is on the medium at the end, and what a
  crash leaves.
\<close>

subsection \<open>All turns\<close>

lemma turns_refl:
  assumes "log_idle d s" "f_off (ftable s f) = off" "off \<le> i_size (icache s ip)"
  shows "turns_done d f ip off addr 0 s s"
proof -
  have "grown (icache s ip) off = icache s ip" using assms(3) by (simp add: grown_def not_less)
  moreover have "(ftable s f)\<lparr>f_off := off\<rparr> = ftable s f" using assms(2) by (cases "ftable s f") simp
  ultimately show ?thesis using assms(1) by (auto simp: turns_done_def data_byte_def)
qed

lemma ready_after:
  assumes R: "file_ready d K ip (unat off) n s" and T: "turns_done d f ip off addr k s t"
    and "stuck d t \<subseteq> K" "sleep_free t (SL_inode ip)" "k + m \<le> n"
  shows "file_ready d K ip (unat (off + of_nat k)) m t"
proof -
  note r = file_readyD [OF R]
  have A: "icache t = (icache s)(ip := grown (icache s ip) (off + of_nat k))" "sb t = sb s"
    "log_place (logst t) = log_place (logst s)"
    using T by (simp_all add: turns_done_def)
  note lb = log_place_blocks [OF A(3)]
  note S = same_file [OF A(1,2)]
  have o: "unat (off + of_nat k) = unat off + k" using off_add(1) [of off k] r(6) assms(5) by simp
  have "touched s ip (unat off + k) m \<subseteq> touched s ip (unat off) n"
    using assms(5) by (auto simp: touched_def)
  moreover have "changed_blocks s ip (unat off + k) m \<subseteq> changed_blocks s ip (unat off) n"
    using assms(5) by (intro changed_mono) simp_all
  moreover have "update_block s ip \<notin> log_blocks s" using r(15) by (auto simp: changed_blocks_def)
  ultimately show ?thesis
    unfolding file_ready_def o S lb(1,2,4) using A(1) r assms(3-5) by auto
qed

text \<open>A disk that outside the log is as after \<open>k\<close> bytes at most: all of them, or some number of whole turns.\<close>

definition prefix_written :: "u32 \<Rightarrow> nat \<Rightarrow> nat \<Rightarrow> u32 \<Rightarrow> u64 \<Rightarrow> nat \<Rightarrow> 'a files_scheme \<Rightarrow> (u32 \<Rightarrow> u8 list) \<Rightarrow> bool" where
  "prefix_written d f ip off addr k s V \<longleftrightarrow> (\<exists>l v. l \<le> k \<and> (l = k \<or> 3 * BSIZE dvd l) \<and>
     (l = 0 \<longrightarrow> v = s) \<and> turns_done d f ip off addr l s v \<and> agrees (log_blocks s) V (on_disk v))"

lemma prefix_more:
  assumes "prefix_written d f ip off addr k s V" "3 * BSIZE dvd k"
  shows "prefix_written d f ip off addr (k + m) s V"
proof -
  obtain l v where l: "l \<le> k" "l = k \<or> 3 * BSIZE dvd l" "turns_done d f ip off addr l s v"
    "agrees (log_blocks s) V (on_disk v)" "l = 0 \<longrightarrow> v = s" using assms(1) by (auto simp: prefix_written_def)
  then have "l \<le> k + m" "3 * BSIZE dvd l" using assms(2) by auto
  then show ?thesis using l(3-5) by (auto simp: prefix_written_def)
qed

lemma idle_reboots:
  assumes D: "obeys_virtio D" and I: "log_idle d s" and "d \<noteq> 0"
  shows "reboots_to D s (disk s) (\<lambda>V. agrees (log_blocks s) V (on_disk s))"
  unfolding reboots_to_def
proof (intro allI impI)
  note i = log_idleD [OF I]
  fix r :: logs assume r: "zeroed r \<and> length (lh_block (lh (logst r))) = LOGSIZE \<and> sectors (disk r) = sectors (disk s)"
  have od: "on_disk r = on_disk s" using r by (simp add: on_disk_def [abs_def])
  have at: "d = word_of_int (log_dev (logst s))" "head_block s = word_of_int (log_start (logst s))"
    "\<And>k. log_block s k = word_of_int (log_start (logst s) + int k + 1)"
    using i(3) by (simp_all add: dev_of_def head_block_def log_block_def)
  have inv: "cache_inv d s" using i(1) by (simp add: block_ok_def)
  let ?h = "\<lparr>lh_n = 0, lh_block = []\<rparr> :: logheader"
  have tr: "transaction (head_block s) (log_block s) (\<lambda>k. word_of_int ([] ! k)) ?h 0 (on_disk s) (view d s)"
    using i(10) view_length [OF inv] by (simp add: transaction_def log_geometry_def)
  have "disk_old (head_block s) (log_block s) 0 (on_disk s) (on_disk r)"
    using i(10) by (simp add: disk_old_def od)
  then obtain u where u: "log_init (served_sleep D) (log_dev (logst s)) (log_start (logst s)) (log_size (logst s))
      (buf_cache_init r) = Ret () u"
    "\<forall>x. x \<notin> log_area (head_block s) (log_block s) 0 \<longrightarrow> on_disk u x = on_disk s x"
    using log_init_recovers [OF _ assms(3) _ D at tr, of r "log_size (logst s)"] r by (auto simp: LOGSIZE_def)
  then have "agrees (log_blocks s) (on_disk u) (on_disk s)"
    by (auto simp: agrees_def log_blocks_def log_area_def)
  then show "\<exists>u. log_init (served_sleep D) (log_dev (logst s)) (log_start (logst s)) (log_size (logst s))
      (buf_cache_init r) = Ret () u \<and> agrees (log_blocks s) (on_disk u) (on_disk s)"
    using u(1) by blast
qed

text \<open>The state of the loop after \<open>k\<close> of \<open>n\<close> bytes.\<close>

definition loop_at :: "device \<Rightarrow> u32 \<Rightarrow> u32 set \<Rightarrow> nat \<Rightarrow> nat \<Rightarrow> u32 \<Rightarrow> u64 \<Rightarrow> nat \<Rightarrow> nat \<Rightarrow> 'a files_scheme \<Rightarrow> 'a files_scheme \<Rightarrow> bool" where
  "loop_at D d K f ip off addr n k s t \<longleftrightarrow> k \<le> n \<and> (k = 0 \<longrightarrow> t = s) \<and> (k = n \<or> 3 * BSIZE dvd k) \<and> turns_done d f ip off addr k s t \<and>
     stuck d t \<subseteq> K \<and> sleep_free t (SL_inode ip) \<and> (d \<noteq> 0 \<longrightarrow> crash_steps D s (prefix_written d f ip off addr k s) t)"

lemma loop_start:
  assumes "obeys_virtio D" "log_idle d s" "file_ready d K ip (unat off) n s" "f_off (ftable s f) = off"
    "off \<le> i_size (icache s ip)"
  shows "loop_at D d K f ip off addr n 0 s s"
proof -
  have t: "turns_done d f ip off addr 0 s s" by (rule turns_refl [OF assms(2,4,5)])
  have "reboots_to D s (disk s) (prefix_written d f ip off addr 0 s)" if "d \<noteq> 0"
    by (rule reboots_mono [OF idle_reboots [OF assms(1,2) that]]) (use t in \<open>auto simp: prefix_written_def\<close>)
  then have "d \<noteq> 0 \<longrightarrow> crash_steps D s (prefix_written d f ip off addr 0 s) s"
    by (auto simp: crash_steps_def intro!: exI [of _ "[]"])
  then show ?thesis using t file_readyD(4,11) [OF assms(3)] by (simp add: loop_at_def)
qed

lemma loop_turn:
  assumes D: "obeys_virtio D" and R: "file_ready d K ip (unat off) n s" and L: "loop_at D d K f ip off addr n k s t"
    and "k < n"
  defines "m \<equiv> min (n - k) (3 * BSIZE)"
  shows "\<exists>u. file_write_step (served_sleep D) f ip addr (int n) (int k) t = Ret (Inl (int (k + m))) u \<and>
    0 < m \<and> k + m \<le> n \<and> loop_at D d K f ip off addr n (k + m) s u"
proof -
  have k: "k \<le> n" "3 * BSIZE dvd k" "turns_done d f ip off addr k s t" "stuck d t \<subseteq> K" "sleep_free t (SL_inode ip)"
    "d \<noteq> 0 \<longrightarrow> crash_steps D s (prefix_written d f ip off addr k s) t" "k = 0 \<longrightarrow> t = s"
    using L \<open>k < n\<close> by (simp_all add: loop_at_def)
  have m: "0 < m" "m \<le> 3 * BSIZE" "k + m \<le> n" using \<open>k < n\<close> by (simp_all add: m_def BSIZE_def)
  have c: "(if int n - int k > max_write then max_write else int n - int k) = int m"
    using \<open>k < n\<close> by (auto simp: max_write_eq m_def)
  have T: "log_idle d t" "f_off (ftable t f) = off + of_nat k" "off + of_nat k \<le> i_size (icache t ip)"
    "log_place (logst t) = log_place (logst s)"
    using k(3) by (auto simp: turns_done_def grown_def not_less)
  have small: "unat off + n \<le> capacity" by (rule file_readyD(6) [OF R])
  have ku: "unat (of_nat k :: u32) = k" using off_add(2) [of off k] small k(1) by simp
  have "ucast (word_of_int (int k) :: u32) = (of_nat (unat (of_nat k :: u32)) :: u64)" by simp
  then have conv: "ucast (word_of_int (int k) :: u32) = (of_nat k :: u64)" unfolding ku .
  obtain u where u: "file_write_step (served_sleep D) f ip addr (int n) (int k) t = Ret (Inl (int k + int m)) u"
    "turns_done d f ip (off + of_nat k) (addr + of_nat k) m t u" "stuck d u \<subseteq> K" "sleep_free u (SL_inode ip)"
    "d \<noteq> 0 \<longrightarrow> crash_steps D t (\<lambda>V. agrees (log_blocks t) V (on_disk t) \<or> agrees (log_blocks t) V (on_disk u)) u"
    using file_write_turn [OF D T(1) ready_after [OF R k(3-5) m(3)] T(2) m(1,2) T(3) _ c] \<open>k < n\<close>
    unfolding conv by auto
  have tu: "turns_done d f ip off addr (k + m) s u" using turns_trans [OF k(3) u(2) _ m(1)] small m(3) by simp
  have dv: "k + m = n \<or> 3 * BSIZE dvd k + m" using k(2) m(3) by (auto simp: m_def min_def)
  have "crash_steps D s (prefix_written d f ip off addr (k + m) s) u" if nz: "d \<noteq> 0"
  proof (rule crash_steps_trans [OF _ _ T(4)])
    show "crash_steps D s (prefix_written d f ip off addr (k + m) s) t"
      by (rule crash_steps_mono [OF k(6) [rule_format, OF nz] prefix_more [OF _ k(2)]])
    have lb: "log_blocks t = log_blocks s" using log_place_blocks(4) [OF T(4)] .
    have "prefix_written d f ip off addr (k + m) s V"
      if "agrees (log_blocks t) V (on_disk t) \<or> agrees (log_blocks t) V (on_disk u)" for V
      using that
    proof
      assume "agrees (log_blocks t) V (on_disk t)"
      then have "prefix_written d f ip off addr k s V" using k(3,7) lb by (auto simp: prefix_written_def)
      then show ?thesis by (rule prefix_more [OF _ k(2)])
    next
      assume "agrees (log_blocks t) V (on_disk u)"
      then show ?thesis using tu lb m(1) by (auto simp: prefix_written_def)
    qed
    then show "crash_steps D t (prefix_written d f ip off addr (k + m) s) u"
      using crash_steps_mono [OF u(5) [rule_format, OF nz]] by blast
  qed
  then show ?thesis using u(1,3,4) m tu dv by (intro exI [of _ u]) (simp add: loop_at_def)
qed

lemma file_write_loop:
  assumes D: "obeys_virtio D" and I: "log_idle d s" and R: "file_ready d K ip (unat off) n s"
    and f: "f_off (ftable s f) = off" and fits: "off \<le> i_size (icache s ip)"
  shows "\<exists>t. loop_out (file_write_step (served_sleep D) f ip addr (int n)) 0 s = Ret (int n) t \<and>
    loop_at D d K f ip off addr n n s t"
proof -
  let ?P = "\<lambda>i t. \<exists>k. i = int k \<and> loop_at D d K f ip off addr n k s t"
  have "\<exists>i t. loop_out (file_write_step (served_sleep D) f ip addr (int n)) 0 s = Ret i t \<and>
    (i = int n \<and> loop_at D d K f ip off addr n n s t)"
  proof (rule loop_out_measure [where P = ?P and m = "\<lambda>i. nat (int n - i)"])
    show "?P 0 s" using loop_start [OF assms] by (auto intro!: exI [of _ 0])
    fix i t assume "?P i t"
    then obtain k where k: "i = int k" "loop_at D d K f ip off addr n k s t" by blast
    show "(\<exists>a u. file_write_step (served_sleep D) f ip addr (int n) i t = Ret (Inr a) u \<and>
        (a = int n \<and> loop_at D d K f ip off addr n n s u)) \<or>
      (\<exists>j u. file_write_step (served_sleep D) f ip addr (int n) i t = Ret (Inl j) u \<and> ?P j u \<and>
        nat (int n - j) < nat (int n - i))"
    proof (cases "k < n")
      case False
      then have "k = n" using k(2) by (simp add: loop_at_def)
      then show ?thesis using k by (simp add: file_write_step_def)
    next
      case True
      from loop_turn [OF D R k(2) True] show ?thesis unfolding k(1) by (intro disjI2) fastforce
    qed
  qed
  then show ?thesis by auto
qed

text \<open>The bytes of a file as the medium holds them.\<close>

definition disk_byte :: "'a fsys_scheme \<Rightarrow> nat \<Rightarrow> nat \<Rightarrow> u8" where
  "disk_byte s ip p = on_disk s (i_addrs (icache s ip) ! (p div BSIZE)) ! (p mod BSIZE)"


text \<open>The disk contents \<open>V\<close> hold the file with the first \<open>k\<close> of the \<open>n\<close> bytes written: its data, its inode with the size for
  them, and every other block as it was.\<close>

definition file_image :: "(u32 \<Rightarrow> u8 list) \<Rightarrow> 'a fsys_scheme \<Rightarrow> nat \<Rightarrow> u32 \<Rightarrow> u64 \<Rightarrow> nat \<Rightarrow> nat \<Rightarrow> bool" where
  "file_image V s ip off addr n k \<longleftrightarrow>
     (\<forall>p < capacity. V (i_addrs (icache s ip) ! (p div BSIZE)) ! (p mod BSIZE) =
        data_byte s (unat off) addr k (disk_byte s ip) p) \<and>
     same_fields (get_dinode (V (update_block s ip)) (dinode_at (i_inum (icache s ip))) (icache s ip))
       (grown (icache s ip) (off + of_nat k)) \<and>
     (\<forall>m. m \<notin> changed_blocks s ip (unat off) n \<union> log_blocks s \<longrightarrow> V m = on_disk s m)"

lemma same_fields_get:
  "same_fields (get_dinode x k p) q \<Longrightarrow> same_fields (get_dinode x k p') q"
  by (simp add: same_fields_def get_dinode_def)

lemma prefix_image:
  fixes s :: "'a files_scheme"
  assumes P: "prefix_written d f ip off addr n s V" and I: "log_idle d s" and R: "file_ready d K ip (unat off) n s"
    and st: "stored d ip s" and fits: "off \<le> i_size (icache s ip)"
  shows "\<exists>k \<le> n. (k = n \<or> max_write dvd int k) \<and> file_image V s ip off addr n k"
proof -
  note r = file_readyD [OF R]
  obtain k v where k: "k \<le> n" "k = n \<or> 3 * BSIZE dvd k" "k = 0 \<longrightarrow> v = s" "turns_done d f ip off addr k s v"
    "agrees (log_blocks s) V (on_disk v)" using P by (auto simp: prefix_written_def)
  have T: "log_idle d v" "icache v = (icache s)(ip := grown (icache s ip) (off + of_nat k))" "sb v = sb s"
    "\<forall>p < capacity. file_byte d v ip p = data_byte s (unat off) addr k (file_byte d s ip) p" "0 < k \<longrightarrow> stored d ip v"
    "\<forall>m. m \<notin> changed_blocks s ip (unat off) k \<longrightarrow> m \<notin> log_blocks s \<longrightarrow> view d v m = view d s m"
    "log_blocks v = log_blocks s"
    using k(4) log_place_blocks(4) [of v s] by (simp_all add: turns_done_def)
  have V: "V m = view d v m" "view d s m = on_disk s m" if "m \<notin> log_blocks s" for m
    using that k(5) log_idleD(11) [OF I] log_idleD(11) [OF T(1)] T(7) by (simp_all add: agrees_def)
  have "V (i_addrs (icache s ip) ! (p div BSIZE)) ! (p mod BSIZE) = data_byte s (unat off) addr k (disk_byte s ip) p"
    if p: "p < capacity" for p
  proof -
    have "p div BSIZE \<le> NDIRECT" using p by (simp add: capacity_def NDIRECT_def BSIZE_def)
    note a = V [OF r(14) [OF this]]
    then show ?thesis using T(4) p T(2) by (simp add: file_byte_def disk_byte_def data_byte_def)
  qed
  moreover have "same_fields (get_dinode (V (update_block s ip)) (dinode_at (i_inum (icache s ip))) (icache s ip))
      (grown (icache s ip) (off + of_nat k))"
  proof -
    have u: "update_block s ip \<notin> log_blocks s" using r(15) by (auto simp: changed_blocks_def)
    have "stored d ip v" using k(3) st T(5) by (cases "k = 0") simp_all
    then have "same_fields (get_dinode (V (update_block s ip)) (dinode_at (i_inum (icache s ip))) (icache v ip)) (icache v ip)"
      using V(1) [OF u] same_file(1) [OF T(2,3)] T(2) by (simp add: stored_def)
    then show ?thesis using same_fields_get T(2) by simp
  qed
  moreover have "V m = on_disk s m" if "m \<notin> changed_blocks s ip (unat off) n \<union> log_blocks s" for m
  proof -
    have "m \<notin> changed_blocks s ip (unat off) k"
      using that changed_mono [of "unat off" "unat off" k n s ip] k(1) by auto
    then show ?thesis using that V T(6) by simp
  qed
  moreover have "k = n \<or> max_write dvd int k" using k(2) by (auto simp: max_write_eq)
  ultimately show ?thesis using k(1) unfolding file_image_def by blast
qed


text \<open>2000 bytes at offset 900, in two transactions.\<close>

definition write_file :: ofile where
  "write_file = no_file\<lparr>f_type := FD_INODE, f_ref := 1, writable := True, f_ip := Some 0, f_off := 900\<rparr>"

definition long_kernel :: files where
  "long_kernel = upd_inode 0 (i_addrs_update (\<lambda>_. [40, 41, 42, 43, 44, 45, 46, 47, 48, 49, 50, 51, 52]))
     (file_kernel (\<lambda>_. write_file) (\<lambda>_. example_pipe))"

lemma long_kernel_facts:
  "icache long_kernel 0 = (example_inode 9 1 1)\<lparr>i_addrs := [40, 41, 42, 43, 44, 45, 46, 47, 48, 49, 50, 51, 52]\<rparr>"
  "sb long_kernel = example_sb" "mem long_kernel = (\<lambda>_. 0)" "ftable long_kernel = (\<lambda>_. write_file)"
  "logst long_kernel = empty_log" "block_ok 1 long_kernel" "unlocked long_kernel" "stuck 1 long_kernel = {}"
  "refs 1 long_kernel n = 0" "view 1 long_kernel n = example_sector (ucast n)"
  "on_disk long_kernel n = example_sector (ucast n)" "sleep_free long_kernel (SL_inode 0)"
proof -
  let ?M = "\<lparr>ftable = (\<lambda>_. write_file), pipe_at = (\<lambda>_. example_pipe)\<rparr>"
  let ?k = "inode_kernel ?M :: files"
  note u = inode_kernel_upper [of ?M] and b = inode_kernel_block [of ?M]
  have lk: "long_kernel = upd_inode 0 (i_addrs_update (\<lambda>_. [40, 41, 42, 43, 44, 45, 46, 47, 48, 49, 50, 51, 52])) ?k"
    by (simp add: long_kernel_def file_kernel_def)
  have sd: "same_disks ?k long_kernel" unfolding lk by simp
  note e = same_disks_block [OF sd]
  show "icache long_kernel 0 = (example_inode 9 1 1)\<lparr>i_addrs := [40, 41, 42, 43, 44, 45, 46, 47, 48, 49, 50, 51, 52]\<rparr>"
    "sb long_kernel = example_sb" "mem long_kernel = (\<lambda>_. 0)" "logst long_kernel = empty_log"
    by (simp_all add: lk u example_icache_def example_inode_def)
  show "ftable long_kernel = (\<lambda>_. write_file)" by (simp add: long_kernel_def upd_inode_def file_kernel_sel)
  show "block_ok 1 long_kernel" "unlocked long_kernel" "stuck 1 long_kernel = {}" "refs 1 long_kernel n = 0"
    "view 1 long_kernel n = example_sector (ucast n)" using b e by simp_all
  have k: "?k = cached_kernel (\<lparr>icache = example_icache, sb = example_sb, mem = (\<lambda>_. 0), \<dots> = ?M\<rparr>)"
    by (simp add: inode_kernel_def)
  show "on_disk long_kernel n = example_sector (ucast n)"
    unfolding e(8) k by (rule cached_kernel_facts(5))
  have "sleep_free ?k (SL_inode 0)"
    unfolding inode_kernel_def cached_kernel_def
    by (rule buf_cache_init_locks) (simp add: sleep_free_def disk_kernel_def)
  then show "sleep_free long_kernel (SL_inode 0)" using e(11) by blast
qed

lemma long_kernel_blocks:
  "head_block long_kernel = 2" "log_block long_kernel k = 3 + of_nat k" "update_block long_kernel 0 = 33"
  "log_blocks long_kernel \<subseteq> of_nat ` {2..<32}"
proof -
  note f = long_kernel_facts
  show h: "head_block long_kernel = 2" and l: "log_block long_kernel k = 3 + of_nat k" for k
    by (simp_all add: head_block_def log_block_def f empty_log_def algebra_simps wi_hom_add [symmetric])
  show "update_block long_kernel 0 = 33"
    by (simp add: update_block_def f example_inode_def IBLOCK_def example_sb_def IPB_def)
  show "log_blocks long_kernel \<subseteq> of_nat ` {2..<32}"
  proof
    fix x assume "x \<in> log_blocks long_kernel"
    then consider "x = of_nat 2" | j where "j < 29" "x = of_nat (3 + j)"
      by (auto simp: log_blocks_def log_area_def h l LOGSIZE_def)
    then show "x \<in> of_nat ` {2..<32}" by cases (rule image_eqI, assumption, simp)+
  qed
qed

lemma long_kernel_idle: "log_idle 1 long_kernel"
proof -
  note f = long_kernel_facts
  have "dev_of long_kernel = 1" by (simp add: dev_of_def f empty_log_def)
  moreover have "log_ready long_kernel" by (simp add: log_ready_def f logged_def empty_log_def)
  moreover have "header_n (example_sector 2) = 0"
    by (simp add: header_n_def get32_def example_sector_def BSIZE_def)
  moreover have "refs 1 long_kernel m = 0" "view 1 long_kernel m = on_disk long_kernel m" for m
    by (simp_all add: f)
  ultimately show ?thesis
    using f(6,7) long_kernel_blocks(1) by (simp add: log_idle_def f(5,11) empty_log_def LOGSIZE_def)
qed

lemma long_kernel_ready:
  assumes "n \<le> 5000"
  shows "file_ready 1 (of_nat ` ({2..<8} \<union> {33} \<union> {40..<53})) 0 900 n long_kernel"
proof -
  note f = long_kernel_facts and b = long_kernel_blocks
  let ?K = "of_nat ` ({2..<8} \<union> {33} \<union> {40..<53}) :: u32 set"
  have addr: "i_addrs (icache long_kernel 0) ! i = of_nat (40 + i)" if "i \<le> NDIRECT" for i
  proof -
    have "i \<in> {0, 1, 2, 3, 4, 5, 6, 7, 8, 9, 10, 11, 12}" using that by (simp add: NDIRECT_def) presburger
    then show ?thesis by (auto simp: f)
  qed
  have eq: "(of_nat i :: u32) = of_nat j \<longleftrightarrow> i = j" if "i < 100" "j < 100" for i j
    using that by (auto dest!: arg_cong [where f = unat] simp: unat_small)
  have own: "own_blocks long_kernel 0"
    unfolding own_blocks_def by (auto simp: addr eq NDIRECT_def)
  have n33: "(33 :: u32) = of_nat 33" by simp
  have out: "of_nat i \<notin> log_blocks long_kernel" if i: "32 \<le> i" "i < 100" for i
  proof
    assume "of_nat i \<in> log_blocks long_kernel"
    then have "of_nat i \<in> (of_nat ` {2..<32} :: u32 set)" using b(4) by blast
    then obtain x where "2 \<le> x" "x < 32" "(of_nat i :: u32) = of_nat x" by auto
    then show False using eq [of i x] i by simp
  qed
  have apart: "i_addrs (icache long_kernel 0) ! i \<noteq> 33 \<and> i_addrs (icache long_kernel 0) ! i \<notin> log_blocks long_kernel"
    if "i \<le> NDIRECT" for i
  proof -
    have "40 + i < 100" using that by (simp add: NDIRECT_def)
    then show ?thesis using out [of "40 + i"] eq [of "40 + i" 33] unfolding addr [OF that] n33 by simp
  qed
  have o33: "33 \<notin> log_blocks long_kernel" unfolding n33 by (rule out) simp_all
  have t: "touched long_kernel 0 900 n \<subseteq> of_nat ` {40..<53}"
  proof
    fix x assume "x \<in> touched long_kernel 0 900 n"
    then obtain p where p: "p < 900 + n" "x = i_addrs (icache long_kernel 0) ! (p div 512)"
      by (auto simp: touched_def BSIZE_def)
    then have i: "p div 512 \<le> 12" using assms by simp
    then have "x = of_nat (40 + p div 512)" using p(2) addr [of "p div 512"] by (simp add: NDIRECT_def)
    then show "x \<in> of_nat ` {40..<53}" by (rule image_eqI) (use i in simp)
  qed
  have z: "0 \<notin> touched long_kernel 0 900 n"
  proof
    assume "0 \<in> touched long_kernel 0 900 n"
    then have "of_nat 0 \<in> (of_nat ` {40..<53} :: u32 set)" using t by auto
    then obtain i where "i < 53" "40 \<le> i" "(of_nat 0 :: u32) = of_nat i" by (auto simp del: of_nat_eq_0_iff)
    then show False using eq [of 0 i] by simp
  qed
  have "log_area 2 (log_block long_kernel) 5 \<subseteq> ?K"
  proof
    fix x assume "x \<in> log_area 2 (log_block long_kernel) 5"
    then consider "x = of_nat 2" | j where "j < 5" "x = of_nat (3 + j)" by (auto simp: log_area_def b(2))
    then show "x \<in> ?K" by cases (rule image_eqI, assumption, simp)+
  qed
  moreover have "33 \<in> ?K" unfolding n33 by (rule imageI) simp
  then have "changed_blocks long_kernel 0 900 n \<subseteq> ?K" using t unfolding changed_blocks_def b(3) image_Un by blast
  moreover have "card ?K < NBUF"
  proof -
    let ?N = "{2..<8} \<union> {33} \<union> {40..<53} :: nat set"
    have "card ?N \<le> card ({2..<8} \<union> {33 :: nat}) + card {40..<53 :: nat}" by (rule card_Un_le)
    moreover have "card ({2..<8} \<union> {33 :: nat}) \<le> card {2..<8 :: nat} + card {33 :: nat}" by (rule card_Un_le)
    ultimately have "card ?N \<le> 20" by simp
    moreover have "card ?K \<le> card ?N" by (rule card_image_le) simp
    ultimately show ?thesis by (simp only: NBUF_def)
  qed
  ultimately show ?thesis
    unfolding file_ready_def b(1,3) using own apart o33 z f(8,12) assms
    by (simp add: f(1) example_inode_def capacity_def NDIRECT_def BSIZE_def)
qed



end
