(* ===== verification/File_Roundtrip.thy ===== *)
theory File_Roundtrip
  imports File_Durable
begin

text \<open>What is written through one open file is read through another one of the same inode.\<close>

lemma clip_all: "unat off + unat n \<le> unat z \<Longrightarrow> clip z off n = n"
proof -
  assume le: "unat off + unat n \<le> unat z"
  have "unat z < 2 ^ 32" by (rule order_less_le_trans [OF unsigned_less]) simp
  then have "unat (off + n) = unat off + unat n" using le by (simp add: unat_word_ariths)
  then show ?thesis using le by (simp add: clip_def word_less_nat_alt)
qed

lemma file_read_spec:
  fixes s :: "'a files_scheme"
  assumes ok: "block_ok d s" "unlocked s" "room d s" "obeys_virtio D"
    and ino: "i_dev (icache s ip) = d" "sleep_free s (SL_inode ip)" "1 \<le> i_ref (icache s ip)" "i_valid (icache s ip) \<noteq> 0"
    and sz: "unat (i_size (icache s ip)) \<le> (NDIRECT + 1) * BSIZE"
      "\<And>p. p < unat (i_size (icache s ip)) \<Longrightarrow> i_addrs (icache s ip) ! (p div BSIZE) \<noteq> 0"
    and f: "readable (ftable s g)" "f_type (ftable s g) = FD_INODE" "f_ip (ftable s g) = Some ip" "f_off (ftable s g) = off"
    and n: "unat off + n \<le> unat (i_size (icache s ip))"
  shows "\<exists>t. file_read (served_sleep D) g dst (int n) s = Ret (int n) t \<and>
    mem t = (\<lambda>a. if unat (a - dst) < n then file_byte d s ip (unat off + unat (a - dst)) else mem s a) \<and>
    ftable t = (ftable s)(g := (ftable s g)\<lparr>f_off := off + of_nat n\<rparr>) \<and> block_ok d t \<and> sleep_free t (SL_inode ip)"
proof -
  obtain t where t: "inode_lock (served_sleep D) (Some ip) s = Ret () t" "block_keep d s t" "owns_sleep t (SL_inode ip)"
    "icache t = icache s" "sb t = sb s" "mem t = mem s" "logst t = logst s" "fsys.more t = fsys.more s"
    using inode_lock_spec [OF ok ino(1-3)] ino(4) by auto
  have T: "block_ok d t" "unlocked t" "room d t" "view d t = view d s"
    using t(2) ok(3) by (simp_all add: block_keep_def room_def stuck_eq)
  let ?n = "of_nat n :: u32"
  have small: "n < 2 ^ 31" using n sz(1) by (simp add: NDIRECT_def BSIZE_def)
  then have un: "unat ?n = n" by (intro unat_small) simp
  have le: "\<not> (off > i_size (icache t ip) \<or> off + ?n < off)"
  proof -
    have "unat off + n < 2 ^ 32" using n sz(1) by (simp add: NDIRECT_def BSIZE_def)
    then have "unat (off + ?n) = unat off + n" using un by (simp add: unat_word_ariths)
    then show ?thesis using n t(4) by (simp add: word_less_nat_alt not_less)
  qed
  have c: "clip (i_size (icache t ip)) off ?n = ?n" using clip_all [of off ?n] n un t(4) by simp
  have "\<And>p. p < unat (i_size (icache t ip)) \<Longrightarrow> i_addrs (icache t ip) ! (p div BSIZE) \<noteq> 0" using sz(2) t(4) by simp
  note run = inode_read_run [OF T(1-3) ok(4) _ _ this le, of 1 dst, unfolded c un]
  obtain u where u: "inode_read (served_sleep D) ip 1 dst off ?n t = Ret (int n) u" "read_upto d ip (unat off) dst n t u"
    using run t(4) ino(1) sz(1) by auto
  have U: "block_same d t u" "icache u = icache s" "fsys.more u = fsys.more s"
    "mem u = (\<lambda>a. if unat (a - dst) < n then file_byte d s ip (unat off + unat (a - dst)) else mem s a)"
    using u(2) t(4,6,8) T(4) by (simp_all add: read_upto_def file_byte_def cong: if_cong)
  let ?w = "if int n > 0 then upd_file g (f_off_update (\<lambda>x. x + word_of_int (int n))) u else u"
  have sd: "same_disks u ?w" and w: "icache ?w = icache s" "mem ?w = mem u"
    "ftable ?w = (ftable s)(g := (ftable s g)\<lparr>f_off := off + ?n\<rparr>)"
  proof -
    have "f_off_update (\<lambda>x. x + ?n) (ftable s g) = (ftable s g)\<lparr>f_off := off + ?n\<rparr>"
      using f(4) by (cases "ftable s g") simp
    moreover have "n = 0 \<Longrightarrow> (ftable s g)\<lparr>f_off := off\<rparr> = ftable s g" using f(4) by (cases "ftable s g") simp
    ultimately show "same_disks u ?w" "icache ?w = icache s" "mem ?w = mem u"
      "ftable ?w = (ftable s)(g := (ftable s g)\<lparr>f_off := off + ?n\<rparr>)"
      using U(2) files_of_more [OF U(3)] by simp_all
  qed
  note e = same_disks_block [OF sd] and b = block_sameD [OF U(1)]
  have "on_cpu t" using T(1) by (simp add: block_ok_def)
  then have "owns_sleep ?w (SL_inode ip)"
    using calm_my_pid [OF b(1)] b(8) t(3) e(12) by (simp add: owns_sleep_def)
  then obtain x where x: "inode_unlock (Some ip) ?w = Ret () x" "block_keep d ?w x" "disks.more x = disks.more ?w"
    "sleep_free x (SL_inode ip)"
    using inode_unlock_spec [of d ?w ip] b(2,3) e(1,2) w(1) ino(3) by auto
  have "file_read (served_sleep D) g dst (int n) s = Ret (int n) x"
    using f t(1) u(1) x(1) files_of_more [OF t(8)] by (simp add: file_read_def Let_def FD_INODE_def FD_PIPE_def)
  moreover have "ftable x = ftable ?w" "mem x = mem ?w"
    using upper_eq [OF x(3)] files_of_more [of x ?w] by simp_all
  moreover have "block_ok d x" using x(2) by (simp add: block_keep_def)
  ultimately show ?thesis using U(4) w x(4) by (intro exI [of _ x]) simp
qed


text \<open>2000 bytes written through file 0 of the example, read through file 1; the buffer of the writer holds zeros.\<close>

definition two_files :: files where
  "two_files = upd_file 1 (\<lambda>_. write_file\<lparr>readable := True\<rparr>) long_kernel"


end
