(* ===== verification/Debug_Macros.thy ===== *)
theory Debug_Macros
  imports Kpanic
begin

text \<open>
  The remaining macros of \<open>include/kernel/io/debug.h\<close>, and \<open>kernel/panic_test.c\<close>. A macro takes the
  position it expands at; string literals that stand next to each other are one string.
\<close>

text \<open>A call of \<open>printk\<close> as a statement: its text goes to the serial port.\<close>

definition print_out :: "string \<Rightarrow> arg list \<Rightarrow> uart \<Rightarrow> (unit, uart) outcome" where
  "print_out fmt as u =
     (case printk fmt as of
        None \<Rightarrow> Stop OutOfBounds u
      | Some (s, count) \<Rightarrow> (case uart_puts s u of None \<Rightarrow> Stop SpinsForever u | Some v \<Rightarrow> Ret () v))"

text \<open>The state of the macros is the panic context with the serial port; \<open>in_context c\<close> runs the output under
  the context \<open>c\<close>.\<close>

type_synonym report_state = "panic_context \<times> uart"

definition in_context :: "panic_context \<Rightarrow> (unit, uart) outcome \<Rightarrow> (unit, report_state) outcome" where
  "in_context c r = (case r of Ret x u \<Rightarrow> Ret x (c, u) | Stop e u \<Rightarrow> Stop e (c, u))"

definition halted_line :: string where
  "halted_line = ''====== System halted ======'' @ newline"

definition PANIC_FMT :: "string \<Rightarrow> int \<Rightarrow> string \<Rightarrow> arg list \<Rightarrow> panic_context \<Rightarrow> uart \<Rightarrow>
    (unit, report_state) outcome" where
  "PANIC_FMT file line fmt as c u =
     in_context (panic_set_context (Some file) line c)
       (bind_out (print_out (newline @ ''====== PANIC at %s:%d ======'' @ newline) [AStr file, AInt line] u) (\<lambda>_ u1.
        bind_out (print_out (''ERROR: '' @ fmt @ newline) as u1) (\<lambda>_ u2.
        bind_out (print_out halted_line [] u2) (\<lambda>_ u3. halt u3))))"

definition ASSERT_FMT :: "string \<Rightarrow> int \<Rightarrow> bool \<Rightarrow> string \<Rightarrow> arg list \<Rightarrow> panic_context \<Rightarrow> uart \<Rightarrow>
    (unit, report_state) outcome" where
  "ASSERT_FMT file line cond fmt as c u =
     (if \<not> cond then
        in_context (panic_set_context (Some file) line c)
          (bind_out (print_out (newline @ ''====== ASSERTION FAILED at %s:%d ======'' @ newline)
             [AStr file, AInt line] u) (\<lambda>_ u1.
           bind_out (print_out (''CHECK: '' @ fmt @ newline) as u1) (\<lambda>_ u2.
           bind_out (print_out halted_line [] u2) (\<lambda>_ u3. halt u3))))
      else Ret () (c, u))"

text \<open>\<open>debug\<close> says whether \<open>DEBUG\<close> is defined.\<close>

definition DEBUG_PRINT :: "bool \<Rightarrow> string \<Rightarrow> arg list \<Rightarrow> uart \<Rightarrow> (unit, uart) outcome" where
  "DEBUG_PRINT debug fmt as u = (if debug then print_out (''[DEBUG] '' @ fmt @ newline) as u else Ret () u)"

definition DEBUG_WARN :: "bool \<Rightarrow> string \<Rightarrow> int \<Rightarrow> string \<Rightarrow> uart \<Rightarrow> (unit, uart) outcome" where
  "DEBUG_WARN debug file line msg u =
     (if debug then print_out (''[WARN] %s at %s:%d'' @ newline) [AStr msg, AStr file, AInt line] u else Ret () u)"

definition ERROR_PRINT :: "string \<Rightarrow> int \<Rightarrow> string \<Rightarrow> arg list \<Rightarrow> uart \<Rightarrow> (unit, uart) outcome" where
  "ERROR_PRINT file line fmt as u =
     print_out (''[ERROR] '' @ fmt @ '' (%s:%d)'' @ newline) (as @ [AStr file, AInt line]) u"

definition UNIMPLEMENTED :: "string \<Rightarrow> int \<Rightarrow> string \<Rightarrow> panic_context \<Rightarrow> uart \<Rightarrow> (unit, uart) outcome" where
  "UNIMPLEMENTED file line junk c u = PANIC file line junk ''Not implemented yet!'' c u"

definition UNREACHABLE :: "string \<Rightarrow> int \<Rightarrow> string \<Rightarrow> panic_context \<Rightarrow> uart \<Rightarrow> (unit, uart) outcome" where
  "UNREACHABLE file line junk c u = PANIC file line junk ''Reached unreachable code!'' c u"

definition panic_test :: "string \<Rightarrow> panic_context \<Rightarrow> uart \<Rightarrow> (unit, report_state) outcome" where
  "panic_test file c u =
     (case console_printf (newline @ ''--- Test: panic() ---'' @ newline) [] u of
        None \<Rightarrow> Stop SpinsForever (c, u)
      | Some v \<Rightarrow> PANIC_FMT file 8 ''panic test %d'' [AInt 42] c v)"

subsection \<open>What they print\<close>

lemma printk_pieces:
  assumes "\<forall>p \<in> set ps. shared_piece p"
  shows "\<exists>n. printk (concat (map piece_fmt ps)) (concat (map piece_args ps)) = Some (concat (map piece_text ps), n)"
  using vprintk_pieces [OF assms, of 0] by (simp add: printk_def vprintk_def)

lemma print_out_pieces:
  assumes "live_tx u" "\<forall>p \<in> set ps. shared_piece p"
    "fmt = concat (map piece_fmt ps)" "as = concat (map piece_args ps)"
  shows "\<exists>v. print_out fmt as u = Ret () v \<and> tx v = tx u @ concat (map piece_text ps) \<and> live_tx v"
proof -
  obtain n where n: "printk fmt as = Some (concat (map piece_text ps), n)"
    using printk_pieces [OF assms(2)] assms(3,4) by blast
  obtain v where "uart_puts (concat (map piece_text ps)) u = Some v" "tx v = tx u @ concat (map piece_text ps)" "live_tx v"
    using uart_puts_live [OF assms(1)] by blast
  then show ?thesis using n by (simp add: print_out_def)
qed

lemma lit_pieces:
  "concat (map piece_fmt (map Lit t)) = t" "concat (map piece_args (map Lit t)) = []"
  "concat (map piece_text (map Lit t)) = t"
  by (induction t) simp_all

definition position_pieces :: "string \<Rightarrow> string \<Rightarrow> int \<Rightarrow> piece list" where
  "position_pieces what file line =
     map Lit (newline @ ''====== '' @ what @ '' at '') @ [Str file, Lit CHR '':'', Dec line] @
     map Lit ('' ======'' @ newline)"

lemma report_and_halt:
  assumes u: "live_tx u" and p: "CHR ''%'' \<notin> set what" "is_int line" "line \<noteq> 0" "line \<noteq> int_min"
    and tag: "CHR ''%'' \<notin> set tag" and ps: "\<forall>q \<in> set ps. shared_piece q"
    and fmt: "fmt = concat (map piece_fmt ps)" "as = concat (map piece_args ps)"
  shows "\<exists>v. bind_out (print_out (newline @ ''====== '' @ what @ '' at %s:%d ======'' @ newline)
        [AStr file, AInt line] u) (\<lambda>_ u1.
      bind_out (print_out (tag @ fmt @ newline) as u1) (\<lambda>_ u2.
      bind_out (print_out halted_line [] u2) (\<lambda>_ u3. halt u3))) = Stop Halted v \<and>
    tx v = tx u @ newline @ ''====== '' @ what @ '' at '' @ file @ '':'' @ decimal line @ '' ======'' @ newline @
      tag @ concat (map piece_text ps) @ newline @ halted_line"
proof -
  let ?p = "position_pieces what file line" and ?q = "map Lit tag @ ps @ map Lit newline"
  have sp: "\<forall>q \<in> set ?p. shared_piece q" "\<forall>q \<in> set ?q. shared_piece q"
    using p tag ps by (auto simp: position_pieces_def)
  have f: "concat (map piece_fmt ?p) = newline @ ''====== '' @ what @ '' at %s:%d ======'' @ newline"
    "concat (map piece_args ?p) = [AStr file, AInt line]"
    "concat (map piece_text ?p) = newline @ ''====== '' @ what @ '' at '' @ file @ '':'' @ decimal line @ '' ======'' @ newline"
    using lit_pieces [of what] by (simp_all add: position_pieces_def)
  obtain u1 where u1: "print_out (newline @ ''====== '' @ what @ '' at %s:%d ======'' @ newline) [AStr file, AInt line] u = Ret () u1"
    "tx u1 = tx u @ concat (map piece_text ?p)" "live_tx u1"
    using print_out_pieces [OF u sp(1) f(1,2) [symmetric]] by blast
  have g: "concat (map piece_fmt ?q) = tag @ fmt @ newline" "concat (map piece_args ?q) = as"
    "concat (map piece_text ?q) = tag @ concat (map piece_text ps) @ newline"
    using lit_pieces [of tag] fmt by simp_all
  obtain u2 where u2: "print_out (tag @ fmt @ newline) as u1 = Ret () u2"
    "tx u2 = tx u1 @ concat (map piece_text ?q)" "live_tx u2"
    using print_out_pieces [OF u1(3) sp(2) g(1,2) [symmetric]] by blast
  have "\<forall>q \<in> set (map Lit halted_line). shared_piece q" by (auto simp: halted_line_def)
  then obtain u3 where u3: "print_out halted_line [] u2 = Ret () u3" "tx u3 = tx u2 @ halted_line"
    using print_out_pieces [OF u2(3) _ lit_pieces(1,2) [symmetric]] unfolding lit_pieces by blast
  show ?thesis using u1 u2 u3 f(3) g(3) by (intro exI [of _ u3]) (simp add: halt_def)
qed

text \<open>\<open>PANIC_FMT\<close> always, and \<open>ASSERT_FMT\<close> exactly when its condition is false, records the position,
  reports it with the message and halts; an assertion that holds prints nothing.\<close>

theorem panic_fmt_reports:
  assumes "live_tx u" "0 < line" "line \<le> int_max" "\<forall>q \<in> set ps. shared_piece q"
    "fmt = concat (map piece_fmt ps)" "as = concat (map piece_args ps)"
  shows "(\<exists>v. PANIC_FMT file line fmt as c u = Stop Halted (c\<lparr>panic_file := Some file, panic_line := line\<rparr>, v) \<and>
      tx v = tx u @ newline @ ''====== PANIC at '' @ file @ '':'' @ decimal line @ '' ======'' @ newline @
        ''ERROR: '' @ concat (map piece_text ps) @ newline @ halted_line) \<and>
    (if cond then ASSERT_FMT file line cond fmt as c u = Ret () (c, u)
     else \<exists>v. ASSERT_FMT file line cond fmt as c u =
        Stop Halted (c\<lparr>panic_file := Some file, panic_line := line\<rparr>, v) \<and>
      tx v = tx u @ newline @ ''====== ASSERTION FAILED at '' @ file @ '':'' @ decimal line @ '' ======'' @ newline @
        ''CHECK: '' @ concat (map piece_text ps) @ newline @ halted_line)"
proof -
  have l: "is_int line" "line \<noteq> 0" "line \<noteq> int_min" using assms(2,3) by (simp_all add: is_int_def)
  note R = report_and_halt [OF assms(1) _ l _ assms(4-6), of _ _ "file"]
  obtain v where v: "bind_out (print_out (newline @ ''====== '' @ ''PANIC'' @ '' at %s:%d ======'' @ newline)
        [AStr file, AInt line] u) (\<lambda>_ u1.
      bind_out (print_out (''ERROR: '' @ fmt @ newline) as u1) (\<lambda>_ u2.
      bind_out (print_out halted_line [] u2) (\<lambda>_ u3. halt u3))) = Stop Halted v"
    "tx v = tx u @ newline @ ''====== '' @ ''PANIC'' @ '' at '' @ file @ '':'' @ decimal line @ '' ======'' @ newline @
      ''ERROR: '' @ concat (map piece_text ps) @ newline @ halted_line"
    using R [of "''PANIC''" "''ERROR: ''"] by auto
  obtain w where w: "bind_out (print_out (newline @ ''====== '' @ ''ASSERTION FAILED'' @ '' at %s:%d ======'' @ newline)
        [AStr file, AInt line] u) (\<lambda>_ u1.
      bind_out (print_out (''CHECK: '' @ fmt @ newline) as u1) (\<lambda>_ u2.
      bind_out (print_out halted_line [] u2) (\<lambda>_ u3. halt u3))) = Stop Halted w"
    "tx w = tx u @ newline @ ''====== '' @ ''ASSERTION FAILED'' @ '' at '' @ file @ '':'' @ decimal line @ '' ======'' @ newline @
      ''CHECK: '' @ concat (map piece_text ps) @ newline @ halted_line"
    using R [of "''ASSERTION FAILED''" "''CHECK: ''"] by auto
  show ?thesis using v w by (simp add: PANIC_FMT_def ASSERT_FMT_def in_context_def panic_set_context_def)
qed

theorem panic_fmt_reports_witness:
  "\<exists>v. PANIC_FMT ''a.c'' 8 ''panic test %d'' [AInt 42] \<lparr>panic_file = Some ''?'', panic_line = 0\<rparr> slow_uart =
      Stop Halted (\<lparr>panic_file = Some ''a.c'', panic_line = 8\<rparr>, v) \<and>
    tx v = tx slow_uart @ newline @ ''====== PANIC at a.c:8 ======'' @ newline @ ''ERROR: panic test 42'' @ newline @
      halted_line"
proof -
  let ?ps = "map Lit ''panic test '' @ [Dec 42]"
  have sp: "\<forall>q \<in> set ?ps. shared_piece q" by (simp add: is_int_def)
  have c: "char_of (56 :: nat) = CHR ''8''" "char_of (52 :: nat) = CHR ''4''" "char_of (50 :: nat) = CHR ''2''"
    by code_simp+
  from panic_fmt_reports [OF slow_uart_live _ _ sp, of 8 "''panic test %d''" "[AInt 42]" "''a.c''"
      "\<lparr>panic_file = Some ''?'', panic_line = 0\<rparr>" True]
  show ?thesis by (simp add: decimal_def dec_step dec_small digit_char_def c)
qed

end
