(* ===== verification/Elf_Headers.thy ===== *)
theory Elf_Headers
  imports Loops
begin

text \<open>
  \<open>include/kernel/proc/elf.h\<close>: the headers of an ELF file and their constants. No function of the
  repository reads them: \<open>exec.c\<close> is empty. Field names that clash carry the prefix of their structure.
\<close>

definition ELF_MAGIC :: u32 where "ELF_MAGIC = 0x464C457F"

record elfhdr =
  magic :: u32
  elf :: "u8 list"
  e_type :: u16
  e_machine :: u16
  e_version :: u32
  e_entry :: u64
  phoff :: u64
  shoff :: u64
  e_flags :: u32
  ehsize :: u16
  phentsize :: u16
  phnum :: u16
  shentsize :: u16
  shnum :: u16
  shstrndx :: u16

record proghdr =
  p_type :: u32
  p_flags :: u32
  p_off :: u64
  vaddr :: u64
  paddr :: u64
  filesz :: u64
  memsz :: u64
  p_align :: u64

definition ELF_PROG_LOAD :: u32 where "ELF_PROG_LOAD = 1"
definition ELF_PROG_FLAG_X :: u32 where "ELF_PROG_FLAG_X = 1"
definition ELF_PROG_FLAG_W :: u32 where "ELF_PROG_FLAG_W = 2"
definition ELF_PROG_FLAG_R :: u32 where "ELF_PROG_FLAG_R = 4"

text \<open>The magic number is the first word of a file that starts with \<open>0x7F\<close>, \<open>E\<close>, \<open>L\<close>, \<open>F\<close>.\<close>

lemma elf_magic_bytes: "get32 (0x7F # 0x45 # 0x4C # 0x46 # rest) 0 = ELF_MAGIC"
  by (simp add: get32_def ELF_MAGIC_def)

end
