(* ===== verification/Kernel_Main.thy ===== *)
theory Kernel_Main
  imports Scheduler Boot_Tables
begin

text \<open>
  \<open>kernel/main.c\<close>: the initialisations in their order, the first fork and the way into the
  scheduler. \<open>uart_init\<close> is empty and the messages on the console are not part of the state;
  \<open>status_addr\<close> is the address of the local variable \<open>status\<close>.
\<close>

text \<open>The first part: memory, with two pages taken and the first one given back.\<close>

definition memory_setup :: "u64 \<Rightarrow> 'a vm_scheme \<Rightarrow> 'a vm_scheme" where
  "memory_setup kernel_end s =
     (case physmem_alloc_page (paging_init kernel_end (physmem_init kernel_end s)) of (page1, s1) \<Rightarrow>
      case physmem_alloc_page s1 of (page2, s2) \<Rightarrow>
      free_physical_page page1 s2)"

text \<open>The second part: the process table, the first \<open>fork\<close> and the scheduler. Where \<open>exit\<close> or \<open>wait\<close>
  come back, the call goes on to \<open>scheduler\<close>, which takes over. \<open>panic_build\<close> says whether \<open>PANIC_TEST\<close> is
  defined: then \<open>panic_test\<close> ends the run before it.\<close>

definition kernel_main :: "bool \<Rightarrow> u64 \<Rightarrow> u64 \<Rightarrow> 'a procs_scheme \<Rightarrow> (unit, 'a procs_scheme) outcome" where
  "kernel_main panic_build kernel_end status_addr s =
     (let s0 = memory_setup kernel_end s
      in if panic_build then Stop Halted s0
         else
           case fork (proc_init s0) of (child_pid, s1) \<Rightarrow>
           bind_out
             (if child_pid = 0 then exit 0 s1
              else if child_pid > 0 then bind_out (wait status_addr s1) (\<lambda>_ t. Ret () t)
              else Ret () s1)
             (\<lambda>_ t. Stop Rescheduled t))"

subsection \<open>The process table is not touched by the memory layers\<close>

named_theorems vm_frame

lemma physmem_ops_more [vm_frame]:
  fixes s :: "'a vm_scheme"
  shows "physmem_alloc_page s = (p, t) \<Longrightarrow> vm.more t = vm.more s"
    "vm.more (free_physical_page q s) = vm.more s" "vm.more (physmem_init e s) = vm.more s"
proof -
  show "physmem_alloc_page s = (p, t) \<Longrightarrow> vm.more t = vm.more s"
    by (auto simp: physmem_alloc_page_def mark_page_allocated_def Let_def split: option.splits)
  show "vm.more (free_physical_page q s) = vm.more s"
    by (simp add: free_physical_page_def mark_page_free_def Let_def)
  have "physmem.more (physmem_init e s) = physmem.more s" by (rule physmem_init_more)
  then show "vm.more (physmem_init e s) = vm.more s" by (cases s; cases "physmem_init e s"; simp)
qed

lemma table_ops_more [vm_frame]:
  "vm.more (clear_table p s) = vm.more s" "vm.more (write_pte q x s) = vm.more s"
  "vm.more (switch_page_table p s) = vm.more s"
  by (simp_all add: clear_table_def write_pte_def switch_page_table_def Let_def split: prod.split)

lemma next_table_more: "next_table q a s = (r, t) \<Longrightarrow> vm.more t = vm.more s"
  by (auto simp: next_table_def Let_def table_ops_more dest: physmem_ops_more(1) split: if_splits prod.splits)

lemma map_page_more: "map_page pt va pa f s = (r, t) \<Longrightarrow> vm.more t = vm.more s"
  by (auto simp: map_page_def walk_def table_ops_more dest!: next_table_more
      split: if_splits prod.splits option.splits)

lemma paging_init_loop_more: "paging_init_loop z ks s = (ok, t) \<Longrightarrow> vm.more t = vm.more s"
proof (induction z ks s rule: paging_init_loop.induct)
  case (2 z k ks s)
  then show ?case
    by (auto simp: Let_def dest!: map_page_more split: prod.splits if_splits)
qed simp

lemma create_page_table_more: "create_page_table s = (p, t) \<Longrightarrow> vm.more t = vm.more s"
  by (auto simp: create_page_table_def Let_def table_ops_more dest: physmem_ops_more(1) split: if_splits prod.splits)

lemma paging_init_more: "vm.more (paging_init e s) = vm.more s"
proof -
  obtain p s1 where p: "create_page_table s = (p, s1)" by (cases "create_page_table s")
  let ?s2 = "s1\<lparr>kernel_pagetable := p\<rparr>"
  obtain ok s3 where l: "paging_init_loop (e - KERNEL_BASE_ADDR) [0..<NUM_PAGES] ?s2 = (ok, s3)"
    by (cases "paging_init_loop (e - KERNEL_BASE_ADDR) [0..<NUM_PAGES] ?s2")
  show ?thesis
    using create_page_table_more [OF p] paging_init_loop_more [OF l]
    by (simp add: paging_init_def p l table_ops_more Let_def)
qed

lemma memory_setup_more: "vm.more (memory_setup e s) = vm.more s"
  by (simp add: memory_setup_def vm_frame paging_init_more split: prod.split)

lemma procs_of_vm_more:
  fixes s t :: "'a procs_scheme"
  assumes "vm.more t = vm.more s"
  shows "proc_table t = proc_table s" "current_process t = current_process s"
    "next_pid t = next_pid s" "sched_index t = sched_index s"
  using assms by (cases s; cases t; simp)+

subsection \<open>From reset to the scheduler\<close>

lemma alloc_active: "physmem_alloc_page s = (p, t) \<Longrightarrow> paging_active t = paging_active s"
  by (auto simp: physmem_alloc_page_def mark_page_allocated_def Let_def split: option.splits)

lemma free_active: "paging_active (free_physical_page p s) = paging_active s"
  by (simp add: free_physical_page_def mark_page_free_def Let_def)

lemma memory_setup_spec:
  assumes "\<not> paging_active s" "first_free_page e + 138 \<le> NUM_PAGES"
  shows "physmem_inv (memory_setup e s)" "paging_active (memory_setup e s)"
    "NUM_PAGES \<le> first_free_page e + card (avail_pages (memory_setup e s)) + 132"
proof -
  let ?s0 = "physmem_init e s" and ?s1 = "paging_init e (physmem_init e s)"
  have i0: "physmem_inv ?s0" and fs: "free_set ?s0 = {first_free_page e..<NUM_PAGES}"
    using physmem_init_spec by blast+
  have c0: "card (avail_pages ?s0) = NUM_PAGES - first_free_page e" by (simp add: card_avail_pages fs)
  have "paging_active ?s0 = paging_active s"
    using physmem_init_more [of e s] by (cases s; cases ?s0; simp)
  then have i1: "physmem_inv ?s1" "paging_active ?s1" "card (avail_pages ?s0) \<le> card (avail_pages ?s1) + 131"
    using paging_init_spec [OF i0, of e] assms c0 by (simp_all add: Let_def)
  obtain page1 s2 where a1: "physmem_alloc_page ?s1 = (page1, s2)" by (cases "physmem_alloc_page ?s1")
  obtain page2 s3 where a2: "physmem_alloc_page s2 = (page2, s3)" by (cases "physmem_alloc_page s2")
  have eq: "memory_setup e s = free_physical_page page1 s3" by (simp add: memory_setup_def a1 a2)
  have "avail_pages ?s1 \<noteq> {}" using i1(3) c0 assms(2) by auto
  then have p1: "page1 \<in> avail_pages ?s1" "page1 \<in> ram_pages" "avail_pages s2 = avail_pages ?s1 - {page1}" "physmem_inv s2"
    using pm.alloc_zero_iff [OF i1(1) a1] pm.alloc_nonzeroD [OF i1(1) a1] by auto
  then have c2: "card (avail_pages s2) = card (avail_pages ?s1) - 1" by (simp add: card_Diff_singleton)
  then have "avail_pages s2 \<noteq> {}" using i1(3) c0 assms(2) by auto
  then have p2: "page2 \<in> avail_pages s2" "avail_pages s3 = avail_pages s2 - {page2}" "physmem_inv s3"
    using pm.alloc_zero_iff [OF p1(4) a2] pm.alloc_nonzeroD [OF p1(4) a2] by auto
  have f: "avail_pages (memory_setup e s) = insert page1 (avail_pages s3)" and i: "physmem_inv (memory_setup e s)"
    using pm.free_avail [OF p2(3) p1(2)] by (simp_all add: eq)
  show "physmem_inv (memory_setup e s)" by (rule i)
  show "paging_active (memory_setup e s)"
    using i1(2) alloc_active [OF a1] alloc_active [OF a2] by (simp add: eq free_active)
  have "card (avail_pages (memory_setup e s)) = card (avail_pages ?s1) - 1"
  proof -
    have "card (avail_pages (memory_setup e s)) = Suc (card (avail_pages s3))"
      using f p1(3) p2(2) by (simp add: card_insert_if)
    moreover have "card (avail_pages s2) = Suc (card (avail_pages s3))"
      using card_Suc_Diff1 [OF finite_avail_pages p2(1)] p2(2) by simp
    ultimately show ?thesis using c2 by simp
  qed
  then show "NUM_PAGES \<le> first_free_page e + card (avail_pages (memory_setup e s)) + 132"
    using c0 i1(3) by simp
qed

text \<open>The state before \<open>kernel_main\<close>: the static data is zero, the pid counter is 1.\<close>

definition reset_state :: "'a procs_scheme \<Rightarrow> bool" where
  "reset_state s \<longleftrightarrow> \<not> paging_active s \<and> proc_table s = replicate NPROC zero_proc \<and> current_process s = None \<and>
     next_pid s = 1 \<and> sched_index s = 0"

lemma memory_setup_procs:
  assumes "reset_state s" "first_free_page e + 138 \<le> NUM_PAGES"
  defines "u \<equiv> memory_setup e s"
  shows "procs_inv u" "current_process u = None" "next_pid u = 1" "sched_index u = 0"
    "6 \<le> card (avail_pages u)" "\<And>i. i < NPROC \<Longrightarrow> proc_at u i = zero_proc"
proof -
  note m = memory_setup_spec [of s e, folded u_def]
    and f = procs_of_vm_more [of u s, unfolded u_def, OF memory_setup_more, folded u_def]
  have t: "proc_table u = replicate NPROC zero_proc" using f assms(1) by (simp add: reset_state_def)
  show c: "current_process u = None" "next_pid u = 1" "sched_index u = 0"
    using f assms(1) by (simp_all add: reset_state_def)
  show at: "proc_at u i = zero_proc" if "i < NPROC" for i using t that by simp
  show "6 \<le> card (avail_pages u)" using m(3) assms(1,2) by (simp add: reset_state_def)
  have "slot_pages (proc_at u i) = []" "\<not> live u i" if "i < NPROC" for i
    using at [OF that] by (simp_all add: slot_pages_def zero_proc_def live_def)
  then show "procs_inv u"
    using m(1,2) t c assms(1,2) by (auto simp: procs_inv_def owns_def owned_def live_def reset_state_def)
qed


definition reset_kernel :: procs where
  "reset_kernel =
     \<lparr>phys_bitmap = [], free_pages_count = 0, tables = (\<lambda>_ _. 0), kernel_pagetable = 0,
      paging_active = False, satp = 0, spin = (\<lambda>_. \<lparr>locked = 0, lk_name = []\<rparr>), sie = False,
      proc_table = replicate NPROC zero_proc, current_process = None, next_pid = 1,
      tf_heap = (\<lambda>_. zero_trapframe), sched_index = 0, cpu = zero_context, int_at = (\<lambda>_. 0)\<rparr>"


end
