(* ===== verification/User_Calls.thy ===== *)
theory User_Calls
  imports Trap_Props Ulibc
begin

text \<open>
  \<open>include/user/syscall.h\<close>: the calls of a user program. While the program runs, its registers are
  the trapframe of its process, as a trap would save and restore them; \<open>ecall\<close> is the trap the
  hardware takes with cause 8. Memory is that of the machine. \<open>&c\<close>, the address of the
  argument of \<open>u_putchar\<close>, is the parameter \<open>loc\<close>.
\<close>

definition load_regs :: "(trapframe \<Rightarrow> trapframe) \<Rightarrow> 'a machine_scheme \<Rightarrow> 'a machine_scheme" where
  "load_regs f s =
     (case current_process s of
        None \<Rightarrow> s
      | Some p \<Rightarrow>
          let a = trapframe_ptr (proc_at s p) in s\<lparr>tf_heap := (tf_heap s)(a := f (tf_heap s a))\<rparr>)"

definition reg_a0 :: "'a machine_scheme \<Rightarrow> u64" where
  "reg_a0 s =
     (case current_process s of None \<Rightarrow> 0 | Some p \<Rightarrow> tf_a0 (tf_heap s (trapframe_ptr (proc_at s p))))"

definition ecall :: "'a machine_scheme \<Rightarrow> (u64, 'a machine_scheme) outcome" where
  "ecall s = bind_out (kerneltrap (s\<lparr>scause := SCAUSE_ECALL_USER\<rparr>)) (\<lambda>_ t. Ret (reg_a0 t) t)"

definition syscall0 :: "int \<Rightarrow> 'a machine_scheme \<Rightarrow> (u64, 'a machine_scheme) outcome" where
  "syscall0 num s = ecall (load_regs (\<lambda>r. r\<lparr>tf_a7 := u64_of_int num\<rparr>) s)"

definition syscall1 :: "int \<Rightarrow> u64 \<Rightarrow> 'a machine_scheme \<Rightarrow> (u64, 'a machine_scheme) outcome" where
  "syscall1 num a0 s = ecall (load_regs (\<lambda>r. r\<lparr>tf_a0 := a0, tf_a7 := u64_of_int num\<rparr>) s)"

definition syscall3 :: "int \<Rightarrow> u64 \<Rightarrow> u64 \<Rightarrow> u64 \<Rightarrow> 'a machine_scheme \<Rightarrow> (u64, 'a machine_scheme) outcome" where
  "syscall3 num a0 a1 a2 s =
     ecall (load_regs (\<lambda>r. r\<lparr>tf_a0 := a0, tf_a1 := a1, tf_a2 := a2, tf_a7 := u64_of_int num\<rparr>) s)"

definition u_fork :: "'a machine_scheme \<Rightarrow> (int, 'a machine_scheme) outcome" where
  "u_fork s = bind_out (syscall0 SYS_fork s) (\<lambda>r t. Ret (int_of_u64 r) t)"

definition u_exit :: "int \<Rightarrow> 'a machine_scheme \<Rightarrow> (unit, 'a machine_scheme) outcome" where
  "u_exit code s = bind_out (syscall1 SYS_exit (u64_of_int code) s) (\<lambda>_ t. Ret () t)"

definition u_wait :: "'a machine_scheme \<Rightarrow> (int, 'a machine_scheme) outcome" where
  "u_wait s = bind_out (syscall0 SYS_wait s) (\<lambda>r t. Ret (int_of_u64 r) t)"

definition u_getpid :: "'a machine_scheme \<Rightarrow> (int, 'a machine_scheme) outcome" where
  "u_getpid s = bind_out (syscall0 SYS_getpid s) (\<lambda>r t. Ret (int_of_u64 r) t)"

definition u_yield :: "'a machine_scheme \<Rightarrow> (unit, 'a machine_scheme) outcome" where
  "u_yield s = bind_out (syscall0 SYS_yield s) (\<lambda>_ t. Ret () t)"

definition u_sleep :: "int \<Rightarrow> 'a machine_scheme \<Rightarrow> (unit, 'a machine_scheme) outcome" where
  "u_sleep ticks s = bind_out (syscall1 SYS_sleep (u64_of_int ticks) s) (\<lambda>_ t. Ret () t)"

definition u_write :: "int \<Rightarrow> u64 \<Rightarrow> int \<Rightarrow> 'a machine_scheme \<Rightarrow> (int, 'a machine_scheme) outcome" where
  "u_write fd buf n s =
     bind_out (syscall3 SYS_write (u64_of_int fd) buf (u64_of_int n) s) (\<lambda>r t. Ret (int_of_u64 r) t)"

definition u_read :: "int \<Rightarrow> u64 \<Rightarrow> int \<Rightarrow> 'a machine_scheme \<Rightarrow> (int, 'a machine_scheme) outcome" where
  "u_read fd buf n s =
     bind_out (syscall3 SYS_read (u64_of_int fd) buf (u64_of_int n) s) (\<lambda>r t. Ret (int_of_u64 r) t)"

definition STDOUT_FILENO :: int where "STDOUT_FILENO = 1"

definition u_putchar :: "u64 \<Rightarrow> char \<Rightarrow> 'a machine_scheme \<Rightarrow> (unit, 'a machine_scheme) outcome" where
  "u_putchar loc c s =
     bind_out (u_write STDOUT_FILENO loc 1 (s\<lparr>ram := (ram s)(loc := of_char c)\<rparr>)) (\<lambda>_ t. Ret () t)"

text \<open>The characters of a text one after the other, as \<open>u_puts\<close> and \<open>u_printf\<close> print them.\<close>

fun put_text :: "u64 \<Rightarrow> string \<Rightarrow> 'a machine_scheme \<Rightarrow> (unit, 'a machine_scheme) outcome" where
  "put_text loc [] s = Ret () s"
| "put_text loc (c # cs) s = bind_out (u_putchar loc c s) (\<lambda>_ t. put_text loc cs t)"

definition u_print :: "u64 \<Rightarrow> (nat \<Rightarrow> u64) \<Rightarrow> string \<Rightarrow> 'a machine_scheme \<Rightarrow> (unit, 'a machine_scheme) outcome" where
  "u_print loc args fmt s =
     (case u_printf fmt 0 args (\<lambda>_. []) of None \<Rightarrow> Stop OutOfBounds s | Some t \<Rightarrow> put_text loc t s)"

subsection \<open>What a call changes\<close>

text \<open>Between two states of one process that makes calls: the processes and pages are the same, and
  \<open>out\<close> has gone out to the serial port.\<close>

definition ran :: "nat \<Rightarrow> string \<Rightarrow> 'a machine_scheme \<Rightarrow> 'a machine_scheme \<Rightarrow> bool" where
  "ran p out s t \<longleftrightarrow> proc_table t = proc_table s \<and> current_process t = current_process s \<and>
     phys_bitmap t = phys_bitmap s \<and> free_pages_count t = free_pages_count s \<and>
     paging_active t = paging_active s \<and> next_pid t = next_pid s \<and>
     tx (dev t) = tx (dev s) @ out \<and> live_tx (dev t)"

lemma ran_trans: "ran p x s t \<Longrightarrow> ran p y t u \<Longrightarrow> ran p (x @ y) s u"
  by (simp add: ran_def)

lemma ran_caller: "ran p x s t \<Longrightarrow> caller s p \<Longrightarrow> caller t p"
  by (simp add: ran_def caller_def)

lemma ran_refl: "live_tx (dev s) \<Longrightarrow> ran p [] s s"
  by (simp add: ran_def)

lemma ran_live: "ran p x s t \<Longrightarrow> live_tx (dev t)"
  by (simp add: ran_def)

lemma ran_inv:
  assumes "ran p x s t"
  shows "procs_inv t = procs_inv s" "live t = live s" "avail_pages t = avail_pages s"
    "is_zombie_child t = is_zombie_child s" "pid (proc_at t q) = pid (proc_at s q)" "next_pid t = next_pid s"
proof -
  have e: "proc_table t = proc_table s" "phys_bitmap t = phys_bitmap s"
    "free_pages_count t = free_pages_count s" "paging_active t = paging_active s" "next_pid t = next_pid s"
    "current_process t = current_process s"
    using assms by (simp_all add: ran_def)
  show "procs_inv t = procs_inv s" "live t = live s" using procs_inv_cong(1,4) [OF e(1-5)] by simp_all
  show "avail_pages t = avail_pages s" by (rule physmem_cong(2) [OF e(2,3)])
  show "is_zombie_child t = is_zombie_child s" "pid (proc_at t q) = pid (proc_at s q)" "next_pid t = next_pid s"
    using e by (simp_all add: is_zombie_child_def fun_eq_iff)
qed

text \<open>The state in which the dispatcher runs: the registers loaded, the trap taken.\<close>

definition trapped :: "(trapframe \<Rightarrow> trapframe) \<Rightarrow> 'a machine_scheme \<Rightarrow> 'a machine_scheme" where
  "trapped f s = (load_regs f s)\<lparr>scause := SCAUSE_ECALL_USER, sepc := sepc s + 4\<rparr>"

lemma trapped_facts:
  assumes "caller s p" "live_tx (dev s)"
  shows "ran p [] s (trapped f s)" "caller (trapped f s) p" "regs (trapped f s) p = f (regs s p)"
    "ram (trapped f s) = ram s" "dev (trapped f s) = dev s"
  using assms by (simp_all add: trapped_def load_regs_def ran_def caller_def Let_def)

lemma ecall_load:
  assumes "caller s p"
  shows "ecall (load_regs f s) = bind_out (syscall (trapped f s)) (\<lambda>_ t. Ret (reg_a0 t) t)"
proof -
  have "sepc (load_regs f s) = sepc s" using assms by (simp add: load_regs_def caller_def Let_def)
  then show ?thesis
    by (simp add: ecall_def kerneltrap_def trapped_def SCAUSE_ECALL_USER_def SCAUSE_INTERRUPT_BIT_def)
qed

text \<open>A call whose handler returns.\<close>

lemma ecall_ret:
  assumes "caller s p" "live_tx (dev s)"
    and h: "syscall_table (int_of_u64 (tf_a7 (f (regs s p)))) = Some h" "h (trapped f s) = Ret r t"
    and "caller t p"
  shows "ecall (load_regs f s) = Ret (u64_of_int r) (set_a0 p (u64_of_int r) t)"
proof -
  note T = trapped_facts [OF assms(1,2), of f]
  have "syscall (trapped f s) = Ret () (set_a0 p (u64_of_int r) t)"
    using syscall_runs [OF T(2), of h] h T(3) by simp
  moreover have "reg_a0 (set_a0 p (u64_of_int r) t) = u64_of_int r"
    using assms(5) by (simp add: reg_a0_def caller_def)
  ultimately show ?thesis using ecall_load [OF assms(1), of f] by simp
qed

lemma ecall_stop:
  assumes "caller s p" "live_tx (dev s)"
    and h: "syscall_table (int_of_u64 (tf_a7 (f (regs s p)))) = Some h" "h (trapped f s) = Stop r t"
  shows "ecall (load_regs f s) = Stop r t"
  using ecall_load [OF assms(1), of f] syscall_runs [OF trapped_facts(2) [OF assms(1,2), of f], of h] h
    trapped_facts(3) [OF assms(1,2), of f] by simp

lemma ran_set_a0: "ran p x s t \<Longrightarrow> ran p x s (set_a0 q v t)"
  by (simp add: ran_def set_a0_def Let_def)

lemmas table_entries = syscall_table_def syscall_numbers

subsection \<open>Calls that return\<close>

lemma u_getpid_spec:
  assumes "caller s p" "live_tx (dev s)" "is_int (pid (proc_at s p))"
  shows "\<exists>t. u_getpid s = Ret (pid (proc_at s p)) t \<and> ran p [] s t"
proof -
  let ?f = "\<lambda>r. r\<lparr>tf_a7 := u64_of_int SYS_getpid\<rparr>"
  note T = trapped_facts [OF assms(1,2), of ?f]
  have "pid (proc_at (trapped ?f s) p) = pid (proc_at s p)" by (rule ran_inv(5) [OF T(1)])
  then have "sys_getpid (trapped ?f s) = Ret (pid (proc_at s p)) (trapped ?f s)"
    using T(2) by (simp add: sys_getpid_def caller_def)
  from ecall_ret [where f = ?f and h = sys_getpid, OF assms(1,2) _ this T(2)] ran_set_a0 [OF T(1)] show ?thesis
    using assms(3) by (simp add: u_getpid_def syscall0_def table_entries is_int_def)
qed

lemma u_wait_none:
  assumes "caller s p" "live_tx (dev s)" "\<And>i. i < NPROC \<Longrightarrow> \<not> is_zombie_child s i"
  shows "\<exists>t. u_wait s = Ret (- 1) t \<and> ran p [] s t"
proof -
  let ?f = "\<lambda>r. r\<lparr>tf_a7 := u64_of_int SYS_wait\<rparr>"
  note T = trapped_facts [OF assms(1,2), of ?f]
  have "scan_from (is_zombie_child (trapped ?f s)) 0 NPROC = None"
    using assms(3) unfolding ran_inv(4) [OF T(1)] by (simp add: scan_from_None_iff)
  then have "sys_wait (trapped ?f s) = Ret (- 1) (trapped ?f s)" by (simp add: sys_wait_def wait_def)
  from ecall_ret [where f = ?f and h = sys_wait, OF assms(1,2) _ this T(2)] ran_set_a0 [OF T(1)] show ?thesis
    by (simp add: u_wait_def syscall0_def table_entries is_int_def)
qed

lemma u_write_spec:
  assumes "caller s p" "live_tx (dev s)" "fd = 1 \<or> fd = 2" "buf \<noteq> 0" "0 < n" "n \<le> int_max"
  shows "\<exists>t. u_write fd buf n s = Ret n t \<and> ran p (written_bytes s buf (nat n)) s t"
proof -
  let ?f = "\<lambda>r. r\<lparr>tf_a0 := u64_of_int fd, tf_a1 := buf, tf_a2 := u64_of_int n, tf_a7 := u64_of_int SYS_write\<rparr>"
  note T = trapped_facts [OF assms(1,2), of ?f]
  let ?s = "trapped ?f s" and ?w = "written_bytes s buf (nat n)"
  have i: "is_int n" "is_int fd" using assms(3,5,6) by (auto simp: is_int_def)
  have a: "argint 0 ?s = fd" "arguint 1 ?s = buf" "argint 2 ?s = n"
    using caller_args [OF T(2)] T(3) i by simp_all
  obtain u where u: "send_text ?w ?s = Ret () (?s\<lparr>dev := u\<rparr>)" "tx u = tx (dev s) @ ?w" "live_tx u"
    using send_text_live [of ?s ?w] assms(2) T(5) by auto
  have "map (\<lambda>i. char_of_u8 (ram ?s (buf + of_nat i))) [0..<nat n] = ?w" by (simp add: T(4) written_bytes_def)
  then have h: "sys_write ?s = Ret n (?s\<lparr>dev := u\<rparr>)"
    using assms(3-5) u(1) by (auto simp: sys_write_def a Let_def)
  have c: "caller (?s\<lparr>dev := u\<rparr>) p" using T(2) by (simp add: caller_def)
  have "ran p ?w s (?s\<lparr>dev := u\<rparr>)" using T(1) u by (simp add: ran_def)
  from ecall_ret [where f = ?f and h = sys_write, OF assms(1,2) _ h c] ran_set_a0 [OF this] show ?thesis
    using i by (simp add: u_write_def syscall3_def table_entries is_int_def)
qed

lemma char_of_u8_of_char [simp]: "char_of_u8 (of_char c) = c"
proof -
  have "unat (of_char c :: u8) = unat (of_nat (of_char c) :: u8)" by (simp only: of_nat_of_char)
  also have "\<dots> = of_char c" by (simp only: unat_of_nat) simp
  finally show ?thesis by (simp add: char_of_u8_def)
qed

lemma u_putchar_spec:
  assumes "caller s p" "live_tx (dev s)" "loc \<noteq> 0"
  shows "\<exists>t. u_putchar loc c s = Ret () t \<and> ran p [c] s t"
proof -
  let ?s = "s\<lparr>ram := (ram s)(loc := of_char c)\<rparr>"
  have c: "caller ?s p" "live_tx (dev ?s)" using assms by (simp_all add: caller_def)
  have w: "written_bytes ?s loc (nat 1) = [c]"
    by (simp add: written_bytes_def char_of_u8_of_char upt_rec)
  obtain t where "u_write 1 loc 1 ?s = Ret 1 t" "ran p [c] ?s t"
    using u_write_spec [OF c, of 1 loc 1] assms(3) w by auto
  then show ?thesis by (intro exI [of _ t]) (simp add: u_putchar_def STDOUT_FILENO_def ran_def)
qed

lemma put_text_spec:
  "caller s p \<Longrightarrow> live_tx (dev s) \<Longrightarrow> loc \<noteq> 0 \<Longrightarrow> \<exists>t. put_text loc out s = Ret () t \<and> ran p out s t"
proof (induction out arbitrary: s)
  case Nil
  then show ?case by (simp add: ran_refl)
next
  case (Cons c out)
  obtain t where t: "u_putchar loc c s = Ret () t" "ran p [c] s t" using u_putchar_spec [OF Cons.prems] by blast
  obtain u where "put_text loc out t = Ret () u" "ran p out t u"
    using Cons.IH [OF ran_caller [OF t(2) Cons.prems(1)] ran_live [OF t(2)] Cons.prems(3)] by blast
  then show ?case using t ran_trans [OF t(2)] by (intro exI [of _ u]) fastforce
qed

lemma u_print_spec:
  assumes "caller s p" "live_tx (dev s)" "loc \<noteq> 0" "u_printf fmt 0 args (\<lambda>_. []) = Some out"
  shows "\<exists>t. u_print loc args fmt s = Ret () t \<and> ran p out s t"
  using put_text_spec [OF assms(1-3), of out] assms(4) by (simp add: u_print_def)

subsection \<open>Calls that do not come back\<close>

lemma u_yield_stops:
  assumes "caller s p" "live_tx (dev s)"
  shows "\<exists>t. u_yield s = Stop Rescheduled t \<and> tx (dev t) = tx (dev s) \<and> live t = live s \<and>
    current_process t = Some p \<and> (\<forall>q. q \<noteq> p \<longrightarrow> proc_at t q = proc_at s q)"
proof -
  let ?f = "\<lambda>r. r\<lparr>tf_a7 := u64_of_int SYS_yield\<rparr>"
  note T = trapped_facts [OF assms, of ?f]
  let ?s = "trapped ?f s"
  obtain t where t: "yield ?s = Stop Rescheduled t" "dev t = dev ?s" "live t = live ?s" "current_process t = Some p"
    "\<forall>q. q \<noteq> p \<longrightarrow> proc_at t q = proc_at ?s q"
    using T(2) by (auto simp: yield_def caller_def live_def upd_proc_def fun_eq_iff nth_list_update)
  have "sys_yield ?s = Stop Rescheduled t" by (simp add: sys_yield_def t(1))
  from ecall_stop [where f = ?f and h = sys_yield, OF assms _ this] have "u_yield s = Stop Rescheduled t"
    by (simp add: u_yield_def syscall0_def table_entries is_int_def)
  then show ?thesis using t T(1,5) ran_inv(2) [OF T(1)] by (simp add: ran_def)
qed

lemma u_exit_stops:
  assumes "caller s p" "live_tx (dev s)" "is_int code"
  shows "\<exists>t. u_exit code s = Stop Halted t \<and> tx (dev t) = tx (dev s) \<and>
    state (proc_at t p) = PROC_ZOMBIE \<and> exit_code (proc_at t p) = code"
proof -
  let ?f = "\<lambda>r. r\<lparr>tf_a0 := u64_of_int code, tf_a7 := u64_of_int SYS_exit\<rparr>"
  note T = trapped_facts [OF assms(1,2), of ?f]
  let ?s = "trapped ?f s"
  have a: "argint 0 ?s = code" using caller_args [OF T(2)] T(3) assms(3) by simp
  have "\<exists>t. exit code ?s = Stop Halted t \<and> dev t = dev ?s \<and> state (proc_at t p) = PROC_ZOMBIE \<and>
    exit_code (proc_at t p) = code"
    using T(2) by (simp add: exit_def caller_def wakeup_def upd_proc_def Let_def split: option.split)
  then obtain t where t: "exit code ?s = Stop Halted t" "dev t = dev ?s" "state (proc_at t p) = PROC_ZOMBIE"
    "exit_code (proc_at t p) = code" by blast
  have "sys_exit ?s = Stop Halted t" by (simp add: sys_exit_def a t(1))
  from ecall_stop [where f = ?f and h = sys_exit, OF assms(1,2) _ this] have "u_exit code s = Stop Halted t"
    by (simp add: u_exit_def syscall1_def table_entries is_int_def)
  then show ?thesis using t T(5) by simp
qed

end
