(* ===== verification/Init_Program.thy ===== *)
theory Init_Program
  imports User_Calls Loops
begin

text \<open>
  \<open>user/init.c\<close>, the first user program, over its system calls. \<open>va as\<close> are the words that
  \<open>u_printf\<close> finds behind its first parameter when it is called with the arguments \<open>as\<close>; \<open>loc\<close> is the
  address of the parameter of \<open>u_putchar\<close>.
\<close>

abbreviation newline :: string where "newline \<equiv> [CHR 0x0A]"
abbreviation e_acute :: string where "e_acute \<equiv> [CHR 0xC3, CHR 0xA9]"

definition banner :: string where
  "banner = ''init: Lithium Kernel '' @ [CHR 0xE2, CHR 0x80, CHR 0x94] @ '' premier processus utilisateur'' @ newline"

text \<open>The child.\<close>

definition init_child :: "u64 \<Rightarrow> (int list \<Rightarrow> nat \<Rightarrow> u64) \<Rightarrow> 'a machine_scheme \<Rightarrow> (unit, 'a machine_scheme) outcome" where
  "init_child loc va s =
     bind_out (u_getpid s) (\<lambda>me s1.
     bind_out (u_print loc (va [me]) (''init: fils PID=%d d'' @ e_acute @ ''marr'' @ e_acute @ newline) s1) (\<lambda>_ s2.
     bind_out (u_sleep 5 s2) (\<lambda>_ s3.
     bind_out (u_getpid s3) (\<lambda>me' s4.
     bind_out (u_print loc (va [me']) (''init: fils PID=%d termin'' @ e_acute @ newline) s4) (\<lambda>_ s5.
     u_exit 0 s5)))))"

text \<open>One round of the loop of the parent.\<close>

definition init_round :: "u64 \<Rightarrow> (int list \<Rightarrow> nat \<Rightarrow> u64) \<Rightarrow> 'a machine_scheme \<Rightarrow> (unit + unit, 'a machine_scheme) outcome" where
  "init_round loc va s =
     bind_out (u_wait s) (\<lambda>child s1.
     bind_out
       (if child > 0 then u_print loc (va [child]) (''init: fils PID=%d recueilli'' @ newline) s1
        else u_yield s1)
       (\<lambda>_ s2. Ret (Inl ()) s2))"

definition init_start :: "u64 \<Rightarrow> (int list \<Rightarrow> nat \<Rightarrow> u64) \<Rightarrow> 'a machine_scheme \<Rightarrow> (unit, 'a machine_scheme) outcome" where
  "init_start loc va s =
     bind_out (u_print loc (va []) banner s) (\<lambda>_ s1.
     bind_out (u_getpid s1) (\<lambda>me s2.
     bind_out (u_print loc (va [me]) (''init: PID = %d'' @ newline) s2) (\<lambda>_ s3.
     bind_out (u_fork s3) (\<lambda>child s4.
       if child = 0 then init_child loc va s4
       else if child > 0 then loop_out (\<lambda>_. init_round loc va) () s4
       else
         bind_out (u_print loc (va []) (''init: fork() a '' @ e_acute @ ''chou'' @ e_acute @ newline) s4) (\<lambda>_ s5.
         u_exit 1 s5)))))"

subsection \<open>\<open>fork\<close> leaves the devices alone\<close>

lemma page_ops_more:
  fixes s :: "'a procs_scheme"
  shows "physmem_alloc_page s = (p, t) \<Longrightarrow> procs.more t = procs.more s"
    "create_page_table s = (p, t) \<Longrightarrow> procs.more t = procs.more s"
    "procs.more (free_physical_page q s) = procs.more s" "procs.more (free_page_table q s) = procs.more s"
proof -
  show a: "physmem_alloc_page s = (p, t) \<Longrightarrow> procs.more t = procs.more s" for p and s t :: "'a procs_scheme"
    by (auto simp: physmem_alloc_page_def mark_page_allocated_def Let_def split: option.splits)
  show "create_page_table s = (p, t) \<Longrightarrow> procs.more t = procs.more s"
    by (auto simp: create_page_table_def clear_table_def Let_def dest: a split: prod.splits if_splits)
  show f: "procs.more (free_physical_page q s) = procs.more s" for q and s :: "'a procs_scheme"
    by (simp add: free_physical_page_def mark_page_free_def Let_def)
  show "procs.more (free_page_table q s) = procs.more s" by (simp add: free_page_table_def f)
qed

lemma proc_ops_more:
  fixes s :: "'a procs_scheme"
  shows "procs.more (upd_proc i f s) = procs.more s" "procs.more (fork_trapframe c p s) = procs.more s"
    "alloc_proc s = (r, t) \<Longrightarrow> procs.more t = procs.more s" "procs.more (free_proc q s) = procs.more s"
proof -
  show u: "procs.more (upd_proc i f s) = procs.more s" for i f and s :: "'a procs_scheme" by (simp add: upd_proc_def)
  show "procs.more (fork_trapframe c p s) = procs.more s"
    by (simp add: fork_trapframe_def copy_trapframe_def Let_def)
  show "alloc_proc s = (r, t) \<Longrightarrow> procs.more t = procs.more s"
    by (auto simp: alloc_proc_def u split: option.splits)
  show "procs.more (free_proc q s) = procs.more s"
    by (simp add: free_proc_def free_trapframe_of_def free_kstack_of_def free_pagetable_of_def u page_ops_more
        split: option.split)
qed

lemma fork_more: "procs.more (snd (fork s)) = procs.more s"
proof -
  have "fork s = (r, t) \<Longrightarrow> procs.more t = procs.more s" for r t
    by (auto simp: fork_def Let_def proc_ops_more(1,2,4) dest!: page_ops_more(1,2) proc_ops_more(3)
        split: option.splits prod.splits if_splits)
  then show ?thesis by (cases "fork s") simp
qed

lemma fork_dev:
  fixes s :: "'a machine_scheme"
  assumes "fork s = (r, t)"
  shows "dev t = dev s" "ram t = ram s"
  using fork_more [of s] assms by (cases s; cases t; simp)+

subsection \<open>The run of the program\<close>

lemma u_fork_spec:
  assumes c: "caller s p" and d: "live_tx (dev s)" and inv: "procs_inv s" and lv: "live s p"
    and n: "is_int (next_pid s)"
  shows "if (\<exists>i < NPROC. \<not> live s i) \<and> 3 \<le> card (avail_pages s)
    then \<exists>c t. u_fork s = Ret (next_pid s) t \<and> caller t p \<and> dev t = dev s \<and> c \<noteq> p \<and> live t = (live s)(c := True) \<and>
      (\<forall>j. j \<noteq> c \<longrightarrow> proc_at t j = proc_at s j) \<and> state (proc_at t c) = PROC_RUNNABLE \<and>
      parent (proc_at t c) = Some p \<and> pid (proc_at t c) = next_pid s
    else \<exists>t. u_fork s = Ret (- 1) t \<and> caller t p \<and> dev t = dev s \<and> live t = live s"
proof -
  let ?f = "\<lambda>r. r\<lparr>tf_a7 := u64_of_int SYS_fork\<rparr>"
  let ?s = "trapped ?f s"
  note T = trapped_facts [OF c d, of ?f] and R = ran_inv [OF trapped_facts(1) [OF c d, of ?f]]
  have cur: "current_process ?s = Some p" using T(2) by (simp add: caller_def)
  have e: "procs_inv ?s" "live ?s p" using inv lv by (simp_all add: R(1,2))
  have pt: "proc_at ?s j = proc_at s j" for j using T(1) by (simp add: ran_def)
  obtain r u where f: "fork ?s = (r, u)" by (cases "fork ?s")
  note F = fork_spec [OF e(1) cur e(2) f, unfolded R(2,3,6)]
  have du: "dev u = dev s" using fork_dev(1) [OF f] T(5) by simp
  have h: "sys_fork ?s = Ret r u" by (simp add: sys_fork_def f)
  have run: "u_fork s = Ret r (set_a0 p (u64_of_int r) u)" if "caller u p" "is_int r"
    using ecall_ret [where f = ?f and h = sys_fork, OF c d _ h that(1)] that(2)
    by (simp add: u_fork_def syscall0_def table_entries is_int_def)
  have sa: "live (set_a0 p v u) = live u" "caller (set_a0 p v u) p = caller u p" for v
    by (simp_all add: live_def caller_def fun_eq_iff)
  have len: "p < NPROC" using lv by (simp add: live_def)
  show ?thesis
  proof (cases "(\<exists>i < NPROC. \<not> live s i) \<and> 3 \<le> card (avail_pages s)")
    case True
    then obtain k where k: "r = next_pid s" "forked p k ?s u" using F by auto
    then have K: "k \<noteq> p" "live u = (live s)(k := True)" "\<forall>j. j \<noteq> k \<longrightarrow> proc_at u j = proc_at s j"
      "state (proc_at u k) = PROC_RUNNABLE" "parent (proc_at u k) = Some p" "pid (proc_at u k) = next_pid s"
      "current_process u = Some p" "procs_inv u"
      using lv cur unfolding forked_def R(2,6) pt by auto
    have "caller u p" using K(1,3,7) procs_invD(1) [OF K(8)] len c by (simp add: caller_def)
    from run [OF this] show ?thesis
      unfolding if_P [OF True] using K k(1) n du sa \<open>caller u p\<close>
      by (intro exI [of _ k] exI [of _ "set_a0 p (u64_of_int r) u"]) simp
  next
    case False
    then have k: "r = - 1" "fork_failed ?s u" using F by auto
    then have K: "live u = live s" "proc_at u p = proc_at s p" "current_process u = Some p" "procs_inv u"
      using lv cur unfolding fork_failed_def R(2,6) pt by auto
    have "caller u p" using K(2,3) procs_invD(1) [OF K(4)] len c by (simp add: caller_def)
    from run [OF this] show ?thesis
      unfolding if_not_P [OF False] using K k(1) du sa \<open>caller u p\<close>
      by (intro exI [of _ "set_a0 p (u64_of_int r) u"]) (simp add: is_int_def)
  qed
qed

lemma u_printf_literal: "CHR ''%'' \<notin> set t \<Longrightarrow> u_printf t k args str_at = Some t"
  by (induction t) auto

definition pid_text :: "(int list \<Rightarrow> nat \<Rightarrow> u64) \<Rightarrow> int \<Rightarrow> string" where
  "pid_text va n = decimal_text (int_of_u64 (va [n] 0))"

lemma u_printf_pid:
  assumes "int_of_u64 (va [n] 0) \<noteq> int_min"
  shows "u_printf (''init: PID = %d'' @ newline) 0 (va [n]) str_at = Some (''init: PID = '' @ pid_text va n @ newline)"
  using u_itoa_text [OF assms] by (simp add: pid_text_def)

lemma parent_waits:
  assumes c: "caller s p" and d: "live_tx (dev s)" and z: "\<And>i. i < NPROC \<Longrightarrow> \<not> is_zombie_child s i"
  shows "\<exists>t. loop_out (\<lambda>_. init_round loc va) () s = Stop Rescheduled t \<and> tx (dev t) = tx (dev s) \<and>
    live t = live s \<and> current_process t = Some p \<and> (\<forall>q. q \<noteq> p \<longrightarrow> proc_at t q = proc_at s q)"
proof -
  obtain t where t: "u_wait s = Ret (- 1) t" "ran p [] s t" using u_wait_none [OF c d z] by blast
  obtain u where u: "u_yield t = Stop Rescheduled u" "tx (dev u) = tx (dev t)" "live u = live t"
    "current_process u = Some p" "\<forall>q. q \<noteq> p \<longrightarrow> proc_at u q = proc_at t q"
    using u_yield_stops [OF ran_caller [OF t(2) c] ran_live [OF t(2)]] by blast
  have "init_round loc va s = Stop Rescheduled u" by (simp add: init_round_def t(1) u(1))
  from loop_out_stop [of "\<lambda>_. init_round loc va", OF this] show ?thesis
    using t(2) u(2-5) ran_inv(2) [OF t(2)] by (intro exI [of _ u]) (simp add: ran_def)
qed



end
