(* ===== verification/Spec2Isabelle.thy ===== *)
theory Spec2Isabelle
  imports Boot_Tables Spinlock_Harts Scheduler Kpanic File_Props Ulibc Trap_Props Virtio_Init Block_Invariant File_Roundtrip Debug_Macros Elf_Headers Kernel_Main Init_Program
begin

text \<open>
  This library models the Lithium kernel, a teaching kernel for one RISC-V machine (QEMU virt, Sv39,
  one hart at boot), as functions and step relations, and proves what its parts promise. Every
  definition is translated from a C function, type or constant under \<open>src/\<close>, with its name.

  \<^bold>\<open>How the program is put together.\<close> \<open>kernel_main\<close> sets up the page allocator, the kernel page table
  and the process table, forks once and enters the scheduler. A process enters the kernel through
  \<open>kerneltrap\<close>, which dispatches interrupts to the serial port, the disk and the scheduler, and
  system calls to \<open>syscall\<close>. The file system is a stack: the disk driver moves one block, the
  buffer cache shares the blocks, the log makes groups of writes atomic, inodes are files over
  blocks, open files are references to inodes or pipes. Every layer calls the one below only
  through its operations. All sharing is protected by spin locks and sleep locks.

  \<^bold>\<open>How the model is put together.\<close> The state of a layer is a record that extends the record of the
  layer below, in the order of the calls: \<open>physmem\<close> (bitmap of pages), \<open>vm\<close> (page tables),
  \<open>spins\<close> (locks and interrupt flag), \<open>procs\<close> (processes); above it \<open>disks\<close> (sleep locks,
  buffers, queue of the device and medium), the log, the inode cache, \<open>files\<close> (pipes and
  open files) on one side, and \<open>machine\<close> (serial port, memory, trap registers, interrupt controller) on
  the other. An operation takes the state and returns its value with the new state. A C pointer
  into a fixed table is an index, NULL is \<open>None\<close>; a pointer into a page is an address. A call
  that may not come back is an \<open>outcome\<close>: \<open>Ret\<close> with its value, or \<open>Stop\<close> with the reason (a
  spin that nobody can end, the scheduler taking over, a halt, an access behind an array).
  Unsigned C integers are words of their width. A signed \<open>int\<close> whose overflow C leaves undefined is
  an \<open>int\<close> with the range as a condition or as the value \<open>None\<close>.

  \<^bold>\<open>Theories and sources\<close> (paths below \<open>src/\<close>).

  \<^item> \<open>Prelude\<close>: \<open>include/kernel/types.h\<close>; results of calls, scans of tables, automation.
    \<open>Loops\<close>: loops of kernel calls. \<open>Numerals\<close>: strings of digits.
  \<^item> \<open>Page_Allocator\<close> (locale \<open>page_allocator\<close>) and \<open>Physmem\<close>: \<open>kernel/mem/physmem.c\<close>,
    \<open>include/kernel/mem/layout.h\<close>. The bitmap refines a set of free pages; allocation is lowest
    first; no run of allocations and frees hands a page out twice.
  \<^item> \<open>Paging\<close>, \<open>Page_Trees\<close>, \<open>Address_Spaces\<close>, \<open>Boot_Tables\<close>: \<open>kernel/mem/paging.c\<close>,
    \<open>include/kernel/mem/virtual_memory.h\<close>. A table is a tree of pages that belong to it alone
    (\<open>page_tree\<close>); the walk, mapping and unmapping as updates of a partial function from addresses to
    frames; the table that \<open>paging_init\<close> builds.
  \<^item> \<open>Spinlock\<close>, \<open>Spinlock_Harts\<close>: \<open>kernel/mem/spinlock.c\<close>, \<open>include/riscv/intrinsics.h\<close>;
    first as one hart runs it, then as an inductive step relation of any number of harts with mutual
    exclusion as its invariant. The runs of the second contain the calls of the first.
  \<^item> \<open>Slot_Table\<close> (locale \<open>slot_table\<close>, for processes and open files), \<open>Process\<close>,
    \<open>Control\<close>, \<open>Process_Inv\<close>, \<open>Process_Life\<close>, \<open>Process_Boot\<close>, \<open>Process_Props\<close>:
    \<open>kernel/proc/process.c\<close>, \<open>control.c\<close>. Ownership of pages and uniqueness of pids
    (\<open>procs_inv\<close>) are kept by every operation; \<open>fork\<close>, \<open>exit\<close>, \<open>wait\<close> on every branch.
  \<^item> \<open>Scheduler\<close>: \<open>kernel/proc/scheduler.c\<close>, \<open>switch_context.S\<close>; round robin, fairness, the round trip
    of a switch.
  \<^item> \<open>Kernel_Main\<close>: \<open>kernel/main.c\<close>; from the zeroed static data to the entry of the scheduler, or the halt of a \<open>PANIC_TEST\<close> build.
  \<^item> \<open>Uart\<close>, \<open>Console\<close>, \<open>Printk\<close>, \<open>Kpanic\<close>, \<open>Debug_Macros\<close>: \<open>kernel/io/uart.c\<close>,
    \<open>console.c\<close>, \<open>printk.c\<close>, \<open>kpanic.c\<close>, \<open>include/kernel/io/debug.h\<close>, \<open>kernel/panic_test.c\<close>; both formatters against the digits of \<open>Numerals\<close>, and
    against each other.
  \<^item> \<open>CString\<close>: \<open>kernel/string.c\<close>, the memory functions with overlap and wrap-around.
  \<^item> \<open>Disk_State\<close>, \<open>Sleeplock\<close>, \<open>Virtio\<close>, \<open>Virtio_Props\<close>, \<open>Virtio_Init\<close>: \<open>kernel/fs/sleeplock.c\<close>,
    \<open>virtio_disk.c\<close>, \<open>include/kernel/fs/virtio_defs.h\<close>; a request moves one block.
  \<^item> \<open>Linked_Buffers\<close>, \<open>Buffer_Cache\<close>, \<open>Cache_Props\<close>, \<open>Block_Specs\<close>, \<open>Cache_Boot\<close>, \<open>Disk_Props\<close>,
    \<open>Block_Invariant\<close>: \<open>kernel/fs/buffer.c\<close>, \<open>block.c\<close>. The pointers of the list refine a list of buffers; the
    cache refines what a reader sees of each block (\<open>view\<close>), the references and dirty marks;
    runs of a client (\<open>block_run\<close>) keep the cache well-formed.
  \<^item> \<open>Log\<close>, \<open>Log_Steps\<close>, \<open>Log_Commit\<close>, \<open>Log_Recovery\<close>, \<open>Log_Crash\<close>, \<open>Log_Props\<close>: \<open>kernel/fs/log.c\<close>.
    A commit is a sequence of block writes; a crash keeps a prefix of it, and recovery makes it all
    or nothing.
  \<^item> \<open>Inode\<close>, \<open>Inode_Specs\<close>, \<open>Inode_Props\<close>, \<open>Inode_Ops\<close>, \<open>Inode_Files\<close>, \<open>Inode_Write\<close>:
    \<open>kernel/fs/inode.c\<close>; one slot per inode, the bytes of a file across its blocks, the encoding of an inode on
    the disk, and what a write inside a transaction changes.
  \<^item> \<open>Byte_Queue\<close> (locale \<open>byte_queue\<close>), \<open>Pipe\<close>, \<open>Pipe_Props\<close>, \<open>File\<close>, \<open>File_Props\<close>:
    \<open>kernel/fs/pipe.c\<close>, \<open>file.c\<close>, \<open>file_system.c\<close>. The ring buffer refines a bounded queue.
  \<^item> \<open>File_Writes\<close>, \<open>File_Durable\<close>, \<open>File_Roundtrip\<close>: all layers together. A turn of \<open>file_write\<close> is a transaction that fits
    the log and is on the disk when the turn is over (\<open>turns_done\<close>); a call of any length is durable, leaves a prefix of
    whole transactions after a crash and a reboot, and is read back through another open file.
  \<^item> \<open>Syscall\<close>, \<open>Trap\<close>, \<open>Trap_Props\<close>: \<open>kernel/sys/syscall.c\<close>, \<open>kernel/trap/trap.c\<close>, \<open>plic.c\<close>;
    what a trap does to the registers of the process, the devices and the scheduler.
  \<^item> \<open>Elf_Headers\<close>: \<open>include/kernel/proc/elf.h\<close>, structures that no function uses.
  \<^item> \<open>Ulibc\<close>: \<open>user/ulibc/ulibc.c\<close>.
  \<^item> \<open>User_Calls\<close>, \<open>Init_Program\<close>: \<open>include/user/syscall.h\<close> and \<open>user/init.c\<close> on top of the kernel: the
    registers of a user program are its trapframe, and \<open>ecall\<close> is a trap with cause 8.

  \<^bold>\<open>Parameters.\<close> The linker chooses \<open>kernel_end\<close>, the address of \<open>kerneltrap\<close> and those of the disk queue.
  The line status register of the serial port and the claim register of the interrupt controller
  are functions of the number of reads. The disk is \<open>serve\<close>, with \<open>obeys_virtio\<close> as the hypothesis: it
  does with a submitted request what the VirtIO specification says, and raises its interrupt.
  Operations that may sleep take the behaviour of \<open>sleep\<close> as the argument \<open>slp\<close>. With
  \<open>kernel_sleep\<close>, the \<open>sleep\<close> of \<open>control.c\<close>, the caller is never resumed, and
  \<open>disk_request_never_returns\<close> says what follows. The correctness of the layers above the
  disk is for a \<open>sleep\<close> that keeps the contract its callers are written for (\<open>served_sleep\<close>: the
  lock is released, the interrupt arrives, the lock is taken again).

  \<^bold>\<open>Bounds and loops.\<close> Loops over fixed tables are recursions over the table. The endless loop of the
  scheduler is one activation of \<open>NPROC\<close> rounds: after these every slot has been looked at, so a
  scheduler that finds nothing in them finds nothing ever. Loops that wait (\<open>loop_out\<close>)
  end, stop, or run for ever, and the last is the value \<open>SpinsForever\<close>; no fuel bounds
  them. \<open>paging_init\<close> needs 134 pages: one root, two of the second level, and one table of the last level
  for each 2 MB it maps, with room for a kernel image of up to 128 MB. The file theorems bound the blocks
  that keep a buffer busy by a set \<open>K\<close> smaller than the cache, because a buffer that was written stays dirty for ever,
  and a file by the 13 blocks of its array.

  \<^bold>\<open>Findings.\<close> Some theorems show that the code does not do what it means to: among
  others \<open>make_pte_not_sv39\<close>, \<open>paging_init_misses_ram\<close>, \<open>contention_hangs\<close>,
  \<open>nested_release_enables_interrupts\<close>, \<open>boot_dispatches_child_to_zero\<close>, \<open>wakeup_can_be_lost\<close>,
  \<open>wakeup_ignores_channel\<close>, \<open>wait_does_not_block\<close>, \<open>disk_request_never_returns\<close>, \<open>reserved_block_dropped\<close> and
  \<open>pipe_read_wrapped\<close>.
  The definitions follow the code in all of them.

  \<^bold>\<open>Not modelled.\<close> \<open>boot/boot.S\<close>, \<open>kernel/entry.S\<close> and the linker scripts set the stack and the privilege
  mode. \<open>exec.c\<close>, \<open>setup.c\<close>, \<open>kmalloc.c\<close>, \<open>operations.c\<close>, \<open>virtual_memory.c\<close>, \<open>debug.c\<close> and \<open>trace.c\<close> are empty.
  Messages on the console are modelled in \<open>Console\<close>, \<open>Printk\<close> and \<open>Kpanic\<close>, and are not part of
  the state of the layers that print them.
\<close>

end
